(* ===== verification/Bee_Prelude.thy ===== *)
theory Bee_Prelude
  imports Main "HOL-Library.Word" "HOL-Library.Monad_Syntax" "HOL-Library.Signed_Division"
begin

text \<open>
  Shared material of the development.
  \<^item> The machine integers of the source: unsigned integers are words of their width, the signed
    \<open>i8\<close> and \<open>i16\<close> of the packed trit encodings are integers whose operations are checked
    against their range. A panic (failed assertion, index out of range, arithmetic overflow in a
    build with overflow checks, \<open>unwrap\<close> of an error) is \<open>None\<close>.
  \<^item> Rust's \<open>Ordering\<close> and the lexicographic comparison of digit sequences.
  \<^item> Positional notation: the value of a little endian digit sequence in a base, its bounds,
    injectivity and order. Both the binary big integers (base \<open>2 ^ 32\<close>) and the ternary ones
    (base \<open>3\<close>) are instances.
\<close>

unbundle bit_operations_syntax

named_theorems panic_simps \<open>unfolding of checked machine arithmetic\<close>
named_theorems pos_simps \<open>values of digit sequences\<close>

section \<open>Machine integers\<close>

type_synonym u8 = "8 word"
type_synonym u16 = "16 word"
type_synonym u32 = "32 word"
type_synonym u64 = "64 word"
type_synonym i8 = int

text \<open>A result of \<open>n\<close>-bit signed arithmetic: the value, or a panic when it overflows.\<close>

definition checked_signed :: "nat \<Rightarrow> int \<Rightarrow> int option" where
  "checked_signed n v = (if - (2 ^ (n - 1)) \<le> v \<and> v < 2 ^ (n - 1) then Some v else None)"

text \<open>The \<open>as u8\<close> and \<open>as i8\<close> casts of a wider or signed integer keep the low eight bits.\<close>

definition as_u8 :: "int \<Rightarrow> nat" where
  "as_u8 v = nat (v mod 256)"

definition as_i8 :: "int \<Rightarrow> i8" where
  "as_i8 v = (v + 128) mod 256 - 128"

lemma checked_signed_Some [panic_simps]:
  "- (2 ^ (n - 1)) \<le> v \<Longrightarrow> v < 2 ^ (n - 1) \<Longrightarrow> checked_signed n v = Some v"
  by (simp add: checked_signed_def)

lemma as_i8_id [simp]: "- 128 \<le> v \<Longrightarrow> v < 128 \<Longrightarrow> as_i8 v = v"
  by (simp add: as_i8_def)

lemma as_u8_id [simp]: "0 \<le> v \<Longrightarrow> v < 256 \<Longrightarrow> as_u8 v = nat v"
  by (simp add: as_u8_def)

text \<open>Rust's \<open>overflowing_add\<close> and \<open>overflowing_sub\<close>: the wrapped result and whether it wrapped.\<close>

definition overflowing_add :: "'a::len word \<Rightarrow> 'a word \<Rightarrow> 'a word \<times> bool" where
  "overflowing_add x y = (x + y, 2 ^ LENGTH('a) \<le> unat x + unat y)"

definition overflowing_sub :: "'a::len word \<Rightarrow> 'a word \<Rightarrow> 'a word \<times> bool" where
  "overflowing_sub x y = (x - y, unat x < unat y)"

lemma unat_less_pow [simp]: "unat (w :: 'a::len word) < 2 ^ LENGTH('a)"
  by (rule unsigned_less)

lemma unat_word_of_nat_small: "n < 2 ^ LENGTH('a) \<Longrightarrow> unat (word_of_nat n :: 'a::len word) = n"
  by (simp add: unat_of_nat take_bit_nat_eq_self unsigned_of_nat)

lemma unat_add_carry:
  fixes x y :: "'a::len word"
  shows "unat (x + y) + 2 ^ LENGTH('a) * of_bool (2 ^ LENGTH('a) \<le> unat x + unat y)
    = unat x + unat y"
proof -
  have "unat x + unat y < 2 * 2 ^ LENGTH('a)"
    using unat_less_pow [of x] unat_less_pow [of y] by linarith
  then show ?thesis
    by (auto simp: unat_word_ariths mod_if split: if_splits)
qed

lemma overflowing_add_value:
  fixes x y :: "'a::len word"
  assumes "overflowing_add x y = (s, c)"
  shows "unat s + 2 ^ LENGTH('a) * of_bool c = unat x + unat y"
  using assms unat_add_carry [of x y] by (auto simp: overflowing_add_def)

lemma unat_not:
  fixes x :: "'a::len word"
  shows "unat (NOT x) + unat x = 2 ^ LENGTH('a) - 1"
proof -
  have "NOT x = - x - 1"
    by (simp add: not_eq_complement)
  then have "NOT x + x = - 1"
    by simp
  moreover have "unat (- 1 :: 'a word) = 2 ^ LENGTH('a) - 1"
    by (simp add: unsigned_minus_1_eq_mask mask_eq_exp_minus_1)
  moreover have "\<not> 2 ^ LENGTH('a) \<le> unat (NOT x) + unat x"
  proof
    assume "2 ^ LENGTH('a) \<le> unat (NOT x) + unat x"
    then have "unat (NOT x + x) + 2 ^ LENGTH('a) = unat (NOT x) + unat x"
      using unat_add_carry [of "NOT x" x] by simp
    then have "2 ^ LENGTH('a) - 1 + 2 ^ LENGTH('a) = unat (NOT x) + unat x"
      using calculation by simp
    moreover have "unat (NOT x) \<le> 2 ^ LENGTH('a) - 1" "unat x \<le> 2 ^ LENGTH('a) - 1"
      using unat_less_pow [of x] unat_less_pow [of "NOT x"] by linarith+
    ultimately have "(1::nat) \<ge> 2 ^ LENGTH('a)"
      using one_le_power [of "2::nat" "LENGTH('a)"] by linarith
    moreover have "(1::nat) < 2 ^ LENGTH('a)"
      by (rule one_less_power) auto
    ultimately show False
      by simp
  qed
  ultimately show ?thesis
    using unat_add_carry [of "NOT x" x] by simp
qed

section \<open>Results\<close>

text \<open>
  A fallible operation returns \<open>Inl\<close> an error or \<open>Inr\<close> a value, under the option for panics. \<open>res_try\<close>
  is the \<open>?\<close> operator: an error returns at once.
\<close>

definition res_try :: "('e + 'a) option \<Rightarrow> ('a \<Rightarrow> ('e + 'b) option) \<Rightarrow> ('e + 'b) option" where
  "res_try m f = (case m of None \<Rightarrow> None | Some (Inl e) \<Rightarrow> Some (Inl e) | Some (Inr x) \<Rightarrow> f x)"

definition ok_or :: "'e \<Rightarrow> 'a option \<Rightarrow> ('e + 'a) option" where
  "ok_or e x = Some (case x of None \<Rightarrow> Inl e | Some y \<Rightarrow> Inr y)"

lemma res_try_simps [simp]:
  "res_try None f = None" "res_try (Some (Inl e)) f = Some (Inl e)" "res_try (Some (Inr x)) f = f x"
  by (simp_all add: res_try_def)

lemma ok_or_simps [simp]: "ok_or e None = Some (Inl e)" "ok_or e (Some y) = Some (Inr y)"
  by (simp_all add: ok_or_def)

lemma res_try_InrE:
  assumes "res_try m f = Some (Inr y)"
  obtains x where "m = Some (Inr x)" "f x = Some (Inr y)"
  using assms by (auto simp: res_try_def split: option.splits sum.splits)

lemma res_try_Inr_iff: "res_try m f = Some (Inr y) \<longleftrightarrow> (\<exists>x. m = Some (Inr x) \<and> f x = Some (Inr y))"
  by (auto simp: res_try_def split: option.splits sum.splits)

lemma ok_or_Inr_iff [simp]: "ok_or e x = Some (Inr y) \<longleftrightarrow> x = Some y"
  by (cases x) simp_all

section \<open>Lists\<close>

lemma last_nth_Suc: "length xs = Suc n \<Longrightarrow> xs \<noteq> [] \<and> last xs = xs ! n"
  by (cases xs rule: rev_cases) (auto simp: nth_append)

section \<open>Orderings\<close>

datatype ordering = Less | Equal | Greater

definition cmp :: "'a::linorder \<Rightarrow> 'a \<Rightarrow> ordering" where
  "cmp x y = (if x > y then Greater else if x < y then Less else Equal)"

lemma cmp_iff [simp]:
  "cmp x y = Greater \<longleftrightarrow> y < x" "cmp x y = Less \<longleftrightarrow> x < y" "cmp x y = Equal \<longleftrightarrow> x = y"
  "Greater = cmp x y \<longleftrightarrow> y < x" "Less = cmp x y \<longleftrightarrow> x < y" "Equal = cmp x y \<longleftrightarrow> x = y"
  by (auto simp: cmp_def)

lemma cmp_mono: "strict_mono f \<Longrightarrow> cmp (f x) (f y) = cmp x (y :: 'a::linorder)"
  by (auto simp: cmp_def strict_mono_less)

text \<open>
  The loop that compares two digit sequences from their most significant end and returns at the
  first difference.
\<close>

fun cmp_digits :: "('a::linorder \<times> 'a) list \<Rightarrow> ordering" where
  "cmp_digits [] = Equal"
| "cmp_digits ((s, o') # zs) =
     (if s > o' then Greater else if s < o' then Less else cmp_digits zs)"

lemma cmp_digits_append:
  "cmp_digits (zs @ ws) = (case cmp_digits zs of Equal \<Rightarrow> cmp_digits ws | r \<Rightarrow> r)"
  by (induction zs rule: cmp_digits.induct) auto

lemma cmp_digits_map:
  assumes "strict_mono f"
  shows "cmp_digits (zip (map f xs) (map f ys)) = cmp_digits (zip xs ys)"
proof (induction xs arbitrary: ys)
  case (Cons x xs)
  then show ?case
    using assms by (cases ys) (auto simp: strict_mono_less)
qed simp

section \<open>Positional notation\<close>

fun pos_val :: "nat \<Rightarrow> nat list \<Rightarrow> nat" where
  "pos_val b [] = 0"
| "pos_val b (d # ds) = d + b * pos_val b ds"

definition digits_below :: "nat \<Rightarrow> nat list \<Rightarrow> bool" where
  "digits_below b ds = list_all (\<lambda>d. d < b) ds"

lemma digits_below_simps [simp]:
  "digits_below b []" "digits_below b (d # ds) \<longleftrightarrow> d < b \<and> digits_below b ds"
  "digits_below b (ds @ es) \<longleftrightarrow> digits_below b ds \<and> digits_below b es"
  "digits_below b (rev ds) \<longleftrightarrow> digits_below b ds"
  by (auto simp: digits_below_def)

lemma pos_val_append [pos_simps]:
  "pos_val b (xs @ ys) = pos_val b xs + b ^ length xs * pos_val b ys"
  by (induction xs) (auto simp: algebra_simps)

lemma pos_val_replicate_0 [pos_simps, simp]: "pos_val b (replicate n 0) = 0"
  by (induction n) auto

lemma pos_val_replicate_max [pos_simps]:
  assumes "0 < b"
  shows "pos_val b (replicate n (b - 1)) = b ^ n - 1"
proof (induction n)
  case (Suc n)
  have "b * (b ^ n - 1) = b * b ^ n - b"
    by (simp add: right_diff_distrib')
  moreover have "b \<le> b * b ^ n"
    using assms by simp
  ultimately show ?case
    using Suc assms by simp
qed simp

lemma pos_val_bound: "digits_below b ds \<Longrightarrow> pos_val b ds < b ^ length ds"
proof (induction ds)
  case (Cons d ds)
  then have "d < b" and IH: "Suc (pos_val b ds) \<le> b ^ length ds"
    by auto
  from \<open>d < b\<close> have "d + b * pos_val b ds < b * Suc (pos_val b ds)"
    by simp
  also have "\<dots> \<le> b * b ^ length ds"
    using IH by (rule mult_le_mono2)
  finally show ?case
    by simp
qed simp

lemma pos_val_cmp_step:
  fixes b :: nat
  assumes "x < b" "y < b"
  shows "cmp (x + b * p) (y + b * q) = (if p = q then cmp x y else cmp p q)"
proof -
  have *: "x' + b * m < y' + b * n" if "m < n" "x' < b" for x' y' m n
  proof -
    have "x' + b * m < b * Suc m"
      using that by simp
    also have "\<dots> \<le> b * n"
      using that by (intro mult_le_mono2) simp
    finally show ?thesis
      by linarith
  qed
  show ?thesis
    using assms * [of p q x y] * [of q p y x]
    by (cases p q rule: linorder_cases) (auto simp: cmp_def)
qed

lemma cmp_digits_pos_val:
  assumes "length xs = length ys" "digits_below b xs" "digits_below b ys"
  shows "cmp_digits (zip (rev xs) (rev ys)) = cmp (pos_val b xs) (pos_val b ys)"
  using assms
proof (induction xs ys rule: list_induct2)
  case Nil
  then show ?case
    by (simp add: cmp_def)
next
  case (Cons x xs y ys)
  then have "cmp_digits (zip (rev xs) (rev ys)) = cmp (pos_val b xs) (pos_val b ys)"
    and "cmp (x + b * pos_val b xs) (y + b * pos_val b ys)
      = (if pos_val b xs = pos_val b ys then cmp x y else cmp (pos_val b xs) (pos_val b ys))"
    by (simp_all add: pos_val_cmp_step)
  moreover have "cmp_digits [(x, y)] = cmp x y"
    by (simp add: cmp_def)
  ultimately show ?case
    using Cons.hyps by (auto simp: cmp_digits_append simp del: cmp_digits.simps(2) split: ordering.split)
qed

lemma pos_val_inj:
  assumes "length xs = length ys" "digits_below b xs" "digits_below b ys"
    and "pos_val b xs = pos_val b ys"
  shows "xs = ys"
  using assms
proof (induction xs ys rule: list_induct2)
  case (Cons x xs y ys)
  then have x: "x < b" and y: "y < b" and eq: "x + b * pos_val b xs = y + b * pos_val b ys"
    by auto
  from x y eq have "x = y"
    by (metis mod_less mod_mult_self2)
  with eq x have "pos_val b xs = pos_val b ys"
    by simp
  with Cons \<open>x = y\<close> show ?case
    by simp
qed simp

text \<open>The digits of a number by repeated division: the reference for the conversion loops.\<close>

fun to_digits :: "nat \<Rightarrow> nat \<Rightarrow> nat \<Rightarrow> nat list" where
  "to_digits b 0 v = []"
| "to_digits b (Suc n) v = v mod b # to_digits b n (v div b)"

lemma length_to_digits [simp]: "length (to_digits b n v) = n"
  by (induction n arbitrary: v) auto

lemma digits_below_to_digits [simp]: "0 < b \<Longrightarrow> digits_below b (to_digits b n v)"
  by (induction n arbitrary: v) auto

lemma pos_val_to_digits [pos_simps]: "pos_val b (to_digits b n v) = v mod b ^ n"
proof (induction n arbitrary: v)
  case (Suc n)
  then show ?case
    by (simp add: mod_mult2_eq mult.commute)
qed simp

lemma to_digits_pos_val:
  "digits_below b ds \<Longrightarrow> to_digits b (length ds) (pos_val b ds) = ds"
  by (induction ds) auto

end
