(* ===== verification/Trit.thy ===== *)
theory Trit
  imports Bee_Prelude
begin

text \<open>
  Trits and trytes (bee-ternary/src/trit/*.rs, bee-ternary/src/tryte.rs): the balanced and
  unbalanced trit enums with their conversions and the shift between them, trytes with their
  character representation, and the values of trit sequences. The derived \<open>Ord\<close> of the enums is
  the order of their discriminants.
\<close>

section \<open>Balanced trits (trit/balanced.rs)\<close>

datatype btrit = NegOne | Zero | PlusOne

primrec btrit_into_i8 :: "btrit \<Rightarrow> i8" where
  "btrit_into_i8 NegOne = - 1"
| "btrit_into_i8 Zero = 0"
| "btrit_into_i8 PlusOne = 1"

definition btrit_try_from_i8 :: "i8 \<Rightarrow> btrit option" where
  "btrit_try_from_i8 x =
     (if x = - 1 then Some NegOne
      else if x = 0 then Some Zero
      else if x = 1 then Some PlusOne
      else None)"

definition btrit_try_from_u8 :: "nat \<Rightarrow> btrit option" where
  "btrit_try_from_u8 x =
     (if x = 0 then Some Zero
      else if x = 1 then Some PlusOne
      else None)"

primrec btrit_checked_increment :: "btrit \<Rightarrow> btrit option" where
  "btrit_checked_increment NegOne = Some Zero"
| "btrit_checked_increment Zero = Some PlusOne"
| "btrit_checked_increment PlusOne = None"

definition btrit_zero :: btrit where
  "btrit_zero = Zero"

section \<open>Unbalanced trits (trit/unbalanced.rs)\<close>

datatype utrit = UZero | UOne | UTwo

primrec utrit_into_i8 :: "utrit \<Rightarrow> i8" where
  "utrit_into_i8 UZero = 0"
| "utrit_into_i8 UOne = 1"
| "utrit_into_i8 UTwo = 2"

primrec utrit_into_u8 :: "utrit \<Rightarrow> nat" where
  "utrit_into_u8 UZero = 0"
| "utrit_into_u8 UOne = 1"
| "utrit_into_u8 UTwo = 2"

text \<open>\<open>from_u8\<close> panics on a byte above two.\<close>

definition utrit_from_u8 :: "nat \<Rightarrow> utrit option" where
  "utrit_from_u8 x =
     (if x = 0 then Some UZero
      else if x = 1 then Some UOne
      else if x = 2 then Some UTwo
      else None)"

definition utrit_try_from_i8 :: "i8 \<Rightarrow> utrit option" where
  "utrit_try_from_i8 x =
     (if x = 0 then Some UZero
      else if x = 1 then Some UOne
      else if x = 2 then Some UTwo
      else None)"

definition utrit_try_from_u8 :: "nat \<Rightarrow> utrit option" where
  "utrit_try_from_u8 x =
     (if x = 0 then Some UZero
      else if x = 1 then Some UOne
      else if x = 2 then Some UTwo
      else None)"

primrec utrit_checked_increment :: "utrit \<Rightarrow> utrit option" where
  "utrit_checked_increment UZero = Some UOne"
| "utrit_checked_increment UOne = Some UTwo"
| "utrit_checked_increment UTwo = None"

definition utrit_zero :: utrit where
  "utrit_zero = UZero"

section \<open>The shift between the two (ShiftTernary)\<close>

primrec btrit_shift :: "btrit \<Rightarrow> utrit" where
  "btrit_shift NegOne = UZero"
| "btrit_shift Zero = UOne"
| "btrit_shift PlusOne = UTwo"

primrec utrit_shift :: "utrit \<Rightarrow> btrit" where
  "utrit_shift UZero = NegOne"
| "utrit_shift UOne = Zero"
| "utrit_shift UTwo = PlusOne"

section \<open>Derived orders\<close>

instantiation btrit :: linorder
begin

definition less_eq_btrit :: "btrit \<Rightarrow> btrit \<Rightarrow> bool" where
  "less_eq_btrit a b = (btrit_into_i8 a \<le> btrit_into_i8 b)"

definition less_btrit :: "btrit \<Rightarrow> btrit \<Rightarrow> bool" where
  "less_btrit a b = (btrit_into_i8 a < btrit_into_i8 b)"

instance
proof
  fix x y z :: btrit
  show "x \<le> y \<Longrightarrow> y \<le> x \<Longrightarrow> x = y"
    by (cases x; cases y) (auto simp: less_eq_btrit_def)
qed (auto simp: less_eq_btrit_def less_btrit_def)

end

instantiation utrit :: linorder
begin

definition less_eq_utrit :: "utrit \<Rightarrow> utrit \<Rightarrow> bool" where
  "less_eq_utrit a b = (utrit_into_u8 a \<le> utrit_into_u8 b)"

definition less_utrit :: "utrit \<Rightarrow> utrit \<Rightarrow> bool" where
  "less_utrit a b = (utrit_into_u8 a < utrit_into_u8 b)"

instance
proof
  fix x y z :: utrit
  show "x \<le> y \<Longrightarrow> y \<le> x \<Longrightarrow> x = y"
    by (cases x; cases y) (auto simp: less_eq_utrit_def)
qed (auto simp: less_eq_utrit_def less_utrit_def)

end

section \<open>Trytes (tryte.rs)\<close>

datatype tryte =
    T_N | T_O | T_P | T_Q | T_R | T_S | T_T | T_U | T_V | T_W | T_X | T_Y | T_Z
  | T_Nine
  | T_A | T_B | T_C | T_D | T_E | T_F | T_G | T_H | T_I | T_J | T_K | T_L | T_M

datatype ternary_error = InvalidRepr

definition MIN_TRYTE_VALUE :: i8 where
  "MIN_TRYTE_VALUE = - 13"

definition MAX_TRYTE_VALUE :: i8 where
  "MAX_TRYTE_VALUE = 13"

text \<open>The enum in the order of its discriminants \<open>- 13, ..., 13\<close>.\<close>

definition all_trytes :: "tryte list" where
  "all_trytes =
     [T_N, T_O, T_P, T_Q, T_R, T_S, T_T, T_U, T_V, T_W, T_X, T_Y, T_Z, T_Nine,
      T_A, T_B, T_C, T_D, T_E, T_F, T_G, T_H, T_I, T_J, T_K, T_L, T_M]"

primrec tryte_as_i8 :: "tryte \<Rightarrow> i8" where
  "tryte_as_i8 T_N = - 13" | "tryte_as_i8 T_O = - 12" | "tryte_as_i8 T_P = - 11"
| "tryte_as_i8 T_Q = - 10" | "tryte_as_i8 T_R = - 9" | "tryte_as_i8 T_S = - 8"
| "tryte_as_i8 T_T = - 7" | "tryte_as_i8 T_U = - 6" | "tryte_as_i8 T_V = - 5"
| "tryte_as_i8 T_W = - 4" | "tryte_as_i8 T_X = - 3" | "tryte_as_i8 T_Y = - 2"
| "tryte_as_i8 T_Z = - 1" | "tryte_as_i8 T_Nine = 0" | "tryte_as_i8 T_A = 1"
| "tryte_as_i8 T_B = 2" | "tryte_as_i8 T_C = 3" | "tryte_as_i8 T_D = 4"
| "tryte_as_i8 T_E = 5" | "tryte_as_i8 T_F = 6" | "tryte_as_i8 T_G = 7"
| "tryte_as_i8 T_H = 8" | "tryte_as_i8 T_I = 9" | "tryte_as_i8 T_J = 10"
| "tryte_as_i8 T_K = 11" | "tryte_as_i8 T_L = 12" | "tryte_as_i8 T_M = 13"

text \<open>
  \<open>transmute\<close> of an \<open>i8\<close>: the variant with that discriminant; a byte outside the discriminants is
  undefined behaviour, here \<open>None\<close>.
\<close>

definition tryte_transmute :: "i8 \<Rightarrow> tryte option" where
  "tryte_transmute x = (if - 13 \<le> x \<and> x \<le> 13 then Some (all_trytes ! nat (x + 13)) else None)"

text \<open>
  Characters are Unicode scalar values, given by their code points: \<open>48 + 9\<close> is the digit nine,
  \<open>65\<close> the letter A, \<open>77\<close> M, \<open>78\<close> N and \<open>90\<close> Z.
\<close>

definition tryte_into_char :: "tryte \<Rightarrow> nat option" where
  "tryte_into_char tryte =
     (let v = tryte_as_i8 tryte in
      if v = 0 then Some 57
      else if - 13 \<le> v \<and> v \<le> - 1 then Some (as_u8 (v + 13) + 78)
      else if 1 \<le> v \<and> v \<le> 13 then Some (as_u8 (v - 1) + 65)
      else None)"

definition tryte_try_from_char :: "nat \<Rightarrow> (ternary_error + tryte) option" where
  "tryte_try_from_char c =
     (if c = 57 then Some (Inr T_Nine)
      else if 78 \<le> c \<and> c \<le> 90 then map_option Inr (tryte_transmute (int (c - 78) - 13))
      else if 65 \<le> c \<and> c \<le> 77 then map_option Inr (tryte_transmute (int (c - 65) + 1))
      else Some (Inl InvalidRepr))"

definition tryte_try_from_i8 :: "i8 \<Rightarrow> (ternary_error + tryte) option" where
  "tryte_try_from_i8 x =
     (if - 13 \<le> x \<and> x \<le> 13 then map_option Inr (tryte_transmute x)
      else Some (Inl InvalidRepr))"

text \<open>\<open>TryteBuf\<close> is a vector of trytes; \<open>try_from_str\<close> collects the conversions of the characters
  and stops at the first error.\<close>

type_synonym tryte_buf = "tryte list"

fun tryte_buf_try_from_str :: "nat list \<Rightarrow> (ternary_error + tryte_buf) option" where
  "tryte_buf_try_from_str [] = Some (Inr [])"
| "tryte_buf_try_from_str (c # cs) =
     do {
       r \<leftarrow> tryte_try_from_char c;
       case r of
         Inl e \<Rightarrow> Some (Inl e)
       | Inr t \<Rightarrow>
           do {
             r' \<leftarrow> tryte_buf_try_from_str cs;
             case r' of Inl e \<Rightarrow> Some (Inl e) | Inr ts \<Rightarrow> Some (Inr (t # ts))
           }
     }"

text \<open>\<open>Display\<close> writes the characters of the trytes one after the other.\<close>

fun tryte_buf_display :: "tryte_buf \<Rightarrow> nat list option" where
  "tryte_buf_display [] = Some []"
| "tryte_buf_display (t # ts) =
     do { c \<leftarrow> tryte_into_char t; cs \<leftarrow> tryte_buf_display ts; Some (c # cs) }"

definition tryte_buf_push :: "tryte_buf \<Rightarrow> tryte \<Rightarrow> tryte_buf" where
  "tryte_buf_push b t = b @ [t]"

definition tryte_buf_pop :: "tryte_buf \<Rightarrow> tryte_buf \<times> tryte option" where
  "tryte_buf_pop b = (if b = [] then ([], None) else (butlast b, Some (last b)))"

section \<open>Values of trit sequences\<close>

text \<open>Little endian balanced ternary, and the unbalanced reading of the shifted trits.\<close>

fun bal_val :: "btrit list \<Rightarrow> int" where
  "bal_val [] = 0"
| "bal_val (t # ts) = btrit_into_i8 t + 3 * bal_val ts"

definition utrits_val :: "utrit list \<Rightarrow> nat" where
  "utrits_val us = pos_val 3 (map utrit_into_u8 us)"

definition half_range :: "nat \<Rightarrow> nat" where
  "half_range n = (3 ^ n - 1) div 2"

subsection \<open>Conversions and the shift\<close>

lemma utrit_shift_btrit_shift [simp]: "utrit_shift (btrit_shift t) = t"
  by (cases t) auto

lemma btrit_shift_utrit_shift [simp]: "btrit_shift (utrit_shift u) = u"
  by (cases u) auto

lemma map_shift_shift [simp]:
  "map utrit_shift (map btrit_shift ts) = ts" "map btrit_shift (map utrit_shift us) = us"
  by (simp_all add: map_idI)

lemma btrit_shift_eq_iff [simp]: "btrit_shift s = btrit_shift t \<longleftrightarrow> s = t"
  by (cases s; cases t) auto

lemma btrit_shift_value: "int (utrit_into_u8 (btrit_shift t)) = btrit_into_i8 t + 1"
  by (cases t) auto

lemma utrit_into_u8_less [simp]: "utrit_into_u8 u < 3"
  by (cases u) auto

lemma utrit_from_into_u8 [simp]: "utrit_from_u8 (utrit_into_u8 u) = Some u"
  by (cases u) (auto simp: utrit_from_u8_def)

lemma utrit_from_u8_less: "x < 3 \<Longrightarrow> \<exists>u. utrit_from_u8 x = Some u \<and> utrit_into_u8 u = x"
  by (auto simp: utrit_from_u8_def less_Suc_eq numeral_3_eq_3)

lemma utrit_into_u8_inj [simp]: "utrit_into_u8 u = utrit_into_u8 v \<longleftrightarrow> u = v"
  by (cases u; cases v) auto

lemma btrit_try_from_into_i8 [simp]: "btrit_try_from_i8 (btrit_into_i8 t) = Some t"
  by (cases t) (auto simp: btrit_try_from_i8_def)

lemma utrit_try_from_into_i8 [simp]: "utrit_try_from_i8 (utrit_into_i8 u) = Some u"
  by (cases u) (auto simp: utrit_try_from_i8_def)

lemma btrit_into_i8_range: "- 1 \<le> btrit_into_i8 t" "btrit_into_i8 t \<le> 1"
  by (cases t; simp)+

lemma strict_mono_utrit_into_u8: "strict_mono utrit_into_u8"
  by (simp add: strict_mono_def less_utrit_def)

subsection \<open>Values\<close>

lemma digits_below_utrits [simp]: "digits_below 3 (map utrit_into_u8 us)"
  by (induction us) auto

lemma utrits_val_simps [simp]:
  "utrits_val [] = 0" "utrits_val (u # us) = utrit_into_u8 u + 3 * utrits_val us"
  by (auto simp: utrits_val_def)

lemma utrits_val_append: "utrits_val (us @ vs) = utrits_val us + 3 ^ length us * utrits_val vs"
  by (simp add: utrits_val_def pos_val_append)

lemma utrits_val_bound: "utrits_val us < 3 ^ length us"
  using pos_val_bound [OF digits_below_utrits, of us] by (simp add: utrits_val_def)

lemma utrits_val_inj: "length us = length vs \<Longrightarrow> utrits_val us = utrits_val vs \<Longrightarrow> us = vs"
  using pos_val_inj [of "map utrit_into_u8 us" "map utrit_into_u8 vs" 3]
  by (simp add: utrits_val_def map_injective inj_on_def)

lemma half_range_double: "2 * half_range n + 1 = 3 ^ n"
proof -
  have "odd ((3::nat) ^ n)"
    by simp
  then show ?thesis
    by (auto simp: half_range_def elim: oddE)
qed

lemma half_range_0 [simp]: "half_range 0 = 0"
  by (simp add: half_range_def)

lemma half_range_Suc [simp]: "half_range (Suc n) = 1 + 3 * half_range n"
  using half_range_double [of n] half_range_double [of "Suc n"] by simp

lemma bal_val_shift: "int (utrits_val (map btrit_shift ts)) = bal_val ts + int (half_range (length ts))"
  by (induction ts) (auto simp: btrit_shift_value)

lemma bal_val_append: "bal_val (ss @ ts) = bal_val ss + 3 ^ length ss * bal_val ts"
  by (induction ss) (auto simp: algebra_simps)

lemma bal_val_bound: "\<bar>bal_val ts\<bar> \<le> int (half_range (length ts))"
proof (induction ts)
  case (Cons t ts)
  then show ?case
    using btrit_into_i8_range [of t] by auto
qed simp

lemma bal_val_inj:
  assumes "length ss = length ts" "bal_val ss = bal_val ts"
  shows "ss = ts"
proof -
  have "int (utrits_val (map btrit_shift ss)) = int (utrits_val (map btrit_shift ts))"
    using assms by (simp add: bal_val_shift)
  with assms have "map btrit_shift ss = map btrit_shift ts"
    by (intro utrits_val_inj) auto
  then show ?thesis
    by (metis map_shift_shift(1))
qed

subsection \<open>Trytes\<close>

lemma tryte_as_i8_range: "- 13 \<le> tryte_as_i8 t \<and> tryte_as_i8 t \<le> 13"
  by (cases t) simp_all

lemma tryte_transmute_as_i8: "tryte_transmute (tryte_as_i8 t) = Some t"
  by (cases t) (simp_all add: tryte_transmute_def all_trytes_def)

lemma all_trytes_as_i8: "n < 27 \<Longrightarrow> tryte_as_i8 (all_trytes ! n) = int n - 13"
proof -
  have "list_all (\<lambda>n. tryte_as_i8 (all_trytes ! n) = int n - 13) [0..<27]"
    by (simp add: all_trytes_def upt_rec)
  then show "n < 27 \<Longrightarrow> tryte_as_i8 (all_trytes ! n) = int n - 13"
    by (simp add: list_all_iff)
qed

lemma tryte_transmute_Some: "tryte_transmute x = Some t \<Longrightarrow> tryte_as_i8 t = x"
  using all_trytes_as_i8 [of "nat (x + 13)"]
  by (auto simp: tryte_transmute_def split: if_splits)

lemma tryte_char_roundtrip:
  "\<exists>c. tryte_into_char t = Some c \<and> tryte_try_from_char c = Some (Inr t)"
proof -
  have v: "- 13 \<le> tryte_as_i8 t" "tryte_as_i8 t \<le> 13"
    using tryte_as_i8_range [of t] by auto
  consider "tryte_as_i8 t = 0" | "tryte_as_i8 t < 0" | "0 < tryte_as_i8 t"
    by linarith
  then show ?thesis
  proof cases
    case 1
    then have "t = T_Nine"
      using tryte_transmute_as_i8 [of t] by (simp add: tryte_transmute_def all_trytes_def)
    then show ?thesis
      by (simp add: tryte_into_char_def tryte_try_from_char_def)
  next
    case 2
    then show ?thesis
      using v tryte_transmute_as_i8 [of t]
      by (auto simp: tryte_into_char_def tryte_try_from_char_def Let_def)
  next
    case 3
    then show ?thesis
      using v tryte_transmute_as_i8 [of t]
      by (auto simp: tryte_into_char_def tryte_try_from_char_def Let_def)
  qed
qed

lemma tryte_try_from_char_total: "tryte_try_from_char c \<noteq> None"
  by (auto simp: tryte_try_from_char_def tryte_transmute_def)

lemma tryte_try_from_char_Inr:
  "tryte_try_from_char c = Some (Inr t) \<Longrightarrow> tryte_into_char t = Some c"
  by (auto simp: tryte_try_from_char_def tryte_into_char_def Let_def
      dest!: tryte_transmute_Some split: if_splits)

end
