(* ===== verification/Raw_Encoding.thy ===== *)
theory Raw_Encoding
  imports Trit
begin

text \<open>
  The encoding-independent layer of bee-ternary (raw.rs, lib.rs). The trait \<open>RawEncodingBuf\<close> (with
  the \<open>RawEncoding\<close> slice it derefs to) is a dictionary of operations, and the methods that
  \<open>Trits\<close> and \<open>TritBuf\<close> define on top of any encoding take that dictionary. The locale
  \<open>trit_buffer\<close> states what an implementation promises about the trit sequence it stores; the
  methods of lib.rs are proved against it once and hold for every encoding.
\<close>

section \<open>The trait dictionary\<close>

record ('b, 't) raw_encoding_buf =
  buf_new :: 'b
  buf_push :: "'b \<Rightarrow> 't \<Rightarrow> 'b option"
  buf_pop :: "'b \<Rightarrow> ('b \<times> 't option) option"
  buf_len :: "'b \<Rightarrow> nat"
  buf_get_unchecked :: "'b \<Rightarrow> nat \<Rightarrow> 't option"
  buf_set_unchecked :: "'b \<Rightarrow> nat \<Rightarrow> 't \<Rightarrow> 'b option"

section \<open>TritBuf (lib.rs)\<close>

text \<open>Pushing the items of an iterator one after the other (\<open>FromIterator\<close>, \<open>from_trits\<close>).\<close>

fun push_all :: "('b, 't) raw_encoding_buf \<Rightarrow> 'b \<Rightarrow> 't list \<Rightarrow> 'b option" where
  "push_all d this [] = Some this"
| "push_all d this (t # ts) = do { this \<leftarrow> buf_push d this t; push_all d this ts }"

definition trit_buf_from_iter :: "('b, 't) raw_encoding_buf \<Rightarrow> 't list \<Rightarrow> 'b option" where
  "trit_buf_from_iter d ts = push_all d (buf_new d) ts"

definition trit_buf_from_trits :: "('b, 't) raw_encoding_buf \<Rightarrow> 't list \<Rightarrow> 'b option" where
  "trit_buf_from_trits d trits = push_all d (buf_new d) trits"

fun push_times :: "('b, 't) raw_encoding_buf \<Rightarrow> 'b \<Rightarrow> nat \<Rightarrow> 't \<Rightarrow> 'b option" where
  "push_times d this 0 t = Some this"
| "push_times d this (Suc n) t = do { this \<leftarrow> buf_push d this t; push_times d this n t }"

definition trit_buf_filled :: "('b, 't) raw_encoding_buf \<Rightarrow> nat \<Rightarrow> 't \<Rightarrow> 'b option" where
  "trit_buf_filled d len trit = push_times d (buf_new d) len trit"

definition trit_buf_zeros :: "('b, 't) raw_encoding_buf \<Rightarrow> 't \<Rightarrow> nat \<Rightarrow> 'b option" where
  "trit_buf_zeros d zero len = trit_buf_filled d len zero"

section \<open>Trits (lib.rs)\<close>

text \<open>\<open>get\<close> returns an \<open>Option\<close>; the outer option is the behaviour of the unchecked access.\<close>

definition trits_get :: "('b, 't) raw_encoding_buf \<Rightarrow> 'b \<Rightarrow> nat \<Rightarrow> 't option option" where
  "trits_get d b index =
     (if index < buf_len d b then map_option Some (buf_get_unchecked d b index) else Some None)"

definition trits_set :: "('b, 't) raw_encoding_buf \<Rightarrow> 'b \<Rightarrow> nat \<Rightarrow> 't \<Rightarrow> 'b option" where
  "trits_set d b index trit =
     (if index < buf_len d b then buf_set_unchecked d b index trit else None)"

definition trits_iter :: "('b, 't) raw_encoding_buf \<Rightarrow> 'b \<Rightarrow> 't list option" where
  "trits_iter d b = those (map (buf_get_unchecked d b) [0..<buf_len d b])"

fun set_from :: "('b, 't) raw_encoding_buf \<Rightarrow> 'b \<Rightarrow> nat \<Rightarrow> 't list \<Rightarrow> 'b option" where
  "set_from d b i [] = Some b"
| "set_from d b i (t # ts) = do { b \<leftarrow> buf_set_unchecked d b i t; set_from d b (Suc i) ts }"

definition trits_copy_from ::
  "('b, 't) raw_encoding_buf \<Rightarrow> ('c, 't) raw_encoding_buf \<Rightarrow> 'b \<Rightarrow> 'c \<Rightarrow> 'b option" where
  "trits_copy_from d e self trits =
     (if buf_len d self = buf_len e trits
      then do { ts \<leftarrow> trits_iter e trits; set_from d self 0 ts }
      else None)"

fun set_each :: "('b, 't) raw_encoding_buf \<Rightarrow> 'b \<Rightarrow> nat list \<Rightarrow> 't \<Rightarrow> 'b option" where
  "set_each d b [] trit = Some b"
| "set_each d b (i # is) trit = do { b \<leftarrow> trits_set d b i trit; set_each d b is trit }"

definition trits_fill :: "('b, 't) raw_encoding_buf \<Rightarrow> 'b \<Rightarrow> 't \<Rightarrow> 'b option" where
  "trits_fill d self trit = set_each d self [0..<buf_len d self] trit"

text \<open>\<open>to_buf\<close> and \<open>encode\<close> (and \<open>into_encoding\<close>) collect the trits into the other encoding.\<close>

definition trits_encode ::
  "('b, 't) raw_encoding_buf \<Rightarrow> ('c, 't) raw_encoding_buf \<Rightarrow> 'b \<Rightarrow> 'c option" where
  "trits_encode d e self = do { ts \<leftarrow> trits_iter d self; trit_buf_from_iter e ts }"

definition trits_eq ::
  "('b, 't) raw_encoding_buf \<Rightarrow> ('c, 't) raw_encoding_buf \<Rightarrow> 'b \<Rightarrow> 'c \<Rightarrow> bool option" where
  "trits_eq d e self other =
     (if buf_len d self = buf_len e other
      then do {
        as \<leftarrow> trits_iter d self; bs \<leftarrow> trits_iter e other;
        Some (list_all (\<lambda>(a, b). a = b) (zip as bs)) }
      else Some False)"

definition trits_partial_cmp ::
  "('b, 't::linorder) raw_encoding_buf \<Rightarrow> ('c, 't) raw_encoding_buf \<Rightarrow> 'b \<Rightarrow> 'c
    \<Rightarrow> ordering option option" where
  "trits_partial_cmp d e self other =
     (if buf_len d self \<noteq> buf_len e other then Some None
      else do {
        as \<leftarrow> trits_iter d self; bs \<leftarrow> trits_iter e other;
        Some (Some (cmp_digits (zip as bs))) })"

section \<open>The contract of an encoding\<close>

text \<open>
  \<open>trits\<close> is the stored sequence, \<open>inv\<close> the representation invariant and \<open>cap\<close> the number of trits
  the representation can count.
\<close>

locale trit_buffer =
  fixes d :: "('b, 't) raw_encoding_buf"
    and inv :: "'b \<Rightarrow> bool"
    and trits :: "'b \<Rightarrow> 't list"
    and cap :: nat
  assumes new_inv: "inv (buf_new d)"
    and new_trits: "trits (buf_new d) = []"
    and push_law: "inv b \<Longrightarrow> length (trits b) < cap \<Longrightarrow>
      \<exists>b'. buf_push d b t = Some b' \<and> inv b' \<and> trits b' = trits b @ [t]"
    and pop_empty: "inv b \<Longrightarrow> trits b = [] \<Longrightarrow> buf_pop d b = Some (b, None)"
    and pop_law: "inv b \<Longrightarrow> trits b \<noteq> [] \<Longrightarrow>
      \<exists>b'. buf_pop d b = Some (b', Some (last (trits b))) \<and> inv b' \<and> trits b' = butlast (trits b)"
    and len_law: "inv b \<Longrightarrow> buf_len d b = length (trits b)"
    and get_law: "inv b \<Longrightarrow> i < length (trits b) \<Longrightarrow> buf_get_unchecked d b i = Some (trits b ! i)"
    and set_law: "inv b \<Longrightarrow> i < length (trits b) \<Longrightarrow>
      \<exists>b'. buf_set_unchecked d b i t = Some b' \<and> inv b' \<and> trits b' = (trits b)[i := t]"
begin

lemma push_all_law:
  "inv b \<Longrightarrow> length (trits b) + length ts \<le> cap \<Longrightarrow>
    \<exists>b'. push_all d b ts = Some b' \<and> inv b' \<and> trits b' = trits b @ ts"
proof (induction ts arbitrary: b)
  case (Cons t ts)
  then obtain b1 where "buf_push d b t = Some b1" "inv b1" "trits b1 = trits b @ [t]"
    using push_law [of b t] by auto
  with Cons.IH [of b1] Cons.prems show ?case
    by simp
qed simp

lemma from_iter_law:
  assumes "length ts \<le> cap"
  shows "\<exists>b. trit_buf_from_iter d ts = Some b \<and> inv b \<and> trits b = ts"
  using push_all_law [OF new_inv, of ts] assms by (simp add: trit_buf_from_iter_def new_trits)

lemma push_times_law:
  "inv b \<Longrightarrow> length (trits b) + n \<le> cap \<Longrightarrow>
    \<exists>b'. push_times d b n t = Some b' \<and> inv b' \<and> trits b' = trits b @ replicate n t"
proof (induction n arbitrary: b)
  case (Suc n)
  then obtain b1 where "buf_push d b t = Some b1" "inv b1" "trits b1 = trits b @ [t]"
    using push_law [of b t] by auto
  with Suc.IH [of b1] Suc.prems show ?case
    by simp
qed simp

lemma filled_law:
  assumes "n \<le> cap"
  shows "\<exists>b. trit_buf_filled d n t = Some b \<and> inv b \<and> trits b = replicate n t"
  using push_times_law [OF new_inv, of n t] assms by (simp add: trit_buf_filled_def new_trits)

lemma iter_law:
  assumes "inv b"
  shows "trits_iter d b = Some (trits b)"
proof -
  have "map (buf_get_unchecked d b) [0..<buf_len d b] = map Some (trits b)"
    by (rule nth_equalityI) (simp_all add: assms len_law get_law)
  moreover have "those (map Some xs) = Some xs" for xs :: "'t list"
    by (induction xs) auto
  ultimately show ?thesis
    by (simp add: trits_iter_def)
qed

lemma get_checked_law:
  "inv b \<Longrightarrow> trits_get d b i = Some (if i < length (trits b) then Some (trits b ! i) else None)"
  by (simp add: trits_get_def len_law get_law)

lemma set_checked_law:
  "inv b \<Longrightarrow> i < length (trits b) \<Longrightarrow>
    \<exists>b'. trits_set d b i t = Some b' \<and> inv b' \<and> trits b' = (trits b)[i := t]"
  by (simp add: trits_set_def len_law set_law)

lemma set_from_law:
  "inv b \<Longrightarrow> i + length ts \<le> length (trits b) \<Longrightarrow>
    \<exists>b'. set_from d b i ts = Some b' \<and> inv b'
      \<and> trits b' = take i (trits b) @ ts @ drop (i + length ts) (trits b)"
proof (induction ts arbitrary: b i)
  case (Cons t ts)
  then obtain b1 where b1: "buf_set_unchecked d b i t = Some b1" "inv b1" "trits b1 = (trits b)[i := t]"
    using set_law [of b i t] by auto
  have "Suc i + length ts \<le> length (trits b1)"
    using Cons.prems b1 by simp
  then obtain b2 where "set_from d b1 (Suc i) ts = Some b2" "inv b2"
    "trits b2 = take (Suc i) (trits b1) @ ts @ drop (Suc i + length ts) (trits b1)"
    using Cons.IH [OF b1(2)] by blast
  then show ?case
    using b1 Cons.prems by (simp add: take_Suc_conv_app_nth drop_update_cancel)
qed simp

lemma set_each_law:
  "inv b \<Longrightarrow> n \<le> length (trits b) \<Longrightarrow>
    \<exists>b'. set_each d b [0..<n] t = Some b' \<and> inv b'
      \<and> trits b' = replicate n t @ drop n (trits b)"
proof -
  have *: "\<exists>b'. set_each d b [i..<n] t = Some b' \<and> inv b'
      \<and> trits b' = take i (trits b) @ replicate (n - i) t @ drop n (trits b)"
    if "inv b" "n \<le> length (trits b)" "i \<le> n" for b i
    using that
  proof (induction "n - i" arbitrary: b i)
    case (Suc m)
    then have i: "i < n" and upt: "[i..<n] = i # [Suc i..<n]" and nm: "n - i = Suc (n - Suc i)"
      by (auto simp: upt_conv_Cons)
    with Suc.prems obtain b1 where b1: "trits_set d b i t = Some b1" "inv b1"
        "trits b1 = (trits b)[i := t]"
      using set_checked_law [of b i t] by auto
    obtain b2 where "set_each d b1 [Suc i..<n] t = Some b2" "inv b2"
      "trits b2 = take (Suc i) (trits b1) @ replicate (n - Suc i) t @ drop n (trits b1)"
      using Suc.hyps(1) [of "Suc i" b1] Suc.hyps(2) Suc.prems i b1
      by (metis Suc_inject Suc_leI length_list_update nm)
    then show ?case
      using b1 i Suc.prems by (simp add: upt nm take_Suc_conv_app_nth drop_update_cancel)
  qed simp
  show "inv b \<Longrightarrow> n \<le> length (trits b) \<Longrightarrow>
    \<exists>b'. set_each d b [0..<n] t = Some b' \<and> inv b' \<and> trits b' = replicate n t @ drop n (trits b)"
    using * [of b 0] by simp
qed

lemma fill_law:
  assumes "inv b"
  shows "\<exists>b'. trits_fill d b t = Some b' \<and> inv b' \<and> trits b' = replicate (length (trits b)) t"
  using set_each_law [OF assms, of "length (trits b)" t] assms by (simp add: trits_fill_def len_law)

text \<open>Pushing and popping is a stack: what was pushed last is popped first.\<close>

lemma push_pop:
  assumes "inv b" "length (trits b) < cap"
  shows "\<exists>b1 b2. buf_push d b t = Some b1 \<and> buf_pop d b1 = Some (b2, Some t)
    \<and> inv b2 \<and> trits b2 = trits b"
proof -
  obtain b1 where "buf_push d b t = Some b1" "inv b1" "trits b1 = trits b @ [t]"
    using push_law [OF assms] by blast
  then show ?thesis
    using pop_law [of b1] by auto
qed

end

text \<open>Two encodings together: the conversions between them.\<close>

locale trit_buffer_pair =
  src: trit_buffer d inv trits cap + dst: trit_buffer e inv' trits' cap'
  for d :: "('b, 't) raw_encoding_buf" and inv trits cap
    and e :: "('c, 't) raw_encoding_buf" and inv' trits' cap'
begin

lemma encode_law:
  assumes "inv b" "length (trits b) \<le> cap'"
  shows "\<exists>c. trits_encode d e b = Some c \<and> inv' c \<and> trits' c = trits b"
  using dst.from_iter_law [OF assms(2)] assms(1) by (simp add: trits_encode_def src.iter_law)

lemma eq_law:
  assumes "inv b" "inv' c"
  shows "trits_eq d e b c = Some (trits b = trits' c)"
proof -
  have "list_all (\<lambda>(x, y). x = y) (zip xs ys) \<longleftrightarrow> xs = ys" if "length xs = length ys" for xs ys :: "'t list"
    using that by (induction xs ys rule: list_induct2) auto
  then show ?thesis
    using assms
    by (auto simp: trits_eq_def src.iter_law dst.iter_law src.len_law dst.len_law)
qed

lemma copy_from_law:
  assumes "inv b" "inv' c"
  shows "if length (trits b) = length (trits' c)
    then \<exists>b'. trits_copy_from d e b c = Some b' \<and> inv b' \<and> trits b' = trits' c
    else trits_copy_from d e b c = None"
  using src.set_from_law [OF assms(1), of 0 "trits' c"] assms
  by (auto simp: trits_copy_from_def src.len_law dst.len_law dst.iter_law)

end

end
