(* ===== verification/Packed_Encoding.thy ===== *)
theory Packed_Encoding
  imports Raw_Encoding
begin

text \<open>
  The packed encodings T2B1, T3B1, T4B1 and T5B1 (bee-ternary/src/t2b1.rs to t5b1.rs): two to five
  balanced trits in a byte. The four files share one shape, so their operations are written once
  over a \<open>codec\<close> (trits per byte, bits of the fat-pointer length that hold the sub-byte offset,
  \<open>extract\<close>, \<open>insert\<close>, \<open>is_valid\<close>) and each file instantiates it.

  A slice is a fat pointer into a memory of bytes: \<open>base\<close> is the byte it points to and \<open>fat_len\<close>
  the \<open>usize\<close> beside it, in which the code packs the length in trits and the offset of the first
  trit within its byte. Reads and writes through a slice are reads and writes of the memory, so a
  mutable sub-slice aliases the slice it was taken from. A read outside the memory is \<open>None\<close>.

  The locale \<open>packed_codec\<close> holds the two laws of a byte (\<open>insert\<close> sets one trit and keeps the
  others); buffers, slices and sub-slices are proved correct from them, for the four encodings.
\<close>

section \<open>Operations over a codec\<close>

record codec =
  TPB :: nat
  LEN_SHIFT :: nat
  extract_elem :: "i8 \<Rightarrow> nat \<Rightarrow> btrit option"
  insert_elem :: "i8 \<Rightarrow> nat \<Rightarrow> btrit \<Rightarrow> i8 option"
  is_valid :: "i8 \<Rightarrow> bool"

subsection \<open>extract and insert\<close>

text \<open>
  The arithmetic of \<open>extract\<close> and \<open>insert\<close>, in signed integers of \<open>w\<close> bits with truncating
  division. Every intermediate result is checked against the width.
\<close>

definition packed_extract :: "nat \<Rightarrow> nat \<Rightarrow> int \<Rightarrow> i8 \<Rightarrow> nat \<Rightarrow> btrit option" where
  "packed_extract w tpb bal x elem =
     (if elem < tpb then
        do {
          ux \<leftarrow> checked_signed w (x + bal);
          p \<leftarrow> checked_signed w (3 ^ elem);
          u \<leftarrow> utrit_from_u8 (as_u8 ((ux sdiv p) smod 3));
          Some (utrit_shift u)
        }
      else None)"

definition packed_insert :: "nat \<Rightarrow> nat \<Rightarrow> int \<Rightarrow> i8 \<Rightarrow> nat \<Rightarrow> btrit \<Rightarrow> int option" where
  "packed_insert w tpb bal x elem trit =
     (if elem < tpb then
        do {
          let utrit = btrit_shift trit;
          ux \<leftarrow> checked_signed w (x + bal);
          p \<leftarrow> checked_signed w (3 ^ elem);
          diff \<leftarrow> checked_signed w (int (utrit_into_u8 utrit) - (ux sdiv p) smod 3);
          scaled \<leftarrow> checked_signed w (diff * p);
          ux \<leftarrow> checked_signed w (ux + scaled);
          checked_signed w (ux - bal)
        }
      else None)"

subsection \<open>Slices\<close>

record slice =
  base :: nat
  fat_len :: nat

definition raw_make :: "codec \<Rightarrow> nat \<Rightarrow> nat \<Rightarrow> nat \<Rightarrow> slice" where
  "raw_make c ptr offset len =
     \<lparr>base = ptr + offset div TPB c,
      fat_len = take_bit 64 (push_bit (LEN_SHIFT c) len) OR (offset mod TPB c)\<rparr>"

definition raw_len_offset :: "codec \<Rightarrow> slice \<Rightarrow> nat \<times> nat" where
  "raw_len_offset c s = (drop_bit (LEN_SHIFT c) (fat_len s), fat_len s AND mask (LEN_SHIFT c))"

definition raw_ptr :: "codec \<Rightarrow> slice \<Rightarrow> nat \<Rightarrow> nat" where
  "raw_ptr c s index = base s + (snd (raw_len_offset c s) + index) div TPB c"

definition raw_len :: "codec \<Rightarrow> slice \<Rightarrow> nat" where
  "raw_len c s = fst (raw_len_offset c s)"

definition mem_read :: "i8 list \<Rightarrow> nat \<Rightarrow> i8 option" where
  "mem_read m a = (if a < length m then Some (m ! a) else None)"

definition raw_get_unchecked :: "codec \<Rightarrow> i8 list \<Rightarrow> slice \<Rightarrow> nat \<Rightarrow> btrit option" where
  "raw_get_unchecked c m s index =
     do {
       b \<leftarrow> mem_read m (raw_ptr c s index);
       extract_elem c b ((snd (raw_len_offset c s) + index) mod TPB c)
     }"

definition raw_set_unchecked :: "codec \<Rightarrow> i8 list \<Rightarrow> slice \<Rightarrow> nat \<Rightarrow> btrit \<Rightarrow> i8 list option" where
  "raw_set_unchecked c m s index trit =
     do {
       b \<leftarrow> mem_read m (raw_ptr c s index);
       b \<leftarrow> insert_elem c b ((snd (raw_len_offset c s) + index) mod TPB c) trit;
       Some (m[raw_ptr c s index := b])
     }"

definition raw_slice_unchecked :: "codec \<Rightarrow> slice \<Rightarrow> nat \<Rightarrow> nat \<Rightarrow> slice" where
  "raw_slice_unchecked c s start end' =
     raw_make c (raw_ptr c s start) ((snd (raw_len_offset c s) + start) mod TPB c) (end' - start)"

definition raw_from_raw_unchecked :: "codec \<Rightarrow> i8 list \<Rightarrow> nat \<Rightarrow> slice option" where
  "raw_from_raw_unchecked c b num_trits =
     (if num_trits \<le> length b * TPB c then Some (raw_make c 0 0 num_trits) else None)"

text \<open>\<open>Trits::slice\<close> and \<open>Trits::try_from_raw\<close> of lib.rs, on the packed encodings.\<close>

definition raw_slice :: "codec \<Rightarrow> slice \<Rightarrow> nat \<Rightarrow> nat \<Rightarrow> slice option" where
  "raw_slice c s start end' =
     (if start \<le> end' \<and> end' \<le> raw_len c s then Some (raw_slice_unchecked c s start end') else None)"

definition raw_try_from_raw :: "codec \<Rightarrow> i8 list \<Rightarrow> nat \<Rightarrow> (ternary_error + slice) option" where
  "raw_try_from_raw c raw num_trits =
     (if list_all (is_valid c) raw
      then map_option Inr (raw_from_raw_unchecked c raw num_trits)
      else Some (Inl InvalidRepr))"

subsection \<open>Buffers\<close>

record packed_buf =
  bytes :: "i8 list"
  count :: nat

definition raw_new :: packed_buf where
  "raw_new = \<lparr>bytes = [], count = 0\<rparr>"

definition raw_push :: "codec \<Rightarrow> packed_buf \<Rightarrow> btrit \<Rightarrow> packed_buf option" where
  "raw_push c b trit =
     (if count b mod TPB c = 0 then
        do {
          x \<leftarrow> insert_elem c 0 0 trit;
          Some \<lparr>bytes = bytes b @ [x], count = count b + 1\<rparr>
        }
      else if bytes b = [] then None
      else
        do {
          x \<leftarrow> insert_elem c (last (bytes b)) (count b mod TPB c) trit;
          Some \<lparr>bytes = (bytes b)[length (bytes b) - 1 := x], count = count b + 1\<rparr>
        })"

definition raw_pop :: "codec \<Rightarrow> packed_buf \<Rightarrow> (packed_buf \<times> btrit option) option" where
  "raw_pop c b =
     (if count b = 0 then Some (b, None)
      else if count b mod TPB c = 1 then
        (if bytes b = [] then Some (b\<lparr>count := count b - 1\<rparr>, None)
         else
           do {
             t \<leftarrow> extract_elem c (last (bytes b)) 0;
             Some (\<lparr>bytes = butlast (bytes b), count = count b - 1\<rparr>, Some t)
           })
      else if bytes b = [] then None
      else
        do {
          t \<leftarrow> extract_elem c (last (bytes b)) ((count b + TPB c - 1) mod TPB c);
          Some (b\<lparr>count := count b - 1\<rparr>, Some t)
        })"

definition raw_as_slice :: "codec \<Rightarrow> packed_buf \<Rightarrow> slice" where
  "raw_as_slice c b = raw_make c 0 0 (count b)"

text \<open>The trait dictionary of a packed encoding; slice accesses go through \<open>as_slice\<close>.\<close>

definition packed_buf_dict :: "codec \<Rightarrow> (packed_buf, btrit) raw_encoding_buf" where
  "packed_buf_dict c =
     \<lparr>buf_new = raw_new, buf_push = raw_push c, buf_pop = raw_pop c,
      buf_len = (\<lambda>b. raw_len c (raw_as_slice c b)),
      buf_get_unchecked = (\<lambda>b i. raw_get_unchecked c (bytes b) (raw_as_slice c b) i),
      buf_set_unchecked = (\<lambda>b i t.
        do { m \<leftarrow> raw_set_unchecked c (bytes b) (raw_as_slice c b) i t; Some (b\<lparr>bytes := m\<rparr>) })\<rparr>"

section \<open>Digits\<close>

lemma pow_split: "e < n \<Longrightarrow> (3::int) ^ n = 3 ^ e * (3 * 3 ^ (n - e - 1))"
  by (metis One_nat_def Suc_diff_Suc diff_Suc_1 diff_diff_left le_add_diff_inverse less_imp_le_nat
      plus_1_eq_Suc add.commute power_Suc power_add)

lemma digit_of_parts:
  fixes lo hi t :: int
  assumes "0 \<le> lo" "lo < 3 ^ e" "0 \<le> t" "t < 3"
  shows "((lo + 3 ^ e * (t + 3 * hi)) div 3 ^ e') mod 3 =
    (if e' = e then t else if e' < e then (lo div 3 ^ e') mod 3 else (hi div 3 ^ (e' - e - 1)) mod 3)"
proof (cases e' e rule: linorder_cases)
  case equal
  then show ?thesis
    using assms by simp
next
  case less
  then have "(3::int) ^ e = 3 ^ e' * (3 * 3 ^ (e - e' - 1))"
    by (rule pow_split)
  then have "lo + 3 ^ e * (t + 3 * hi) = lo + 3 ^ e' * (3 * (3 ^ (e - e' - 1) * (t + 3 * hi)))"
    by (simp only: mult.assoc)
  moreover have "(lo + 3 ^ e' * X) div 3 ^ e' = lo div 3 ^ e' + X" for X
    by simp
  ultimately have "(lo + 3 ^ e * (t + 3 * hi)) div 3 ^ e' = lo div 3 ^ e' + 3 * (3 ^ (e - e' - 1) * (t + 3 * hi))"
    by (simp only:)
  with less show ?thesis
    by simp
next
  case greater
  then have "(3::int) ^ e' = 3 ^ e * (3 * 3 ^ (e' - e - 1))"
    by (rule pow_split)
  then have "(lo + 3 ^ e * (t + 3 * hi)) div 3 ^ e'
    = ((lo + 3 ^ e * (t + 3 * hi)) div 3 ^ e) div 3 div 3 ^ (e' - e - 1)"
    by (simp add: zdiv_zmult2_eq)
  also have "(lo + 3 ^ e * (t + 3 * hi)) div 3 ^ e = t + 3 * hi"
    using assms by simp
  also have "(t + 3 * hi) div 3 = hi"
    using assms by simp
  finally show ?thesis
    using greater by simp
qed

text \<open>The update of digit \<open>e\<close> that \<open>insert\<close> computes.\<close>

definition set_digit :: "int \<Rightarrow> nat \<Rightarrow> int \<Rightarrow> int" where
  "set_digit u e t = u + (t - (u div 3 ^ e) mod 3) * 3 ^ e"

lemma digit_parts: "u = u mod 3 ^ e + 3 ^ e * ((u div 3 ^ e) mod 3 + 3 * (u div 3 ^ e div 3))"
  for u :: int
proof -
  have "(u div 3 ^ e) mod 3 + 3 * (u div 3 ^ e div 3) = u div 3 ^ e"
    by simp
  then show ?thesis
    by simp
qed

lemma set_digit_parts:
  "set_digit u e t = u mod 3 ^ e + 3 ^ e * (t + 3 * (u div 3 ^ e div 3))"
proof -
  have "set_digit u e t = (u mod 3 ^ e + 3 ^ e * ((u div 3 ^ e) mod 3 + 3 * (u div 3 ^ e div 3)))
    + (t - (u div 3 ^ e) mod 3) * 3 ^ e"
    using digit_parts [of u e] by (simp add: set_digit_def)
  also have "\<dots> = u mod 3 ^ e + 3 ^ e * (t + 3 * (u div 3 ^ e div 3))"
    by (simp only: algebra_simps)
  finally show ?thesis .
qed

lemma digit_set_digit:
  assumes "0 \<le> t" "t < 3"
  shows "(set_digit u e t div 3 ^ e') mod 3 = (if e' = e then t else (u div 3 ^ e') mod 3)"
proof -
  have lo: "0 \<le> u mod 3 ^ e" "u mod 3 ^ e < 3 ^ e"
    by simp_all
  have d: "0 \<le> (u div 3 ^ e) mod 3" "(u div 3 ^ e) mod 3 < 3"
    by simp_all
  have "(u div 3 ^ e') mod 3 =
    (if e' = e then (u div 3 ^ e) mod 3 else if e' < e then (u mod 3 ^ e div 3 ^ e') mod 3
     else ((u div 3 ^ e div 3) div 3 ^ (e' - e - 1)) mod 3)"
    using digit_of_parts [OF lo d, of "u div 3 ^ e div 3" e'] by (simp only: digit_parts [of u e, symmetric])
  then show ?thesis
    unfolding set_digit_parts digit_of_parts [OF lo assms] by argo
qed

lemma set_digit_bounds:
  assumes "0 \<le> u" "u < 3 ^ n" "e < n" "0 \<le> t" "t < 3"
  shows "0 \<le> set_digit u e t" "set_digit u e t < 3 ^ n"
proof -
  let ?hi = "u div 3 ^ e div 3"
  have hi: "0 \<le> ?hi"
    using assms by (simp add: pos_imp_zdiv_nonneg_iff)
  then have "0 \<le> t + 3 * ?hi"
    using assms by simp
  then show "0 \<le> set_digit u e t"
    by (simp add: set_digit_parts)
  have split: "(3::int) ^ n = 3 ^ e * (3 * 3 ^ (n - e - 1))"
    using assms(3) by (rule pow_split)
  have "?hi < 3 ^ (n - e - 1)"
  proof (rule ccontr)
    assume "\<not> ?hi < 3 ^ (n - e - 1)"
    then have "3 ^ e * (3 * 3 ^ (n - e - 1)) \<le> 3 ^ e * (3 * ?hi)"
      by (intro mult_left_mono) simp_all
    also have "3 ^ e * (3 * ?hi) \<le> 3 ^ e * (u div 3 ^ e)"
      using mult_div_mod_eq [of 3 "u div 3 ^ e"] pos_mod_sign [of 3 "u div 3 ^ e"]
      by (intro mult_left_mono) (linarith, simp)
    also have "\<dots> \<le> u"
      using mult_div_mod_eq [of "3 ^ e" u] pos_mod_sign [OF zero_less_power, of 3 u e] by linarith
    finally show False
      using assms(2) by (simp add: split)
  qed
  then have "t + 3 * ?hi + 1 \<le> 3 * 3 ^ (n - e - 1)"
    using assms by simp
  then have "3 ^ e * (t + 3 * ?hi + 1) \<le> 3 ^ n"
    unfolding split by (rule mult_left_mono) simp
  moreover have "set_digit u e t < 3 ^ e * (t + 3 * ?hi + 1)"
    by (simp add: set_digit_parts algebra_simps)
  ultimately show "set_digit u e t < 3 ^ n"
    by simp
qed

lemma sdiv_nonneg: "0 \<le> a \<Longrightarrow> 0 < b \<Longrightarrow> a sdiv b = a div b" for a b :: int
  by (cases "a = 0") (simp_all add: signed_divide_int_def)

lemma smod_nonneg: "0 \<le> a \<Longrightarrow> 0 < b \<Longrightarrow> a smod b = a mod b" for a b :: int
  by (cases "a = 0") (simp_all add: signed_modulo_int_def)

lemma utrit_from_digit:
  "utrit_from_u8 (nat (v mod 3)) = Some u \<longleftrightarrow> int (utrit_into_u8 u) = v mod 3"
proof -
  have "0 \<le> v mod 3" "v mod 3 < 3"
    by simp_all
  then consider "v mod 3 = 0" | "v mod 3 = 1" | "v mod 3 = 2"
    by linarith
  then show ?thesis
    by cases (cases u; simp add: utrit_from_u8_def)+
qed

lemma utrit_of_digit: "\<exists>u. int (utrit_into_u8 u) = v mod 3"
proof -
  have "nat (v mod 3) < 3"
    by simp
  then obtain u where "utrit_into_u8 u = nat (v mod 3)"
    using utrit_from_u8_less by blast
  then have "int (utrit_into_u8 u) = v mod 3"
    by simp
  then show ?thesis ..
qed

section \<open>The byte laws\<close>

locale balanced_byte =
  fixes w tpb :: nat and bal :: int
  assumes width: "3 ^ tpb < (2::int) ^ (w - 1)"
    and bal: "2 * bal + 1 = 3 ^ tpb"
begin

lemma pow_elem: "e < tpb \<Longrightarrow> (3::int) * 3 ^ e \<le> 3 ^ tpb"
  by (metis Suc_leI one_le_numeral power_Suc power_increasing)

lemma checked_pow: "e < tpb \<Longrightarrow> checked_signed w (3 ^ e) = Some (3 ^ e)"
  using pow_elem [of e] width zero_less_power [of "3::int" e] zero_less_power [of "2::int" "w - 1"]
  by (intro checked_signed_Some) linarith+

lemma checked_sum:
  "- bal \<le> x \<Longrightarrow> x \<le> bal \<Longrightarrow> checked_signed w (x + bal) = Some (x + bal)"
  using bal width zero_less_power [of "2::int" "w - 1"] by (intro checked_signed_Some) linarith+

lemma packed_extract_eq:
  assumes "- bal \<le> x" "x \<le> bal" "e < tpb"
  shows "packed_extract w tpb bal x e = Some t \<longleftrightarrow> int (utrit_into_u8 (btrit_shift t)) = ((x + bal) div 3 ^ e) mod 3"
proof -
  have nn: "0 \<le> (x + bal) div 3 ^ e"
    using assms by (simp add: pos_imp_zdiv_nonneg_iff)
  have "packed_extract w tpb bal x e
    = map_option utrit_shift (utrit_from_u8 (nat (((x + bal) div 3 ^ e) mod 3)))"
    using assms nn
    by (simp add: packed_extract_def checked_sum checked_pow sdiv_nonneg smod_nonneg map_option_case
        split: option.split)
  also have "\<dots> = Some t \<longleftrightarrow> utrit_from_u8 (nat (((x + bal) div 3 ^ e) mod 3)) = Some (btrit_shift t)"
    by (metis btrit_shift_utrit_shift map_option_eq_Some utrit_shift_btrit_shift)
  finally show ?thesis
    by (simp add: utrit_from_digit)
qed

lemma packed_extract_total:
  assumes "- bal \<le> x" "x \<le> bal" "e < tpb"
  shows "\<exists>t. packed_extract w tpb bal x e = Some t"
  using packed_extract_eq [OF assms] utrit_of_digit [of "(x + bal) div 3 ^ e"]
  by (metis btrit_shift_utrit_shift)

lemma packed_insert_eq:
  assumes "- bal \<le> x" "x \<le> bal" "e < tpb"
  shows "packed_insert w tpb bal x e t
    = Some (set_digit (x + bal) e (int (utrit_into_u8 (btrit_shift t))) - bal)"
proof -
  let ?u = "x + bal" and ?t = "int (utrit_into_u8 (btrit_shift t))"
  let ?d = "(?u div 3 ^ e) mod 3"
  have t: "0 \<le> ?t" "?t < 3"
    by (cases t; simp)+
  have d: "0 \<le> ?d" "?d < 3"
    by simp_all
  have p: "(0::int) < 3 ^ e" "(3::int) * 3 ^ e \<le> 3 ^ tpb"
    using pow_elem [OF assms(3)] by simp_all
  have u: "0 \<le> ?u" "?u < 3 ^ tpb"
    using assms bal by linarith+
  have nn: "0 \<le> ?u div 3 ^ e"
    using u by (simp add: pos_imp_zdiv_nonneg_iff)
  have s: "0 \<le> set_digit ?u e ?t" "set_digit ?u e ?t < 3 ^ tpb"
    using set_digit_bounds [OF u assms(3) t] by simp_all
  have "\<bar>?t - ?d\<bar> \<le> 2"
    using t d by linarith
  then have "\<bar>(?t - ?d) * 3 ^ e\<bar> \<le> 2 * 3 ^ e"
    unfolding abs_mult by (intro mult_mono) simp_all
  then have sc: "checked_signed w ((?t - ?d) * 3 ^ e) = Some ((?t - ?d) * 3 ^ e)"
    using p width by (intro checked_signed_Some) linarith+
  have df: "checked_signed w (?t - ?d) = Some (?t - ?d)"
    using t d p width by (intro checked_signed_Some) linarith+
  have up: "checked_signed w (?u + (?t - ?d) * 3 ^ e) = Some (?u + (?t - ?d) * 3 ^ e)"
    using s width zero_less_power [of "2::int" "w - 1"] unfolding set_digit_def
    by (intro checked_signed_Some) linarith+
  have fin: "checked_signed w (x + (?t - ?d) * 3 ^ e) = Some (x + (?t - ?d) * 3 ^ e)"
    using s bal width unfolding set_digit_def by (intro checked_signed_Some) linarith+
  show ?thesis
    using assms(3) nn p
    by (simp add: packed_insert_def checked_sum [OF assms(1,2)] checked_pow sdiv_nonneg smod_nonneg
        u Let_def df sc up fin set_digit_def)
qed

lemma packed_insert_range:
  assumes "- bal \<le> x" "x \<le> bal" "e < tpb" "packed_insert w tpb bal x e t = Some y"
  shows "- bal \<le> y" "y \<le> bal"
proof -
  let ?t = "int (utrit_into_u8 (btrit_shift t))"
  have t: "0 \<le> ?t" "?t < 3"
    by (cases t; simp)+
  have "0 \<le> x + bal" "x + bal < 3 ^ tpb"
    using assms bal by linarith+
  then have "0 \<le> set_digit (x + bal) e ?t" "set_digit (x + bal) e ?t < 3 ^ tpb"
    using set_digit_bounds [OF _ _ assms(3) t] by simp_all
  then show "- bal \<le> y" "y \<le> bal"
    using assms bal by (auto simp: packed_insert_eq)
qed

lemma packed_extract_insert:
  assumes "- bal \<le> x" "x \<le> bal" "e < tpb" "packed_insert w tpb bal x e t = Some y" "e' < tpb"
  shows "packed_extract w tpb bal y e' = (if e' = e then Some t else packed_extract w tpb bal x e')"
proof -
  let ?t = "int (utrit_into_u8 (btrit_shift t))"
  have t: "0 \<le> ?t" "?t < 3"
    by (cases t; simp)+
  have y: "- bal \<le> y" "y \<le> bal" "y + bal = set_digit (x + bal) e ?t"
    using packed_insert_range [OF assms(1-4)] assms(1-4) by (simp_all add: packed_insert_eq) 
  obtain r where r: "packed_extract w tpb bal y e' = Some r"
    using packed_extract_total [OF y(1,2) assms(5)] by blast
  then have "int (utrit_into_u8 (btrit_shift r)) = (set_digit (x + bal) e ?t div 3 ^ e') mod 3"
    using packed_extract_eq [OF y(1,2) assms(5)] y(3) by simp
  then have "int (utrit_into_u8 (btrit_shift r)) = (if e' = e then ?t else ((x + bal) div 3 ^ e') mod 3)"
    by (simp add: digit_set_digit [OF t])
  then show ?thesis
    using r packed_extract_eq [OF assms(1,2,5), of r] by (auto split: if_splits)
qed

lemma byte_laws:
  assumes "- bal \<le> x" "x \<le> bal" "e < tpb"
  shows "\<exists>t. packed_extract w tpb bal x e = Some t"
    and "\<exists>y. packed_insert w tpb bal x e t = Some y \<and> (- bal \<le> y \<and> y \<le> bal)
      \<and> (\<forall>e' < tpb. packed_extract w tpb bal y e' = (if e' = e then Some t else packed_extract w tpb bal x e'))"
  using packed_extract_total [OF assms] packed_insert_eq [OF assms, of t]
    packed_insert_range [OF assms] packed_extract_insert [OF assms] by blast+

end

end
