(* ===== verification/Packed_Buffer.thy ===== *)
theory Packed_Buffer
  imports Packed_Encoding
begin

text \<open>
  Buffers and slices of the packed encodings against the trit sequence they store, from the byte
  laws of a codec (locale \<open>packed_codec\<close>). Trits are addressed by their position in the memory,
  \<open>k div TPB\<close> being the byte and \<open>k mod TPB\<close> the trit within it. The result is that a packed buffer
  is a \<open>trit_buffer\<close>, that a sub-slice denotes the sub-sequence, and that writing through a
  sub-slice updates exactly one trit of the slice it came from.
\<close>

definition trit_at :: "codec \<Rightarrow> i8 list \<Rightarrow> nat \<Rightarrow> btrit" where
  "trit_at c m k = the (extract_elem c (m ! (k div TPB c)) (k mod TPB c))"

definition trit_addr :: "codec \<Rightarrow> slice \<Rightarrow> nat" where
  "trit_addr c s = base s * TPB c + snd (raw_len_offset c s)"

definition slice_trits :: "codec \<Rightarrow> i8 list \<Rightarrow> slice \<Rightarrow> btrit list" where
  "slice_trits c m s = map (\<lambda>i. trit_at c m (trit_addr c s + i)) [0..<raw_len c s]"

definition wf_slice :: "codec \<Rightarrow> i8 list \<Rightarrow> slice \<Rightarrow> bool" where
  "wf_slice c m s =
     (list_all (is_valid c) m \<and> trit_addr c s + raw_len c s \<le> length m * TPB c
      \<and> raw_len c s < 2 ^ (64 - LEN_SHIFT c) \<and> snd (raw_len_offset c s) < TPB c)"

definition packed_cap :: "codec \<Rightarrow> nat" where
  "packed_cap c = 2 ^ (64 - LEN_SHIFT c) - 1"

definition packed_inv :: "codec \<Rightarrow> packed_buf \<Rightarrow> bool" where
  "packed_inv c b =
     (list_all (is_valid c) (bytes b) \<and> count b \<le> packed_cap c
      \<and> length (bytes b) = count b div TPB c + (if count b mod TPB c = 0 then 0 else 1))"

definition packed_trits :: "codec \<Rightarrow> packed_buf \<Rightarrow> btrit list" where
  "packed_trits c b = map (trit_at c (bytes b)) [0..<count b]"

lemma length_packed_trits [simp]: "length (packed_trits c b) = count b"
  by (simp add: packed_trits_def)

lemma length_slice_trits [simp]: "length (slice_trits c m s) = raw_len c s"
  by (simp add: slice_trits_def)

locale packed_codec =
  fixes c :: codec
  assumes tpb: "1 < TPB c"
    and tpb_shift: "TPB c \<le> 2 ^ LEN_SHIFT c"
    and shift: "LEN_SHIFT c \<le> 64"
    and zero_valid: "is_valid c 0"
    and extract_total: "is_valid c x \<Longrightarrow> e < TPB c \<Longrightarrow> \<exists>t. extract_elem c x e = Some t"
    and insert_law: "is_valid c x \<Longrightarrow> e < TPB c \<Longrightarrow>
      \<exists>y. insert_elem c x e t = Some y \<and> is_valid c y
        \<and> (\<forall>e' < TPB c. extract_elem c y e' = (if e' = e then Some t else extract_elem c x e'))"
begin

lemma tpb_pos: "0 < TPB c"
  using tpb by simp

lemma mod_tpb_less [simp]: "k mod TPB c < TPB c"
  using tpb_pos by simp

subsection \<open>The fat pointer\<close>

lemma raw_len_offset_make:
  assumes "len < 2 ^ (64 - LEN_SHIFT c)"
  shows "raw_len_offset c (raw_make c ptr offset len) = (len, offset mod TPB c)"
proof -
  let ?sh = "LEN_SHIFT c" and ?r = "offset mod TPB c"
  have r: "?r < 2 ^ ?sh"
    using tpb_shift mod_tpb_less [of offset] by linarith
  have "len * 2 ^ ?sh < 2 ^ (64 - ?sh) * 2 ^ ?sh"
    using assms by simp
  then have l: "take_bit 64 (push_bit ?sh len) = push_bit ?sh len"
    using shift by (simp add: take_bit_nat_eq_self_iff push_bit_eq_mult flip: power_add)
  have "drop_bit ?sh ?r = 0" "take_bit ?sh ?r = ?r"
    using r by (simp_all add: drop_bit_eq_div take_bit_nat_eq_self_iff)
  moreover have "drop_bit ?sh (push_bit ?sh len) = len" "take_bit ?sh (push_bit ?sh len) = 0"
    by (simp_all add: drop_bit_eq_div push_bit_eq_mult take_bit_eq_mod)
  ultimately show ?thesis
    by (simp add: raw_len_offset_def raw_make_def l drop_bit_or take_bit_or flip: take_bit_eq_mask)
qed

lemma raw_ptr_addr:
  "raw_ptr c s i = (trit_addr c s + i) div TPB c"
  "(snd (raw_len_offset c s) + i) mod TPB c = (trit_addr c s + i) mod TPB c"
  using tpb_pos by (simp_all add: raw_ptr_def trit_addr_def add.assoc)

subsection \<open>Reading and writing one trit\<close>

lemma extract_trit_at:
  assumes "list_all (is_valid c) m" "k < length m * TPB c"
  shows "k div TPB c < length m"
    and "extract_elem c (m ! (k div TPB c)) (k mod TPB c) = Some (trit_at c m k)"
proof -
  show a: "k div TPB c < length m"
    using assms(2) by (simp add: less_mult_imp_div_less)
  then have "is_valid c (m ! (k div TPB c))"
    using assms(1) by (simp add: list_all_length)
  then show "extract_elem c (m ! (k div TPB c)) (k mod TPB c) = Some (trit_at c m k)"
    using extract_total [of _ "k mod TPB c"] by (fastforce simp: trit_at_def)
qed

lemma same_trit: "k div TPB c = j div TPB c \<Longrightarrow> k mod TPB c = j mod TPB c \<Longrightarrow> k = j"
  by (metis div_mult_mod_eq)

lemma write_trit:
  assumes "list_all (is_valid c) m" "k < length m * TPB c"
  obtains y where "insert_elem c (m ! (k div TPB c)) (k mod TPB c) t = Some y"
    and "list_all (is_valid c) (m[k div TPB c := y])"
    and "\<And>j. j < length m * TPB c \<Longrightarrow>
      trit_at c (m[k div TPB c := y]) j = (if j = k then t else trit_at c m j)"
proof -
  have k: "k div TPB c < length m" and v: "is_valid c (m ! (k div TPB c))"
    using extract_trit_at(1) [OF assms] assms(1) by (simp_all add: list_all_length)
  obtain y where y: "insert_elem c (m ! (k div TPB c)) (k mod TPB c) t = Some y" "is_valid c y"
    and ex: "\<forall>e' < TPB c. extract_elem c y e'
      = (if e' = k mod TPB c then Some t else extract_elem c (m ! (k div TPB c)) e')"
    using insert_law [OF v mod_tpb_less] by blast
  have valid: "list_all (is_valid c) (m[k div TPB c := y])"
    using assms(1) y(2) set_update_subset_insert [of m "k div TPB c" y] by (auto simp: list_all_iff)
  have "trit_at c (m[k div TPB c := y]) j = (if j = k then t else trit_at c m j)"
    if "j < length m * TPB c" for j
  proof (cases "j div TPB c = k div TPB c")
    case True
    then have "trit_at c (m[k div TPB c := y]) j
      = the (if j mod TPB c = k mod TPB c then Some t else extract_elem c (m ! (k div TPB c)) (j mod TPB c))"
      using k ex by (simp add: trit_at_def)
    then show ?thesis
      using same_trit [OF True] True by (cases "j mod TPB c = k mod TPB c") (auto simp: trit_at_def)
  next
    case False
    then show ?thesis
      by (auto simp: trit_at_def)
  qed
  with y(1) valid show thesis
    by (rule that)
qed

subsection \<open>Slices\<close>

lemma raw_get_law:
  assumes "wf_slice c m s" "i < raw_len c s"
  shows "raw_get_unchecked c m s i = Some (slice_trits c m s ! i)"
proof -
  have k: "list_all (is_valid c) m" "trit_addr c s + i < length m * TPB c"
    using assms by (auto simp: wf_slice_def)
  show ?thesis
    using extract_trit_at [OF k] assms(2)
    by (simp add: raw_get_unchecked_def raw_ptr_addr mem_read_def slice_trits_def)
qed

lemma raw_set_law:
  assumes "wf_slice c m s" "i < raw_len c s"
  obtains m' where "raw_set_unchecked c m s i t = Some m'"
    and "length m' = length m" and "list_all (is_valid c) m'"
    and "\<And>j. j < length m * TPB c \<Longrightarrow>
      trit_at c m' j = (if j = trit_addr c s + i then t else trit_at c m j)"
proof -
  let ?k = "trit_addr c s + i"
  have k: "list_all (is_valid c) m" "?k < length m * TPB c"
    using assms by (auto simp: wf_slice_def)
  obtain y where y: "insert_elem c (m ! (?k div TPB c)) (?k mod TPB c) t = Some y"
    "list_all (is_valid c) (m[?k div TPB c := y])"
    "\<And>j. j < length m * TPB c \<Longrightarrow>
      trit_at c (m[?k div TPB c := y]) j = (if j = ?k then t else trit_at c m j)"
    by (rule write_trit [OF k, of t]) blast
  have "raw_set_unchecked c m s i t = Some (m[?k div TPB c := y])"
    using extract_trit_at(1) [OF k] y(1)
    by (simp add: raw_set_unchecked_def raw_ptr_addr mem_read_def)
  then show thesis
    using y(2,3) by (rule that [OF _ length_list_update])
qed

lemma sub_slice_wf:
  assumes "wf_slice c m s" "start \<le> end'" "end' \<le> raw_len c s"
  shows "wf_slice c m (raw_slice_unchecked c s start end')"
    and "raw_len c (raw_slice_unchecked c s start end') = end' - start"
    and "trit_addr c (raw_slice_unchecked c s start end') = trit_addr c s + start"
proof -
  let ?o = "(snd (raw_len_offset c s) + start) mod TPB c"
  have lt: "end' - start < 2 ^ (64 - LEN_SHIFT c)"
    using assms less_imp_diff_less le_less_trans unfolding wf_slice_def by blast
  have off: "raw_len_offset c (raw_slice_unchecked c s start end') = (end' - start, ?o)"
    by (simp add: raw_slice_unchecked_def raw_len_offset_make [OF lt])
  have base: "base (raw_slice_unchecked c s start end') = raw_ptr c s start"
    by (simp add: raw_slice_unchecked_def raw_make_def)
  show len: "raw_len c (raw_slice_unchecked c s start end') = end' - start"
    by (simp add: raw_len_def off)
  show addr: "trit_addr c (raw_slice_unchecked c s start end') = trit_addr c s + start"
    by (simp add: trit_addr_def [of c "raw_slice_unchecked c s start end'"] base off raw_ptr_addr)
  show "wf_slice c m (raw_slice_unchecked c s start end')"
    unfolding wf_slice_def len addr using assms lt by (auto simp: wf_slice_def off)
qed

lemma sub_slice_trits:
  assumes "wf_slice c m s" "start \<le> end'" "end' \<le> raw_len c s"
  shows "slice_trits c m (raw_slice_unchecked c s start end')
    = take (end' - start) (drop start (slice_trits c m s))"
proof (rule nth_equalityI)
  fix i
  assume "i < length (slice_trits c m (raw_slice_unchecked c s start end'))"
  then have "i < end' - start" "start + i < raw_len c s"
    using assms sub_slice_wf(2) [OF assms] by simp_all
  then show "slice_trits c m (raw_slice_unchecked c s start end') ! i
    = take (end' - start) (drop start (slice_trits c m s)) ! i"
    by (simp add: slice_trits_def sub_slice_wf [OF assms] add.assoc)
qed (use assms in \<open>simp add: sub_slice_wf [OF assms]\<close>)

text \<open>A write through a mutable sub-slice, seen from the slice it was taken from.\<close>

lemma sub_slice_set:
  assumes "wf_slice c m s" "start \<le> end'" "end' \<le> raw_len c s" "i < end' - start"
  shows "\<exists>m'. raw_set_unchecked c m (raw_slice_unchecked c s start end') i t = Some m'
    \<and> wf_slice c m' s \<and> slice_trits c m' s = (slice_trits c m s)[start + i := t]"
proof -
  note sub = sub_slice_wf [OF assms(1-3)]
  have "i < raw_len c (raw_slice_unchecked c s start end')"
    using assms(4) sub(2) by simp
  from raw_set_law [OF sub(1) this, where t = t]
  obtain m' where m': "raw_set_unchecked c m (raw_slice_unchecked c s start end') i t = Some m'"
    "length m' = length m" "list_all (is_valid c) m'"
    "\<And>j. j < length m * TPB c \<Longrightarrow>
      trit_at c m' j = (if j = trit_addr c s + start + i then t else trit_at c m j)"
    unfolding sub(3) by metis
  have wf: "wf_slice c m' s"
    using assms(1) m'(2,3) by (simp add: wf_slice_def)
  have bound: "trit_addr c s + j < length m * TPB c" if "j < raw_len c s" for j
    using assms(1) that by (simp add: wf_slice_def)
  have "slice_trits c m' s = (slice_trits c m s)[start + i := t]"
    by (rule nth_equalityI)
      (use assms in \<open>auto simp: slice_trits_def m'(4) [OF bound] nth_list_update\<close>)
  then show ?thesis
    using m'(1) wf by blast
qed

subsection \<open>Buffers\<close>

lemma as_slice_law:
  assumes "packed_inv c b"
  shows "wf_slice c (bytes b) (raw_as_slice c b)" "raw_len c (raw_as_slice c b) = count b"
    and "trit_addr c (raw_as_slice c b) = 0" "slice_trits c (bytes b) (raw_as_slice c b) = packed_trits c b"
proof -
  have "(0::nat) < 2 ^ (64 - LEN_SHIFT c)"
    by simp
  then have lt: "count b < 2 ^ (64 - LEN_SHIFT c)"
    using assms unfolding packed_inv_def packed_cap_def by linarith
  have off: "raw_len_offset c (raw_as_slice c b) = (count b, 0)"
    by (simp add: raw_as_slice_def raw_len_offset_make [OF lt])
  show len: "raw_len c (raw_as_slice c b) = count b"
    by (simp add: raw_len_def off)
  show addr: "trit_addr c (raw_as_slice c b) = 0"
    by (simp add: trit_addr_def off) (simp add: raw_as_slice_def raw_make_def)
  have "count b \<le> length (bytes b) * TPB c"
  proof (cases "count b mod TPB c = 0")
    case True
    then show ?thesis
      using assms by (auto simp: packed_inv_def)
  next
    case False
    then have "length (bytes b) * TPB c = count b div TPB c * TPB c + TPB c"
      using assms by (simp add: packed_inv_def)
    then show ?thesis
      using div_mult_mod_eq [of "count b" "TPB c"] mod_tpb_less [of "count b"] by linarith
  qed
  then show "wf_slice c (bytes b) (raw_as_slice c b)"
    unfolding wf_slice_def len addr using assms lt tpb by (simp add: packed_inv_def off)
  show "slice_trits c (bytes b) (raw_as_slice c b) = packed_trits c b"
    by (simp add: slice_trits_def packed_trits_def len addr)
qed

lemma packed_inv_length:
  assumes "packed_inv c b" "count b = Suc p"
  shows "length (bytes b) = Suc (p div TPB c)" "p < length (bytes b) * TPB c"
proof -
  show len: "length (bytes b) = Suc (p div TPB c)"
    using assms tpb by (auto simp: packed_inv_def div_Suc mod_Suc split: if_splits)
  show "p < length (bytes b) * TPB c"
    using div_mult_mod_eq [of p "TPB c"] mod_tpb_less [of p] unfolding len mult_Suc by linarith
qed

lemma packed_invI:
  assumes "list_all (is_valid c) bs" "length bs = Suc (p div TPB c)" "p < packed_cap c"
  shows "packed_inv c \<lparr>bytes = bs, count = Suc p\<rparr>"
  using assms tpb by (auto simp: packed_inv_def div_Suc mod_Suc)

lemma packed_push_law:
  assumes "packed_inv c b" "count b < packed_cap c"
  shows "\<exists>b'. raw_push c b t = Some b' \<and> packed_inv c b' \<and> packed_trits c b' = packed_trits c b @ [t]"
proof (cases "count b mod TPB c = 0")
  case True
  obtain y where y: "insert_elem c 0 0 t = Some y" "is_valid c y" "extract_elem c y 0 = Some t"
    using insert_law [OF zero_valid tpb_pos, of t] tpb_pos by auto
  have len: "length (bytes b) = count b div TPB c" and valid: "list_all (is_valid c) (bytes b)"
    using assms(1) True by (simp_all add: packed_inv_def)
  have "packed_inv c \<lparr>bytes = bytes b @ [y], count = Suc (count b)\<rparr>"
    using valid y(2) len assms(2) by (intro packed_invI) simp_all
  moreover have "trit_at c (bytes b @ [y]) (count b) = t"
    using True len y(3) by (simp add: trit_at_def nth_append)
  moreover have "trit_at c (bytes b @ [y]) j = trit_at c (bytes b) j" if "j < count b" for j
  proof -
    have "j < length (bytes b) * TPB c"
      using that True len by auto
    then have "j div TPB c < length (bytes b)"
      by (rule less_mult_imp_div_less)
    then show ?thesis
      by (simp add: trit_at_def nth_append)
  qed
  ultimately show ?thesis
    using True y(1) by (simp add: raw_push_def packed_trits_def)
next
  case False
  have valid: "list_all (is_valid c) (bytes b)" and len: "length (bytes b) = Suc (count b div TPB c)"
    using assms(1) False by (simp_all add: packed_inv_def)
  have k: "count b < length (bytes b) * TPB c"
    using div_mult_mod_eq [of "count b" "TPB c"] mod_tpb_less [of "count b"]
    unfolding len mult_Suc by linarith
  obtain y where y: "insert_elem c (bytes b ! (count b div TPB c)) (count b mod TPB c) t = Some y"
    "list_all (is_valid c) ((bytes b)[count b div TPB c := y])"
    "\<And>j. j < length (bytes b) * TPB c \<Longrightarrow>
      trit_at c ((bytes b)[count b div TPB c := y]) j = (if j = count b then t else trit_at c (bytes b) j)"
    by (rule write_trit [OF valid k, of t]) blast
  have "bytes b \<noteq> []" and last: "last (bytes b) = bytes b ! (count b div TPB c)"
    using last_nth_Suc [OF len] by simp_all
  then have "raw_push c b t = Some \<lparr>bytes = (bytes b)[count b div TPB c := y], count = Suc (count b)\<rparr>"
    using False y(1) len by (simp add: raw_push_def)
  moreover have "packed_inv c \<lparr>bytes = (bytes b)[count b div TPB c := y], count = Suc (count b)\<rparr>"
    using y(2) len assms(2) by (intro packed_invI) simp_all
  ultimately show ?thesis
    using y(3) k by (simp add: packed_trits_def)
qed

lemma packed_pop_law:
  assumes "packed_inv c b" "count b = Suc p"
  shows "\<exists>b'. raw_pop c b = Some (b', Some (last (packed_trits c b))) \<and> packed_inv c b'
    \<and> packed_trits c b' = butlast (packed_trits c b)"
proof -
  have valid: "list_all (is_valid c) (bytes b)" and cap: "p < packed_cap c"
    using assms by (simp_all add: packed_inv_def)
  note len = packed_inv_length [OF assms]
  have lst: "last (packed_trits c b) = trit_at c (bytes b) p"
    and but: "butlast (packed_trits c b) = map (trit_at c (bytes b)) [0..<p]"
    using assms(2) by (simp_all add: packed_trits_def)
  have ne: "bytes b \<noteq> []" and last_byte: "last (bytes b) = bytes b ! (p div TPB c)"
    using last_nth_Suc [OF len(1)] by simp_all
  have ex: "extract_elem c (last (bytes b)) (p mod TPB c) = Some (trit_at c (bytes b) p)"
    unfolding last_byte by (rule extract_trit_at(2) [OF valid len(2)])
  show ?thesis
  proof (cases "count b mod TPB c = 1")
    case True
    then have p0: "p mod TPB c = 0"
      using assms(2) tpb by (auto simp: mod_Suc split: if_splits)
    have "trit_at c (butlast (bytes b)) j = trit_at c (bytes b) j" if "j < p" for j
    proof -
      have "j < p div TPB c * TPB c"
        using that p0 by auto
      then have "j div TPB c < p div TPB c"
        by (rule less_mult_imp_div_less)
      then show ?thesis
        using len(1) by (simp add: trit_at_def nth_butlast)
    qed
    moreover have "packed_inv c \<lparr>bytes = butlast (bytes b), count = p\<rparr>"
      using valid cap p0 len(1)
      by (auto simp: packed_inv_def list_all_iff dest: in_set_butlastD)
    ultimately show ?thesis
      using True assms(2) ne ex p0 by (simp add: raw_pop_def lst but packed_trits_def)
  next
    case False
    have e: "(count b + TPB c - 1) mod TPB c = p mod TPB c"
      using assms(2) tpb by simp
    have "p mod TPB c \<noteq> 0"
      using False assms(2) tpb by (auto simp: mod_Suc split: if_splits)
    then have "packed_inv c (b\<lparr>count := p\<rparr>)"
      using valid cap len(1) by (simp add: packed_inv_def)
    then show ?thesis
      using False assms(2) ne ex by (simp add: raw_pop_def e lst but packed_trits_def)
  qed
qed

lemma packed_set_law:
  assumes "packed_inv c b" "i < count b"
  shows "\<exists>m'. raw_set_unchecked c (bytes b) (raw_as_slice c b) i t = Some m'
    \<and> packed_inv c (b\<lparr>bytes := m'\<rparr>) \<and> packed_trits c (b\<lparr>bytes := m'\<rparr>) = (packed_trits c b)[i := t]"
proof -
  note sl = as_slice_law [OF assms(1)]
  have i: "i < raw_len c (raw_as_slice c b)"
    using assms(2) sl(2) by simp
  from raw_set_law [OF sl(1) i, where t = t]
  obtain m' where m': "raw_set_unchecked c (bytes b) (raw_as_slice c b) i t = Some m'"
    "length m' = length (bytes b)" "list_all (is_valid c) m'"
    "\<And>j. j < length (bytes b) * TPB c \<Longrightarrow> trit_at c m' j = (if j = i then t else trit_at c (bytes b) j)"
    unfolding sl(3) add_0 by metis
  have "count b \<le> length (bytes b) * TPB c"
    using sl(1) by (simp add: wf_slice_def sl(2,3))
  then have "packed_trits c (b\<lparr>bytes := m'\<rparr>) = (packed_trits c b)[i := t]"
    by (intro nth_equalityI) (auto simp: packed_trits_def m'(4) nth_list_update)
  then show ?thesis
    using m'(1-3) assms(1) by (simp add: packed_inv_def)
qed

sublocale trit_buffer "packed_buf_dict c" "packed_inv c" "packed_trits c" "packed_cap c"
proof
  show "packed_inv c (buf_new (packed_buf_dict c))"
    by (simp add: packed_buf_dict_def raw_new_def packed_inv_def)
  show "packed_trits c (buf_new (packed_buf_dict c)) = []"
    by (simp add: packed_buf_dict_def raw_new_def packed_trits_def)
next
  fix b t
  assume "packed_inv c b" "length (packed_trits c b) < packed_cap c"
  then show "\<exists>b'. buf_push (packed_buf_dict c) b t = Some b' \<and> packed_inv c b'
      \<and> packed_trits c b' = packed_trits c b @ [t]"
    using packed_push_law [of b t] by (simp add: packed_buf_dict_def)
next
  fix b
  assume b: "packed_inv c b" "packed_trits c b = []"
  then have "count b = 0"
    by (simp add: packed_trits_def)
  then show "buf_pop (packed_buf_dict c) b = Some (b, None)"
    by (simp add: packed_buf_dict_def raw_pop_def)
next
  fix b
  assume b: "packed_inv c b" "packed_trits c b \<noteq> []"
  then obtain p where "count b = Suc p"
    by (cases "count b") (auto simp: packed_trits_def)
  then show "\<exists>b'. buf_pop (packed_buf_dict c) b = Some (b', Some (last (packed_trits c b)))
      \<and> packed_inv c b' \<and> packed_trits c b' = butlast (packed_trits c b)"
    using packed_pop_law [OF b(1)] by (simp add: packed_buf_dict_def)
next
  fix b
  assume "packed_inv c b"
  then show "buf_len (packed_buf_dict c) b = length (packed_trits c b)"
    by (simp add: packed_buf_dict_def as_slice_law)
next
  fix b i
  assume "packed_inv c b" "i < length (packed_trits c b)"
  then show "buf_get_unchecked (packed_buf_dict c) b i = Some (packed_trits c b ! i)"
    by (simp add: packed_buf_dict_def raw_get_law as_slice_law)
next
  fix b i t
  assume "packed_inv c b" "i < length (packed_trits c b)"
  then show "\<exists>b'. buf_set_unchecked (packed_buf_dict c) b i t = Some b' \<and> packed_inv c b'
      \<and> packed_trits c b' = (packed_trits c b)[i := t]"
    using packed_set_law [of b i t] by (auto simp: packed_buf_dict_def)
qed

subsection \<open>Decoding received bytes\<close>

lemma try_from_raw_law:
  assumes "list_all (is_valid c) raw" "num_trits \<le> length raw * TPB c" "num_trits \<le> packed_cap c"
  shows "\<exists>s. raw_try_from_raw c raw num_trits = Some (Inr s) \<and> wf_slice c raw s
    \<and> slice_trits c raw s = map (trit_at c raw) [0..<num_trits]"
proof -
  have "(0::nat) < 2 ^ (64 - LEN_SHIFT c)"
    by simp
  then have lt: "num_trits < 2 ^ (64 - LEN_SHIFT c)"
    using assms(3) unfolding packed_cap_def by linarith
  let ?s = "raw_make c 0 0 num_trits"
  have off: "raw_len_offset c ?s = (num_trits, 0)"
    by (simp add: raw_len_offset_make [OF lt])
  then have len: "raw_len c ?s = num_trits" and addr: "trit_addr c ?s = 0"
    by (simp_all add: raw_len_def trit_addr_def) (simp add: raw_make_def)
  have "wf_slice c raw ?s"
    unfolding wf_slice_def len addr using assms lt off tpb_pos by simp
  moreover have "slice_trits c raw ?s = map (trit_at c raw) [0..<num_trits]"
    by (simp add: slice_trits_def len addr)
  ultimately show ?thesis
    using assms by (simp add: raw_try_from_raw_def raw_from_raw_unchecked_def)
qed

end

end
