(* ===== verification/Encodings.thy ===== *)
theory Encodings
  imports Packed_Buffer
begin

text \<open>
  The five encodings of bee-ternary: T1B1 (one trit per byte, t1b1.rs) and the packed T2B1, T3B1,
  T4B1 and T5B1 (t2b1.rs to t5b1.rs), as instances of the shared operations. Every encoding is
  shown to satisfy the contract \<open>trit_buffer\<close>; conversions between any two of them keep the trits.
\<close>

section \<open>T2B1, T3B1, T4B1: arithmetic in i8\<close>

definition t2b1_extract :: "i8 \<Rightarrow> nat \<Rightarrow> btrit option" where
  "t2b1_extract = packed_extract 8 2 4"

definition t2b1_insert :: "i8 \<Rightarrow> nat \<Rightarrow> btrit \<Rightarrow> i8 option" where
  "t2b1_insert = packed_insert 8 2 4"

definition t2b1_is_valid :: "i8 \<Rightarrow> bool" where
  "t2b1_is_valid b = (- 4 \<le> b \<and> b \<le> 4)"

definition t2b1 :: codec where
  "t2b1 = \<lparr>TPB = 2, LEN_SHIFT = 2, extract_elem = t2b1_extract, insert_elem = t2b1_insert,
           is_valid = t2b1_is_valid\<rparr>"

definition t3b1_extract :: "i8 \<Rightarrow> nat \<Rightarrow> btrit option" where
  "t3b1_extract = packed_extract 8 3 13"

definition t3b1_insert :: "i8 \<Rightarrow> nat \<Rightarrow> btrit \<Rightarrow> i8 option" where
  "t3b1_insert = packed_insert 8 3 13"

definition t3b1_is_valid :: "i8 \<Rightarrow> bool" where
  "t3b1_is_valid b = (- 13 \<le> b \<and> b \<le> 13)"

definition t3b1 :: codec where
  "t3b1 = \<lparr>TPB = 3, LEN_SHIFT = 2, extract_elem = t3b1_extract, insert_elem = t3b1_insert,
           is_valid = t3b1_is_valid\<rparr>"

definition t4b1_extract :: "i8 \<Rightarrow> nat \<Rightarrow> btrit option" where
  "t4b1_extract = packed_extract 8 4 40"

definition t4b1_insert :: "i8 \<Rightarrow> nat \<Rightarrow> btrit \<Rightarrow> i8 option" where
  "t4b1_insert = packed_insert 8 4 40"

definition t4b1_is_valid :: "i8 \<Rightarrow> bool" where
  "t4b1_is_valid b = (- 40 \<le> b \<and> b \<le> 40)"

definition t4b1 :: codec where
  "t4b1 = \<lparr>TPB = 4, LEN_SHIFT = 2, extract_elem = t4b1_extract, insert_elem = t4b1_insert,
           is_valid = t4b1_is_valid\<rparr>"

section \<open>T5B1: arithmetic in i16, the result cast back to i8\<close>

definition t5b1_extract :: "i8 \<Rightarrow> nat \<Rightarrow> btrit option" where
  "t5b1_extract = packed_extract 16 5 121"

definition t5b1_insert :: "i8 \<Rightarrow> nat \<Rightarrow> btrit \<Rightarrow> i8 option" where
  "t5b1_insert x elem trit = map_option as_i8 (packed_insert 16 5 121 x elem trit)"

definition t5b1_is_valid :: "i8 \<Rightarrow> bool" where
  "t5b1_is_valid b = (- 121 \<le> b \<and> b \<le> 121)"

definition t5b1 :: codec where
  "t5b1 = \<lparr>TPB = 5, LEN_SHIFT = 3, extract_elem = t5b1_extract, insert_elem = t5b1_insert,
           is_valid = t5b1_is_valid\<rparr>"

definition packed_encodings :: "codec list" where
  "packed_encodings = [t2b1, t3b1, t4b1, t5b1]"

section \<open>Trait implementations\<close>

text \<open>
  The slice trait \<open>RawEncoding\<close>. \<open>enc_as_i8_slice\<close> returns the fat pointer \<open>(address, length)\<close> of the
  byte slice; it panics on a slice that is not byte-aligned.
\<close>

record raw_encoding =
  enc_len :: "slice \<Rightarrow> nat"
  enc_as_i8_slice :: "slice \<Rightarrow> (nat \<times> nat) option"
  enc_get_unchecked :: "i8 list \<Rightarrow> slice \<Rightarrow> nat \<Rightarrow> btrit option"
  enc_set_unchecked :: "i8 list \<Rightarrow> slice \<Rightarrow> nat \<Rightarrow> btrit \<Rightarrow> i8 list option"
  enc_slice_unchecked :: "slice \<Rightarrow> nat \<Rightarrow> nat \<Rightarrow> slice"
  enc_is_valid :: "i8 \<Rightarrow> bool"
  enc_from_raw_unchecked :: "i8 list \<Rightarrow> nat \<Rightarrow> slice option"

text \<open>
  T2B1 to T4B1 build the byte slice with \<open>make\<close>, whose \<open>len\<close> argument they round up in \<open>f32\<close>, and
  cast the resulting fat pointer: its length word is the shifted one \<open>make\<close> stored. The \<open>f32\<close>
  quotient is exact enough for the ceiling up to \<open>2 ^ 24\<close> trits; beyond that the model does not
  follow it (\<open>None\<close>).
\<close>

definition f32_ceil_div :: "nat \<Rightarrow> nat \<Rightarrow> nat option" where
  "f32_ceil_div len tpb = (if len \<le> 2 ^ 24 then Some ((len + tpb - 1) div tpb) else None)"

definition raw_as_i8_slice_make :: "codec \<Rightarrow> slice \<Rightarrow> (nat \<times> nat) option" where
  "raw_as_i8_slice_make c s =
     (if snd (raw_len_offset c s) = 0 then
        do {
          n \<leftarrow> f32_ceil_div (raw_len c s) (TPB c);
          let p = raw_make c (raw_ptr c s 0) 0 n;
          Some (base p, fat_len p)
        }
      else None)"

text \<open>T5B1 builds it with \<open>slice::from_raw_parts\<close>.\<close>

definition raw_as_i8_slice_parts :: "codec \<Rightarrow> slice \<Rightarrow> (nat \<times> nat) option" where
  "raw_as_i8_slice_parts c s =
     (if snd (raw_len_offset c s) = 0
      then Some (raw_ptr c s 0, (raw_len c s + snd (raw_len_offset c s) + TPB c - 1) div TPB c)
      else None)"

definition t2b1_raw :: raw_encoding where
  "t2b1_raw =
     \<lparr>enc_len = raw_len t2b1, enc_as_i8_slice = raw_as_i8_slice_make t2b1,
      enc_get_unchecked = raw_get_unchecked t2b1, enc_set_unchecked = raw_set_unchecked t2b1,
      enc_slice_unchecked = raw_slice_unchecked t2b1, enc_is_valid = t2b1_is_valid,
      enc_from_raw_unchecked = raw_from_raw_unchecked t2b1\<rparr>"

definition t3b1_raw :: raw_encoding where
  "t3b1_raw =
     \<lparr>enc_len = raw_len t3b1, enc_as_i8_slice = raw_as_i8_slice_make t3b1,
      enc_get_unchecked = raw_get_unchecked t3b1, enc_set_unchecked = raw_set_unchecked t3b1,
      enc_slice_unchecked = raw_slice_unchecked t3b1, enc_is_valid = t3b1_is_valid,
      enc_from_raw_unchecked = raw_from_raw_unchecked t3b1\<rparr>"

definition t4b1_raw :: raw_encoding where
  "t4b1_raw =
     \<lparr>enc_len = raw_len t4b1, enc_as_i8_slice = raw_as_i8_slice_make t4b1,
      enc_get_unchecked = raw_get_unchecked t4b1, enc_set_unchecked = raw_set_unchecked t4b1,
      enc_slice_unchecked = raw_slice_unchecked t4b1, enc_is_valid = t4b1_is_valid,
      enc_from_raw_unchecked = raw_from_raw_unchecked t4b1\<rparr>"

definition t5b1_raw :: raw_encoding where
  "t5b1_raw =
     \<lparr>enc_len = raw_len t5b1, enc_as_i8_slice = raw_as_i8_slice_parts t5b1,
      enc_get_unchecked = raw_get_unchecked t5b1, enc_set_unchecked = raw_set_unchecked t5b1,
      enc_slice_unchecked = raw_slice_unchecked t5b1, enc_is_valid = t5b1_is_valid,
      enc_from_raw_unchecked = raw_from_raw_unchecked t5b1\<rparr>"

definition t2b1_buf :: "(packed_buf, btrit) raw_encoding_buf" where
  "t2b1_buf = packed_buf_dict t2b1"

definition t3b1_buf :: "(packed_buf, btrit) raw_encoding_buf" where
  "t3b1_buf = packed_buf_dict t3b1"

definition t4b1_buf :: "(packed_buf, btrit) raw_encoding_buf" where
  "t4b1_buf = packed_buf_dict t4b1"

definition t5b1_buf :: "(packed_buf, btrit) raw_encoding_buf" where
  "t5b1_buf = packed_buf_dict t5b1"

section \<open>T1B1\<close>

text \<open>A vector of trits; slices of it are reborrowed as sub-lists.\<close>

definition t1b1_push :: "'t list \<Rightarrow> 't \<Rightarrow> 't list option" where
  "t1b1_push b trit = Some (b @ [trit])"

definition t1b1_pop :: "'t list \<Rightarrow> ('t list \<times> 't option) option" where
  "t1b1_pop b = Some (if b = [] then (b, None) else (butlast b, Some (last b)))"

definition t1b1_get_unchecked :: "'t list \<Rightarrow> nat \<Rightarrow> 't option" where
  "t1b1_get_unchecked b index = (if index < length b then Some (b ! index) else None)"

definition t1b1_set_unchecked :: "'t list \<Rightarrow> nat \<Rightarrow> 't \<Rightarrow> 't list option" where
  "t1b1_set_unchecked b index trit = (if index < length b then Some (b[index := trit]) else None)"

definition t1b1_slice_unchecked :: "'t list \<Rightarrow> nat \<Rightarrow> nat \<Rightarrow> 't list" where
  "t1b1_slice_unchecked b start end' = take (end' - start) (drop start b)"

definition t1b1_buf :: "('t list, 't) raw_encoding_buf" where
  "t1b1_buf =
     \<lparr>buf_new = [], buf_push = t1b1_push, buf_pop = t1b1_pop, buf_len = length,
      buf_get_unchecked = t1b1_get_unchecked, buf_set_unchecked = t1b1_set_unchecked\<rparr>"

text \<open>
  \<open>into_shifted\<close> rewrites every byte of the vector in place: the byte is converted to a trit of the
  source type (a failure is unreachable), shifted, and written back as a byte that the vector of the
  target type then contains.
\<close>

definition t1b1_into_shifted :: "btrit list \<Rightarrow> utrit list option" where
  "t1b1_into_shifted inner =
     those (map (\<lambda>t. do { trit \<leftarrow> btrit_try_from_i8 t; utrit_try_from_i8 (utrit_into_i8 (btrit_shift trit)) })
       (map btrit_into_i8 inner))"

definition t1b1_into_shifted_utrit :: "utrit list \<Rightarrow> btrit list option" where
  "t1b1_into_shifted_utrit inner =
     those (map (\<lambda>t. do { trit \<leftarrow> utrit_try_from_i8 t; btrit_try_from_i8 (btrit_into_i8 (utrit_shift trit)) })
       (map utrit_into_i8 inner))"

text \<open>\<open>Trits::slice\<close>, \<open>Trits::chunks\<close> and \<open>Trits::copy_raw_bytes\<close> (lib.rs) on T1B1.\<close>

definition t1b1_slice :: "'t list \<Rightarrow> nat \<Rightarrow> nat \<Rightarrow> 't list option" where
  "t1b1_slice b start end' =
     (if start \<le> end' \<and> end' \<le> length b then Some (t1b1_slice_unchecked b start end') else None)"

text \<open>The starts \<open>0, chunk_len, 2 * chunk_len, ...\<close> below the length (\<open>step_by\<close>).\<close>

definition step_by :: "nat \<Rightarrow> nat \<Rightarrow> nat list" where
  "step_by n k = map (\<lambda>i. i * k) [0..<(n + k - 1) div k]"

definition t1b1_chunks :: "'t list \<Rightarrow> nat \<Rightarrow> 't list list option" where
  "t1b1_chunks self chunk_len =
     (if 0 < chunk_len
      then those (map (\<lambda>i. t1b1_slice self i (min (i + chunk_len) (length self)))
        (step_by (length self) chunk_len))
      else None)"

definition t1b1_copy_raw_bytes :: "'t list \<Rightarrow> 't list \<Rightarrow> nat \<Rightarrow> nat \<Rightarrow> 't list option" where
  "t1b1_copy_raw_bytes self trits offset count' =
     (if offset + count' \<le> length self \<and> count' \<le> length trits
      then Some (take offset self @ take count' trits @ drop (offset + count') self)
      else None)"

section \<open>Every encoding satisfies its contract\<close>

interpretation byte2: balanced_byte 8 2 4
  by unfold_locales simp_all

interpretation byte3: balanced_byte 8 3 13
  by unfold_locales simp_all

interpretation byte4: balanced_byte 8 4 40
  by unfold_locales simp_all

interpretation byte5: balanced_byte 16 5 121
  by unfold_locales simp_all

lemmas t2b1_defs = t2b1_def t2b1_extract_def t2b1_insert_def t2b1_is_valid_def
lemmas t3b1_defs = t3b1_def t3b1_extract_def t3b1_insert_def t3b1_is_valid_def
lemmas t4b1_defs = t4b1_def t4b1_extract_def t4b1_insert_def t4b1_is_valid_def
lemmas t5b1_defs = t5b1_def t5b1_extract_def t5b1_insert_def t5b1_is_valid_def

context balanced_byte
begin

lemma packed_codecI:
  assumes "1 < tpb" "tpb \<le> 2 ^ sh" "sh \<le> 64"
  shows "packed_codec \<lparr>TPB = tpb, LEN_SHIFT = sh, extract_elem = packed_extract w tpb bal,
    insert_elem = packed_insert w tpb bal, is_valid = (\<lambda>b. - bal \<le> b \<and> b \<le> bal)\<rparr>"
proof -
  have "0 \<le> bal"
    using bal one_le_power [of "3::int" tpb] by linarith
  then show ?thesis
    by unfold_locales (use assms byte_laws in \<open>simp_all cong: if_cong split del: if_split\<close>)
qed

end

interpretation t2b1: packed_codec t2b1
  using byte2.packed_codecI [of 2] by (simp add: t2b1_defs [abs_def])

interpretation t3b1: packed_codec t3b1
  using byte3.packed_codecI [of 2] by (simp add: t3b1_defs [abs_def])

interpretation t4b1: packed_codec t4b1
  using byte4.packed_codecI [of 2] by (simp add: t4b1_defs [abs_def])

interpretation t5b1: packed_codec t5b1
proof
  fix x e t
  assume x: "is_valid t5b1 x" "e < TPB t5b1"
  then have r: "- 121 \<le> x" "x \<le> 121" "e < 5"
    by (simp_all add: t5b1_defs)
  obtain y where y: "packed_insert 16 5 121 x e t = Some y" "- 121 \<le> y" "y \<le> 121"
    and ex: "\<forall>e' < 5. packed_extract 16 5 121 y e' = (if e' = e then Some t else packed_extract 16 5 121 x e')"
    using byte5.byte_laws(2) [OF r] by blast
  have "insert_elem t5b1 x e t = Some y"
    using y by (simp add: t5b1_defs)
  then show "\<exists>y. insert_elem t5b1 x e t = Some y \<and> is_valid t5b1 y
      \<and> (\<forall>e' < TPB t5b1. extract_elem t5b1 y e' = (if e' = e then Some t else extract_elem t5b1 x e'))"
    using y ex by (simp add: t5b1_defs)
qed (use byte5.byte_laws in \<open>simp_all add: t5b1_defs\<close>)

lemma packed_encodings_codec: "c \<in> set packed_encodings \<Longrightarrow> packed_codec c"
  by (auto simp: packed_encodings_def intro: t2b1.packed_codec_axioms t3b1.packed_codec_axioms
      t4b1.packed_codec_axioms t5b1.packed_codec_axioms)

interpretation t1b1: trit_buffer t1b1_buf "\<lambda>_. True" "\<lambda>b. b" "2 ^ 63 - 1"
  by unfold_locales
    (simp_all add: t1b1_buf_def t1b1_push_def t1b1_pop_def t1b1_get_unchecked_def t1b1_set_unchecked_def)

interpretation t1b1_t5b1: trit_buffer_pair t1b1_buf "\<lambda>_. True" "\<lambda>b. b" "2 ^ 63 - 1"
    "packed_buf_dict t5b1" "packed_inv t5b1" "packed_trits t5b1" "packed_cap t5b1"
  by unfold_locales

interpretation t5b1_t1b1: trit_buffer_pair "packed_buf_dict t5b1" "packed_inv t5b1" "packed_trits t5b1"
    "packed_cap t5b1" t1b1_buf "\<lambda>_. True" "\<lambda>b. b" "2 ^ 63 - 1"
  by unfold_locales

lemma t1b1_into_shifted_eq [simp]: "t1b1_into_shifted ts = Some (map btrit_shift ts)"
  by (induction ts) (auto simp: t1b1_into_shifted_def)

lemma t1b1_into_shifted_utrit_eq [simp]: "t1b1_into_shifted_utrit us = Some (map utrit_shift us)"
  by (induction us) (auto simp: t1b1_into_shifted_utrit_def)

lemma map_Some_those [simp]: "those (map (\<lambda>x. Some (f x)) xs) = Some (map f xs)"
  by (induction xs) auto

text \<open>Through any packed encoding and back.\<close>

context packed_codec
begin

lemma t1b1_roundtrip:
  assumes "length ts \<le> packed_cap c"
  shows "\<exists>b. trits_encode t1b1_buf (packed_buf_dict c) ts = Some b \<and> packed_inv c b
    \<and> trits_encode (packed_buf_dict c) t1b1_buf b = Some ts"
proof -
  obtain b where b: "trit_buf_from_iter (packed_buf_dict c) ts = Some b" "packed_inv c b"
    "packed_trits c b = ts"
    using from_iter_law [OF assms] by blast
  have "trits_encode t1b1_buf (packed_buf_dict c) ts = Some b"
    using b(1) t1b1.iter_law [of ts] by (simp add: trits_encode_def)
  moreover have "trit_buf_from_iter t1b1_buf ts = Some ts"
  proof -
    have "push_all t1b1_buf xs ts = Some (xs @ ts)" for xs
      by (induction ts arbitrary: xs) (simp_all add: t1b1_buf_def t1b1_push_def)
    then show ?thesis
      by (simp add: trit_buf_from_iter_def t1b1_buf_def)
  qed
  then have "trits_encode (packed_buf_dict c) t1b1_buf b = Some ts"
    using iter_law [OF b(2)] b(3) by (simp add: trits_encode_def)
  ultimately show ?thesis
    using b(2) by blast
qed

end

section \<open>Properties of the encodings\<close>

text \<open>
  C8. Encoding a sequence of trits from T1B1 into any of the packed encodings and back gives the
  sequence again, and no step panics or reads outside the buffer.
\<close>

theorem encode_roundtrip:
  assumes "c \<in> set packed_encodings" "length ts \<le> packed_cap c"
  shows "\<exists>b. trits_encode t1b1_buf (packed_buf_dict c) ts = Some b \<and> packed_inv c b
    \<and> trits_encode (packed_buf_dict c) t1b1_buf b = Some ts"
  by (rule packed_codec.t1b1_roundtrip [OF packed_encodings_codec [OF assms(1)] assms(2)])

theorem encode_roundtrip_witness:
  "\<exists>b. trits_encode t1b1_buf (packed_buf_dict t5b1) [PlusOne, NegOne, Zero, Zero, PlusOne, NegOne] = Some b
    \<and> packed_inv t5b1 b
    \<and> trits_encode (packed_buf_dict t5b1) t1b1_buf b = Some [PlusOne, NegOne, Zero, Zero, PlusOne, NegOne]"
  by (rule encode_roundtrip) (simp_all add: packed_encodings_def packed_cap_def t5b1_def)

text \<open>
  C9. Writing through a mutable sub-slice of a packed slice changes exactly the addressed trit of
  the slice it was taken from, also where the sub-slice starts in the middle of a byte.
\<close>

theorem sub_slice_write:
  assumes "c \<in> set packed_encodings" "wf_slice c m s"
    and "start \<le> end'" "end' \<le> raw_len c s" "i < end' - start"
  shows "\<exists>m'. raw_set_unchecked c m (raw_slice_unchecked c s start end') i t = Some m'
    \<and> wf_slice c m' s \<and> slice_trits c m' s = (slice_trits c m s)[start + i := t]"
  by (rule packed_codec.sub_slice_set [OF packed_encodings_codec [OF assms(1)] assms(2-5)])

theorem sub_slice_write_witness:
  "wf_slice t3b1 [5, - 7] (raw_make t3b1 0 0 6)
    \<and> (\<exists>m'. raw_set_unchecked t3b1 [5, - 7] (raw_slice_unchecked t3b1 (raw_make t3b1 0 0 6) 2 5) 1 PlusOne
        = Some m' \<and> wf_slice t3b1 m' (raw_make t3b1 0 0 6)
      \<and> slice_trits t3b1 m' (raw_make t3b1 0 0 6)
        = (slice_trits t3b1 [5, - 7] (raw_make t3b1 0 0 6))[2 + 1 := PlusOne])"
proof -
  have len: "raw_len_offset t3b1 (raw_make t3b1 0 0 6) = (6, 0)"
    by (subst t3b1.raw_len_offset_make) (simp_all add: t3b1_def)
  then have wf: "wf_slice t3b1 [5, - 7] (raw_make t3b1 0 0 6)" and "5 \<le> raw_len t3b1 (raw_make t3b1 0 0 6)"
    by (simp_all add: wf_slice_def raw_len_def trit_addr_def) (simp add: t3b1_defs raw_make_def)
  then show ?thesis
    using sub_slice_write [of t3b1 "[5, - 7]" "raw_make t3b1 0 0 6" 2 5 1 PlusOne]
    by (simp add: packed_encodings_def)
qed

text \<open>
  Reading a packed sub-slice is reading the sub-sequence: the checked \<open>slice\<close> panics exactly when
  the range is not inside the slice, and otherwise denotes the trits of that range.
\<close>

theorem sub_slice_read:
  assumes "c \<in> set packed_encodings" "wf_slice c m s"
  shows "case raw_slice c s start end' of
      None \<Rightarrow> \<not> (start \<le> end' \<and> end' \<le> raw_len c s)
    | Some s' \<Rightarrow> wf_slice c m s' \<and> raw_len c s' = end' - start
        \<and> slice_trits c m s' = take (end' - start) (drop start (slice_trits c m s))"
proof -
  have codec: "packed_codec c"
    by (rule packed_encodings_codec [OF assms(1)])
  show ?thesis
    using packed_codec.sub_slice_wf [OF codec assms(2), of start end']
      packed_codec.sub_slice_trits [OF codec assms(2), of start end']
    by (simp add: raw_slice_def)
qed

theorem sub_slice_read_witness:
  "wf_slice t5b1 [100, - 3] (raw_make t5b1 0 0 9)
    \<and> (case raw_slice t5b1 (raw_make t5b1 0 0 9) 3 8 of
      None \<Rightarrow> \<not> ((3::nat) \<le> 8 \<and> 8 \<le> raw_len t5b1 (raw_make t5b1 0 0 9))
    | Some s' \<Rightarrow> wf_slice t5b1 [100, - 3] s' \<and> raw_len t5b1 s' = 8 - 3
        \<and> slice_trits t5b1 [100, - 3] s'
          = take (8 - 3) (drop 3 (slice_trits t5b1 [100, - 3] (raw_make t5b1 0 0 9))))"
proof -
  have "raw_len_offset t5b1 (raw_make t5b1 0 0 9) = (9, 0)"
    by (subst t5b1.raw_len_offset_make) (simp_all add: t5b1_def)
  then have "wf_slice t5b1 [100, - 3] (raw_make t5b1 0 0 9)"
    by (simp add: wf_slice_def raw_len_def trit_addr_def) (simp add: t5b1_defs raw_make_def)
  then show ?thesis
    using sub_slice_read [of t5b1 "[100, - 3]" "raw_make t5b1 0 0 9" 3 8]
    by (simp add: packed_encodings_def)
qed

text \<open>
  Received bytes are decoded or refused, never misread: \<open>try_from_raw\<close> returns \<open>InvalidRepr\<close>
  exactly when some byte is not valid in the encoding, and otherwise a slice that holds the trits of
  the bytes.
\<close>

theorem try_from_raw_decodes:
  assumes "c \<in> set packed_encodings" "num_trits \<le> length raw * TPB c" "num_trits \<le> packed_cap c"
  shows "if list_all (is_valid c) raw
    then \<exists>s. raw_try_from_raw c raw num_trits = Some (Inr s) \<and> wf_slice c raw s
      \<and> slice_trits c raw s = map (trit_at c raw) [0..<num_trits]
    else raw_try_from_raw c raw num_trits = Some (Inl InvalidRepr)"
  using packed_codec.try_from_raw_law [OF packed_encodings_codec [OF assms(1)] _ assms(2,3)]
  by (simp add: raw_try_from_raw_def)

theorem try_from_raw_decodes_witness:
  "if list_all (is_valid t5b1) [121, - 121, 7]
    then \<exists>s. raw_try_from_raw t5b1 [121, - 121, 7] 14 = Some (Inr s) \<and> wf_slice t5b1 [121, - 121, 7] s
      \<and> slice_trits t5b1 [121, - 121, 7] s = map (trit_at t5b1 [121, - 121, 7]) [0..<14]
    else raw_try_from_raw t5b1 [121, - 121, 7] 14 = Some (Inl InvalidRepr)"
  by (rule try_from_raw_decodes) (simp_all add: packed_encodings_def packed_cap_def t5b1_def)

lemma ceil_div_3: "n div 3 + (if n mod 3 = 0 then 0 else 1) = (n + 2) div (3::nat)"
  by (cases "n mod 3 = 0") (simp_all, presburger+)

lemma ceil_div_5: "n div 5 + (if n mod 5 = 0 then 0 else 1) = (n + 4) div (5::nat)"
  by (cases "n mod 5 = 0") (simp_all, presburger+)

text \<open>
  The byte view of a non-empty T3B1 buffer is too long: \<open>as_i8_slice\<close> of a buffer of \<open>n\<close> trits
  returns a slice of four times the \<open>\<lceil>n / 3\<rceil>\<close> bytes the buffer has, because it casts the fat pointer
  in which \<open>make\<close> stored the shifted length. T5B1 returns exactly the bytes of the buffer.
\<close>

theorem as_i8_slice_length:
  assumes "packed_inv t3b1 b" "packed_inv t5b1 b'" "count b \<le> 2 ^ 24"
  shows "enc_as_i8_slice t3b1_raw (raw_as_slice t3b1 b) = Some (0, 4 * length (bytes b))
    \<and> enc_as_i8_slice t5b1_raw (raw_as_slice t5b1 b') = Some (0, length (bytes b'))"
proof
  have len: "length (bytes b) = (count b + 2) div 3"
    using assms(1) ceil_div_3 [of "count b"] unfolding packed_inv_def t3b1_def by simp
  have n: "take_bit 64 ((count b + 2) div 3 * 4) = (count b + 2) div 3 * 4"
    using assms(3) by (intro take_bit_nat_eq_self) simp
  have "raw_len_offset t3b1 (raw_as_slice t3b1 b) = (count b, 0)"
    using t3b1.as_slice_law(2) [OF assms(1)] t3b1.as_slice_law(3) [OF assms(1)]
    by (simp add: raw_len_def trit_addr_def prod_eq_iff)
  moreover have "base (raw_as_slice t3b1 b) = 0" for b
    by (simp add: raw_as_slice_def raw_make_def)
  moreover have "TPB t3b1 = 3" "LEN_SHIFT t3b1 = 2"
    by (simp_all add: t3b1_def)
  ultimately show "enc_as_i8_slice t3b1_raw (raw_as_slice t3b1 b) = Some (0, 4 * length (bytes b))"
    using assms(3) n
    by (simp add: t3b1_raw_def raw_as_i8_slice_make_def f32_ceil_div_def raw_len_def raw_ptr_def
        raw_make_def len push_bit_eq_mult)
next
  have len: "length (bytes b') = (count b' + 4) div 5"
    using assms(2) ceil_div_5 [of "count b'"] unfolding packed_inv_def t5b1_def by simp
  have "raw_len_offset t5b1 (raw_as_slice t5b1 b') = (count b', 0)"
    using t5b1.as_slice_law(2) [OF assms(2)] t5b1.as_slice_law(3) [OF assms(2)]
    by (simp add: raw_len_def trit_addr_def prod_eq_iff)
  moreover have "base (raw_as_slice t5b1 b') = 0"
    by (simp add: raw_as_slice_def raw_make_def)
  moreover have "TPB t5b1 = 5"
    by (simp add: t5b1_def)
  ultimately show "enc_as_i8_slice t5b1_raw (raw_as_slice t5b1 b') = Some (0, length (bytes b'))"
    by (simp add: t5b1_raw_def raw_as_i8_slice_parts_def raw_len_def raw_ptr_def len)
qed

theorem as_i8_slice_length_witness:
  "enc_as_i8_slice t3b1_raw (raw_as_slice t3b1 \<lparr>bytes = [1, 2], count = 5\<rparr>) = Some (0, 4 * length [1::int, 2])
    \<and> enc_as_i8_slice t5b1_raw (raw_as_slice t5b1 \<lparr>bytes = [1], count = 5\<rparr>) = Some (0, length [1::int])"
  using as_i8_slice_length [of "\<lparr>bytes = [1, 2], count = 5\<rparr>" "\<lparr>bytes = [1], count = 5\<rparr>"]
  by (simp add: packed_inv_def packed_cap_def t3b1_defs t5b1_defs)

end
