(* ===== verification/Num_Conversions.thy ===== *)
theory Num_Conversions
  imports Encodings
begin

text \<open>
  Conversions between \<open>i64\<close> and T1B1 trit buffers (bee-ternary/src/num_conversions.rs). Values of
  \<open>i64\<close>, \<open>u64\<close> and \<open>i128\<close> are integers whose arithmetic is checked against the width (a panic
  otherwise); the cast \<open>as i64\<close> wraps. Proved: the loops stop and never panic, the conversion to
  trits represents the value with the least number of trits, the conversion back is exact on the
  range of \<open>i64\<close>, and both together are the identity.
\<close>

definition RADIX :: nat where
  "RADIX = 3"

text \<open>\<open>(0.63 * 64_f32) as usize + 1\<close>\<close>

definition MAX_TRITS_IN_I64 :: nat where
  "MAX_TRITS_IN_I64 = 41"

definition i64_MIN :: int where
  "i64_MIN = - (2 ^ 63)"

definition i64_MAX :: int where
  "i64_MAX = 2 ^ 63 - 1"

definition as_i64 :: "int \<Rightarrow> int" where
  "as_i64 v = (v + 2 ^ 63) mod 2 ^ 64 - 2 ^ 63"

text \<open>A \<open>u64\<close> result of checked arithmetic.\<close>

definition checked_u64 :: "nat \<Rightarrow> nat option" where
  "checked_u64 n = (if n < 2 ^ 64 then Some n else None)"

section \<open>min_trits\<close>

function min_trits_loop :: "nat \<Rightarrow> nat \<Rightarrow> nat \<Rightarrow> nat option" where
  "min_trits_loop value vp num =
     (if value > vp
      then (case checked_u64 (vp * RADIX + 1) of
              None \<Rightarrow> None
            | Some vp' \<Rightarrow> min_trits_loop value vp' (num + 1))
      else Some num)"
  by pat_completeness auto
termination
  by (relation "measure (\<lambda>(value, vp, num). value - vp)")
    (auto simp: checked_u64_def RADIX_def split: if_splits)

definition min_trits :: "nat \<Rightarrow> nat option" where
  "min_trits value = min_trits_loop value 1 1"

section \<open>From i64\<close>

fun trits_from_loop :: "bool \<Rightarrow> nat list \<Rightarrow> nat \<Rightarrow> btrit list \<Rightarrow> btrit list option" where
  "trits_from_loop negative [] value_abs buf = Some buf"
| "trits_from_loop negative (pos # ps) value_abs buf =
     (if value_abs = 0 then Some buf
      else do {
        inc \<leftarrow> checked_u64 (value_abs + 1);
        let curr_trit = int (inc mod RADIX) - 1;
        let curr_trit = (if negative then - curr_trit else curr_trit);
        trit \<leftarrow> btrit_try_from_i8 curr_trit;
        buf \<leftarrow> trits_set t1b1_buf buf pos trit;
        trits_from_loop negative ps (inc div RADIX) buf
      })"

definition trits_from_i64 :: "int \<Rightarrow> btrit list option" where
  "trits_from_i64 value =
     do {
       let negative = (value < 0);
       let value_abs = (if value = i64_MIN then nat i64_MAX + 1 else nat \<bar>value\<bar>);
       size \<leftarrow> min_trits value_abs;
       buf \<leftarrow> trit_buf_zeros t1b1_buf btrit_zero size;
       trits_from_loop negative [0..<size] value_abs buf
     }"

section \<open>TryFrom for i64\<close>

datatype trits_i64_conversion_error = EmptyTrits | AbsValueTooBig

definition trit_value :: "btrit \<Rightarrow> int" where
  "trit_value t = (case t of Zero \<Rightarrow> 0 | NegOne \<Rightarrow> - 1 | PlusOne \<Rightarrow> 1)"

text \<open>The high trits must be zero; the first that is not stops the loop with an error.\<close>

fun high_trits_zero :: "btrit list \<Rightarrow> nat list \<Rightarrow> bool option" where
  "high_trits_zero trits [] = Some True"
| "high_trits_zero trits (index # is) =
     (case trits_get t1b1_buf trits index of
        Some (Some t) \<Rightarrow> if t \<noteq> Zero then Some False else high_trits_zero trits is
      | _ \<Rightarrow> None)"

text \<open>The accumulation in \<open>i128\<close>: the range check after every trit, then the cast to \<open>i64\<close>.\<close>

fun accum_i128_loop ::
  "btrit list \<Rightarrow> nat list \<Rightarrow> int \<Rightarrow> int \<Rightarrow> (trits_i64_conversion_error + int) option" where
  "accum_i128_loop trits [] accum_i128 accum = Some (Inr accum)"
| "accum_i128_loop trits (index # is) accum_i128 accum =
     (case trits_get t1b1_buf trits index of
        Some (Some t) \<Rightarrow>
          do {
            p \<leftarrow> checked_signed 128 (accum_i128 * int RADIX);
            a \<leftarrow> checked_signed 128 (p + trit_value t);
            if (a > 0 \<and> a > i64_MAX) \<or> (a < 0 \<and> a < i64_MIN - 1) then Some (Inl AbsValueTooBig)
            else accum_i128_loop trits is a (as_i64 a)
          }
      | _ \<Rightarrow> None)"

fun accum_i64_loop :: "btrit list \<Rightarrow> nat list \<Rightarrow> int \<Rightarrow> int option" where
  "accum_i64_loop trits [] accum = Some accum"
| "accum_i64_loop trits (index # is) accum =
     (case trits_get t1b1_buf trits index of
        Some (Some t) \<Rightarrow>
          do {
            p \<leftarrow> checked_signed 64 (accum * int RADIX);
            a \<leftarrow> checked_signed 64 (p + trit_value t);
            accum_i64_loop trits is a
          }
      | _ \<Rightarrow> None)"

definition i64_try_from_trits :: "btrit list \<Rightarrow> (trits_i64_conversion_error + int) option" where
  "i64_try_from_trits trits =
     (if length trits = 0 then Some (Inl EmptyTrits)
      else do {
        zeros \<leftarrow> (if length trits > MAX_TRITS_IN_I64
                  then high_trits_zero trits [MAX_TRITS_IN_I64..<length trits] else Some True);
        if \<not> zeros then Some (Inl AbsValueTooBig)
        else if length trits \<ge> MAX_TRITS_IN_I64
        then accum_i128_loop trits (rev [0..<length trits]) 0 0
        else map_option Inr (accum_i64_loop trits (rev [0..<length trits]) 0)
      })"

section \<open>Correctness of the conversion to trits\<close>

declare min_trits_loop.simps [simp del]

lemma half_range_mono: "m \<le> n \<Longrightarrow> half_range m \<le> half_range n"
  by (simp add: half_range_def div_le_mono diff_le_mono)

lemma half_range_strict: "m < n \<Longrightarrow> half_range m < half_range n"
  using half_range_mono [of "Suc m" n] by simp

lemma half_range_41: "half_range 41 = 18236498188585393201"
  by (simp add: half_range_def)

lemma half_range_40: "half_range 40 = 6078832729528464400"
  by (simp add: half_range_def)

lemma min_trits_loop_law:
  assumes "a \<le> 2 ^ 63" "vp = half_range num" "0 < num"
    and "\<And>m. m < num \<Longrightarrow> half_range m < a \<or> m = 0"
  shows "\<exists>n. min_trits_loop a vp num = Some n \<and> 0 < n \<and> a \<le> half_range n
    \<and> (\<forall>m < n. half_range m < a \<or> m = 0)"
  using assms
proof (induction a vp num rule: min_trits_loop.induct)
  case (1 a vp num)
  show ?case
  proof (cases "a > vp")
    case True
    have "half_range num < half_range 41"
      using True "1.prems"(1,2) half_range_41 by simp
    then have "num < 41"
      by (meson half_range_mono linorder_not_less)
    then have "half_range (Suc num) \<le> half_range 41"
      by (intro half_range_mono) simp
    then have chk: "checked_u64 (vp * RADIX + 1) = Some (half_range (Suc num))"
      using "1.prems"(2) half_range_41 by (simp add: checked_u64_def RADIX_def)
    moreover have "half_range m < a \<or> m = 0" if "m < num + 1" for m
      using "1.prems"(2) "1.prems"(4) [of m] True that by (cases "m = num") auto
    moreover have "min_trits_loop a vp num = min_trits_loop a (half_range (Suc num)) (num + 1)"
      using True chk by (simp only: min_trits_loop.simps [of a vp num] if_True option.case)
    ultimately show ?thesis
      using "1.IH" [OF True chk] "1.prems" by simp
  next
    case False
    then have "min_trits_loop a vp num = Some num"
      by (simp add: min_trits_loop.simps [of a vp num])
    with False "1.prems" show ?thesis
      by auto
  qed
qed

lemma min_trits_law:
  assumes "a \<le> 2 ^ 63"
  shows "\<exists>n. min_trits a = Some n \<and> 0 < n \<and> n \<le> 41 \<and> a \<le> half_range n
    \<and> (\<forall>m < n. half_range m < a \<or> m = 0)"
proof -
  obtain n where n: "min_trits a = Some n" "0 < n" "a \<le> half_range n"
    "\<forall>m < n. half_range m < a \<or> m = 0"
    using min_trits_loop_law [of a 1 1] assms by (auto simp: min_trits_def)
  have "n \<le> 41"
  proof (rule ccontr)
    assume "\<not> n \<le> 41"
    then have "half_range 41 < a"
      using n(4) [rule_format, of 41] by simp
    then show False
      using assms half_range_41 by simp
  qed
  with n show ?thesis
    by blast
qed

text \<open>One step of the digit loop.\<close>

definition next_trit :: "bool \<Rightarrow> nat \<Rightarrow> btrit" where
  "next_trit negative v =
     (case (v + 1) mod 3 of 0 \<Rightarrow> if negative then PlusOne else NegOne
      | Suc 0 \<Rightarrow> Zero | _ \<Rightarrow> if negative then NegOne else PlusOne)"

definition signed_value :: "bool \<Rightarrow> nat \<Rightarrow> int" where
  "signed_value negative v = (if negative then - int v else int v)"

lemma next_trit_conv:
  "btrit_try_from_i8 (if negative then - (int ((v + 1) mod 3) - 1) else int ((v + 1) mod 3) - 1)
    = Some (next_trit negative v)"
proof -
  have "(v + 1) mod 3 < 3"
    by simp
  then consider "(v + 1) mod 3 = 0" | "(v + 1) mod 3 = 1" | "(v + 1) mod 3 = 2"
    by linarith
  then show ?thesis
    by cases (simp_all add: next_trit_def btrit_try_from_i8_def)
qed

lemma next_trit_value:
  "signed_value negative v = btrit_into_i8 (next_trit negative v) + 3 * signed_value negative ((v + 1) div 3)"
proof -
  have v: "int v + 1 = 3 * int ((v + 1) div 3) + int ((v + 1) mod 3)"
    by (metis mult_div_mod_eq of_nat_1 of_nat_add of_nat_mult of_nat_numeral)
  have "(v + 1) mod 3 < 3"
    by simp
  then consider "(v + 1) mod 3 = 0" | "(v + 1) mod 3 = 1" | "(v + 1) mod 3 = 2"
    by linarith
  then show ?thesis
    using v by cases (simp_all add: next_trit_def signed_value_def)
qed

lemma trits_from_loop_law:
  assumes "v \<le> half_range n" "v \<le> 2 ^ 63" "length buf = pos + n" "drop pos buf = replicate n Zero"
  shows "\<exists>ts. trits_from_loop negative [pos..<pos + n] v buf = Some (take pos buf @ ts)
    \<and> length ts = n \<and> bal_val ts = signed_value negative v"
  using assms
proof (induction n arbitrary: pos v buf)
  case 0
  then show ?case
    by (auto simp: signed_value_def)
next
  case (Suc n)
  have upt: "[pos..<pos + Suc n] = pos # [Suc pos..<Suc pos + n]"
    by (simp add: upt_conv_Cons)
  show ?case
  proof (cases "v = 0")
    case True
    have "bal_val (replicate m Zero) = 0" for m
      by (induction m) auto
    moreover have "trits_from_loop negative [pos..<pos + Suc n] v buf = Some buf"
      unfolding upt using True by simp
    moreover have "take pos buf @ replicate (Suc n) Zero = buf"
      using append_take_drop_id [of pos buf] Suc.prems(4) by simp
    ultimately show ?thesis
      using True by (intro exI [of _ "replicate (Suc n) Zero"]) (simp add: signed_value_def)
  next
    case False
    let ?t = "next_trit negative v" and ?v = "(v + 1) div 3"
    let ?buf = "buf[pos := ?t]"
    have v: "?v \<le> half_range n" "?v \<le> 2 ^ 63"
      using Suc.prems(1,2) by simp_all
    have "drop (Suc pos) buf = tl (drop pos buf)"
      by (simp add: drop_Suc tl_drop)
    then have len: "length ?buf = Suc pos + n" and dr: "drop (Suc pos) ?buf = replicate n Zero"
      using Suc.prems(3,4) by simp_all
    have "checked_u64 (v + 1) = Some (v + 1)"
      using Suc.prems(2) by (simp add: checked_u64_def)
    moreover have "trits_set t1b1_buf buf pos ?t = Some ?buf"
      using Suc.prems(3) by (simp add: trits_set_def t1b1_buf_def t1b1_set_unchecked_def)
    ultimately have step: "trits_from_loop negative [pos..<pos + Suc n] v buf
      = trits_from_loop negative [Suc pos..<Suc pos + n] ?v ?buf"
      using False next_trit_conv [of negative v]
      by (simp only: upt trits_from_loop.simps RADIX_def Let_def if_False bind.bind_lunit)
    obtain ts where ts: "trits_from_loop negative [Suc pos..<Suc pos + n] ?v ?buf
        = Some (take (Suc pos) ?buf @ ts)" "length ts = n" "bal_val ts = signed_value negative ?v"
      using Suc.IH [OF v len dr] by blast
    have "take (Suc pos) ?buf = take pos buf @ [?t]"
      using Suc.prems(3) by (simp add: take_Suc_conv_app_nth)
    then show ?thesis
      using ts step next_trit_value [of negative v] by (intro exI [of _ "?t # ts"]) simp
  qed
qed

lemma trits_from_i64_law:
  assumes "i64_MIN \<le> v" "v \<le> i64_MAX"
  shows "\<exists>ts. trits_from_i64 v = Some ts \<and> bal_val ts = v \<and> 0 < length ts \<and> length ts \<le> 41
    \<and> (\<forall>m < length ts. half_range m < nat \<bar>v\<bar> \<or> m = 0)"
proof -
  let ?a = "nat \<bar>v\<bar>"
  have a: "?a \<le> 2 ^ 63" and abs: "(if v = i64_MIN then nat i64_MAX + 1 else ?a) = ?a"
    using assms by (auto simp: i64_MIN_def i64_MAX_def)
  obtain n where n: "min_trits ?a = Some n" "0 < n" "n \<le> 41" "?a \<le> half_range n"
    "\<forall>m < n. half_range m < ?a \<or> m = 0"
    using min_trits_law [OF a] by blast
  have z: "trit_buf_zeros t1b1_buf btrit_zero n = Some (replicate n Zero)"
    using t1b1.filled_law [of n btrit_zero] n(3) by (simp add: trit_buf_zeros_def btrit_zero_def)
  obtain ts where ts: "trits_from_loop (v < 0) [0..<n] ?a (replicate n Zero) = Some ts"
    "length ts = n" "bal_val ts = signed_value (v < 0) ?a"
    using trits_from_loop_law [OF n(4) a, of "replicate n Zero" 0 "v < 0"] by auto
  have "trits_from_i64 v = Some ts"
    using n(1) z ts(1) unfolding trits_from_i64_def Let_def abs by simp
  then show ?thesis
    using ts n by (auto simp: signed_value_def)
qed

section \<open>Correctness of the conversion from trits\<close>

lemma trit_value_eq [simp]: "trit_value t = btrit_into_i8 t"
  by (cases t) (auto simp: trit_value_def)

lemma t1b1_trits_get [simp]:
  "trits_get t1b1_buf ts i = Some (if i < length ts then Some (ts ! i) else None)"
  using t1b1.get_checked_law [of ts i] by simp

lemma rev_upt_Suc: "rev [0..<Suc k] = k # rev [0..<k]"
  by simp

lemma bal_val_drop_step:
  "k < length ts \<Longrightarrow> bal_val (drop k ts) = btrit_into_i8 (ts ! k) + 3 * bal_val (drop (Suc k) ts)"
  by (simp add: Cons_nth_drop_Suc [symmetric])

lemma bal_val_replicate_Zero [simp]: "bal_val (replicate n Zero) = 0"
  by (induction n) auto

definition zero_from :: "nat \<Rightarrow> btrit list \<Rightarrow> bool" where
  "zero_from m ts = list_all (\<lambda>t. t = Zero) (drop m ts)"

lemma zero_from_bal_val:
  assumes "zero_from m ts"
  shows "\<bar>bal_val (drop j ts)\<bar> \<le> int (half_range (m - j))"
proof -
  let ?ds = "drop j ts"
  have "set (drop (m - j) ?ds) \<subseteq> set (drop m ts)"
  proof (cases "j \<le> m")
    case True
    then show ?thesis
      by (simp add: drop_drop)
  next
    case False
    then have "m - j = 0" "m \<le> j"
      by simp_all
    then show ?thesis
      using set_drop_subset_set_drop [of m j ts] by simp
  qed
  then have "list_all (\<lambda>t. t = Zero) (drop (m - j) ?ds)"
    using assms unfolding zero_from_def list_all_iff by blast
  then have "drop (m - j) ?ds = replicate (length (drop (m - j) ?ds)) Zero"
    by (intro replicate_eqI) (auto simp: list_all_iff)
  then have "bal_val (drop (m - j) ?ds) = 0"
    by (metis bal_val_replicate_Zero)
  then have "bal_val ?ds = bal_val (take (m - j) ?ds)"
    using bal_val_append [of "take (m - j) ?ds" "drop (m - j) ?ds"]
    unfolding append_take_drop_id by simp
  also have "\<bar>\<dots>\<bar> \<le> int (half_range (length (take (m - j) ?ds)))"
    by (rule bal_val_bound)
  also have "\<dots> \<le> int (half_range (m - j))"
    by (simp add: half_range_mono)
  finally show ?thesis .
qed

lemma bal_val_zero_from:
  assumes "\<bar>bal_val ts\<bar> \<le> int (half_range m)"
  shows "zero_from m ts"
proof (cases "length ts \<le> m")
  case False
  let ?B = "bal_val (drop m ts)"
  have len: "length (take m ts) = m"
    using False by simp
  have "bal_val ts = bal_val (take m ts) + 3 ^ m * ?B"
    using bal_val_append [of "take m ts" "drop m ts"] False by simp
  moreover have "\<bar>bal_val (take m ts)\<bar> \<le> int (half_range m)"
    using bal_val_bound [of "take m ts"] by (simp only: len)
  ultimately have "\<bar>3 ^ m * ?B\<bar> \<le> 2 * int (half_range m)"
    using assms by linarith
  moreover have "2 * int (half_range m) < 3 ^ m"
    using half_range_double [of m] by (metis less_add_one of_nat_1 of_nat_add of_nat_mult of_nat_numeral of_nat_power)
  ultimately have less: "3 ^ m * \<bar>?B\<bar> < 3 ^ m"
    unfolding abs_mult power_abs abs_numeral by (rule le_less_trans)
  have "?B = 0"
  proof (rule ccontr)
    assume "?B \<noteq> 0"
    then have "1 \<le> \<bar>?B\<bar>"
      by linarith
    then have "(3 ^ m :: int) * 1 \<le> 3 ^ m * \<bar>?B\<bar>"
      by (intro mult_left_mono) simp_all
    then show False
      using less by linarith
  qed
  then have "drop m ts = replicate (length (drop m ts)) Zero"
    by (intro bal_val_inj) simp_all
  then show ?thesis
    unfolding zero_from_def list_all_iff by (auto dest: arg_cong [of _ _ set])
qed (simp add: zero_from_def)

lemma high_trits_zero_eq:
  "m \<le> length ts \<Longrightarrow> high_trits_zero ts [m..<length ts] = Some (zero_from m ts)"
proof (induction "length ts - m" arbitrary: m)
  case (Suc n)
  then have m: "m < length ts" and "[m..<length ts] = m # [Suc m..<length ts]"
    and "drop m ts = ts ! m # drop (Suc m) ts"
    by (simp_all add: upt_conv_Cons Cons_nth_drop_Suc)
  then show ?case
    using Suc by (simp add: zero_from_def)
qed (simp add: zero_from_def)

lemma accum_i64_loop_eq:
  assumes "length ts \<le> 40" "k \<le> length ts"
  shows "accum_i64_loop ts (rev [0..<k]) (bal_val (drop k ts)) = Some (bal_val ts)"
  using assms(2)
proof (induction k)
  case (Suc k)
  then have k: "k < length ts"
    by simp
  let ?a = "bal_val (drop (Suc k) ts)"
  have b: "\<bar>bal_val (drop k ts)\<bar> \<le> int (half_range 40)"
  proof -
    have "half_range (length (drop k ts)) \<le> half_range 40"
      using assms(1) by (intro half_range_mono) simp
    then show ?thesis
      using bal_val_bound [of "drop k ts"] by linarith
  qed
  then have "checked_signed 64 (?a * 3 + btrit_into_i8 (ts ! k)) = Some (bal_val (drop k ts))"
    unfolding bal_val_drop_step [OF k] half_range_40 abs_le_iff by (simp add: checked_signed_def)
  moreover have "checked_signed 64 (?a * 3) = Some (?a * 3)"
    using b btrit_into_i8_range [of "ts ! k"] unfolding bal_val_drop_step [OF k] half_range_40 abs_le_iff
    by (simp add: checked_signed_def)
  ultimately show ?case
    using Suc k by (simp add: rev_upt_Suc RADIX_def)
qed simp

lemma as_i64_id: "i64_MIN \<le> v \<Longrightarrow> v \<le> i64_MAX \<Longrightarrow> as_i64 v = v"
  by (simp add: as_i64_def i64_MIN_def i64_MAX_def)

lemma as_i64_below_MIN: "as_i64 (i64_MIN - 1) = i64_MAX"
  by (simp add: as_i64_def i64_MIN_def i64_MAX_def)

lemma accum_i128_loop_eq:
  assumes "zero_from 41 ts" "k < length ts"
  shows "accum_i128_loop ts (rev [0..<Suc k]) (bal_val (drop (Suc k) ts)) acc =
    Some (if i64_MIN - 1 \<le> bal_val ts \<and> bal_val ts \<le> i64_MAX then Inr (as_i64 (bal_val ts))
      else Inl AbsValueTooBig)"
  using assms(2)
proof (induction k arbitrary: acc)
  case 0
  have b: "\<bar>bal_val ts\<bar> \<le> int (half_range 41)"
    using zero_from_bal_val [OF assms(1), of 0] by simp
  have eq: "bal_val ts = btrit_into_i8 (ts ! 0) + 3 * bal_val (drop (Suc 0) ts)"
    using bal_val_drop_step [of 0 ts] 0 by simp
  have "checked_signed 128 (bal_val (drop (Suc 0) ts) * 3) = Some (bal_val (drop (Suc 0) ts) * 3)"
    "checked_signed 128 (bal_val (drop (Suc 0) ts) * 3 + btrit_into_i8 (ts ! 0)) = Some (bal_val ts)"
    using b btrit_into_i8_range [of "ts ! 0"] unfolding eq half_range_41 abs_le_iff
    by (simp_all add: checked_signed_def)
  then show ?case
    using 0 by (auto simp: RADIX_def i64_MIN_def i64_MAX_def)
next
  case (Suc k)
  have b: "\<bar>bal_val (drop (Suc k) ts)\<bar> \<le> int (half_range 40)"
  proof -
    have "half_range (41 - Suc k) \<le> half_range 40"
      by (intro half_range_mono) simp
    then show ?thesis
      using zero_from_bal_val [OF assms(1), of "Suc k"] by linarith
  qed
  have eq: "bal_val (drop (Suc k) ts) = btrit_into_i8 (ts ! Suc k) + 3 * bal_val (drop (Suc (Suc k)) ts)"
    using bal_val_drop_step [OF Suc.prems] .
  have "checked_signed 128 (bal_val (drop (Suc (Suc k)) ts) * 3) = Some (bal_val (drop (Suc (Suc k)) ts) * 3)"
    "checked_signed 128 (bal_val (drop (Suc (Suc k)) ts) * 3 + btrit_into_i8 (ts ! Suc k))
      = Some (bal_val (drop (Suc k) ts))"
    using b btrit_into_i8_range [of "ts ! Suc k"] unfolding eq half_range_40 abs_le_iff
    by (simp_all add: checked_signed_def)
  moreover have "\<not> (bal_val (drop (Suc k) ts) > i64_MAX)" "\<not> (bal_val (drop (Suc k) ts) < i64_MIN - 1)"
    using b by (simp_all add: half_range_40 i64_MIN_def i64_MAX_def)
  ultimately show ?case
    using Suc.IH [of "as_i64 (bal_val (drop (Suc k) ts))"] Suc.prems
    unfolding rev_upt_Suc [of "Suc k"] by (simp add: RADIX_def del: upt_Suc)
qed

lemma i64_try_from_trits_eq:
  "i64_try_from_trits ts = Some (
     if ts = [] then Inl EmptyTrits
     else if i64_MIN \<le> bal_val ts \<and> bal_val ts \<le> i64_MAX then Inr (bal_val ts)
     else if bal_val ts = i64_MIN - 1 then Inr i64_MAX
     else Inl AbsValueTooBig)"
proof (cases "length ts < 41")
  case True
  have "half_range (length ts) \<le> half_range 40"
    using True by (intro half_range_mono) simp
  then have "\<bar>bal_val ts\<bar> \<le> int (half_range 40)"
    using bal_val_bound [of ts] by linarith
  then have "i64_MIN \<le> bal_val ts" "bal_val ts \<le> i64_MAX"
    by (simp_all add: half_range_40 i64_MIN_def i64_MAX_def)
  then show ?thesis
    using True accum_i64_loop_eq [of ts "length ts"]
    by (simp add: i64_try_from_trits_def MAX_TRITS_IN_I64_def)
next
  case False
  have high: "(if length ts > 41 then high_trits_zero ts [41..<length ts] else Some True) = Some (zero_from 41 ts)"
    using False high_trits_zero_eq [of 41 ts] by (auto simp: zero_from_def)
  show ?thesis
  proof (cases "zero_from 41 ts")
    case True
    obtain k where k: "length ts = Suc k"
      using False by (cases "length ts") auto
    have "accum_i128_loop ts (rev [0..<length ts]) 0 0 = Some (
      if i64_MIN - 1 \<le> bal_val ts \<and> bal_val ts \<le> i64_MAX then Inr (as_i64 (bal_val ts))
      else Inl AbsValueTooBig)"
      using accum_i128_loop_eq [OF True, of k 0] k by (simp del: upt_Suc)
    moreover have "ts \<noteq> []" and le: "i64_MIN - 1 \<le> i64_MAX"
      using k by (auto simp: i64_MIN_def i64_MAX_def)
    ultimately show ?thesis
      using False high True le as_i64_id [of "bal_val ts"]
      by (auto simp: i64_try_from_trits_def MAX_TRITS_IN_I64_def as_i64_below_MIN)
  next
    case notz: False
    then have "\<not> \<bar>bal_val ts\<bar> \<le> int (half_range 41)"
      using bal_val_zero_from by blast
    then have "\<not> (i64_MIN \<le> bal_val ts \<and> bal_val ts \<le> i64_MAX)" "bal_val ts \<noteq> i64_MIN - 1"
      by (auto simp: half_range_41 i64_MIN_def i64_MAX_def)
    moreover have "ts \<noteq> []"
      using False by auto
    ultimately show ?thesis
      using False high notz unfolding i64_try_from_trits_def MAX_TRITS_IN_I64_def by auto
  qed
qed

section \<open>Properties of the conversions\<close>

text \<open>
  The conversion of every \<open>i64\<close> to trits returns without a panic, represents the value, and uses
  the least number of trits that can (at least one, at most 41).
\<close>

theorem trits_from_i64_correct:
  assumes "i64_MIN \<le> v" "v \<le> i64_MAX"
  shows "\<exists>ts. trits_from_i64 v = Some ts \<and> bal_val ts = v \<and> 1 \<le> length ts \<and> length ts \<le> 41
    \<and> (\<forall>us. us \<noteq> [] \<longrightarrow> bal_val us = v \<longrightarrow> length ts \<le> length us)"
proof -
  obtain ts where ts: "trits_from_i64 v = Some ts" "bal_val ts = v" "0 < length ts" "length ts \<le> 41"
    "\<forall>m < length ts. half_range m < nat \<bar>v\<bar> \<or> m = 0"
    using trits_from_i64_law [OF assms] by blast
  have "length ts \<le> length us" if "us \<noteq> []" "bal_val us = v" for us
  proof (rule ccontr)
    assume "\<not> length ts \<le> length us"
    then have "half_range (length us) < nat \<bar>v\<bar>"
      using ts(5) [rule_format, of "length us"] that(1) by simp
    then show False
      using bal_val_bound [of us] that(2) by simp
  qed
  then show ?thesis
    using ts by (intro exI [of _ ts]) (simp add: Suc_leI)
qed

theorem trits_from_i64_correct_witness:
  "\<exists>ts. trits_from_i64 (- 9223372036854775808) = Some ts \<and> bal_val ts = - 9223372036854775808
    \<and> 1 \<le> length ts \<and> length ts \<le> 41
    \<and> (\<forall>us. us \<noteq> [] \<longrightarrow> bal_val us = - 9223372036854775808 \<longrightarrow> length ts \<le> length us)"
  by (rule trits_from_i64_correct) (simp_all add: i64_MIN_def i64_MAX_def)

text \<open>
  C29. The conversion from trits, on every branch: no trits are an error, a value in the range of
  \<open>i64\<close> is returned exactly, a value outside it is an error, with one exception: trits that denote
  \<open>i64::MIN - 1\<close> pass the range check and come out as \<open>i64::MAX\<close>.
\<close>

theorem i64_try_from_trits_correct:
  "i64_try_from_trits ts = Some (
     if ts = [] then Inl EmptyTrits
     else if i64_MIN \<le> bal_val ts \<and> bal_val ts \<le> i64_MAX then Inr (bal_val ts)
     else if bal_val ts = i64_MIN - 1 then Inr i64_MAX
     else Inl AbsValueTooBig)"
  by (rule i64_try_from_trits_eq)

text \<open>Converting an \<open>i64\<close> to trits and back is the identity.\<close>

theorem i64_trits_roundtrip:
  assumes "i64_MIN \<le> v" "v \<le> i64_MAX"
  shows "\<exists>ts. trits_from_i64 v = Some ts \<and> i64_try_from_trits ts = Some (Inr v)"
proof -
  obtain ts where "trits_from_i64 v = Some ts" "bal_val ts = v" "0 < length ts"
    using trits_from_i64_law [OF assms] by blast
  then show ?thesis
    using assms by (auto simp: i64_try_from_trits_eq)
qed

theorem i64_trits_roundtrip_witness:
  "\<exists>ts. trits_from_i64 (- 42) = Some ts \<and> i64_try_from_trits ts = Some (Inr (- 42))"
  by (rule i64_trits_roundtrip) (simp_all add: i64_MIN_def i64_MAX_def)

end
