(* ===== verification/Bigint_U384.thy ===== *)
theory Bigint_U384
  imports Bee_Prelude
begin

text \<open>
  The unsigned 384-bit integers (bee-ternary/src/bigint/u384/mod.rs, utils.rs, common.rs,
  macros.rs). An array of digits is a list of words; the endianness, a phantom type in the source,
  is the prefix \<open>le_\<close> or \<open>be_\<close> of the operations. The theory holds the digit loops of both
  orders, the change of order and of digit size, and their meaning on the value of the array. The
  arithmetic of the two orders is an instance of one interface, \<open>fixed_width\<close>. The signed
  integers of i384/mod.rs carry literal copies of the loops modelled here.
\<close>

section \<open>Constants of the representation (common.rs)\<close>

definition BINARY_LEN :: nat where "BINARY_LEN = 384"
definition BINARY_LEN_IN_U8 :: nat where "BINARY_LEN_IN_U8 = BINARY_LEN div 8"
definition BINARY_LEN_IN_U32 :: nat where "BINARY_LEN_IN_U32 = BINARY_LEN div 32"

datatype bigint_error = BinaryExceedsTernaryRange | TernaryExceedsBinaryRange

section \<open>Helpers (utils.rs)\<close>

definition i64_hi :: "64 word \<Rightarrow> 32 word" where
  "i64_hi v = ucast (signed_drop_bit 32 v)"

definition i64_lo :: "64 word \<Rightarrow> u32" where
  "i64_lo v = ucast v"

definition u64_hi :: "u64 \<Rightarrow> u32" where
  "u64_hi v = ucast (drop_bit 32 v)"

definition u64_lo :: "u64 \<Rightarrow> u32" where
  "u64_lo v = ucast v"

definition overflowing_add_with_carry :: "u32 \<Rightarrow> u32 \<Rightarrow> u32 \<Rightarrow> u32 \<times> bool" where
  "overflowing_add_with_carry self other carry =
     (let (sum, first_overflow) = overflowing_add self other;
          (sum, second_overflow) = overflowing_add sum carry
      in (sum, first_overflow \<or> second_overflow))"

section \<open>Addition and subtraction\<close>

text \<open>The loops over the zipped digits, least significant first.\<close>

fun add_loop :: "u32 list \<Rightarrow> u32 list \<Rightarrow> bool \<Rightarrow> u32 list" where
  "add_loop (s # ss) (o' # os) overflown =
     (let (sum, still_overflown) = overflowing_add_with_carry s o' (of_bool overflown)
      in sum # add_loop ss os still_overflown)"
| "add_loop ss os overflown = ss"

fun sub_loop :: "u32 list \<Rightarrow> u32 list \<Rightarrow> bool \<Rightarrow> u32 list" where
  "sub_loop (s # ss) (o' # os) borrow =
     (let (sum, has_overflown) = overflowing_add_with_carry s (NOT o') (of_bool borrow)
      in sum # sub_loop ss os has_overflown)"
| "sub_loop ss os borrow = ss"

definition le_add_inplace :: "u32 list \<Rightarrow> u32 list \<Rightarrow> u32 list" where
  "le_add_inplace self other = add_loop self other False"

definition le_sub_inplace :: "u32 list \<Rightarrow> u32 list \<Rightarrow> u32 list" where
  "le_sub_inplace self other = sub_loop self other True"

definition be_add_inplace :: "u32 list \<Rightarrow> u32 list \<Rightarrow> u32 list" where
  "be_add_inplace self other = rev (add_loop (rev self) (rev other) False)"

definition be_sub_inplace :: "u32 list \<Rightarrow> u32 list \<Rightarrow> u32 list" where
  "be_sub_inplace self other = rev (sub_loop (rev self) (rev other) True)"

section \<open>Addition of one digit\<close>

text \<open>
  The carry of \<open>add_digit_inplace\<close> runs from index \<open>i\<close> towards the most significant digit. An
  index out of range is a panic, and so is \<open>i -= 1\<close> at zero in the big endian version.
\<close>

function le_carry_loop :: "nat \<Rightarrow> u32 list \<Rightarrow> bool \<Rightarrow> (u32 list \<times> nat) option" where
  "le_carry_loop i inner overflown =
     (if \<not> overflown then Some (inner, i)
      else if i < length inner
      then let (sum, still_overflown) = overflowing_add (inner ! i) 1
           in le_carry_loop (Suc i) (inner[i := sum]) still_overflown
      else None)"
  by pat_completeness auto
termination
  by (relation "measure (\<lambda>(i, inner, _). length inner - i)") auto

definition le_add_digit_inplace :: "u32 list \<Rightarrow> u32 \<Rightarrow> (u32 list \<times> nat) option" where
  "le_add_digit_inplace inner other =
     (if 0 < length inner
      then let (sum, overflown) = overflowing_add (inner ! 0) other
           in le_carry_loop 1 (inner[0 := sum]) overflown
      else None)"

fun be_carry_loop :: "nat \<Rightarrow> u32 list \<Rightarrow> bool \<Rightarrow> (u32 list \<times> nat) option" where
  "be_carry_loop i inner overflown =
     (if \<not> overflown then Some (inner, i)
      else if i < length inner
      then let (sum, still_overflown) = overflowing_add (inner ! i) 1
           in (case i of 0 \<Rightarrow> None | Suc j \<Rightarrow> be_carry_loop j (inner[i := sum]) still_overflown)
      else None)"

definition be_add_digit_inplace :: "u32 list \<Rightarrow> u32 \<Rightarrow> (u32 list \<times> nat) option" where
  "be_add_digit_inplace inner other =
     (case length inner of
        0 \<Rightarrow> None
      | Suc i \<Rightarrow>
          (let (sum, overflown) = overflowing_add (inner ! i) other
           in (case i of 0 \<Rightarrow> None | Suc j \<Rightarrow> be_carry_loop j (inner[i := sum]) overflown)))"

section \<open>Division by two\<close>

text \<open>
  The body of both loops shifts digit \<open>i\<close> right and takes its top bit from digit \<open>i + 1\<close>. The big
  endian loop starts at the last index, so that its condition is false at once.
\<close>

definition shift_digit :: "nat \<Rightarrow> u32 list \<Rightarrow> u32 list" where
  "shift_digit i inner = inner[i := drop_bit 1 (inner ! i) OR push_bit 31 (inner ! Suc i)]"

function le_div2_loop :: "nat \<Rightarrow> u32 list \<Rightarrow> u32 list" where
  "le_div2_loop i inner =
     (if i < length inner - 1 then le_div2_loop (Suc i) (shift_digit i inner) else inner)"
  by pat_completeness auto
termination
  by (relation "measure (\<lambda>(i, inner). length inner - i)") (auto simp: shift_digit_def)

definition le_divide_by_two :: "u32 list \<Rightarrow> u32 list option" where
  "le_divide_by_two inner =
     (let inner = le_div2_loop 0 inner
      in if 0 < length inner
         then Some (inner[length inner - 1 := drop_bit 1 (inner ! (length inner - 1))])
         else None)"

fun be_div2_loop :: "nat \<Rightarrow> u32 list \<Rightarrow> u32 list option" where
  "be_div2_loop i inner =
     (if i < length inner - 1
      then (case i of 0 \<Rightarrow> None | Suc j \<Rightarrow> be_div2_loop j (shift_digit i inner))
      else Some inner)"

definition be_divide_by_two :: "u32 list \<Rightarrow> u32 list option" where
  "be_divide_by_two inner =
     (case length inner of
        0 \<Rightarrow> None
      | Suc n \<Rightarrow> map_option (\<lambda>inner. inner[0 := drop_bit 1 (inner ! 0)]) (be_div2_loop n inner))"

section \<open>Comparison\<close>

definition le_u384_partial_cmp :: "u32 list \<Rightarrow> u32 list \<Rightarrow> ordering option" where
  "le_u384_partial_cmp self other = Some (cmp_digits (zip (rev self) (rev other)))"

section \<open>Endianness and digit size\<close>

definition toggle_endianness :: "'a list \<Rightarrow> 'a list" where
  "toggle_endianness inner = rev inner"

text \<open>
  \<open>byteorder::LittleEndian::write_u32_into\<close> and \<open>read_u32_into\<close>, and the big endian versions: each
  digit is written as, or read from, four consecutive bytes in the given order. \<open>read_u32_into\<close>
  panics unless the source has four bytes for each digit.
\<close>

definition u32_to_le_bytes :: "u32 \<Rightarrow> u8 list" where
  "u32_to_le_bytes d = [ucast d, ucast (drop_bit 8 d), ucast (drop_bit 16 d), ucast (drop_bit 24 d)]"

definition u32_from_le_bytes :: "u8 \<Rightarrow> u8 \<Rightarrow> u8 \<Rightarrow> u8 \<Rightarrow> u32" where
  "u32_from_le_bytes a b c d =
     ucast a OR push_bit 8 (ucast b) OR push_bit 16 (ucast c) OR push_bit 24 (ucast d)"

definition le_write_u32_into :: "u32 list \<Rightarrow> u8 list" where
  "le_write_u32_into ds = concat (map u32_to_le_bytes ds)"

definition be_write_u32_into :: "u32 list \<Rightarrow> u8 list" where
  "be_write_u32_into ds = concat (map (\<lambda>d. rev (u32_to_le_bytes d)) ds)"

fun le_read_u32_into :: "u8 list \<Rightarrow> u32 list option" where
  "le_read_u32_into [] = Some []"
| "le_read_u32_into (a # b # c # d # bs) =
     map_option (\<lambda>ds. u32_from_le_bytes a b c d # ds) (le_read_u32_into bs)"
| "le_read_u32_into _ = None"

fun be_read_u32_into :: "u8 list \<Rightarrow> u32 list option" where
  "be_read_u32_into [] = Some []"
| "be_read_u32_into (a # b # c # d # bs) =
     map_option (\<lambda>ds. u32_from_le_bytes d c b a # ds) (be_read_u32_into bs)"
| "be_read_u32_into _ = None"

section \<open>Constants (u384/constants.rs)\<close>

definition u384_LE_U32_0 :: "u32 list" where "u384_LE_U32_0 = replicate 12 0"
definition u384_LE_U32_1 :: "u32 list" where "u384_LE_U32_1 = 1 # replicate 11 0"
definition u384_LE_U32_2 :: "u32 list" where "u384_LE_U32_2 = 2 # replicate 11 0"
definition u384_LE_U32_MAX :: "u32 list" where "u384_LE_U32_MAX = replicate 12 0xFFFFFFFF"
definition u384_BE_U32_0 :: "u32 list" where "u384_BE_U32_0 = replicate 12 0"
definition u384_BE_U32_1 :: "u32 list" where "u384_BE_U32_1 = replicate 11 0 @ [1]"
definition u384_BE_U32_2 :: "u32 list" where "u384_BE_U32_2 = replicate 11 0 @ [2]"
definition u384_BE_U32_MAX :: "u32 list" where "u384_BE_U32_MAX = replicate 12 0xFFFFFFFF"

definition u384_LE_U32_HALF_MAX :: "u32 list option" where
  "u384_LE_U32_HALF_MAX = le_divide_by_two u384_LE_U32_MAX"

definition u384_BE_U32_HALF_MAX :: "u32 list option" where
  "u384_BE_U32_HALF_MAX = map_option toggle_endianness u384_LE_U32_HALF_MAX"


declare le_carry_loop.simps [simp del]
declare be_carry_loop.simps [simp del]
declare le_div2_loop.simps [simp del]
declare be_div2_loop.simps [simp del]

section \<open>The value of an array\<close>

definition le_val :: "'a::len word list \<Rightarrow> nat" where
  "le_val ds = pos_val (2 ^ LENGTH('a)) (map unat ds)"

definition be_val :: "'a::len word list \<Rightarrow> nat" where
  "be_val ds = le_val (rev ds)"

text \<open>The integer a bit pattern of width \<open>w\<close> denotes in two's complement.\<close>

definition signed_of :: "nat \<Rightarrow> nat \<Rightarrow> int" where
  "signed_of w v = (if 2 * v < 2 ^ w then int v else int v - 2 ^ w)"

lemma le_val_Nil [simp]: "le_val [] = 0"
  by (simp add: le_val_def)

lemma le_val_Cons [simp]:
  "le_val ((d :: 'a::len word) # ds) = unat d + 2 ^ LENGTH('a) * le_val ds"
  by (simp add: le_val_def)

lemma digits_below_unat [simp]: "digits_below (2 ^ LENGTH('a)) (map unat (ds :: 'a::len word list))"
  by (induction ds) auto

lemma le_val_append:
  "le_val (xs @ ys :: 'a::len word list) = le_val xs + 2 ^ (LENGTH('a) * length xs) * le_val ys"
  by (simp add: le_val_def pos_val_append power_mult)

lemma le_val_bound: "le_val (ds :: 'a::len word list) < 2 ^ (LENGTH('a) * length ds)"
  using pos_val_bound [OF digits_below_unat, of ds] by (simp add: le_val_def power_mult)

lemma le_val_inj: "length xs = length ys \<Longrightarrow> le_val xs = le_val ys \<Longrightarrow> xs = ys"
  for xs ys :: "'a::len word list"
  using pos_val_inj [of "map unat xs" "map unat ys" "2 ^ LENGTH('a)"]
    map_injective [of unat xs ys, OF _ injI]
  by (simp add: le_val_def word_unat_eq_iff)

lemma be_val_bound: "be_val (ds :: 'a::len word list) < 2 ^ (LENGTH('a) * length ds)"
  using le_val_bound [of "rev ds"] by (simp add: be_val_def)

lemma be_val_inj: "length xs = length ys \<Longrightarrow> be_val xs = be_val ys \<Longrightarrow> xs = ys"
  using le_val_inj [of "rev xs" "rev ys"] by (simp add: be_val_def)

lemma le_val_replicate_0 [simp]: "le_val (replicate n 0) = 0"
  by (induction n) auto

lemma signed_of_mod [simp]: "signed_of w v mod 2 ^ w = int v mod 2 ^ w"
  by (simp add: signed_of_def)

lemma signed_of_range:
  assumes "v < 2 ^ w" "0 < w"
  shows "- (2 ^ (w - 1)) \<le> signed_of w v" "signed_of w v < 2 ^ (w - 1)"
proof -
  obtain k where w: "w = Suc k"
    using assms(2) gr0_implies_Suc by blast
  have "int v < int (2 ^ Suc k)" "2 * v < 2 ^ Suc k \<longleftrightarrow> int v < int (2 ^ k)"
    using assms(1) unfolding w of_nat_less_iff by simp_all
  then show "- (2 ^ (w - 1)) \<le> signed_of w v" "signed_of w v < 2 ^ (w - 1)"
    unfolding w signed_of_def by auto
qed

section \<open>The digit loops compute sums and differences\<close>

lemma overflowing_add_with_carry_value:
  assumes "overflowing_add_with_carry x y (of_bool b) = (s, c)"
  shows "unat s + 2 ^ 32 * of_bool c = unat x + unat y + of_bool b"
proof -
  obtain s1 c1 s2 c2 where s1: "overflowing_add x y = (s1, c1)"
    and s2: "overflowing_add s1 (of_bool b) = (s2, c2)"
    by (metis surj_pair)
  then have "s = s2" "c = (c1 \<or> c2)"
    using assms by (auto simp: overflowing_add_with_carry_def)
  moreover have "unat s1 + 2 ^ 32 * of_bool c1 = unat x + unat y"
    "unat s2 + 2 ^ 32 * of_bool c2 = unat s1 + of_bool b"
    using overflowing_add_value [OF s1] overflowing_add_value [OF s2] by (cases b; simp)+
  moreover have "unat x < 2 ^ 32" "unat y < 2 ^ 32" "unat s1 < 2 ^ 32"
    using unat_less_pow [of x] unat_less_pow [of y] unat_less_pow [of s1] by simp_all
  ultimately show ?thesis
    by (cases c1; cases c2; cases b) simp_all
qed

lemma length_add_loop [simp]: "length (add_loop ss os b) = length ss"
  by (induction ss os b rule: add_loop.induct) (auto split: prod.split)

lemma add_loop_carry:
  "length ss = length os \<Longrightarrow>
   \<exists>c. le_val (add_loop ss os b) + 2 ^ (32 * length ss) * of_bool c = le_val ss + le_val os + of_bool b"
proof (induction ss os b rule: add_loop.induct)
  case (1 s ss o' os b)
  obtain s' c where s': "overflowing_add_with_carry s o' (of_bool b) = (s', c)"
    by (metis surj_pair)
  obtain c' where c': "le_val (add_loop ss os c) + 2 ^ (32 * length ss) * of_bool c' =
      le_val ss + le_val os + of_bool c"
    using "1.IH" [OF s' [symmetric] refl] "1.prems" by auto
  have "2 ^ 32 * le_val (add_loop ss os c) + 2 ^ (32 * length (s # ss)) * of_bool c' =
      2 ^ 32 * (le_val ss + le_val os + of_bool c)"
    unfolding c' [symmetric] distrib_left by (simp add: power_add)
  moreover have "le_val (add_loop (s # ss) (o' # os) b) = unat s' + 2 ^ 32 * le_val (add_loop ss os c)"
    "le_val (s # ss) = unat s + 2 ^ 32 * le_val ss" "le_val (o' # os) = unat o' + 2 ^ 32 * le_val os"
    using s' by simp_all
  ultimately show ?case
    using overflowing_add_with_carry_value [OF s'] unfolding distrib_left
    by (intro exI [of _ c']) linarith
qed auto

lemma add_loop_value:
  assumes "length ss = length os"
  shows "le_val (add_loop ss os b) = (le_val ss + le_val os + of_bool b) mod 2 ^ (32 * length ss)"
proof -
  obtain c where c: "le_val (add_loop ss os b) + 2 ^ (32 * length ss) * of_bool c
      = le_val ss + le_val os + of_bool b"
    using add_loop_carry [OF assms] by blast
  have "le_val (add_loop ss os b) < 2 ^ (32 * length ss)"
    using le_val_bound [of "add_loop ss os b"] by simp
  then show ?thesis
    unfolding c [symmetric] by simp
qed

lemma sub_loop_eq: "sub_loop ss os b = add_loop ss (map NOT os) b"
  by (induction ss os b rule: sub_loop.induct) (auto split: prod.split)

lemma le_val_not:
  "le_val (map NOT ds) + le_val ds = 2 ^ (LENGTH('a) * length ds) - 1" for ds :: "'a::len word list"
proof (induction ds)
  case (Cons d ds)
  have "unat (NOT d) + unat d = 2 ^ LENGTH('a) - 1"
    by (rule unat_not)
  moreover have "2 ^ LENGTH('a) * (le_val (map NOT ds) + le_val ds)
      = 2 ^ (LENGTH('a) * length (d # ds)) - 2 ^ LENGTH('a)"
    unfolding Cons.IH by (simp add: power_add right_diff_distrib')
  moreover have "(2::nat) ^ LENGTH('a) \<le> 2 ^ (LENGTH('a) * length (d # ds))"
    by (intro power_increasing) simp_all
  moreover have "(1::nat) \<le> 2 ^ LENGTH('a)"
    by simp
  ultimately show ?case
    unfolding list.map le_val_Cons distrib_left by linarith
qed simp

lemma sub_loop_value:
  assumes "length ss = length os"
  shows "le_val (sub_loop ss os True) =
    (le_val ss + (2 ^ (32 * length ss) - le_val os)) mod 2 ^ (32 * length ss)"
proof -
  have "le_val (map NOT os) + 1 = 2 ^ (32 * length ss) - le_val os"
    using le_val_not [of os] le_val_bound [of os] assms by simp
  moreover have "le_val (add_loop ss (map NOT os) True) =
      (le_val ss + (le_val (map NOT os) + 1)) mod 2 ^ (32 * length ss)"
    using assms by (simp add: add_loop_value)
  ultimately show ?thesis
    by (simp only: sub_loop_eq)
qed


section \<open>Integers of a fixed width\<close>

text \<open>
  The interface of a wrapping integer type: a value below \<open>2 ^ w\<close> that determines the
  representation, and sums and differences modulo \<open>2 ^ w\<close>. The lemmas give the group laws and the
  two's complement reading of the operations.
\<close>

locale fixed_width =
  fixes w :: nat and wf :: "'r \<Rightarrow> bool" and to_nat :: "'r \<Rightarrow> nat"
    and add sub :: "'r \<Rightarrow> 'r \<Rightarrow> 'r"
  assumes width_pos: "0 < w"
    and to_nat_bound: "wf x \<Longrightarrow> to_nat x < 2 ^ w"
    and to_nat_inj: "wf x \<Longrightarrow> wf y \<Longrightarrow> to_nat x = to_nat y \<Longrightarrow> x = y"
    and wf_add: "wf x \<Longrightarrow> wf y \<Longrightarrow> wf (add x y)"
    and wf_sub: "wf x \<Longrightarrow> wf y \<Longrightarrow> wf (sub x y)"
    and to_nat_add: "wf x \<Longrightarrow> wf y \<Longrightarrow> to_nat (add x y) = (to_nat x + to_nat y) mod 2 ^ w"
    and to_nat_sub: "wf x \<Longrightarrow> wf y \<Longrightarrow>
      to_nat (sub x y) = (to_nat x + (2 ^ w - to_nat y)) mod 2 ^ w"
begin

lemma sub_add_cancel:
  assumes "wf x" "wf y"
  shows "sub (add x y) y = x"
proof (rule to_nat_inj)
  have "to_nat (sub (add x y) y) = (to_nat x + to_nat y + (2 ^ w - to_nat y)) mod 2 ^ w"
    unfolding to_nat_sub [OF wf_add [OF assms] assms(2)] to_nat_add [OF assms] by (rule mod_add_left_eq)
  also have "\<dots> = to_nat x"
    using to_nat_bound [OF assms(1)] to_nat_bound [OF assms(2)] by simp
  finally show "to_nat (sub (add x y) y) = to_nat x" .
qed (simp_all add: assms wf_add wf_sub)

lemma add_sub_cancel: "wf x \<Longrightarrow> wf y \<Longrightarrow> add (sub x y) y = x"
  using to_nat_bound [of x] to_nat_bound [of y]
  by (intro to_nat_inj) (simp_all add: wf_add wf_sub to_nat_add to_nat_sub mod_simps)

lemma add_commute: "wf x \<Longrightarrow> wf y \<Longrightarrow> add x y = add y x"
  by (intro to_nat_inj) (simp_all add: wf_add to_nat_add add.commute)

lemma add_assoc: "wf x \<Longrightarrow> wf y \<Longrightarrow> wf z \<Longrightarrow> add (add x y) z = add x (add y z)"
  by (intro to_nat_inj) (simp_all add: wf_add to_nat_add mod_simps add.assoc)

lemma int_to_nat_sub:
  assumes "wf x" "wf y"
  shows "int (to_nat (sub x y)) = (int (to_nat x) - int (to_nat y)) mod 2 ^ w"
proof -
  have "int (to_nat (sub x y)) = (int (to_nat x) - int (to_nat y) + 2 ^ w) mod 2 ^ w"
    using to_nat_bound [OF assms(2)] by (simp add: to_nat_sub [OF assms] zmod_int of_nat_diff algebra_simps)
  then show ?thesis
    by simp
qed

lemma int_to_nat_add:
  "wf x \<Longrightarrow> wf y \<Longrightarrow> int (to_nat (add x y)) = (int (to_nat x) + int (to_nat y)) mod 2 ^ w"
  by (simp add: to_nat_add zmod_int)

lemma signed_of_unique:
  assumes "v < 2 ^ w" "int v mod 2 ^ w = i mod 2 ^ w" "- (2 ^ (w - 1)) \<le> i" "i < 2 ^ (w - 1)"
  shows "signed_of w v = i"
proof -
  have "signed_of w v mod 2 ^ w = i mod 2 ^ w"
    using assms(2) by simp
  moreover have "\<bar>signed_of w v - i\<bar> < 2 ^ w"
    using signed_of_range [OF assms(1) width_pos] assms(3,4) power_minus_mult [OF width_pos, of "2::int"]
    by linarith
  ultimately show ?thesis
    by (metis dvd_imp_le_int eq_iff_diff_eq_0 leD mod_eq_dvd_iff abs_of_nonneg abs_power2
        zero_le_numeral zero_le_power)
qed

lemma signed_add:
  assumes "wf x" "wf y" "- (2 ^ (w - 1)) \<le> signed_of w (to_nat x) + signed_of w (to_nat y)"
    "signed_of w (to_nat x) + signed_of w (to_nat y) < 2 ^ (w - 1)"
  shows "signed_of w (to_nat (add x y)) = signed_of w (to_nat x) + signed_of w (to_nat y)"
proof (rule signed_of_unique)
  have "(signed_of w (to_nat x) + signed_of w (to_nat y)) mod 2 ^ w
      = (int (to_nat x) + int (to_nat y)) mod 2 ^ w"
    by (metis mod_add_eq signed_of_mod)
  then show "int (to_nat (add x y)) mod 2 ^ w = (signed_of w (to_nat x) + signed_of w (to_nat y)) mod 2 ^ w"
    by (simp add: int_to_nat_add assms(1,2))
qed (use assms wf_add to_nat_bound in auto)

lemma signed_sub:
  assumes "wf x" "wf y" "- (2 ^ (w - 1)) \<le> signed_of w (to_nat x) - signed_of w (to_nat y)"
    "signed_of w (to_nat x) - signed_of w (to_nat y) < 2 ^ (w - 1)"
  shows "signed_of w (to_nat (sub x y)) = signed_of w (to_nat x) - signed_of w (to_nat y)"
proof (rule signed_of_unique)
  have "(signed_of w (to_nat x) - signed_of w (to_nat y)) mod 2 ^ w
      = (int (to_nat x) - int (to_nat y)) mod 2 ^ w"
    by (metis mod_diff_eq signed_of_mod)
  then show "int (to_nat (sub x y)) mod 2 ^ w = (signed_of w (to_nat x) - signed_of w (to_nat y)) mod 2 ^ w"
    by (simp add: int_to_nat_sub assms(1,2))
qed (use assms wf_sub to_nat_bound in auto)

end

definition u32_repr :: "u32 list \<Rightarrow> bool" where
  "u32_repr inner = (length inner = BINARY_LEN_IN_U32)"

definition u8_repr :: "u8 list \<Rightarrow> bool" where
  "u8_repr inner = (length inner = BINARY_LEN_IN_U8)"

lemmas repr_defs = u32_repr_def u8_repr_def BINARY_LEN_IN_U32_def BINARY_LEN_IN_U8_def BINARY_LEN_def

interpretation le384: fixed_width 384 u32_repr le_val le_add_inplace le_sub_inplace
proof
  fix x y :: "u32 list"
  assume "u32_repr x" "u32_repr y"
  then show "le_val (le_add_inplace x y) = (le_val x + le_val y) mod 2 ^ 384"
    "le_val (le_sub_inplace x y) = (le_val x + (2 ^ 384 - le_val y)) mod 2 ^ 384"
    "u32_repr (le_add_inplace x y)" "u32_repr (le_sub_inplace x y)"
    "le_val x < 2 ^ 384"
    using add_loop_value [of x y False] sub_loop_value [of x y] le_val_bound [of x]
    by (simp_all add: le_add_inplace_def le_sub_inplace_def repr_defs sub_loop_eq)
  assume "u32_repr x" "u32_repr y" "le_val x = le_val y"
  then show "x = y"
    by (intro le_val_inj) (simp_all add: repr_defs)
qed simp_all

interpretation be384: fixed_width 384 u32_repr be_val be_add_inplace be_sub_inplace
proof
  fix x y :: "u32 list"
  assume "u32_repr x" "u32_repr y"
  then show "be_val (be_add_inplace x y) = (be_val x + be_val y) mod 2 ^ 384"
    "be_val (be_sub_inplace x y) = (be_val x + (2 ^ 384 - be_val y)) mod 2 ^ 384"
    "u32_repr (be_add_inplace x y)" "u32_repr (be_sub_inplace x y)"
    "be_val x < 2 ^ 384"
    using add_loop_value [of "rev x" "rev y" False] sub_loop_value [of "rev x" "rev y"] be_val_bound [of x]
    by (simp_all add: be_add_inplace_def be_sub_inplace_def be_val_def repr_defs sub_loop_eq)
  assume "u32_repr x" "u32_repr y" "be_val x = be_val y"
  then show "x = y"
    by (intro be_val_inj) (simp_all add: repr_defs)
qed simp_all


section \<open>Addition of one digit\<close>

lemma le_val_update:
  "i < length ds \<Longrightarrow>
   le_val (ds[i := x]) + 2 ^ (LENGTH('a) * i) * unat (ds ! i) = le_val ds + 2 ^ (LENGTH('a) * i) * unat x"
  for ds :: "'a::len word list"
proof (induction ds arbitrary: i)
  case (Cons d ds)
  show ?case
  proof (cases i)
    case (Suc j)
    then have "2 ^ LENGTH('a) * (le_val (ds[j := x]) + 2 ^ (LENGTH('a) * j) * unat (ds ! j)) =
        2 ^ LENGTH('a) * (le_val ds + 2 ^ (LENGTH('a) * j) * unat x)"
      using Cons by simp
    then show ?thesis
      unfolding Suc distrib_left by (simp add: power_add mult.assoc)
  qed simp
qed simp

definition digit_sum :: "u32 list \<Rightarrow> nat \<Rightarrow> nat \<Rightarrow> (u32 list \<times> nat) option \<Rightarrow> bool" where
  "digit_sum ds i v r =
     (case r of
        None \<Rightarrow> 2 ^ (32 * length ds) \<le> v
      | Some (ds', e) \<Rightarrow> le_val ds' = v \<and> length ds' = length ds \<and> i \<le> e \<and> e \<le> length ds
          \<and> drop e ds' = drop e ds)"

lemma digit_sum_trans:
  assumes "digit_sum (ds[i := x]) (Suc i) v r" "i < length ds"
  shows "digit_sum ds i v r"
  using assms by (auto simp: digit_sum_def split: option.splits)

lemma overflowing_add_1_value:
  assumes "overflowing_add x (1 :: u32) = (s, c)"
  shows "unat s + 2 ^ 32 * of_bool c = unat x + 1"
  using overflowing_add_value [OF assms] by simp

lemma le_carry_loop_law:
  "i \<le> length ds \<Longrightarrow> digit_sum ds i (le_val ds + 2 ^ (32 * i) * of_bool b) (le_carry_loop i ds b)"
proof (induction i ds b rule: le_carry_loop.induct)
  case (1 i ds b)
  consider "\<not> b" | "b" "i = length ds" | "b" "i < length ds"
    using "1.prems" by linarith
  then show ?case
  proof cases
    case 1
    then show ?thesis
      using "1.prems" by (simp add: digit_sum_def le_carry_loop.simps)
  next
    case 2
    then show ?thesis
      by (simp add: digit_sum_def le_carry_loop.simps)
  next
    case 3
    obtain s c where s: "overflowing_add (ds ! i) 1 = (s, c)"
      by (metis surj_pair)
    have "digit_sum (ds[i := s]) (Suc i) (le_val (ds[i := s]) + 2 ^ (32 * Suc i) * of_bool c)
        (le_carry_loop (Suc i) (ds[i := s]) c)"
      using "1.IH" [of "(s, c)" s c] 3 s by simp
    moreover have "le_val (ds[i := s]) + 2 ^ (32 * Suc i) * of_bool c = le_val ds + 2 ^ (32 * i) * of_bool b"
    proof -
      have "2 ^ (32 * i) * (unat s + 2 ^ 32 * of_bool c) = 2 ^ (32 * i) * (unat (ds ! i) + 1)"
        unfolding overflowing_add_1_value [OF s] ..
      moreover have "(2::nat) ^ (32 * Suc i) = 2 ^ (32 * i) * 2 ^ 32"
        by (simp add: power_add)
      ultimately show ?thesis
        using le_val_update [of i ds s] 3 unfolding distrib_left by (simp add: mult.assoc)
    qed
    ultimately show ?thesis
      using 3 s digit_sum_trans [of ds i s] by (simp add: le_carry_loop.simps [of i ds])
  qed
qed

lemma le_add_digit_law:
  assumes "ds \<noteq> []"
  shows "digit_sum ds 1 (le_val ds + unat x) (le_add_digit_inplace ds x)"
proof -
  obtain d ds' where ds: "ds = d # ds'"
    using assms by (cases ds) auto
  obtain s c where s: "overflowing_add d x = (s, c)"
    by (metis surj_pair)
  have "le_val (s # ds') + 2 ^ 32 * of_bool c = le_val ds + unat x"
    using overflowing_add_value [OF s] by (simp add: ds)
  then have "digit_sum (s # ds') 1 (le_val ds + unat x) (le_carry_loop 1 (s # ds') c)"
    using le_carry_loop_law [of 1 "s # ds'" c] by simp
  then show ?thesis
    using s by (auto simp: ds le_add_digit_inplace_def digit_sum_def drop_Cons' split: option.splits)
qed

section \<open>Division by two\<close>

fun halve :: "u32 list \<Rightarrow> u32 list" where
  "halve [] = []"
| "halve [x] = [drop_bit 1 x]"
| "halve (x # y # ds) = (drop_bit 1 x OR push_bit 31 y) # halve (y # ds)"

lemma length_halve [simp]: "length (halve ds) = length ds"
  by (induction ds rule: halve.induct) auto

lemma le_div2_loop_halve:
  assumes "ys \<noteq> []"
  shows "(let r = le_div2_loop (length xs) (xs @ ys)
     in r[length r - 1 := drop_bit 1 (r ! (length r - 1))]) = xs @ halve ys
   \<and> length (le_div2_loop (length xs) (xs @ ys)) = length (xs @ ys)"
  using assms
proof (induction ys arbitrary: xs rule: halve.induct)
  case (2 y)
  then show ?case
    by (simp add: le_div2_loop.simps nth_append)
next
  case (3 x y ds)
  let ?x = "drop_bit 1 x OR push_bit 31 y"
  have "le_div2_loop (length xs) (xs @ x # y # ds) = le_div2_loop (length (xs @ [?x])) ((xs @ [?x]) @ y # ds)"
    by (simp add: le_div2_loop.simps [of "length xs"] shift_digit_def nth_append)
  then show ?case
    using "3.IH" [of "xs @ [?x]"] by simp
qed simp

lemma le_divide_by_two_eq: "ds \<noteq> [] \<Longrightarrow> le_divide_by_two ds = Some (halve ds)"
  using le_div2_loop_halve [of ds "[]"] by (auto simp: le_divide_by_two_def Let_def)

lemma or_push_bit_nat:
  fixes a c :: nat
  assumes "a < 2 ^ n"
  shows "a OR push_bit n c = a + 2 ^ n * c"
proof -
  have "take_bit n a AND push_bit n c = 0"
    by (rule bit_eqI) (auto simp: bit_simps)
  then have "a AND push_bit n c = 0"
    using assms by (simp add: take_bit_nat_eq_self)
  then have "a OR push_bit n c = a + push_bit n c"
    by (simp add: disjunctive_add_eq_or)
  then show ?thesis
    by (simp add: push_bit_eq_mult mult.commute)
qed

lemma unat_drop_bit_1: "unat (drop_bit 1 x :: u32) = unat x div 2"
  by (simp add: drop_bit_eq_div unat_div)

lemma unat_shift_digit:
  "unat (drop_bit 1 x OR push_bit 31 y :: u32) = unat x div 2 + 2 ^ 31 * (unat y mod 2)"
proof -
  have "unat (push_bit 31 y) = push_bit 31 (unat y mod 2)"
    unfolding unsigned_push_bit_eq take_bit_push_bit by (simp add: take_bit_eq_mod)
  moreover have "unat (drop_bit 1 x) = unat x div 2"
    by (rule unat_drop_bit_1)
  moreover have "unat x div 2 < 2 ^ 31"
    using unat_less_pow [of x] by simp
  ultimately show ?thesis
    using or_push_bit_nat [of "unat x div 2" 31 "unat y mod 2"] by (simp add: unsigned_or_eq)
qed

lemma halve_value: "le_val (halve ds) = le_val ds div 2"
proof (induction ds rule: halve.induct)
  case (2 x)
  then show ?case
    using unat_drop_bit_1 [of x] by simp
next
  case (3 x y ds)
  define V where "V = le_val (y # ds)"
  have "V mod 2 = unat y mod 2"
    unfolding V_def by (simp add: mod_add_eq [symmetric] mod_mult_eq [symmetric])
  moreover have "(unat x + 2 ^ 32 * V) div 2 = unat x div 2 + 2 ^ 31 * V"
    by simp
  moreover have "2 ^ 31 * V = 2 ^ 31 * (V mod 2) + 2 ^ 32 * (V div 2)"
    using arg_cong [OF mult_div_mod_eq [of 2 V, symmetric], of "(*) (2 ^ 31)"] unfolding distrib_left by simp
  ultimately show ?case
    using 3 unat_shift_digit [of x y] unfolding halve.simps le_val_Cons [of _ "y # ds"] le_val_Cons [of _ "halve (y # ds)"] V_def [symmetric]
    by simp
qed simp


lemma be_divide_by_two_eq:
  "be_divide_by_two (d # ds) = Some (drop_bit 1 d # ds)"
  by (simp add: be_divide_by_two_def be_div2_loop.simps)

section \<open>Comparison\<close>

lemma strict_mono_unat: "strict_mono (unat :: 'a::len word \<Rightarrow> nat)"
  by (simp add: strict_mono_def word_less_nat_alt)

lemma cmp_digits_le_val:
  fixes xs ys :: "'a::len word list"
  assumes "length xs = length ys"
  shows "cmp_digits (zip (rev xs) (rev ys)) = cmp (le_val xs) (le_val ys)"
  using cmp_digits_pos_val [of "map unat xs" "map unat ys" "2 ^ LENGTH('a)"] assms
    cmp_digits_map [OF strict_mono_unat, of "rev xs" "rev ys"]
  by (simp add: le_val_def rev_map)

lemma le_u384_partial_cmp_eq:
  "u32_repr xs \<Longrightarrow> u32_repr ys \<Longrightarrow> le_u384_partial_cmp xs ys = Some (cmp (le_val xs) (le_val ys))"
  by (simp add: le_u384_partial_cmp_def cmp_digits_le_val repr_defs)

section \<open>Endianness and digit size\<close>

lemma toggle_endianness_involutive [simp]: "toggle_endianness (toggle_endianness ds) = ds"
  by (simp add: toggle_endianness_def)

lemma toggle_endianness_val [simp]:
  "be_val (toggle_endianness ds) = le_val ds" "le_val (toggle_endianness ds) = be_val ds"
  by (simp_all add: toggle_endianness_def be_val_def)

lemma toggle_endianness_repr [simp]:
  "u32_repr (toggle_endianness ds) = u32_repr ds" "u8_repr (toggle_endianness bs) = u8_repr bs"
  by (simp_all add: toggle_endianness_def repr_defs)

lemma unat_u32_from_le_bytes:
  "unat (u32_from_le_bytes a b c d) = unat a + 2 ^ 8 * unat b + 2 ^ 16 * unat c + 2 ^ 24 * unat d"
proof -
  have up: "unat (ucast x :: u32) = unat x" for x :: u8
    using unat_less_pow [of x] by (simp add: unsigned_ucast_eq take_bit_nat_eq_self)
  have push: "unat (push_bit n (ucast x :: u32)) = push_bit n (unat x)" if "n \<le> 24" for n and x :: u8
  proof -
    have "(2::nat) ^ 8 \<le> 2 ^ (32 - n)"
      using that by (intro power_increasing) auto
    then have "unat x < 2 ^ (32 - n)"
      using unat_less_pow [of x] by simp
    then show ?thesis
      unfolding unsigned_push_bit_eq up take_bit_push_bit by (simp add: take_bit_nat_eq_self)
  qed
  have "unat x < 2 ^ 8" for x :: u8
    using unat_less_pow [of x] by simp
  from this [of a] this [of b] this [of c] show ?thesis
    unfolding u32_from_le_bytes_def unsigned_or_eq push [of 8, simplified] push [of 16, simplified]
      push [of 24, simplified] up
    by (simp add: or_push_bit_nat flip: or.assoc)
qed

lemma nat_bytes:
  fixes n :: nat
  assumes "n < 4294967296"
  shows "n mod 256 + 256 * (n div 256 mod 256 + 256 * (n div 65536 mod 256 + 256 * (n div 16777216 mod 256))) = n"
proof -
  have q: "n div 65536 = n div 256 div 256" "n div 16777216 = n div 256 div 256 div 256"
    by (simp_all flip: div_mult2_eq)
  have "n div 16777216 mod 256 = n div 16777216"
    using assms by simp
  then show ?thesis
    unfolding q by (simp only: mod_mult_div_eq)
qed

lemma le_val_u32_to_le_bytes: "le_val (u32_to_le_bytes d) = unat d"
proof -
  have b: "unat (ucast (drop_bit n d) :: u8) = unat d div 2 ^ n mod 256" for n
    using unat_less_pow [of d]
    unfolding unsigned_ucast_eq unsigned_drop_bit_eq by (simp add: take_bit_eq_mod drop_bit_eq_div)
  then show ?thesis
    using nat_bytes [of "unat d"] unat_less_pow [of d] b [of 0] b [of 8] b [of 16] b [of 24]
    by (simp add: u32_to_le_bytes_def)
qed

lemma le_val_le_write [simp]: "le_val (le_write_u32_into ds) = le_val ds"
proof (induction ds)
  case (Cons d ds)
  have "length (u32_to_le_bytes d) = 4"
    by (simp add: u32_to_le_bytes_def)
  with Cons show ?case
    by (simp add: le_write_u32_into_def le_val_append le_val_u32_to_le_bytes)
qed (simp add: le_write_u32_into_def)

lemma be_write_eq: "be_write_u32_into ds = rev (le_write_u32_into (rev ds))"
  by (simp add: be_write_u32_into_def le_write_u32_into_def rev_concat rev_map comp_def)

lemma be_val_be_write [simp]: "be_val (be_write_u32_into ds) = be_val ds"
  by (simp add: be_write_eq be_val_def)

lemma length_le_write [simp]: "length (le_write_u32_into ds) = 4 * length ds"
  by (induction ds) (simp_all add: le_write_u32_into_def u32_to_le_bytes_def)

lemma length_be_write [simp]: "length (be_write_u32_into ds) = 4 * length ds"
  by (simp add: be_write_eq)

lemma le_read_law:
  "length bs = 4 * n \<Longrightarrow> \<exists>ds. le_read_u32_into bs = Some ds \<and> length ds = n \<and> le_val ds = le_val bs"
proof (induction bs arbitrary: n rule: le_read_u32_into.induct)
  case (2 a b c d bs)
  then have "length bs = 4 * (n - 1)"
    by auto
  then obtain ds where "le_read_u32_into bs = Some ds" "length ds = n - 1" "le_val ds = le_val bs"
    using "2.IH" by blast
  then show ?case
    using "2.prems" by (auto simp: unat_u32_from_le_bytes)
qed (auto, presburger+)


lemma be_val_Cons:
  "be_val ((d :: 'a::len word) # ds) = be_val ds + 2 ^ (LENGTH('a) * length ds) * unat d"
  by (simp add: be_val_def le_val_append)

lemma be_read_law:
  "length bs = 4 * n \<Longrightarrow> \<exists>ds. be_read_u32_into bs = Some ds \<and> length ds = n \<and> be_val ds = be_val bs"
proof (induction bs arbitrary: n rule: be_read_u32_into.induct)
  case (2 a b c d bs)
  then have n: "length bs = 4 * (n - 1)"
    by auto
  then obtain ds where ds: "be_read_u32_into bs = Some ds" "length ds = n - 1" "be_val ds = be_val bs"
    using "2.IH" by blast
  define P :: nat where "P = 2 ^ (8 * length bs)"
  have P: "(2::nat) ^ (LENGTH(32) * length ds) = P" "(2::nat) ^ (LENGTH(8) * length bs) = P"
    "(2::nat) ^ (LENGTH(8) * length (d # bs)) = P * 2 ^ 8"
    "(2::nat) ^ (LENGTH(8) * length (c # d # bs)) = P * 2 ^ 16"
    "(2::nat) ^ (LENGTH(8) * length (b # c # d # bs)) = P * 2 ^ 24"
    by (simp_all add: P_def n ds(2) power_add)
  have "be_val (u32_from_le_bytes d c b a # ds) = be_val (a # b # c # d # bs)"
    unfolding be_val_Cons P unat_u32_from_le_bytes ds(3) distrib_left by simp
  then show ?case
    using ds "2.prems" by auto
qed (auto simp: be_val_def, presburger+)

lemma le_read_write: "le_read_u32_into (le_write_u32_into ds) = Some ds"
  using le_read_law [of "le_write_u32_into ds" "length ds"] by (auto intro: le_val_inj)

lemma be_read_write: "be_read_u32_into (be_write_u32_into ds) = Some ds"
  using be_read_law [of "be_write_u32_into ds" "length ds"] by (auto intro: be_val_inj)

section \<open>Constants\<close>

lemma le_val_replicate_max: "le_val (replicate n (0xFFFFFFFF :: u32)) = 2 ^ (32 * n) - 1"
  using pos_val_replicate_max [of "2 ^ 32" n] by (simp add: le_val_def power_mult)

lemma u384_constants [simp]:
  "u32_repr u384_LE_U32_0" "u32_repr u384_LE_U32_1" "u32_repr u384_LE_U32_2" "u32_repr u384_LE_U32_MAX"
  "u32_repr u384_BE_U32_0" "u32_repr u384_BE_U32_1" "u32_repr u384_BE_U32_2" "u32_repr u384_BE_U32_MAX"
  "le_val u384_LE_U32_0 = 0" "le_val u384_LE_U32_1 = 1" "le_val u384_LE_U32_2 = 2"
  "be_val u384_BE_U32_0 = 0" "be_val u384_BE_U32_1 = 1" "be_val u384_BE_U32_2 = 2"
  by (simp_all add: repr_defs be_val_def u384_LE_U32_0_def u384_LE_U32_1_def u384_LE_U32_2_def
      u384_LE_U32_MAX_def u384_BE_U32_0_def u384_BE_U32_1_def u384_BE_U32_2_def u384_BE_U32_MAX_def)

lemma le_val_LE_U32_MAX: "le_val u384_LE_U32_MAX = 2 ^ 384 - 1"
  unfolding u384_LE_U32_MAX_def le_val_replicate_max by simp

lemma u384_HALF_MAX_law:
  obtains h where "u384_LE_U32_HALF_MAX = Some h" "u32_repr h" "le_val h = 2 ^ 383 - 1"
    "u384_BE_U32_HALF_MAX = Some (toggle_endianness h)"
proof -
  have "u384_LE_U32_MAX \<noteq> []"
    by (simp add: u384_LE_U32_MAX_def)
  then have *: "u384_LE_U32_HALF_MAX = Some (halve u384_LE_U32_MAX)"
    unfolding u384_LE_U32_HALF_MAX_def by (rule le_divide_by_two_eq)
  have "le_val (halve u384_LE_U32_MAX) = 2 ^ 383 - 1"
    unfolding halve_value le_val_LE_U32_MAX by simp
  moreover have "u32_repr (halve u384_LE_U32_MAX)"
    by (simp add: repr_defs u384_LE_U32_MAX_def)
  ultimately show ?thesis
    using that [OF *] by (simp add: u384_BE_U32_HALF_MAX_def *)
qed

section \<open>Properties\<close>

text \<open>
  Addition and subtraction of 384-bit integers, in either digit order, are addition and
  subtraction of the values modulo \<open>2 ^ 384\<close>.
\<close>

theorem u384_add_sub_correct:
  assumes "u32_repr x" "u32_repr y"
  shows "int (le_val (le_add_inplace x y)) = (int (le_val x) + int (le_val y)) mod 2 ^ 384
    \<and> int (le_val (le_sub_inplace x y)) = (int (le_val x) - int (le_val y)) mod 2 ^ 384
    \<and> int (be_val (be_add_inplace x y)) = (int (be_val x) + int (be_val y)) mod 2 ^ 384
    \<and> int (be_val (be_sub_inplace x y)) = (int (be_val x) - int (be_val y)) mod 2 ^ 384
    \<and> u32_repr (le_add_inplace x y) \<and> u32_repr (le_sub_inplace x y)
    \<and> u32_repr (be_add_inplace x y) \<and> u32_repr (be_sub_inplace x y)"
  using le384.int_to_nat_add [OF assms] le384.int_to_nat_sub [OF assms]
    be384.int_to_nat_add [OF assms] be384.int_to_nat_sub [OF assms]
    le384.wf_add [OF assms] le384.wf_sub [OF assms] be384.wf_add [OF assms] be384.wf_sub [OF assms]
  by blast

theorem u384_add_sub_correct_witness:
  "int (le_val (le_sub_inplace u384_LE_U32_0 u384_LE_U32_1)) = 2 ^ 384 - 1"
  using u384_add_sub_correct [of u384_LE_U32_0 u384_LE_U32_1] by simp

text \<open>
  Adding a digit either panics, exactly when the sum does not fit in the array, or yields the
  sum, leaves the digits from the returned extent on untouched and returns an extent within the
  array.
\<close>

theorem u384_add_digit_correct:
  assumes "ds \<noteq> []"
  shows "case le_add_digit_inplace ds x of
      None \<Rightarrow> 2 ^ (32 * length ds) \<le> le_val ds + unat x
    | Some (ds', extent) \<Rightarrow> le_val ds' = le_val ds + unat x \<and> length ds' = length ds
        \<and> 1 \<le> extent \<and> extent \<le> length ds \<and> drop extent ds' = drop extent ds"
  using le_add_digit_law [OF assms, of x] by (simp only: digit_sum_def)

theorem u384_add_digit_correct_witness:
  "le_add_digit_inplace [0xFFFFFFFF, 0xFFFFFFFF, 7] 2 = Some ([1, 0, 8], 3)
   \<and> le_val [1, 0, 8 :: u32] = le_val [0xFFFFFFFF, 0xFFFFFFFF, 7 :: u32] + 2"
  using u384_add_digit_correct [of "[0xFFFFFFFF, 0xFFFFFFFF, 7]" 2]
  by (simp add: le_add_digit_inplace_def le_carry_loop.simps overflowing_add_def)

text \<open>
  The little endian division by two halves the value. The big endian one only shifts the most
  significant digit: its loop starts at the last index and its condition fails at once.
\<close>

theorem u384_divide_by_two_correct:
  "map_option le_val (le_divide_by_two (d # ds)) = Some (le_val (d # ds) div 2)
   \<and> be_divide_by_two (d # ds) = Some (drop_bit 1 d # ds)"
  using le_divide_by_two_eq [of "d # ds"] halve_value [of "d # ds"] by (simp add: be_divide_by_two_eq)

text \<open>
  Changing the digit size between 32 and 8 bits keeps the value, in either byte order, and the
  two directions are inverse to each other.
\<close>

theorem digit_size_roundtrip:
  "le_read_u32_into (le_write_u32_into ds) = Some ds \<and> le_val (le_write_u32_into ds) = le_val ds
   \<and> be_read_u32_into (be_write_u32_into ds) = Some ds \<and> be_val (be_write_u32_into ds) = be_val ds"
  by (simp add: le_read_write be_read_write)

end
