(* ===== verification/Bigint_Ternary.thy ===== *)
theory Bigint_Ternary
  imports Encodings Bigint_U384
begin

text \<open>
  The 242- and 243-trit integers (bee-ternary/src/bigint/macros.rs, t242/mod.rs, t243/mod.rs) and
  their conversions from and to the unsigned 384-bit integers (t243/mod.rs \<open>from_u384\<close>,
  u384/mod.rs \<open>try_from_t243\<close>). The definitions of the macro \<open>def_and_impl_ternary\<close> take the length
  as their first argument. The main results: the conversion to trits preserves the value, the
  conversion from trits returns the value when it fits and an error when it does not, and neither
  leaves the array although the second one writes through \<open>get_unchecked_mut\<close>.
\<close>

section \<open>The macro \<open>def_and_impl_ternary\<close>\<close>

definition T242_LEN :: nat where "T242_LEN = 242"
definition T243_LEN :: nat where "T243_LEN = 243"

definition tern_from_trit_buf :: "nat \<Rightarrow> 't list \<Rightarrow> 't list option" where
  "tern_from_trit_buf LEN trits_buf = (if length trits_buf = LEN then Some trits_buf else None)"

fun copy_zip :: "'t list \<Rightarrow> 't list \<Rightarrow> 't list" where
  "copy_zip (x # xs) (y # ys) = y # copy_zip xs ys"
| "copy_zip xs ys = xs"

definition tern_copy_from_trits :: "nat \<Rightarrow> 't list \<Rightarrow> 't list \<Rightarrow> 't list option" where
  "tern_copy_from_trits LEN self trits = (if length trits = LEN then Some (copy_zip self trits) else None)"

definition tern_zero :: "nat \<Rightarrow> 't \<Rightarrow> 't list option" where
  "tern_zero LEN zero = trit_buf_zeros t1b1_buf zero LEN"

fun btern_increment_inplace :: "btrit list \<Rightarrow> btrit list \<times> bool" where
  "btern_increment_inplace [] = ([], True)"
| "btern_increment_inplace (trit # trits) =
     (case btrit_checked_increment trit of
        Some increment \<Rightarrow> (increment # trits, False)
      | None \<Rightarrow> (let (trits, r) = btern_increment_inplace trits in (NegOne # trits, r)))"

fun utern_increment_inplace :: "utrit list \<Rightarrow> utrit list \<times> bool" where
  "utern_increment_inplace [] = ([], True)"
| "utern_increment_inplace (trit # trits) =
     (case utrit_checked_increment trit of
        Some increment \<Rightarrow> (increment # trits, False)
      | None \<Rightarrow> (let (trits, r) = utern_increment_inplace trits in (UZero # trits, r)))"

definition btern_one :: "nat \<Rightarrow> btrit list option" where
  "btern_one LEN = do { t \<leftarrow> tern_zero LEN btrit_zero; trits_set t1b1_buf t 0 PlusOne }"

definition btern_neg_one :: "nat \<Rightarrow> btrit list option" where
  "btern_neg_one LEN = do { t \<leftarrow> tern_zero LEN btrit_zero; trits_set t1b1_buf t 0 NegOne }"

definition btern_two :: "nat \<Rightarrow> btrit list option" where
  "btern_two LEN = do {
     t \<leftarrow> tern_zero LEN btrit_zero; t \<leftarrow> trits_set t1b1_buf t 0 NegOne; trits_set t1b1_buf t 1 PlusOne }"

definition btern_neg_two :: "nat \<Rightarrow> btrit list option" where
  "btern_neg_two LEN = do {
     t \<leftarrow> tern_zero LEN btrit_zero; t \<leftarrow> trits_set t1b1_buf t 0 PlusOne; trits_set t1b1_buf t 1 NegOne }"

definition btern_max :: "nat \<Rightarrow> btrit list option" where
  "btern_max LEN = trit_buf_filled t1b1_buf LEN PlusOne"

definition btern_min :: "nat \<Rightarrow> btrit list option" where
  "btern_min LEN = trit_buf_filled t1b1_buf LEN NegOne"

definition utern_one :: "nat \<Rightarrow> utrit list option" where
  "utern_one LEN = do { t \<leftarrow> tern_zero LEN utrit_zero; trits_set t1b1_buf t 0 UOne }"

definition utern_two :: "nat \<Rightarrow> utrit list option" where
  "utern_two LEN = do { t \<leftarrow> tern_zero LEN utrit_zero; trits_set t1b1_buf t 0 UTwo }"

definition utern_half_max :: "nat \<Rightarrow> utrit list option" where
  "utern_half_max LEN = trit_buf_filled t1b1_buf LEN UOne"

definition utern_max :: "nat \<Rightarrow> utrit list option" where
  "utern_max LEN = trit_buf_filled t1b1_buf LEN UTwo"

definition utern_min :: "nat \<Rightarrow> utrit list option" where
  "utern_min LEN = tern_zero LEN utrit_zero"

definition tern_partial_cmp :: "'t::linorder list \<Rightarrow> 't list \<Rightarrow> ordering option" where
  "tern_partial_cmp self other = Some (cmp_digits (rev (zip self other)))"

section \<open>Between the two lengths\<close>

definition t243_into_t242 :: "'t list \<Rightarrow> 't list option" where
  "t243_into_t242 self = do { (trit_buf, _) \<leftarrow> t1b1_pop self; tern_from_trit_buf T242_LEN trit_buf }"

definition t242_into_t243 :: "'t \<Rightarrow> 't list \<Rightarrow> 't list option" where
  "t242_into_t243 zero self = do { trit_buf \<leftarrow> t1b1_push self zero; tern_from_trit_buf T243_LEN trit_buf }"

section \<open>From 384 bits to 243 trits (t243/mod.rs)\<close>

text \<open>
  Each pass drops the leading zero digits of the slice, all but one, and divides the rest by three,
  most significant digit first. Only the current slice is read again.
\<close>

fun first_digit_loop :: "nat \<Rightarrow> nat \<Rightarrow> u32 list \<Rightarrow> nat" where
  "first_digit_loop i first_digit [] = first_digit"
| "first_digit_loop i first_digit (digit # ds) =
     (if digit \<noteq> 0 then i else first_digit_loop (Suc i) i ds)"

fun div3_loop :: "u32 \<Rightarrow> u32 list \<Rightarrow> u32 list \<times> u32" where
  "div3_loop rem [] = ([], rem)"
| "div3_loop rem (digit # ds) =
     (let digit_with_rem = push_bit 32 (ucast rem :: u64) OR ucast digit;
          digit = ucast (digit_with_rem div 3);
          rem = ucast (digit_with_rem mod 3);
          (ds, rem) = div3_loop rem ds
      in (digit # ds, rem))"

fun from_u384_loop :: "nat \<Rightarrow> u32 list \<Rightarrow> i8 list" where
  "from_u384_loop 0 digits = []"
| "from_u384_loop (Suc n) digits =
     (let (digits, rem) = div3_loop 0 (drop (first_digit_loop 0 0 digits) digits)
      in as_i8 (uint rem) # from_u384_loop n digits)"

text \<open>The bytes are written into the buffer as they are; a byte that is not a trit would be undefined.\<close>

definition t243_from_u384 :: "u32 list \<Rightarrow> utrit list option" where
  "t243_from_u384 inner = those (map utrit_try_from_i8 (from_u384_loop T243_LEN inner))"

definition t243_from_u384_le :: "u32 list \<Rightarrow> utrit list option" where
  "t243_from_u384_le inner = t243_from_u384 (toggle_endianness inner)"

definition t243_UTRIT_U384_MAX :: "utrit list option" where
  "t243_UTRIT_U384_MAX = t243_from_u384_le u384_LE_U32_MAX"

definition t243_UTRIT_U384_MAX_HALF :: "utrit list option" where
  "t243_UTRIT_U384_MAX_HALF = do { h \<leftarrow> le_divide_by_two u384_LE_U32_MAX; t243_from_u384_le h }"

section \<open>From 243 trits to 384 bits (u384/mod.rs)\<close>

fun mul3_loop :: "u32 \<Rightarrow> u32 list \<Rightarrow> u32 list \<times> u32" where
  "mul3_loop carry [] = ([], carry)"
| "mul3_loop carry (digit # ds) =
     (let new_digit = ucast digit * 3 + ucast carry;
          (ds, carry) = mul3_loop (u64_hi new_digit) ds
      in (u64_lo new_digit # ds, carry))"

definition accumulate_trit :: "u32 list \<Rightarrow> nat \<Rightarrow> i8 \<Rightarrow> (u32 list \<times> nat) option" where
  "accumulate_trit inner extent binary_trit =
     (if extent \<le> length inner
      then let (ds, carry) = mul3_loop 0 (take extent inner);
               inner = ds @ drop extent inner
           in do {
             (inner, extent) \<leftarrow>
               (if carry \<noteq> 0
                then if extent < length inner then Some (inner[extent := carry], extent + 1) else None
                else Some (inner, extent));
             (inner, new_extent) \<leftarrow> le_add_digit_inplace inner (word_of_int binary_trit);
             Some (inner, if new_extent > extent then new_extent else extent)
           }
      else None)"

fun accumulate_loop :: "u32 list \<Rightarrow> nat \<Rightarrow> i8 list \<Rightarrow> u32 list option" where
  "accumulate_loop inner extent [] = Some inner"
| "accumulate_loop inner extent (t # ts) =
     do { (inner, extent) \<leftarrow> accumulate_trit inner extent t; accumulate_loop inner extent ts }"

definition le_u384_try_from_t243 :: "utrit list \<Rightarrow> (bigint_error + u32 list) option" where
  "le_u384_try_from_t243 trits = do {
     u384_max \<leftarrow> t243_UTRIT_U384_MAX;
     if tern_partial_cmp trits u384_max = Some Greater then Some (Inl TernaryExceedsBinaryRange)
     else map_option Inr
       (accumulate_loop u384_LE_U32_0 1 (dropWhile (\<lambda>t. t = 0) (rev (map utrit_into_i8 trits))))
   }"

definition be_u384_try_from_t243 :: "utrit list \<Rightarrow> (bigint_error + u32 list) option" where
  "be_u384_try_from_t243 trits = map_option (map_sum id toggle_endianness) (le_u384_try_from_t243 trits)"

text \<open>\<open>unwrap\<close> of an error panics.\<close>

definition unwrap :: "'e + 'a \<Rightarrow> 'a option" where
  "unwrap r = (case r of Inl _ \<Rightarrow> None | Inr x \<Rightarrow> Some x)"

definition le_u384_from_t242 :: "utrit list \<Rightarrow> u32 list option" where
  "le_u384_from_t242 trits = do {
     t243 \<leftarrow> t242_into_t243 utrit_zero trits; r \<leftarrow> le_u384_try_from_t243 t243; unwrap r }"

definition be_u384_from_t242 :: "utrit list \<Rightarrow> u32 list option" where
  "be_u384_from_t242 trits = map_option toggle_endianness (le_u384_from_t242 trits)"

definition t242_from_u384_le :: "u32 list \<Rightarrow> utrit list option" where
  "t242_from_u384_le binary_value = do { t \<leftarrow> t243_from_u384_le binary_value; t243_into_t242 t }"

definition t242_from_u384_be_u8repr_ignoring_msd :: "u8 list \<Rightarrow> utrit list option" where
  "t242_from_u384_be_u8repr_ignoring_msd inner = do {
     le_u32 \<leftarrow> le_read_u32_into (toggle_endianness inner);
     t \<leftarrow> t243_from_u384_le le_u32;
     t243_into_t242 t }"

section \<open>Constants that need the conversions (u384/constants.rs)\<close>

definition u384_LE_U32_HALF_MAX_T242 :: "u32 list option" where
  "u384_LE_U32_HALF_MAX_T242 = do { ut242 \<leftarrow> utern_half_max T242_LEN; le_u384_from_t242 ut242 }"

definition u384_BE_U32_HALF_MAX_T242 :: "u32 list option" where
  "u384_BE_U32_HALF_MAX_T242 = map_option toggle_endianness u384_LE_U32_HALF_MAX_T242"

definition u384_LE_U32_NEG_HALF_MAX_T242 :: "u32 list option" where
  "u384_LE_U32_NEG_HALF_MAX_T242 = map_option (le_sub_inplace u384_LE_U32_0) u384_LE_U32_HALF_MAX_T242"

definition u384_LE_U32_ONLY_T243_OCCUPIED :: "u32 list option" where
  "u384_LE_U32_ONLY_T243_OCCUPIED = do {
     t243 \<leftarrow> tern_zero T243_LEN utrit_zero; t243 \<leftarrow> trits_set t1b1_buf t243 242 UOne;
     r \<leftarrow> le_u384_try_from_t243 t243; unwrap r }"

definition u384_LE_U32_MAX_T242 :: "u32 list option" where
  "u384_LE_U32_MAX_T242 = do { t242 \<leftarrow> utern_max T242_LEN; le_u384_from_t242 t242 }"


section \<open>Constants and increments\<close>

lemma t1b1_filled [simp]: "n \<le> 2 ^ 63 - 1 \<Longrightarrow> trit_buf_filled t1b1_buf n t = Some (replicate n t)"
  using t1b1.filled_law [of n t] by simp

lemma t1b1_set [simp]: "i < length ts \<Longrightarrow> trits_set t1b1_buf ts i t = Some (ts[i := t])"
  using t1b1.set_checked_law [of i ts t] by simp

lemma tern_zero_eq [simp]: "n \<le> 2 ^ 63 - 1 \<Longrightarrow> tern_zero n t = Some (replicate n t)"
  by (simp add: tern_zero_def trit_buf_zeros_def)

lemma copy_zip_eq: "length xs = length ys \<Longrightarrow> copy_zip xs ys = ys"
  by (induction xs ys rule: copy_zip.induct) auto

lemma utrits_val_replicate [simp]:
  "utrits_val (replicate n UZero) = 0" "utrits_val (replicate n UOne) = half_range n"
  "utrits_val (replicate n UTwo) = 3 ^ n - 1"
  using pos_val_replicate_0 [of 3 n] pos_val_replicate_max [of 3 n]
  by (simp_all add: utrits_val_def map_replicate) (induction n, auto)

lemma utern_increment_value:
  "utern_increment_inplace us = (us', c) \<Longrightarrow>
   length us' = length us \<and> utrits_val us' + 3 ^ length us * of_bool c = utrits_val us + 1"
proof (induction us arbitrary: us' c)
  case (Cons u us)
  then show ?case
    by (cases u) (auto split: prod.splits)
qed simp

lemma btern_increment_value:
  "btern_increment_inplace ts = (ts', c) \<Longrightarrow>
   length ts' = length ts \<and> bal_val ts' + 3 ^ length ts * of_bool c = bal_val ts + 1"
proof (induction ts arbitrary: ts' c)
  case (Cons t ts)
  then show ?case
    by (cases t) (auto split: prod.splits)
qed simp

lemma rev_zip_eq: "length xs = length ys \<Longrightarrow> rev (zip xs ys) = zip (rev xs) (rev ys)"
  by (simp add: zip_rev)

lemma tern_partial_cmp_utrits:
  assumes "length us = length vs"
  shows "tern_partial_cmp us vs = Some (cmp (utrits_val us) (utrits_val vs))"
  using cmp_digits_pos_val [of "map utrit_into_u8 us" "map utrit_into_u8 vs" 3] assms
    cmp_digits_map [OF strict_mono_utrit_into_u8, of "rev us" "rev vs"]
  by (simp add: tern_partial_cmp_def rev_zip_eq utrits_val_def rev_map)

lemma tern_partial_cmp_btrits:
  assumes "length ss = length ts"
  shows "tern_partial_cmp ss ts = Some (cmp (bal_val ss) (bal_val ts))"
proof -
  have "strict_mono btrit_shift"
    unfolding strict_mono_def less_utrit_def less_btrit_def
    by (simp add: btrit_shift_value flip: of_nat_less_iff [where ?'a = int])
  then have "tern_partial_cmp ss ts = tern_partial_cmp (map btrit_shift ss) (map btrit_shift ts)"
    using assms cmp_digits_map [of btrit_shift "rev ss" "rev ts"]
    by (simp add: tern_partial_cmp_def rev_zip_eq rev_map)
  also have "\<dots> = Some (cmp (int (utrits_val (map btrit_shift ss))) (int (utrits_val (map btrit_shift ts))))"
    using assms by (simp add: tern_partial_cmp_utrits cmp_def)
  finally show ?thesis
    using assms by (simp add: bal_val_shift cmp_def)
qed

section \<open>The conversion from bits to trits\<close>

lemma unat_ucast_u32_u64 [simp]: "unat (ucast (d :: u32) :: u64) = unat d"
  using unat_less_pow [of d] by (simp add: unsigned_ucast_eq take_bit_nat_eq_self)

lemma unat_ucast_u64_u32: "unat (v :: u64) < 2 ^ 32 \<Longrightarrow> unat (ucast v :: u32) = unat v"
  by (simp add: unsigned_ucast_eq take_bit_nat_eq_self)

lemma unat_digit_with_rem:
  assumes "unat rem < 3"
  shows "unat (push_bit 32 (ucast (rem :: u32) :: u64) OR ucast (digit :: u32)) = unat rem * 2 ^ 32 + unat digit"
proof -
  have "unat (push_bit 32 (ucast rem :: u64)) = push_bit 32 (unat rem)"
    using assms unfolding unsigned_push_bit_eq take_bit_push_bit by (simp add: take_bit_nat_eq_self)
  then show ?thesis
    using or_push_bit_nat [of "unat digit" 32 "unat rem"] unat_less_pow [of digit]
    by (simp add: unsigned_or_eq or.commute)
qed

lemma div3_loop_law:
  "unat rem < 3 \<Longrightarrow> div3_loop rem ds = (ds', rem') \<Longrightarrow>
   length ds' = length ds
   \<and> be_val ds' = (unat rem * 2 ^ (32 * length ds) + be_val ds) div 3
   \<and> unat rem' = (unat rem * 2 ^ (32 * length ds) + be_val ds) mod 3"
proof (induction ds arbitrary: rem ds' rem')
  case Nil
  then show ?case
    by (simp add: be_val_def)
next
  case (Cons d ds)
  define x :: u64 where "x = push_bit 32 (ucast rem) OR ucast d"
  have x: "unat x = unat rem * 2 ^ 32 + unat d"
    using unat_digit_with_rem [OF Cons.prems(1)] by (simp add: x_def)
  have "unat d < 2 ^ 32"
    using unat_less_pow [of d] by simp
  then have "unat x < 3 * 2 ^ 32"
    using x Cons.prems(1) by simp
  then have q: "unat (ucast (x div 3) :: u32) = unat x div 3" and r: "unat (ucast (x mod 3) :: u32) = unat x mod 3"
    by (subst unat_ucast_u64_u32; simp add: unat_div unat_mod)+
  obtain es where es: "div3_loop (ucast (x mod 3)) ds = (es, rem')" "ds' = ucast (x div 3) # es"
    using Cons.prems(2) by (auto simp: x_def Let_def split: prod.splits)
  define P :: nat where "P = 2 ^ (32 * length ds)"
  have IH: "length es = length ds" "be_val es = (unat x mod 3 * P + be_val ds) div 3"
      "unat rem' = (unat x mod 3 * P + be_val ds) mod 3"
    using Cons.IH [of "ucast (x mod 3)" es rem'] es(1) r by (simp_all add: P_def)
  have "unat rem * 2 ^ (32 * length (d # ds)) = unat rem * 2 ^ 32 * P"
    by (simp add: P_def power_add)
  moreover have "be_val (d # ds) = be_val ds + unat d * P"
    by (simp add: be_val_Cons P_def)
  ultimately have "unat rem * 2 ^ (32 * length (d # ds)) + be_val (d # ds) = unat x * P + be_val ds"
    unfolding x distrib_right by simp
  also have "unat x * P = 3 * (unat x div 3 * P) + unat x mod 3 * P"
    unfolding mult.assoc [symmetric] distrib_right [symmetric] by simp
  finally have "unat rem * 2 ^ (32 * length (d # ds)) + be_val (d # ds)
      = 3 * (unat x div 3 * P) + (unat x mod 3 * P + be_val ds)"
    by simp
  then have "(unat rem * 2 ^ (32 * length (d # ds)) + be_val (d # ds)) div 3 =
      unat x div 3 * P + (unat x mod 3 * P + be_val ds) div 3"
    "(unat rem * 2 ^ (32 * length (d # ds)) + be_val (d # ds)) mod 3 = (unat x mod 3 * P + be_val ds) mod 3"
    by simp_all
  then show ?case
    using IH es(2) q by (simp add: be_val_Cons P_def mult.commute)
qed

lemma first_digit_loop_val:
  "ds \<noteq> [] \<Longrightarrow> \<exists>k < length ds. first_digit_loop i f ds = i + k \<and> be_val (drop k ds) = be_val ds"
proof (induction ds arbitrary: i f)
  case (Cons d ds)
  show ?case
  proof (cases "d \<noteq> 0 \<or> ds = []")
    case False
    then obtain k where "k < length ds" "first_digit_loop (Suc i) i ds = Suc i + k"
      "be_val (drop k ds) = be_val ds"
      using Cons.IH [of "Suc i" i] by auto
    then show ?thesis
      using False by (intro exI [of _ "Suc k"]) (simp add: be_val_Cons)
  qed auto
qed simp

lemma from_u384_loop_eq:
  "ds \<noteq> [] \<Longrightarrow> from_u384_loop n ds = map int (to_digits 3 n (be_val ds))"
proof (induction n arbitrary: ds)
  case (Suc n)
  obtain k where k: "k < length ds" "first_digit_loop 0 0 ds = k" "be_val (drop k ds) = be_val ds"
    using first_digit_loop_val [OF Suc.prems, of 0 0] by auto
  obtain es r where es: "div3_loop 0 (drop k ds) = (es, r)"
    by (metis surj_pair)
  have law: "length es = length ds - k" "be_val es = be_val ds div 3" "unat r = be_val ds mod 3"
    using div3_loop_law [OF _ es] k by simp_all
  have "uint r = int (be_val ds mod 3)"
    using law(3) by (metis uint_nat)
  moreover have "as_i8 (int (be_val ds mod 3)) = int (be_val ds mod 3)"
    using pos_mod_bound [of 3 "int (be_val ds)"] by (intro as_i8_id) (simp_all add: zmod_int)
  moreover have "es \<noteq> []"
    using law(1) k(1) by auto
  ultimately show ?case
    using Suc.IH [of es] k es law by simp
qed simp

lemma those_utrits:
  "digits_below 3 xs \<Longrightarrow>
   \<exists>us. those (map utrit_try_from_i8 (map int xs)) = Some us \<and> map utrit_into_u8 us = xs"
proof (induction xs)
  case (Cons x xs)
  then obtain us where us: "those (map utrit_try_from_i8 (map int xs)) = Some us" "map utrit_into_u8 us = xs"
    by auto
  from Cons.prems obtain u where "utrit_try_from_i8 (int x) = Some u" "utrit_into_u8 u = x"
    by (auto simp: utrit_try_from_i8_def less_Suc_eq numeral_3_eq_3)
  with us show ?case
    by (intro exI [of _ "u # us"]) simp
qed simp

lemma pow_bounds: "(3::nat) ^ 242 < 2 ^ 384" "(2::nat) ^ 384 < 3 ^ 243"
  by simp_all

lemma t243_from_u384_law:
  assumes "u32_repr ds"
  shows "\<exists>us. t243_from_u384 ds = Some us \<and> length us = 243 \<and> utrits_val us = be_val ds"
proof -
  have "ds \<noteq> []"
    using assms by (auto simp: repr_defs)
  then obtain us where us: "t243_from_u384 ds = Some us" "map utrit_into_u8 us = to_digits 3 243 (be_val ds)"
    using those_utrits [of "to_digits 3 243 (be_val ds)"] from_u384_loop_eq [of ds 243]
    by (auto simp: t243_from_u384_def T243_LEN_def)
  have "be_val ds < 3 ^ 243"
    using be384.to_nat_bound [OF assms] pow_bounds(2) by linarith
  moreover have "utrits_val us = be_val ds mod 3 ^ 243"
    using us(2) by (simp add: utrits_val_def pos_val_to_digits)
  moreover have "length us = 243"
    using us(2) by (metis length_map length_to_digits)
  ultimately show ?thesis
    using us(1) by auto
qed

lemma t243_from_u384_le_law:
  "u32_repr ds \<Longrightarrow> \<exists>us. t243_from_u384_le ds = Some us \<and> length us = 243 \<and> utrits_val us = le_val ds"
  using t243_from_u384_law [of "toggle_endianness ds"] by (simp add: t243_from_u384_le_def)


section \<open>The conversion from trits to bits\<close>

lemma u64_lo_hi: "unat (u64_lo v) = unat v mod 2 ^ 32" "unat (u64_hi v) = unat v div 2 ^ 32"
proof -
  show "unat (u64_lo v) = unat v mod 2 ^ 32"
    by (simp add: u64_lo_def unsigned_ucast_eq take_bit_eq_mod)
  have "unat v < 2 ^ 64"
    using unat_less_pow [of v] by simp
  then have "unat v div 2 ^ 32 < 2 ^ 32"
    by simp
  moreover have "unat (drop_bit 32 v) = unat v div 2 ^ 32"
    using \<open>unat v < 2 ^ 64\<close> by (subst unsigned_drop_bit_eq) (simp add: drop_bit_eq_div take_bit_nat_eq_self)
  ultimately show "unat (u64_hi v) = unat v div 2 ^ 32"
    unfolding u64_hi_def by (simp add: unat_ucast_u64_u32)
qed

lemma mul3_loop_law:
  "unat carry < 3 \<Longrightarrow> mul3_loop carry ds = (ds', carry') \<Longrightarrow>
   length ds' = length ds \<and> le_val ds' + 2 ^ (32 * length ds) * unat carry' = 3 * le_val ds + unat carry"
proof (induction ds arbitrary: carry ds' carry')
  case (Cons d ds)
  define x :: u64 where "x = ucast d * 3 + ucast carry"
  have b: "unat d < 2 ^ 32"
    using unat_less_pow [of d] by simp
  then have x: "unat x = unat d * 3 + unat carry"
    using Cons.prems(1) by (simp add: x_def unat_word_ariths)
  obtain es where es: "mul3_loop (u64_hi x) ds = (es, carry')" "ds' = u64_lo x # es"
    using Cons.prems(2) by (auto simp: x_def Let_def split: prod.splits)
  have "unat (u64_hi x) < 3"
    using x b Cons.prems(1) by (simp add: u64_lo_hi)
  then have IH: "length es = length ds" "le_val es + 2 ^ (32 * length ds) * unat carry' = 3 * le_val ds + unat (u64_hi x)"
    using Cons.IH [OF _ es(1)] by simp_all
  have "2 ^ 32 * (le_val es + 2 ^ (32 * length ds) * unat carry') = 2 ^ 32 * (3 * le_val ds + unat (u64_hi x))"
    by (simp only: IH(2))
  moreover have "2 ^ 32 * unat (u64_hi x) + unat (u64_lo x) = unat d * 3 + unat carry"
    unfolding u64_lo_hi mult_div_mod_eq x ..
  moreover have "(2::nat) ^ (32 * length (d # ds)) = 2 ^ 32 * 2 ^ (32 * length ds)"
    by (simp add: power_add)
  ultimately show ?case
    using IH(1) es(2) unfolding distrib_left by (simp add: mult.assoc)
qed simp

text \<open>The state of the accumulator: its value, and digits from the extent on are still zero.\<close>

definition accumulator :: "u32 list \<Rightarrow> nat \<Rightarrow> nat \<Rightarrow> bool" where
  "accumulator inner extent v =
     (u32_repr inner \<and> 1 \<le> extent \<and> extent \<le> 12 \<and> le_val inner = v
      \<and> drop extent inner = replicate (12 - extent) 0)"

lemma accumulator_mul3:
  assumes "accumulator inner extent v" "3 * v < 2 ^ 384"
    and "mul3_loop 0 (take extent inner) = (ds, carry)"
  shows "carry = 0 \<Longrightarrow> accumulator (ds @ drop extent inner) extent (3 * v)"
    and "carry \<noteq> 0 \<Longrightarrow> extent < 12 \<and>
      accumulator ((ds @ drop extent inner)[extent := carry]) (extent + 1) (3 * v)"
proof -
  let ?P = "(2::nat) ^ (32 * extent)"
  have inner: "length inner = 12" "1 \<le> extent" "extent \<le> 12" "drop extent inner = replicate (12 - extent) 0"
    using assms(1) by (simp_all add: accumulator_def repr_defs)
  have "le_val inner = le_val (take extent inner)"
    using le_val_append [of "take extent inner" "drop extent inner"] inner(4)
    unfolding append_take_drop_id by simp
  then have ds: "length ds = extent" "le_val ds + ?P * unat carry = 3 * v"
    using mul3_loop_law [OF _ assms(3)] inner assms(1) by (simp_all add: accumulator_def)
  then show "accumulator (ds @ drop extent inner) extent (3 * v)" if "carry = 0"
    using inner that by (simp add: accumulator_def repr_defs le_val_append)
  assume "carry \<noteq> 0"
  then have c: "1 \<le> unat carry"
    by (simp add: Suc_leI unat_gt_0)
  have lt: "extent < 12"
  proof (rule ccontr)
    assume "\<not> extent < 12"
    with inner have "extent = 12"
      by simp
    then have "2 ^ 384 * unat carry \<le> 3 * v"
      using ds(2) by simp
    then show False
      using c assms(2) by simp
  qed
  then obtain k where k: "12 - extent = Suc k"
    by (metis Suc_diff_Suc)
  have "(ds @ drop extent inner)[extent := carry] = ds @ carry # replicate k 0"
    using inner ds(1) k by (simp add: list_update_append)
  then show "extent < 12 \<and> accumulator ((ds @ drop extent inner)[extent := carry]) (extent + 1) (3 * v)"
    using lt ds k inner(2) by (auto simp: accumulator_def repr_defs le_val_append)
qed

lemma accumulator_add_digit:
  assumes "accumulator inner extent v" "v + unat x < 2 ^ 384"
  shows "\<exists>inner' e. le_add_digit_inplace inner x = Some (inner', e)
    \<and> accumulator inner' (max e extent) (v + unat x)"
proof -
  have inner: "length inner = 12" "inner \<noteq> []" "le_val inner = v" "extent \<le> 12"
    "drop extent inner = replicate (12 - extent) 0"
    using assms(1) by (auto simp: accumulator_def repr_defs)
  have "digit_sum inner 1 (v + unat x) (le_add_digit_inplace inner x)"
    using le_add_digit_law [OF inner(2)] inner(3) by simp
  then obtain inner' e where r: "le_add_digit_inplace inner x = Some (inner', e)" "le_val inner' = v + unat x"
    "length inner' = 12" "1 \<le> e" "e \<le> 12" "drop e inner' = drop e inner"
    using assms(2) inner(1) by (auto simp: digit_sum_def split: option.splits prod.splits)
  have "drop (max e extent) inner' = drop (max e extent) inner"
    using r(6) by (metis drop_drop le_add_diff_inverse2 max.cobounded1)
  also have "\<dots> = replicate (12 - max e extent) 0"
    using inner(5) by (metis (no_types, lifting) drop_drop drop_replicate diff_diff_left le_add_diff_inverse le_add_diff_inverse2 max.cobounded2)
  finally show ?thesis
    using r inner by (intro exI [of _ inner'] exI [of _ e]) (simp add: accumulator_def repr_defs)
qed

lemma accumulate_trit_law:
  assumes "accumulator inner extent v" "3 * v + utrit_into_u8 u < 2 ^ 384"
  shows "\<exists>inner' e. accumulate_trit inner extent (utrit_into_i8 u) = Some (inner', e)
    \<and> accumulator inner' e (3 * v + utrit_into_u8 u)"
proof -
  obtain ds carry where ds: "mul3_loop 0 (take extent inner) = (ds, carry)"
    by (metis surj_pair)
  define r where "r = (if carry \<noteq> 0 then ((ds @ drop extent inner)[extent := carry], extent + 1)
    else (ds @ drop extent inner, extent))"
  have v: "3 * v < 2 ^ 384"
    using assms(2) by linarith
  have acc: "accumulator (fst r) (snd r) (3 * v)"
    using accumulator_mul3 [OF assms(1) v ds] by (simp add: r_def)
  have u: "unat (word_of_int (utrit_into_i8 u) :: u32) = utrit_into_u8 u"
    by (cases u) simp_all
  obtain inner' e where inner': "le_add_digit_inplace (fst r) (word_of_int (utrit_into_i8 u)) = Some (inner', e)"
    "accumulator inner' (max e (snd r)) (3 * v + utrit_into_u8 u)"
    using accumulator_add_digit [OF acc, of "word_of_int (utrit_into_i8 u)"] assms(2) by (auto simp: u)
  have "extent \<le> length inner" and "carry \<noteq> 0 \<Longrightarrow> extent < length (ds @ drop extent inner)"
    using assms(1) accumulator_mul3(2) [OF assms(1) v ds]
    by (auto simp: accumulator_def repr_defs)
  then have "accumulate_trit inner extent (utrit_into_i8 u) = Some (inner', if e > snd r then e else snd r)"
    using inner'(1) by (auto simp: accumulate_trit_def ds r_def split: if_splits)
  then show ?thesis
    using inner'(2) by (auto simp: max_def split: if_splits)
qed

text \<open>The value of trits read from the most significant one.\<close>

definition horner :: "utrit list \<Rightarrow> nat \<Rightarrow> nat" where
  "horner us v = fold (\<lambda>u v. 3 * v + utrit_into_u8 u) us v"

lemma horner_simps [simp]:
  "horner [] v = v" "horner (u # us) v = horner us (3 * v + utrit_into_u8 u)"
  by (simp_all add: horner_def)

lemma horner_rev: "horner (rev us) v = utrits_val us + 3 ^ length us * v"
  by (induction us) (simp_all add: horner_def algebra_simps)

lemma horner_le: "v \<le> horner us v"
proof (induction us arbitrary: v)
  case (Cons u us)
  have "v \<le> 3 * v + utrit_into_u8 u"
    by simp
  also have "\<dots> \<le> horner (u # us) v"
    using Cons.IH by simp
  finally show ?case .
qed simp

lemma horner_dropWhile: "horner (dropWhile (\<lambda>u. u = UZero) us) 0 = horner us 0"
  by (induction us) auto

lemma dropWhile_utrits:
  "dropWhile (\<lambda>t. t = 0) (map utrit_into_i8 us) = map utrit_into_i8 (dropWhile (\<lambda>u. u = UZero) us)"
proof (induction us)
  case (Cons u us)
  then show ?case
    by (cases u) auto
qed simp

lemma accumulate_loop_law:
  "accumulator inner extent v \<Longrightarrow> horner us v < 2 ^ 384 \<Longrightarrow>
   \<exists>ds. accumulate_loop inner extent (map utrit_into_i8 us) = Some ds \<and> u32_repr ds \<and> le_val ds = horner us v"
proof (induction us arbitrary: inner extent v)
  case Nil
  then show ?case
    by (simp add: accumulator_def)
next
  case (Cons u us)
  have "3 * v + utrit_into_u8 u < 2 ^ 384"
    using horner_le [of "3 * v + utrit_into_u8 u" us] Cons.prems(2) by simp
  then obtain inner' e where "accumulate_trit inner extent (utrit_into_i8 u) = Some (inner', e)"
    "accumulator inner' e (3 * v + utrit_into_u8 u)"
    using accumulate_trit_law [OF Cons.prems(1)] by blast
  then show ?case
    using Cons.IH [of inner' e] Cons.prems(2) by simp
qed

lemma t243_UTRIT_U384_MAX_law:
  obtains m where "t243_UTRIT_U384_MAX = Some m" "length m = 243" "utrits_val m = 2 ^ 384 - 1"
  using t243_from_u384_le_law [of u384_LE_U32_MAX] le_val_LE_U32_MAX
  by (auto simp: t243_UTRIT_U384_MAX_def)

lemma le_u384_try_from_t243_law:
  assumes "length us = 243"
  shows "if utrits_val us < 2 ^ 384
    then \<exists>ds. le_u384_try_from_t243 us = Some (Inr ds) \<and> u32_repr ds \<and> le_val ds = utrits_val us
    else le_u384_try_from_t243 us = Some (Inl TernaryExceedsBinaryRange)"
proof -
  obtain m where m: "t243_UTRIT_U384_MAX = Some m" "length m = 243" "utrits_val m = 2 ^ 384 - 1"
    by (rule t243_UTRIT_U384_MAX_law)
  have c: "tern_partial_cmp us m = Some Greater \<longleftrightarrow> \<not> utrits_val us < 2 ^ 384"
    using m by (simp add: tern_partial_cmp_utrits assms) linarith
  have "accumulator u384_LE_U32_0 1 0"
    by (simp add: accumulator_def) (simp add: u384_LE_U32_0_def)
  then have "\<exists>ds. accumulate_loop u384_LE_U32_0 1 (dropWhile (\<lambda>t. t = 0) (rev (map utrit_into_i8 us))) = Some ds
      \<and> u32_repr ds \<and> le_val ds = utrits_val us" if "utrits_val us < 2 ^ 384"
    using accumulate_loop_law [of u384_LE_U32_0 1 0 "dropWhile (\<lambda>u. u = UZero) (rev us)"] that
    by (simp add: rev_map dropWhile_utrits horner_dropWhile horner_rev)
  then show ?thesis
    unfolding le_u384_try_from_t243_def m(1) using c by auto
qed


section \<open>242 trits\<close>

lemma t242_into_t243_eq: "length ts = 242 \<Longrightarrow> t242_into_t243 z ts = Some (ts @ [z])"
  by (simp add: t242_into_t243_def t1b1_push_def tern_from_trit_buf_def T243_LEN_def)

lemma t243_into_t242_eq: "length ts = 243 \<Longrightarrow> t243_into_t242 ts = Some (butlast ts)"
  by (auto simp: t243_into_t242_def t1b1_pop_def tern_from_trit_buf_def T242_LEN_def)

lemma t243_into_t242_snoc [simp]: "length ts = 242 \<Longrightarrow> t243_into_t242 (ts @ [t]) = Some ts"
  by (simp add: t243_into_t242_eq)

lemma le_u384_from_t242_law:
  assumes "length us = 242"
  shows "\<exists>ds. le_u384_from_t242 us = Some ds \<and> u32_repr ds \<and> le_val ds = utrits_val us"
proof -
  have v: "utrits_val (us @ [UZero]) = utrits_val us"
    by (simp add: utrits_val_append)
  moreover have "utrits_val us < 2 ^ 384"
    using utrits_val_bound [of us] pow_bounds(1) unfolding assms by (rule less_trans)
  ultimately obtain ds where "le_u384_try_from_t243 (us @ [UZero]) = Some (Inr ds)" "u32_repr ds"
    "le_val ds = utrits_val us"
    using le_u384_try_from_t243_law [of "us @ [UZero]"] assms by auto
  then show ?thesis
    using assms by (simp add: le_u384_from_t242_def t242_into_t243_eq utrit_zero_def unwrap_def)
qed

lemma u384_HALF_MAX_T242_law:
  obtains h where "u384_LE_U32_HALF_MAX_T242 = Some h" "u32_repr h" "le_val h = half_range 242"
  using le_u384_from_t242_law [of "replicate 242 UOne"]
  by (auto simp: u384_LE_U32_HALF_MAX_T242_def utern_half_max_def T242_LEN_def)

lemma u384_MAX_T242_law:
  obtains m where "u384_LE_U32_MAX_T242 = Some m" "u32_repr m" "le_val m = 3 ^ 242 - 1"
proof -
  obtain m where m: "le_u384_from_t242 (replicate 242 UTwo) = Some m" "u32_repr m"
    "le_val m = utrits_val (replicate 242 UTwo)"
    using le_u384_from_t242_law [of "replicate 242 UTwo"] by auto
  show ?thesis
    using m that [of m] unfolding u384_LE_U32_MAX_T242_def utern_max_def T242_LEN_def utrits_val_replicate
    by simp
qed

lemma u384_ONLY_T243_OCCUPIED_law:
  obtains t where "u384_LE_U32_ONLY_T243_OCCUPIED = Some t" "u32_repr t" "le_val t = 3 ^ 242"
proof -
  have eq: "(replicate 243 UZero)[242 := UOne] = replicate 242 UZero @ [UOne]"
    using replicate_append_same [of 242 UZero] list_update_length [of "replicate 242 UZero" UZero "[]" UOne]
    by (simp flip: replicate_Suc add: replicate_app_Cons_same)
  have v: "utrits_val (replicate 242 UZero @ [UOne]) = 3 ^ 242"
    unfolding utrits_val_append utrits_val_replicate by simp
  obtain ds where ds: "le_u384_try_from_t243 (replicate 242 UZero @ [UOne]) = Some (Inr ds)" "u32_repr ds"
    "le_val ds = 3 ^ 242"
    using le_u384_try_from_t243_law [of "replicate 242 UZero @ [UOne]"] pow_bounds(1) unfolding v by auto
  have "u384_LE_U32_ONLY_T243_OCCUPIED = Some ds"
    using ds(1) by (simp add: u384_LE_U32_ONLY_T243_OCCUPIED_def T243_LEN_def utrit_zero_def eq unwrap_def)
  then show ?thesis
    using that ds(2,3) by blast
qed

section \<open>Properties\<close>

text \<open>
  C10. The conversion of a 384-bit integer to 243 unbalanced trits never panics and keeps the value:
  skipping leading zero digits and the in-place long division are correct.
\<close>

theorem t243_from_u384_correct:
  assumes "u32_repr ds"
  shows "\<exists>us. t243_from_u384 ds = Some us \<and> length us = 243 \<and> utrits_val us = be_val ds"
  using assms by (rule t243_from_u384_law)

theorem t243_from_u384_correct_witness:
  "\<exists>us. t243_from_u384 u384_BE_U32_2 = Some us \<and> length us = 243 \<and> utrits_val us = 2"
  using t243_from_u384_correct [of u384_BE_U32_2] by simp

text \<open>
  The conversion of 243 unbalanced trits to 384 bits returns the value of the trits when it
  fits, and the range error exactly when it does not. In no case does it panic or write outside the
  digit array, although the carry is stored through \<open>get_unchecked_mut\<close>.
\<close>

theorem u384_try_from_t243_correct:
  assumes "length us = 243"
  shows "if utrits_val us < 2 ^ 384
    then \<exists>ds. le_u384_try_from_t243 us = Some (Inr ds) \<and> u32_repr ds \<and> le_val ds = utrits_val us
    else le_u384_try_from_t243 us = Some (Inl TernaryExceedsBinaryRange)"
  using assms by (rule le_u384_try_from_t243_law)

theorem u384_try_from_t243_correct_witness:
  "le_u384_try_from_t243 (replicate 243 UTwo) = Some (Inl TernaryExceedsBinaryRange)"
proof -
  have "\<not> utrits_val (replicate 243 UTwo) < 2 ^ 384"
    unfolding utrits_val_replicate by simp
  then show ?thesis
    using u384_try_from_t243_correct [of "replicate 243 UTwo"] by simp
qed

text \<open>Converting a 384-bit integer to trits and back is the identity.\<close>

theorem u384_t243_roundtrip:
  assumes "u32_repr ds"
  shows "\<exists>us. t243_from_u384_le ds = Some us \<and> le_u384_try_from_t243 us = Some (Inr ds)"
proof -
  obtain us where us: "t243_from_u384_le ds = Some us" "length us = 243" "utrits_val us = le_val ds"
    using t243_from_u384_le_law [OF assms] by blast
  then show ?thesis
    using le_u384_try_from_t243_law [OF us(2)] le384.to_nat_bound [OF assms]
      le384.to_nat_inj [OF assms, symmetric] by auto
qed

theorem u384_t243_roundtrip_witness:
  "\<exists>us. t243_from_u384_le u384_LE_U32_MAX = Some us \<and> le_u384_try_from_t243 us = Some (Inr u384_LE_U32_MAX)"
  by (rule u384_t243_roundtrip) simp

text \<open>
  Incrementing a balanced or unbalanced ternary integer adds one, and reports an overflow
  exactly when the value wraps around; the comparison of ternary integers is the comparison of their
  values.
\<close>

theorem ternary_increment_cmp_correct:
  assumes "length us = length vs" "length ss = length ts"
  shows "(case utern_increment_inplace us of (us', c) \<Rightarrow>
      length us' = length us \<and> utrits_val us' + 3 ^ length us * of_bool c = utrits_val us + 1)
    \<and> (case btern_increment_inplace ts of (ts', c) \<Rightarrow>
      length ts' = length ts \<and> bal_val ts' + 3 ^ length ts * of_bool c = bal_val ts + 1)
    \<and> tern_partial_cmp us vs = Some (cmp (utrits_val us) (utrits_val vs))
    \<and> tern_partial_cmp ss ts = Some (cmp (bal_val ss) (bal_val ts))"
  using tern_partial_cmp_utrits [OF assms(1)] tern_partial_cmp_btrits [OF assms(2)]
  by (auto split: prod.split dest: utern_increment_value btern_increment_value)

theorem ternary_increment_cmp_correct_witness:
  "btern_increment_inplace [PlusOne, PlusOne] = ([NegOne, NegOne], True)
   \<and> bal_val [NegOne, NegOne] + 3 ^ length [PlusOne, PlusOne] = bal_val [PlusOne, PlusOne] + 1
   \<and> tern_partial_cmp [UTwo, UZero] [UZero, UOne] = Some Less"
  using ternary_increment_cmp_correct [of "[UTwo, UZero]" "[UZero, UOne]" "[Zero, Zero]" "[PlusOne, PlusOne]"]
  by (simp add: cmp_def)

end
