(* ===== verification/Bigint_I384.thy ===== *)
theory Bigint_I384
  imports Bigint_Ternary
begin

text \<open>
  The signed 384-bit integers (bee-ternary/src/bigint/i384/mod.rs) and their conversions from and to
  ternary integers (also t242/mod.rs and t243/mod.rs). The results read the digit array in two's
  complement: arithmetic, the order (which is wrong for two negative integers with equal top digit),
  and the conversions between \<open>I384\<close> and the 242- and 243-trit integers used by the Kerl sponge.
\<close>

section \<open>Big endian bytes\<close>

definition be_u8_not_inplace :: "u8 list \<Rightarrow> u8 list" where
  "be_u8_not_inplace inner = map NOT inner"

definition be_u8_eq :: "u8 list \<Rightarrow> u8 list \<Rightarrow> bool" where
  "be_u8_eq self other = list_all (\<lambda>(a, b). a = b) (zip self other)"

text \<open>
  The comparison of all four representations: the digits are zipped from the most significant one,
  whose sign bit is the least value \<open>NEGBIT\<close> with the top bit set. When both top digits are equal
  and negative the remaining digits are compared with the two results exchanged.
\<close>

fun cmp_digits_reversed :: "('a::linorder \<times> 'a) list \<Rightarrow> ordering" where
  "cmp_digits_reversed [] = Equal"
| "cmp_digits_reversed ((s, o') # zs) =
     (if s > o' then Less else if s < o' then Greater else cmp_digits_reversed zs)"

fun i384_cmp_zipped :: "'a::linorder \<Rightarrow> ('a \<times> 'a) list \<Rightarrow> ordering option" where
  "i384_cmp_zipped NEGBIT [] = None"
| "i384_cmp_zipped NEGBIT ((s, o') # zs) =
     (if s \<ge> NEGBIT \<and> o' \<ge> NEGBIT \<and> s > o' then Some Greater
      else if s \<ge> NEGBIT \<and> o' \<ge> NEGBIT \<and> s < o' then Some Less
      else if s \<ge> NEGBIT \<and> o' \<ge> NEGBIT then Some (cmp_digits_reversed zs)
      else if s \<ge> NEGBIT then Some Less
      else if o' \<ge> NEGBIT then Some Greater
      else if s > o' then Some Greater
      else if s < o' then Some Less
      else Some (cmp_digits zs))"

definition be_u8_partial_cmp :: "u8 list \<Rightarrow> u8 list \<Rightarrow> ordering option" where
  "be_u8_partial_cmp self other = i384_cmp_zipped 0x80 (zip self other)"

section \<open>Big endian words\<close>

definition be_i384_add_inplace :: "u32 list \<Rightarrow> u32 list \<Rightarrow> u32 list" where
  "be_i384_add_inplace self other = rev (add_loop (rev self) (rev other) False)"

definition be_i384_add_digit_inplace :: "u32 list \<Rightarrow> u32 \<Rightarrow> (u32 list \<times> nat) option" where
  "be_i384_add_digit_inplace inner other =
     (case length inner of
        0 \<Rightarrow> None
      | Suc i \<Rightarrow>
          (let (sum, overflown) = overflowing_add (inner ! i) other
           in (case i of 0 \<Rightarrow> None | Suc j \<Rightarrow> be_carry_loop j (inner[i := sum]) overflown)))"

definition be_i384_sub_inplace :: "u32 list \<Rightarrow> u32 list \<Rightarrow> u32 list" where
  "be_i384_sub_inplace self other = rev (sub_loop (rev self) (rev other) True)"

text \<open>The sign tests read the digit at index 11 in both orders.\<close>

definition be_is_positive :: "u32 list \<Rightarrow> bool" where
  "be_is_positive inner \<longleftrightarrow> inner ! (BINARY_LEN_IN_U32 - 1) AND 0x80000000 = 0"

definition be_is_negative :: "u32 list \<Rightarrow> bool" where
  "be_is_negative inner \<longleftrightarrow> inner ! (BINARY_LEN_IN_U32 - 1) AND 0x80000000 = 0x80000000"

definition be_not_inplace :: "u32 list \<Rightarrow> u32 list" where
  "be_not_inplace inner = map NOT inner"

fun be_borrow_loop :: "nat \<Rightarrow> u32 list \<Rightarrow> bool \<Rightarrow> (u32 list \<times> nat) option" where
  "be_borrow_loop i inner overflown =
     (if \<not> overflown then Some (inner, i)
      else if i < length inner
      then let (sum, still_overflown) = overflowing_sub (inner ! i) 1
           in (case i of 0 \<Rightarrow> None | Suc j \<Rightarrow> be_borrow_loop j (inner[i := sum]) still_overflown)
      else None)"

text \<open>The first digit is taken from index 0, the most significant one; the borrow starts at the last.\<close>

definition be_sub_integer_inplace :: "u32 list \<Rightarrow> u32 \<Rightarrow> (u32 list \<times> nat) option" where
  "be_sub_integer_inplace inner other =
     (if 0 < length inner
      then let (sum, overflown) = overflowing_sub (inner ! 0) other
           in be_borrow_loop (length inner - 1) (inner[0 := sum]) overflown
      else None)"

definition be_i384_partial_cmp :: "u32 list \<Rightarrow> u32 list \<Rightarrow> ordering option" where
  "be_i384_partial_cmp self other = i384_cmp_zipped 0x80000000 (zip self other)"

definition be_shift_into_u384 :: "u32 list \<Rightarrow> u32 list option" where
  "be_shift_into_u384 self = do {
     h \<leftarrow> u384_BE_U32_HALF_MAX;
     Some (be_sub_inplace (be_sub_inplace self h) u384_BE_U32_1) }"

definition be_shift_into_i384 :: "u32 list \<Rightarrow> u32 list option" where
  "be_shift_into_i384 self = do {
     h \<leftarrow> u384_BE_U32_HALF_MAX;
     Some (be_sub_inplace (be_sub_inplace self h) u384_BE_U32_1) }"

definition be_i384_from_t242 :: "btrit list \<Rightarrow> u32 list option" where
  "be_i384_from_t242 self = do {
     t242_unbalanced \<leftarrow> t1b1_into_shifted self;
     t243_unbalanced \<leftarrow> t242_into_t243 utrit_zero t242_unbalanced;
     r \<leftarrow> be_u384_try_from_t243 t243_unbalanced;
     u384_integer \<leftarrow> unwrap r;
     h \<leftarrow> u384_BE_U32_HALF_MAX_T242;
     Some (be_sub_inplace u384_integer h) }"

definition be_i384_try_from_t243 :: "btrit list \<Rightarrow> (bigint_error + u32 list) option" where
  "be_i384_try_from_t243 balanced_trits = do {
     unbalanced_trits \<leftarrow> t1b1_into_shifted balanced_trits;
     r \<leftarrow> be_u384_try_from_t243 unbalanced_trits;
     (case r of
        Inl e \<Rightarrow> Some (Inl e)
      | Inr u384_integer \<Rightarrow> map_option Inr (be_shift_into_i384 u384_integer)) }"

section \<open>Little endian bytes\<close>

definition le_u8_eq :: "u8 list \<Rightarrow> u8 list \<Rightarrow> bool" where
  "le_u8_eq self other = list_all (\<lambda>(a, b). a = b) (zip self other)"

definition le_u8_partial_cmp :: "u8 list \<Rightarrow> u8 list \<Rightarrow> ordering option" where
  "le_u8_partial_cmp self other = i384_cmp_zipped 0x80 (zip (rev self) (rev other))"

section \<open>Little endian words\<close>

definition le_i384_add_inplace :: "u32 list \<Rightarrow> u32 list \<Rightarrow> u32 list" where
  "le_i384_add_inplace self other = add_loop self other False"

definition le_i384_add_digit_inplace :: "u32 list \<Rightarrow> u32 \<Rightarrow> (u32 list \<times> nat) option" where
  "le_i384_add_digit_inplace inner other =
     (if 0 < length inner
      then let (sum, overflown) = overflowing_add (inner ! 0) other
           in le_carry_loop 1 (inner[0 := sum]) overflown
      else None)"

definition le_i384_sub_inplace :: "u32 list \<Rightarrow> u32 list \<Rightarrow> u32 list" where
  "le_i384_sub_inplace self other = sub_loop self other True"

definition le_is_positive :: "u32 list \<Rightarrow> bool" where
  "le_is_positive inner \<longleftrightarrow> inner ! (BINARY_LEN_IN_U32 - 1) AND 0x80000000 = 0"

definition le_is_negative :: "u32 list \<Rightarrow> bool" where
  "le_is_negative inner \<longleftrightarrow> inner ! (BINARY_LEN_IN_U32 - 1) AND 0x80000000 = 0x80000000"

definition le_not_inplace :: "u32 list \<Rightarrow> u32 list" where
  "le_not_inplace inner = map NOT inner"

function le_borrow_loop :: "nat \<Rightarrow> u32 list \<Rightarrow> bool \<Rightarrow> (u32 list \<times> nat) option" where
  "le_borrow_loop i inner overflown =
     (if \<not> overflown then Some (inner, i)
      else if i < length inner
      then let (sum, still_overflown) = overflowing_sub (inner ! i) 1
           in le_borrow_loop (Suc i) (inner[i := sum]) still_overflown
      else None)"
  by pat_completeness auto
termination
  by (relation "measure (\<lambda>(i, inner, _). length inner - i)") auto

definition le_sub_integer_inplace :: "u32 list \<Rightarrow> u32 \<Rightarrow> (u32 list \<times> nat) option" where
  "le_sub_integer_inplace inner other =
     (if 0 < length inner
      then let (sum, overflown) = overflowing_sub (inner ! 0) other
           in le_borrow_loop 1 (inner[0 := sum]) overflown
      else None)"

definition le_i384_partial_cmp :: "u32 list \<Rightarrow> u32 list \<Rightarrow> ordering option" where
  "le_i384_partial_cmp self other = i384_cmp_zipped 0x80000000 (zip (rev self) (rev other))"

definition le_shift_into_u384 :: "u32 list \<Rightarrow> u32 list option" where
  "le_shift_into_u384 self = do {
     h \<leftarrow> u384_LE_U32_HALF_MAX;
     Some (le_sub_inplace (le_sub_inplace self h) u384_LE_U32_1) }"

definition le_shift_into_i384 :: "u32 list \<Rightarrow> u32 list option" where
  "le_shift_into_i384 self = do {
     h \<leftarrow> u384_LE_U32_HALF_MAX;
     Some (le_sub_inplace (le_sub_inplace self h) u384_LE_U32_1) }"

definition le_i384_from_t242 :: "btrit list \<Rightarrow> u32 list option" where
  "le_i384_from_t242 self = do {
     t242_unbalanced \<leftarrow> t1b1_into_shifted self;
     t243_unbalanced \<leftarrow> t242_into_t243 utrit_zero t242_unbalanced;
     r \<leftarrow> le_u384_try_from_t243 t243_unbalanced;
     u384_integer \<leftarrow> unwrap r;
     h \<leftarrow> u384_LE_U32_HALF_MAX_T242;
     Some (le_sub_inplace u384_integer h) }"

definition le_i384_try_from_t243 :: "btrit list \<Rightarrow> (bigint_error + u32 list) option" where
  "le_i384_try_from_t243 balanced_trits = do {
     unbalanced_trits \<leftarrow> t1b1_into_shifted balanced_trits;
     r \<leftarrow> le_u384_try_from_t243 unbalanced_trits;
     (case r of
        Inl e \<Rightarrow> Some (Inl e)
      | Inr u384_integer \<Rightarrow> map_option Inr (le_shift_into_i384 u384_integer)) }"

definition zero_most_significant_trit :: "u32 list \<Rightarrow> u32 list option" where
  "zero_most_significant_trit self = do {
     half_max \<leftarrow> u384_LE_U32_HALF_MAX_T242;
     c1 \<leftarrow> le_i384_partial_cmp self half_max;
     if c1 = Greater
     then do { only_t243 \<leftarrow> u384_LE_U32_ONLY_T243_OCCUPIED; Some (le_i384_sub_inplace self only_t243) }
     else do {
       neg_half_max \<leftarrow> u384_LE_U32_NEG_HALF_MAX_T242;
       c2 \<leftarrow> le_i384_partial_cmp self neg_half_max;
       if c2 = Less
       then do { only_t243 \<leftarrow> u384_LE_U32_ONLY_T243_OCCUPIED; Some (le_i384_add_inplace self only_t243) }
       else Some self
     } }"

section \<open>Between \<open>I384\<close> and the ternary integers (t242/mod.rs, t243/mod.rs)\<close>

definition t243_from_i384_le_u32 :: "u32 list \<Rightarrow> btrit list option" where
  "t243_from_i384_le_u32 self = do {
     u384_value \<leftarrow> le_shift_into_u384 self;
     t243_unbalanced \<leftarrow> t243_from_u384_le u384_value;
     t1b1_into_shifted_utrit t243_unbalanced }"

definition t243_from_i384_be_u32 :: "u32 list \<Rightarrow> btrit list option" where
  "t243_from_i384_be_u32 self = t243_from_i384_le_u32 (toggle_endianness self)"

definition t243_from_i384_be_u8 :: "u8 list \<Rightarrow> btrit list option" where
  "t243_from_i384_be_u8 self = do {
     be_u32 \<leftarrow> be_read_u32_into self;
     t243_from_i384_le_u32 (toggle_endianness be_u32) }"

definition t242_from_i384_ignoring_mst :: "u8 list \<Rightarrow> btrit list option" where
  "t242_from_i384_ignoring_mst self = do {
     inner \<leftarrow> le_read_u32_into (toggle_endianness self);
     inner \<leftarrow> zero_most_significant_trit inner;
     half_max \<leftarrow> u384_LE_U32_HALF_MAX_T242;
     t243_utrit \<leftarrow> t243_from_u384_le (le_add_inplace inner half_max);
     t243_btrit \<leftarrow> t1b1_into_shifted_utrit t243_utrit;
     t243_into_t242 t243_btrit }"

definition t242_try_from_i384 :: "u32 list \<Rightarrow> (bigint_error + btrit list) option" where
  "t242_try_from_i384 self = do {
     half_max \<leftarrow> u384_LE_U32_HALF_MAX_T242;
     u384_max \<leftarrow> u384_LE_U32_MAX_T242;
     let unsigned_binary = le_add_inplace self half_max;
     if le_u384_partial_cmp unsigned_binary u384_max = Some Greater
     then Some (Inl BinaryExceedsTernaryRange)
     else do {
       unsigned_ternary \<leftarrow> t243_from_u384_le unsigned_binary;
       signed_ternary \<leftarrow> t1b1_into_shifted_utrit unsigned_ternary;
       map_option Inr (t243_into_t242 signed_ternary)
     } }"

definition t242_try_from_i384_be_u8 :: "u8 list \<Rightarrow> (bigint_error + btrit list) option" where
  "t242_try_from_i384_be_u8 self = do {
     as_littleendian_u32repr \<leftarrow> le_read_u32_into (toggle_endianness self);
     t242_try_from_i384 as_littleendian_u32repr }"

definition i384_be_u8_from_t242 :: "btrit list \<Rightarrow> u8 list option" where
  "i384_be_u8_from_t242 self = do {
     i384_le \<leftarrow> le_i384_from_t242 self;
     Some (be_write_u32_into (toggle_endianness i384_le)) }"

definition i384_be_u8_try_from_t243 :: "btrit list \<Rightarrow> (bigint_error + u8 list) option" where
  "i384_be_u8_try_from_t243 self =
     map_option (map_sum id (\<lambda>i384_le. be_write_u32_into (toggle_endianness i384_le))) (le_i384_try_from_t243 self)"

declare le_borrow_loop.simps [simp del]
declare be_borrow_loop.simps [simp del]


section \<open>The order\<close>

lemma cmp_digits_reversed_eq: "cmp_digits_reversed zs = cmp_digits (map prod.swap zs)"
  by (induction zs rule: cmp_digits_reversed.induct) auto

lemma map_swap_zip: "map prod.swap (zip xs ys) = zip ys xs"
  by (subst zip_commute) (auto simp: prod.swap_def split: prod.splits)

lemma sign_digit:
  fixes x :: "'a::len word"
  assumes "v < 2 ^ (LENGTH('a) * k)"
  shows "2 * (v + 2 ^ (LENGTH('a) * k) * unat x) < 2 ^ (LENGTH('a) * Suc k) \<longleftrightarrow> unat x < 2 ^ (LENGTH('a) - 1)"
proof -
  obtain l where l: "LENGTH('a) = Suc l"
    using gr0_implies_Suc [OF len_gt_0 [where ?'a = 'a]] by blast
  define P :: nat where "P = 2 ^ (LENGTH('a) * k)"
  have A: "(2::nat) ^ (LENGTH('a) * Suc k) = 2 * (P * 2 ^ l)" "LENGTH('a) - 1 = l"
    by (simp_all add: P_def l power_add)
  have "v + P * unat x < P * 2 ^ l \<longleftrightarrow> unat x < 2 ^ l"
  proof
    assume "unat x < 2 ^ l"
    then have "P * Suc (unat x) \<le> P * 2 ^ l"
      by (intro mult_le_mono2) simp
    then show "v + P * unat x < P * 2 ^ l"
      using assms unfolding P_def [symmetric] by simp
  next
    assume *: "v + P * unat x < P * 2 ^ l"
    show "unat x < 2 ^ l"
    proof (rule ccontr)
      assume "\<not> unat x < 2 ^ l"
      then have "P * 2 ^ l \<le> P * unat x"
        by (intro mult_le_mono2) simp
      then show False
        using * by linarith
    qed
  qed
  then show ?thesis
    unfolding A P_def [symmetric] by (simp del: distrib_left_numeral)
qed

lemma signed_of_cmp:
  "2 * a < 2 ^ w \<longleftrightarrow> 2 * b < 2 ^ w \<Longrightarrow> cmp (signed_of w a) (signed_of w b) = cmp a b"
  by (cases "2 * a < 2 ^ w") (simp_all add: signed_of_def cmp_def)

lemma signed_of_less:
  assumes "\<not> 2 * a < 2 ^ w" "a < 2 ^ w" "2 * b < 2 ^ w"
  shows "signed_of w a < signed_of w b"
proof -
  have "int a < 2 ^ w"
    using assms(2) by (metis of_nat_less_iff of_nat_numeral of_nat_power)
  moreover have "signed_of w a = int a - 2 ^ w" "signed_of w b = int b"
    using assms(1,3) by (simp_all add: signed_of_def)
  ultimately show ?thesis
    by linarith
qed

text \<open>Two arrays with top digits \<open>x\<close> and \<open>y\<close>: the order of the integers by the signs and the digits.\<close>

lemma signed_cmp_top:
  fixes xs ys :: "'a::len word list" and x y NEGBIT :: "'a word"
  assumes "length xs = length ys" "unat NEGBIT = 2 ^ (LENGTH('a) - 1)"
  defines "w \<equiv> LENGTH('a) * Suc (length xs)"
  shows "cmp (signed_of w (le_val (xs @ [x]))) (signed_of w (le_val (ys @ [y]))) =
    (if NEGBIT \<le> x \<and> \<not> NEGBIT \<le> y then Less
     else if \<not> NEGBIT \<le> x \<and> NEGBIT \<le> y then Greater
     else if x = y then cmp (le_val xs) (le_val ys) else cmp x y)"
proof -
  define P :: nat where "P = 2 ^ (LENGTH('a) * length xs)"
  define X where "X = le_val (xs @ [x])"
  define Y where "Y = le_val (ys @ [y])"
  have b: "le_val xs < P" "le_val ys < P"
    using le_val_bound [of xs] le_val_bound [of ys] assms(1) by (simp_all add: P_def)
  have v: "X = le_val xs + P * unat x" "Y = le_val ys + P * unat y"
    using assms(1) by (simp_all add: le_val_append X_def Y_def P_def)
  have sx: "2 * X < 2 ^ w \<longleftrightarrow> \<not> NEGBIT \<le> x" and sy: "2 * Y < 2 ^ w \<longleftrightarrow> \<not> NEGBIT \<le> y"
    using sign_digit [of "le_val xs" "length xs" x] sign_digit [of "le_val ys" "length xs" y] b
    unfolding v w_def assms(2) [symmetric] P_def by (simp_all add: word_le_nat_alt not_le)
  have lt: "X < 2 ^ w" "Y < 2 ^ w"
    using le_val_bound [of "xs @ [x]"] le_val_bound [of "ys @ [y]"] assms(1)
    by (simp_all add: w_def X_def Y_def)
  have "cmp X Y = (if x = y then cmp (le_val xs) (le_val ys) else cmp x y)"
    using pos_val_cmp_step [OF b, of "unat x" "unat y"] cmp_mono [OF strict_mono_unat, of x y]
    unfolding v by (simp add: word_unat_eq_iff)
  then have "cmp (signed_of w X) (signed_of w Y) =
    (if NEGBIT \<le> x \<and> \<not> NEGBIT \<le> y then Less
     else if \<not> NEGBIT \<le> x \<and> NEGBIT \<le> y then Greater
     else if x = y then cmp (le_val xs) (le_val ys) else cmp x y)"
    using signed_of_cmp [of X w Y] signed_of_less [of X w Y] signed_of_less [of Y w X] lt
    unfolding sx sy by auto
  then show ?thesis
    unfolding X_def Y_def .
qed

lemma i384_cmp_law:
  fixes xs ys :: "'a::len word list" and x y NEGBIT :: "'a word"
  assumes "length xs = length ys" "unat NEGBIT = 2 ^ (LENGTH('a) - 1)"
  defines "w \<equiv> LENGTH('a) * Suc (length xs)"
  shows "i384_cmp_zipped NEGBIT (zip (rev (xs @ [x])) (rev (ys @ [y]))) =
    Some (if x = y \<and> NEGBIT \<le> x then cmp (signed_of w (le_val (ys @ [y]))) (signed_of w (le_val (xs @ [x])))
      else cmp (signed_of w (le_val (xs @ [x]))) (signed_of w (le_val (ys @ [y]))))"
proof -
  have r: "cmp_digits_reversed (zip (rev xs) (rev ys)) = cmp (le_val ys) (le_val xs)"
    "cmp_digits (zip (rev xs) (rev ys)) = cmp (le_val xs) (le_val ys)"
    using assms(1) by (simp_all add: cmp_digits_reversed_eq map_swap_zip cmp_digits_le_val)
  have "i384_cmp_zipped NEGBIT ((x, y) # zip (rev xs) (rev ys)) =
    Some (if x = y \<and> NEGBIT \<le> x then cmp (le_val ys) (le_val xs)
      else if NEGBIT \<le> x \<and> \<not> NEGBIT \<le> y then Less
      else if \<not> NEGBIT \<le> x \<and> NEGBIT \<le> y then Greater
      else if x = y then cmp (le_val xs) (le_val ys) else cmp x y)"
    unfolding i384_cmp_zipped.simps r by (cases x y rule: linorder_cases) (auto simp: cmp_def [of x y])
  moreover have "cmp (signed_of w (le_val (ys @ [y]))) (signed_of w (le_val (xs @ [x]))) =
      cmp (le_val ys) (le_val xs)" if "x = y"
    using signed_cmp_top [of ys xs NEGBIT y x] assms that by simp
  ultimately show ?thesis
    using signed_cmp_top [of xs ys NEGBIT x y] assms by simp
qed


text \<open>The integer of a little endian array of twelve words, and whether two arrays share their top word.\<close>

definition sval :: "u32 list \<Rightarrow> int" where
  "sval ds = signed_of 384 (le_val ds)"

definition same_top :: "u32 list \<Rightarrow> u32 list \<Rightarrow> bool" where
  "same_top xs ys \<longleftrightarrow> le_val xs div 2 ^ 352 = le_val ys div 2 ^ 352"

lemma u32_repr_snoc: "u32_repr xs \<Longrightarrow> \<exists>zs z. xs = zs @ [z] \<and> length zs = 11"
  by (cases xs rule: rev_cases) (auto simp: repr_defs)

lemma le_val_top:
  assumes "length zs = 11"
  shows "le_val (zs @ [z :: u32]) div 2 ^ 352 = unat z"
  using le_val_bound [of zs] assms by (simp add: le_val_append)

lemma sval_range: "u32_repr ds \<Longrightarrow> - (2 ^ 383) \<le> sval ds \<and> sval ds < 2 ^ 383"
  using signed_of_range [OF le384.to_nat_bound [of ds]] by (simp add: sval_def)

lemma sval_mod: "u32_repr ds \<Longrightarrow> sval ds mod 2 ^ 384 = int (le_val ds)"
proof -
  assume "u32_repr ds"
  then have "int (le_val ds) < int (2 ^ 384)"
    unfolding of_nat_less_iff by (rule le384.to_nat_bound)
  then show ?thesis
    unfolding sval_def signed_of_mod by simp
qed

lemma sval_unique:
  assumes "u32_repr ds" "int (le_val ds) = i mod 2 ^ 384" "- (2 ^ 383) \<le> i" "i < 2 ^ 383"
  shows "sval ds = i"
  using le384.signed_of_unique [OF le384.to_nat_bound [OF assms(1)], of i] assms by (simp add: sval_def)

lemma sval_negative: "u32_repr ds \<Longrightarrow> sval ds < 0 \<longleftrightarrow> 2 ^ 383 \<le> le_val ds"
proof -
  assume "u32_repr ds"
  then have "le_val ds < 2 ^ 384"
    by (rule le384.to_nat_bound)
  then show ?thesis
    by (auto simp: sval_def signed_of_def)
qed

lemma le_i384_partial_cmp_eq:
  assumes "u32_repr xs" "u32_repr ys"
  shows "le_i384_partial_cmp xs ys =
    Some (if same_top xs ys \<and> sval xs < 0 then cmp (sval ys) (sval xs) else cmp (sval xs) (sval ys))"
proof -
  obtain as a where xs: "xs = as @ [a]" "length as = 11"
    using u32_repr_snoc [OF assms(1)] by blast
  obtain bs b where ys: "ys = bs @ [b]" "length bs = 11"
    using u32_repr_snoc [OF assms(2)] by blast
  have "same_top xs ys \<longleftrightarrow> a = b"
    unfolding same_top_def xs(1) ys(1) le_val_top [OF xs(2)] le_val_top [OF ys(2)]
    by (simp add: word_unat_eq_iff)
  moreover have "sval xs < 0 \<longleftrightarrow> 0x80000000 \<le> a"
  proof -
    have "sval xs < 0 \<longleftrightarrow> \<not> 2 * le_val xs < 2 ^ 384"
      by (simp add: sval_negative [OF assms(1)] not_less)
    also have "\<dots> \<longleftrightarrow> \<not> unat a < 2 ^ 31"
      using sign_digit [of "le_val as" 11 a] le_val_bound [of as] xs by (simp add: le_val_append)
    finally show ?thesis
      by (simp add: word_le_nat_alt not_less)
  qed
  moreover have w: "LENGTH(32) * Suc (length as) = 384" and "length as = length bs"
    and "unat (0x80000000 :: u32) = 2 ^ (LENGTH(32) - 1)"
    using xs(2) ys(2) by simp_all
  then have "le_i384_partial_cmp xs ys =
      Some (if a = b \<and> 0x80000000 \<le> a then cmp (sval ys) (sval xs) else cmp (sval xs) (sval ys))"
    unfolding le_i384_partial_cmp_def sval_def xs(1) ys(1) by (subst i384_cmp_law) (simp_all only: w)
  ultimately show ?thesis
    by simp
qed

lemma be_i384_partial_cmp_eq:
  "length xs = length ys \<Longrightarrow> be_i384_partial_cmp xs ys = le_i384_partial_cmp (toggle_endianness xs) (toggle_endianness ys)"
  by (simp add: be_i384_partial_cmp_def le_i384_partial_cmp_def toggle_endianness_def)

section \<open>The constants of the conversions\<close>

lemma half_range_242: "2 * int (half_range 242) + 1 = 3 ^ 242"
proof -
  have "int (2 * half_range 242 + 1) = int (3 ^ 242)"
    by (simp only: half_range_double)
  then show ?thesis
    by simp
qed

lemma half_range_242_less: "int (half_range 242) < 2 ^ 383"
  using half_range_242 by simp

lemma u384_NEG_HALF_MAX_T242_law:
  obtains n where "u384_LE_U32_NEG_HALF_MAX_T242 = Some n" "u32_repr n" "sval n = - int (half_range 242)"
    "le_val n = 2 ^ 384 - half_range 242"
proof -
  obtain h where h: "u384_LE_U32_HALF_MAX_T242 = Some h" "u32_repr h" "le_val h = half_range 242"
    by (rule u384_HALF_MAX_T242_law)
  let ?n = "le_sub_inplace u384_LE_U32_0 h"
  have n: "u32_repr ?n"
    using h(2) by (simp add: le384.wf_sub)
  have v: "int (le_val ?n) = (- int (half_range 242)) mod 2 ^ 384"
    using le384.int_to_nat_sub [of u384_LE_U32_0 h] h by simp
  have s: "sval ?n = - int (half_range 242)"
    by (rule sval_unique [OF n v]) (use half_range_242_less in simp_all)
  have "le_val ?n = (2 ^ 384 - half_range 242) mod 2 ^ 384"
    using le384.to_nat_sub [of u384_LE_U32_0 h] h by simp
  moreover have "0 < half_range 242"
    using half_range_242 by (simp flip: of_nat_0_less_iff [where ?'a = int])
  ultimately have "le_val ?n = 2 ^ 384 - half_range 242"
    by simp
  moreover have "u384_LE_U32_NEG_HALF_MAX_T242 = Some ?n"
    by (simp add: u384_LE_U32_NEG_HALF_MAX_T242_def h(1))
  ultimately show ?thesis
    using that n s by blast
qed

section \<open>Conversions between \<open>I384\<close> and ternary integers\<close>

lemma le_i384_from_t242_law:
  assumes "length ts = 242"
  shows "\<exists>ds. le_i384_from_t242 ts = Some ds \<and> u32_repr ds \<and> sval ds = bal_val ts"
proof -
  obtain h where h: "u384_LE_U32_HALF_MAX_T242 = Some h" "u32_repr h" "le_val h = half_range 242"
    by (rule u384_HALF_MAX_T242_law)
  let ?us = "map btrit_shift ts"
  obtain ds where ds: "le_u384_from_t242 ?us = Some ds" "u32_repr ds" "le_val ds = utrits_val ?us"
    using le_u384_from_t242_law [of ?us] assms by auto
  have "int (le_val ds) - int (le_val h) = bal_val ts"
    using ds(3) h(3) bal_val_shift [of ts] assms by simp
  then have v: "int (le_val (le_sub_inplace ds h)) = bal_val ts mod 2 ^ 384"
    using le384.int_to_nat_sub [OF ds(2) h(2)] by simp
  have b: "- (2 ^ 383) \<le> bal_val ts" "bal_val ts < 2 ^ 383"
    using bal_val_bound [of ts] half_range_242_less unfolding assms by simp_all
  have "le_i384_from_t242 ts = Some (le_sub_inplace ds h)"
    using ds(1) h(1) by (simp add: le_i384_from_t242_def le_u384_from_t242_def bind_eq_Some_conv) blast
  then show ?thesis
    using sval_unique [OF le384.wf_sub [OF ds(2) h(2)] v b] le384.wf_sub [OF ds(2) h(2)] by blast
qed

lemma le_shift_law:
  assumes "u32_repr ds"
  shows "\<exists>es. le_shift_into_i384 ds = Some es \<and> le_shift_into_u384 ds = Some es \<and> u32_repr es
    \<and> int (le_val es) = (int (le_val ds) - 2 ^ 383) mod 2 ^ 384"
proof -
  obtain h where h: "u384_LE_U32_HALF_MAX = Some h" "u32_repr h" "le_val h = 2 ^ 383 - 1"
    by (rule u384_HALF_MAX_law)
  let ?es = "le_sub_inplace (le_sub_inplace ds h) u384_LE_U32_1"
  have "int (le_val ?es) = ((int (le_val ds) - int (le_val h)) mod 2 ^ 384 - 1) mod 2 ^ 384"
    using le384.int_to_nat_sub [OF le384.wf_sub [OF assms h(2)] u384_constants(2)]
      le384.int_to_nat_sub [OF assms h(2)] by simp
  also have "\<dots> = (int (le_val ds) - int (le_val h) - 1) mod 2 ^ 384"
    by (rule mod_diff_left_eq)
  also have "int (le_val ds) - int (le_val h) - 1 = int (le_val ds) - 2 ^ 383"
    unfolding h(3) by simp
  finally show ?thesis
    using h(2) assms by (simp add: le_shift_into_i384_def le_shift_into_u384_def h(1) le384.wf_sub)
qed

lemma le_i384_try_from_t243_law:
  assumes "length ts = 243"
  shows "if bal_val ts + int (half_range 243) < 2 ^ 384
    then \<exists>ds. le_i384_try_from_t243 ts = Some (Inr ds) \<and> u32_repr ds
      \<and> sval ds = bal_val ts + int (half_range 243) - 2 ^ 383
    else le_i384_try_from_t243 ts = Some (Inl TernaryExceedsBinaryRange)"
proof -
  let ?us = "map btrit_shift ts"
  define V where "V = utrits_val ?us"
  have v: "int V = bal_val ts + int (half_range 243)"
    using bal_val_shift [of ts] assms by (simp add: V_def)
  have lt: "bal_val ts + int (half_range 243) < 2 ^ 384 \<longleftrightarrow> V < 2 ^ 384"
    unfolding v [symmetric] by (metis of_nat_less_iff of_nat_numeral of_nat_power)
  have law: "if V < 2 ^ 384
    then \<exists>ds. le_u384_try_from_t243 ?us = Some (Inr ds) \<and> u32_repr ds \<and> le_val ds = V
    else le_u384_try_from_t243 ?us = Some (Inl TernaryExceedsBinaryRange)"
    unfolding V_def using assms by (intro le_u384_try_from_t243_law) simp
  show ?thesis
  proof (cases "V < 2 ^ 384")
    case True
    then obtain ds where ds: "le_u384_try_from_t243 ?us = Some (Inr ds)" "u32_repr ds" "le_val ds = V"
      using law by auto
    obtain es where es: "le_shift_into_i384 ds = Some es" "u32_repr es"
      "int (le_val es) = (int V - 2 ^ 383) mod 2 ^ 384"
      using le_shift_law [OF ds(2)] ds(3) by auto
    have "sval es = int V - 2 ^ 383"
      by (rule sval_unique [OF es(2,3)]) (use True in simp_all)
    then show ?thesis
      using True lt ds(1) es v by (simp add: le_i384_try_from_t243_def)
  next
    case False
    then show ?thesis
      using lt law by (simp add: le_i384_try_from_t243_def)
  qed
qed


lemma utrits_val_butlast:
  assumes "length us = Suc n"
  shows "utrits_val (butlast us) = utrits_val us mod 3 ^ n"
proof -
  have "us = butlast us @ [last us]"
    using assms by (metis append_butlast_last_id length_0_conv nat.distinct(1))
  then have "utrits_val us = utrits_val (butlast us) + 3 ^ n * utrit_into_u8 (last us)"
    using utrits_val_append [of "butlast us" "[last us]"] assms by simp
  moreover have "utrits_val (butlast us) < 3 ^ n"
    using utrits_val_bound [of "butlast us"] assms by simp
  ultimately show ?thesis
    by simp
qed

lemma unsigned_to_t242:
  assumes "u32_repr ds"
  shows "\<exists>us. t243_from_u384_le ds = Some us \<and> t1b1_into_shifted_utrit us = Some (map utrit_shift us)
    \<and> t243_into_t242 (map utrit_shift us) = Some (map utrit_shift (butlast us))
    \<and> length us = 243
    \<and> bal_val (map utrit_shift (butlast us)) = int (le_val ds mod 3 ^ 242) - int (half_range 242)
    \<and> bal_val (map utrit_shift us) = int (le_val ds) - int (half_range 243)"
proof -
  obtain us where us: "t243_from_u384_le ds = Some us" "length us = 243" "utrits_val us = le_val ds"
    using t243_from_u384_le_law [OF assms] by blast
  have bv: "bal_val (map utrit_shift vs) = int (utrits_val vs) - int (half_range (length vs))" for vs
    using bal_val_shift [of "map utrit_shift vs"] unfolding map_shift_shift(2) by simp
  have "utrits_val (butlast us) = le_val ds mod 3 ^ 242"
    using utrits_val_butlast [of us 242] us by simp
  then show ?thesis
    using us bv [of us] bv [of "butlast us"] by (simp add: t243_into_t242_eq map_butlast)
qed

lemma t242_try_from_i384_law:
  assumes "u32_repr ds"
  shows "if \<bar>sval ds\<bar> \<le> int (half_range 242)
    then \<exists>ts. t242_try_from_i384 ds = Some (Inr ts) \<and> length ts = 242 \<and> bal_val ts = sval ds
    else t242_try_from_i384 ds = Some (Inl BinaryExceedsTernaryRange)"
proof -
  obtain h where h: "u384_LE_U32_HALF_MAX_T242 = Some h" "u32_repr h" "le_val h = half_range 242"
    by (rule u384_HALF_MAX_T242_law)
  obtain m where m: "u384_LE_U32_MAX_T242 = Some m" "u32_repr m" "le_val m = 3 ^ 242 - 1"
    by (rule u384_MAX_T242_law)
  let ?u = "le_add_inplace ds h"
  have u: "u32_repr ?u"
    using assms h(2) by (rule le384.wf_add)
  have "int (le_val ?u) = (sval ds mod 2 ^ 384 + int (half_range 242)) mod 2 ^ 384"
    using le384.int_to_nat_add [OF assms h(2)] h(3) by (simp only: sval_mod [OF assms])
  then have v: "int (le_val ?u) = (sval ds + int (half_range 242)) mod 2 ^ 384"
    by (simp only: mod_add_left_eq)
  have c: "le_u384_partial_cmp ?u m = Some Greater \<longleftrightarrow> \<not> le_val ?u < 3 ^ 242"
    unfolding le_u384_partial_cmp_eq [OF u m(2)] m(3) by simp linarith
  obtain us where us: "t243_from_u384_le ?u = Some us" "t1b1_into_shifted_utrit us = Some (map utrit_shift us)"
    "t243_into_t242 (map utrit_shift us) = Some (map utrit_shift (butlast us))" "length us = 243"
    "bal_val (map utrit_shift (butlast us)) = int (le_val ?u mod 3 ^ 242) - int (half_range 242)"
    using unsigned_to_t242 [OF u] by blast
  have r: "t242_try_from_i384 ds = (if \<not> le_val ?u < 3 ^ 242 then Some (Inl BinaryExceedsTernaryRange)
      else Some (Inr (map utrit_shift (butlast us))))"
    using c us(1,2,3) by (simp add: t242_try_from_i384_def h(1) m(1) Let_def)
  show ?thesis
  proof (cases "\<bar>sval ds\<bar> \<le> int (half_range 242)")
    case True
    then have "int (le_val ?u) = sval ds + int (half_range 242)"
      unfolding v using half_range_242 by (intro mod_pos_pos_trivial) simp_all
    moreover from this have "int (le_val ?u) < int (3 ^ 242)"
      using True half_range_242 by simp
    ultimately show ?thesis
      using True r us(4,5) by simp
  next
    case False
    have "int (3 ^ 242) \<le> int (le_val ?u)"
    proof (cases "0 \<le> sval ds")
      case True
      then have "int (le_val ?u) = sval ds + int (half_range 242)"
        unfolding v using sval_range [OF assms] half_range_242_less by (intro mod_pos_pos_trivial) simp_all
      then show ?thesis
        using False True half_range_242 by simp
    next
      case neg: False
      have "int (le_val ?u) = (sval ds + int (half_range 242) + 2 ^ 384) mod 2 ^ 384"
        unfolding v by simp
      also have "\<dots> = sval ds + int (half_range 242) + 2 ^ 384"
        using sval_range [OF assms] neg False by (intro mod_pos_pos_trivial) simp_all
      finally show ?thesis
        using sval_range [OF assms] half_range_242 by simp
    qed
    then show ?thesis
      using False r by simp
  qed
qed


subsection \<open>Dropping the most significant trit\<close>

lemma same_top_dist:
  assumes "same_top xs ys"
  shows "\<bar>int (le_val xs) - int (le_val ys)\<bar> < 2 ^ 352"
proof -
  define q where "q = le_val xs div 2 ^ 352"
  have "le_val xs = 2 ^ 352 * q + le_val xs mod 2 ^ 352" "le_val ys = 2 ^ 352 * q + le_val ys mod 2 ^ 352"
    using assms unfolding q_def same_top_def by (metis mult_div_mod_eq)+
  moreover have "le_val xs mod 2 ^ 352 < 2 ^ 352" "le_val ys mod 2 ^ 352 < 2 ^ 352"
    by simp_all
  ultimately show ?thesis
    by simp
qed

lemma same_top_sign:
  assumes "same_top xs ys" "u32_repr xs" "u32_repr ys" "sval xs < 0"
  shows "sval ys < 0"
proof -
  have "2 ^ 383 \<le> le_val xs"
    using assms by (simp add: sval_negative)
  then have "2 ^ 383 div 2 ^ 352 \<le> le_val xs div 2 ^ 352"
    by (rule div_le_mono)
  then have "2 ^ 31 \<le> le_val ys div 2 ^ 352"
    using assms(1) by (simp add: same_top_def)
  then have "2 ^ 31 * 2 ^ 352 \<le> le_val ys div 2 ^ 352 * 2 ^ 352"
    by (rule mult_le_mono1)
  also have "\<dots> \<le> le_val ys"
    by (rule div_times_less_eq_dividend)
  finally show ?thesis
    using assms(3) by (simp add: sval_negative)
qed

lemma sval_neg_eq: "u32_repr ds \<Longrightarrow> sval ds < 0 \<Longrightarrow> sval ds = int (le_val ds) - 2 ^ 384"
  by (auto simp: sval_def signed_of_def split: if_splits)

text \<open>The value that \<open>zero_most_significant_trit\<close> leaves, before wrapping.\<close>

definition zeroed :: "int \<Rightarrow> bool \<Rightarrow> int" where
  "zeroed v same =
     (if int (half_range 242) < v then v - 3 ^ 242
      else if (if same then - int (half_range 242) < v else v < - int (half_range 242)) then v + 3 ^ 242
      else v)"

lemma zero_most_significant_trit_law:
  assumes "u32_repr ds" "u384_LE_U32_NEG_HALF_MAX_T242 = Some n"
  shows "\<exists>r. zero_most_significant_trit ds = Some r \<and> u32_repr r
    \<and> int (le_val r) = zeroed (sval ds) (same_top ds n \<and> sval ds < 0) mod 2 ^ 384"
proof -
  let ?H = "int (half_range 242)" and ?v = "sval ds"
  obtain h where h: "u384_LE_U32_HALF_MAX_T242 = Some h" "u32_repr h" "le_val h = half_range 242"
    by (rule u384_HALF_MAX_T242_law)
  obtain t where t: "u384_LE_U32_ONLY_T243_OCCUPIED = Some t" "u32_repr t" "le_val t = 3 ^ 242"
    by (rule u384_ONLY_T243_OCCUPIED_law)
  have n: "u32_repr n" "sval n = - ?H"
    using u384_NEG_HALF_MAX_T242_law assms(2) by (metis option.inject)+
  have "sval h = ?H"
    by (rule sval_unique [OF h(2)]) (use h(3) half_range_242_less in simp_all)
  then have "\<not> (same_top ds h \<and> ?v < 0)"
    using same_top_sign [OF _ assms(1) h(2)] by auto
  then have c1: "le_i384_partial_cmp ds h = Some (cmp ?v ?H)"
    using le_i384_partial_cmp_eq [OF assms(1) h(2)] \<open>sval h = ?H\<close> by auto
  have c2: "le_i384_partial_cmp ds n = Some (if same_top ds n \<and> ?v < 0 then cmp (- ?H) ?v else cmp ?v (- ?H))"
    using le_i384_partial_cmp_eq [OF assms(1) n(1)] n(2) by simp
  let ?sub = "le_i384_sub_inplace ds t" and ?add = "le_i384_add_inplace ds t"
  have eqs: "le_i384_sub_inplace ds t = le_sub_inplace ds t" "le_i384_add_inplace ds t = le_add_inplace ds t"
    by (simp_all add: le_i384_sub_inplace_def le_sub_inplace_def le_i384_add_inplace_def le_add_inplace_def)
  have "int (le_val ?sub) = (?v mod 2 ^ 384 - 3 ^ 242) mod 2 ^ 384"
    "int (le_val ?add) = (?v mod 2 ^ 384 + 3 ^ 242) mod 2 ^ 384"
    using le384.int_to_nat_sub [OF assms(1) t(2)] le384.int_to_nat_add [OF assms(1) t(2)]
    unfolding eqs sval_mod [OF assms(1)] t(3) by simp_all
  then have v: "int (le_val ?sub) = (?v - 3 ^ 242) mod 2 ^ 384" "int (le_val ?add) = (?v + 3 ^ 242) mod 2 ^ 384"
    by (simp_all only: mod_diff_left_eq mod_add_left_eq)
  have w: "u32_repr ?sub" "u32_repr ?add"
    unfolding eqs using assms(1) t(2) by (simp_all add: le384.wf_sub le384.wf_add)
  define r where "r = (if cmp ?v ?H = Greater then ?sub
    else if (if same_top ds n \<and> ?v < 0 then cmp (- ?H) ?v else cmp ?v (- ?H)) = Less then ?add else ds)"
  have "zero_most_significant_trit ds = Some r"
    unfolding zero_most_significant_trit_def r_def by (simp add: h(1) t(1) c1 c2 assms(2))
  moreover have "u32_repr r"
    using w assms(1) by (simp add: r_def)
  moreover have "int (le_val r) = zeroed ?v (same_top ds n \<and> ?v < 0) mod 2 ^ 384"
    using v sval_mod [OF assms(1)] unfolding r_def zeroed_def by (simp del: power_numeral)
  ultimately show ?thesis
    by blast
qed

text \<open>
  The arrays on which the comparison in \<open>zero_most_significant_trit\<close> goes wrong with an effect: just
  below the least 242-trit integer, within the same top digit.
\<close>

definition misread :: "u32 list \<Rightarrow> bool" where
  "misread ds = (sval ds < - int (half_range 242) \<and>
     (case u384_LE_U32_NEG_HALF_MAX_T242 of Some n \<Rightarrow> same_top ds n | None \<Rightarrow> False))"

lemma zeroed_mod:
  assumes "- (2 ^ 383) \<le> v" "v < 2 ^ 383"
    and "same \<Longrightarrow> \<bar>v + int (half_range 242)\<bar> < 2 ^ 352"
  shows "(zeroed v same + int (half_range 242)) mod 2 ^ 384 mod 3 ^ 242 =
    (if same \<and> v < - int (half_range 242) then v + int (half_range 242) + 2 ^ 384
     else v + int (half_range 242)) mod 3 ^ 242"
proof -
  define H where "H = int (half_range 242)"
  have H: "2 * H + 1 = 3 ^ 242"
    using half_range_242 by (simp add: H_def)
  consider "H < v" | "same" "v < - H" | "same" "v = - H" | "same" "- H < v" "v \<le> H"
    | "\<not> same" "v < - H" | "\<not> same" "- H \<le> v" "v \<le> H"
    by linarith
  then have "(zeroed v same + H) mod 2 ^ 384 =
    (if H < v then v + H - 3 ^ 242
     else if same \<and> v < - H then v + H + 2 ^ 384
     else if same \<and> - H < v \<or> \<not> same \<and> v < - H then v + H + 3 ^ 242 else v + H)"
  proof cases
    case 1
    then show ?thesis
      using assms H unfolding zeroed_def H_def [symmetric] by (simp add: mod_pos_pos_trivial)
  next
    case 2
    then have "(v + H) mod 2 ^ 384 = (v + H + 2 ^ 384) mod 2 ^ 384"
      by simp
    also have "\<dots> = v + H + 2 ^ 384"
      using 2 assms H by (intro mod_pos_pos_trivial) (simp_all add: H_def [symmetric])
    finally show ?thesis
      using 2 H unfolding zeroed_def H_def [symmetric] by simp
  next
    case 3
    then show ?thesis
      using H unfolding zeroed_def H_def [symmetric] by simp
  next
    case 4
    then show ?thesis
      using assms H unfolding zeroed_def H_def [symmetric] by (simp add: mod_pos_pos_trivial)
  next
    case 5
    then show ?thesis
      using assms H unfolding zeroed_def H_def [symmetric] by (simp add: mod_pos_pos_trivial)
  next
    case 6
    then show ?thesis
      using assms H unfolding zeroed_def H_def [symmetric] by (simp add: mod_pos_pos_trivial)
  qed
  moreover have "(v + H - 3 ^ 242) mod 3 ^ 242 = (v + H) mod 3 ^ 242" "(v + H + 3 ^ 242) mod 3 ^ 242 = (v + H) mod 3 ^ 242"
    by (simp_all only: minus_mod_self2 mod_add_self2)
  moreover have "\<not> (H < v \<and> v < - H)"
    using H by simp
  ultimately show ?thesis
    unfolding H_def [symmetric] by (simp only: split: if_split) blast
qed


lemma t242_from_i384_ignoring_mst_law:
  assumes "u8_repr bs" "le_read_u32_into (toggle_endianness bs) = Some ds" "u32_repr ds"
  shows "\<exists>ts. t242_from_i384_ignoring_mst bs = Some ts \<and> length ts = 242
    \<and> bal_val ts = (if misread ds then sval ds + int (half_range 242) + 2 ^ 384
        else sval ds + int (half_range 242)) mod 3 ^ 242 - int (half_range 242)"
proof -
  let ?H = "int (half_range 242)"
  obtain h where h: "u384_LE_U32_HALF_MAX_T242 = Some h" "u32_repr h" "le_val h = half_range 242"
    by (rule u384_HALF_MAX_T242_law)
  obtain n where n: "u384_LE_U32_NEG_HALF_MAX_T242 = Some n" "u32_repr n" "le_val n = 2 ^ 384 - half_range 242"
    by (rule u384_NEG_HALF_MAX_T242_law)
  define same where "same \<longleftrightarrow> same_top ds n \<and> sval ds < 0"
  have m: "misread ds \<longleftrightarrow> same \<and> sval ds < - ?H"
    by (auto simp: misread_def same_def n(1))
  obtain r where r: "zero_most_significant_trit ds = Some r" "u32_repr r"
    "int (le_val r) = zeroed (sval ds) same mod 2 ^ 384"
    using zero_most_significant_trit_law [OF assms(3) n(1)] by (auto simp: same_def)
  let ?u = "le_add_inplace r h"
  have "int (le_val ?u) = (zeroed (sval ds) same mod 2 ^ 384 + ?H) mod 2 ^ 384"
    using le384.int_to_nat_add [OF r(2) h(2)] by (simp only: r(3) h(3))
  then have u: "int (le_val ?u) = (zeroed (sval ds) same + ?H) mod 2 ^ 384"
    by (simp only: mod_add_left_eq)
  have d: "\<bar>sval ds + ?H\<bar> < 2 ^ 352" if "same"
  proof -
    have "int (le_val n) = 2 ^ 384 - ?H"
      using n(3) half_range_242_less by (simp add: of_nat_diff)
    then have "sval ds + ?H = int (le_val ds) - int (le_val n)"
      using sval_neg_eq [OF assms(3)] that unfolding same_def by simp
    then show ?thesis
      using same_top_dist [of ds n] that unfolding same_def by (simp only:)
  qed
  obtain us where us: "t243_from_u384_le ?u = Some us" "t1b1_into_shifted_utrit us = Some (map utrit_shift us)"
    "t243_into_t242 (map utrit_shift us) = Some (map utrit_shift (butlast us))" "length us = 243"
    "bal_val (map utrit_shift (butlast us)) = int (le_val ?u mod 3 ^ 242) - ?H"
    using unsigned_to_t242 [OF le384.wf_add [OF r(2) h(2)]] by blast
  have "int (le_val ?u mod 3 ^ 242) = (zeroed (sval ds) same + ?H) mod 2 ^ 384 mod 3 ^ 242"
    unfolding zmod_int u by simp
  also have "\<dots> = (if misread ds then sval ds + ?H + 2 ^ 384 else sval ds + ?H) mod 3 ^ 242"
    unfolding m by (rule zeroed_mod [OF _ _ d]) (use sval_range [OF assms(3)] in blast)+
  finally have "bal_val (map utrit_shift (butlast us)) =
      (if misread ds then sval ds + ?H + 2 ^ 384 else sval ds + ?H) mod 3 ^ 242 - ?H"
    unfolding us(5) by simp
  moreover have "t242_from_i384_ignoring_mst bs = Some (map utrit_shift (butlast us))"
    using us(1,2,3) by (simp add: t242_from_i384_ignoring_mst_def assms(2) r(1) h(1))
  ultimately show ?thesis
    using us(4) by (intro exI [of _ "map utrit_shift (butlast us)"]) simp
qed

section \<open>Subtraction of one digit and the sign tests\<close>

definition digit_diff :: "u32 list \<Rightarrow> int \<Rightarrow> (u32 list \<times> nat) option \<Rightarrow> bool" where
  "digit_diff ds v r =
     (case r of None \<Rightarrow> v < 0 | Some (ds', e) \<Rightarrow> int (le_val ds') = v \<and> length ds' = length ds)"

lemma overflowing_sub_value:
  fixes x y :: u32
  assumes "overflowing_sub x y = (s, c)"
  shows "int (unat s) - 2 ^ 32 * of_bool c = int (unat x) - int (unat y)"
proof -
  have "uint (x - y) = (uint x - uint y) mod 2 ^ 32"
    by (simp add: uint_word_ariths)
  then have d: "int (unat (x - y)) = (int (unat x) - int (unat y)) mod 2 ^ 32"
    unfolding uint_nat .
  have "int (unat x) < int (2 ^ 32)" "int (unat y) < int (2 ^ 32)"
    unfolding of_nat_less_iff using unat_less_pow [of x] unat_less_pow [of y] by simp_all
  then have lt: "int (unat x) < 2 ^ 32" "int (unat y) < 2 ^ 32"
    by simp_all
  have s: "s = x - y" "c \<longleftrightarrow> unat x < unat y"
    using assms by (auto simp: overflowing_sub_def)
  show ?thesis
  proof (cases c)
    case True
    have "int (unat s) = (int (unat x) - int (unat y) + 2 ^ 32) mod 2 ^ 32"
      unfolding s(1) d by simp
    also have "\<dots> = int (unat x) - int (unat y) + 2 ^ 32"
      using True s(2) lt by (intro mod_pos_pos_trivial) linarith+
    finally show ?thesis
      using True by simp
  next
    case False
    have "int (unat s) = int (unat x) - int (unat y)"
      unfolding s(1) d using False s(2) lt by (intro mod_pos_pos_trivial) linarith+
    then show ?thesis
      using False by simp
  qed
qed

lemma le_borrow_loop_law:
  "i \<le> length ds \<Longrightarrow>
   digit_diff ds (int (le_val ds) - 2 ^ (32 * i) * of_bool b) (le_borrow_loop i ds b)"
proof (induction i ds b rule: le_borrow_loop.induct)
  case (1 i ds b)
  consider "\<not> b" | "b" "i = length ds" | "b" "i < length ds"
    using "1.prems" by linarith
  then show ?case
  proof cases
    case 1
    then show ?thesis
      by (simp add: digit_diff_def le_borrow_loop.simps)
  next
    case 2
    have "int (le_val ds) < int (2 ^ (32 * i))"
      using le_val_bound [of ds] 2 unfolding of_nat_less_iff by simp
    then show ?thesis
      using 2 by (simp add: digit_diff_def le_borrow_loop.simps)
  next
    case 3
    obtain s c where s: "overflowing_sub (ds ! i) 1 = (s, c)"
      by (metis surj_pair)
    have IH: "digit_diff (ds[i := s]) (int (le_val (ds[i := s])) - 2 ^ (32 * Suc i) * of_bool c)
        (le_borrow_loop (Suc i) (ds[i := s]) c)"
      using "1.IH" [of "(s, c)" s c] 3 s by simp
    define P :: int where "P = 2 ^ (32 * i)"
    have "int (le_val (ds[i := s]) + 2 ^ (32 * i) * unat (ds ! i)) = int (le_val ds + 2 ^ (32 * i) * unat s)"
      using le_val_update [of i ds s] 3 by simp
    then have "int (le_val (ds[i := s])) + P * int (unat (ds ! i)) = int (le_val ds) + P * int (unat s)"
      by (simp add: P_def)
    moreover have "P * (int (unat s) - 2 ^ 32 * of_bool c) = P * (int (unat (ds ! i)) - 1)"
      using overflowing_sub_value [OF s] by simp
    moreover have "(2::int) ^ (32 * Suc i) = P * 2 ^ 32"
      by (simp add: P_def power_add)
    ultimately have "int (le_val (ds[i := s])) - 2 ^ (32 * Suc i) * of_bool c = int (le_val ds) - P"
      unfolding right_diff_distrib by (simp add: mult.assoc)
    then show ?thesis
      using 3 s IH by (auto simp: le_borrow_loop.simps [of i ds] digit_diff_def P_def split: option.splits prod.splits)
  qed
qed

lemma le_sub_integer_law:
  assumes "ds \<noteq> []"
  shows "digit_diff ds (int (le_val ds) - int (unat x)) (le_sub_integer_inplace ds x)"
proof -
  obtain d ds' where ds: "ds = d # ds'"
    using assms by (cases ds) auto
  obtain s c where s: "overflowing_sub d x = (s, c)"
    by (metis surj_pair)
  have "int (le_val (s # ds')) - 2 ^ 32 * of_bool c = int (le_val ds) - int (unat x)"
    using overflowing_sub_value [OF s] by (simp add: ds)
  then have "digit_diff (s # ds') (int (le_val ds) - int (unat x)) (le_borrow_loop 1 (s # ds') c)"
    using le_borrow_loop_law [of 1 "s # ds'" c] by simp
  then show ?thesis
    using s by (auto simp: ds le_sub_integer_inplace_def digit_diff_def split: option.splits)
qed

lemma and_top_bit: "(x :: u32) AND 0x80000000 = (if 0x80000000 \<le> x then 0x80000000 else 0)"
proof -
  have "x AND 0x80000000 = (if bit x 31 then 0x80000000 else 0)"
  proof (rule bit_eqI)
    fix k
    assume "possible_bit TYPE(u32) k"
    have "(0x80000000 :: u32) = push_bit 31 1"
      by simp
    then have "bit (0x80000000 :: u32) k \<longleftrightarrow> k = 31"
      by (simp only: bit_push_bit_iff) (auto simp: bit_1_iff)
    then show "bit (x AND 0x80000000) k = bit (if bit x 31 then 0x80000000 else 0 :: u32) k"
      by (auto simp: bit_and_iff)
  qed
  moreover have "bit x 31 \<longleftrightarrow> 0x80000000 \<le> x"
  proof -
    have "bit x 31 \<longleftrightarrow> bit (unat x) 31"
      by (simp add: bit_unsigned_iff)
    then have "bit x 31 \<longleftrightarrow> odd (unat x div 2 ^ 31)"
      unfolding bit_iff_odd .
    moreover have "unat x div 2 ^ 31 < 2"
      using unat_less_pow [of x] by (simp add: less_mult_imp_div_less)
    ultimately show ?thesis
      by (auto simp: word_le_nat_alt less_2_cases_iff div_eq_0_iff)
  qed
  ultimately show ?thesis
    by simp
qed


lemma sign_tests:
  assumes "u32_repr ds"
  shows "le_is_negative ds \<longleftrightarrow> sval ds < 0" "le_is_positive ds \<longleftrightarrow> 0 \<le> sval ds"
proof -
  obtain zs z where ds: "ds = zs @ [z]" "length zs = 11"
    using u32_repr_snoc [OF assms] by blast
  have "sval ds < 0 \<longleftrightarrow> \<not> 2 * le_val ds < 2 ^ 384"
    by (simp add: sval_negative [OF assms] not_less)
  also have "\<dots> \<longleftrightarrow> \<not> unat z < 2 ^ 31"
    using sign_digit [of "le_val zs" 11 z] le_val_bound [of zs] ds by (simp add: le_val_append)
  finally have "sval ds < 0 \<longleftrightarrow> 0x80000000 \<le> z"
    by (simp add: word_le_nat_alt not_less)
  then show "le_is_negative ds \<longleftrightarrow> sval ds < 0" "le_is_positive ds \<longleftrightarrow> 0 \<le> sval ds"
    using ds(2) unfolding le_is_negative_def le_is_positive_def ds(1) and_top_bit
    by (auto simp: nth_append BINARY_LEN_IN_U32_def BINARY_LEN_def not_le split: if_splits)
qed

section \<open>Properties\<close>

text \<open>
  The signed comparison of two 384-bit integers is the comparison of their values, except when
  both are negative and agree in their top word: then the result is reversed.
\<close>

theorem i384_partial_cmp_correct:
  assumes "u32_repr xs" "u32_repr ys"
  shows "le_i384_partial_cmp xs ys =
    Some (if same_top xs ys \<and> sval xs < 0 then cmp (sval ys) (sval xs) else cmp (sval xs) (sval ys))"
  using assms by (rule le_i384_partial_cmp_eq)

theorem i384_partial_cmp_correct_witness:
  "sval u384_LE_U32_MAX = - 1 \<and> sval (le_sub_inplace u384_LE_U32_MAX u384_LE_U32_1) = - 2
   \<and> le_i384_partial_cmp u384_LE_U32_MAX (le_sub_inplace u384_LE_U32_MAX u384_LE_U32_1) = Some Less"
proof -
  let ?m = "u384_LE_U32_MAX" and ?n = "le_sub_inplace u384_LE_U32_MAX u384_LE_U32_1"
  have r: "u32_repr ?m" "u32_repr ?n"
    by (simp_all add: le384.wf_sub)
  have v: "le_val ?m = 2 ^ 384 - 1" "le_val ?n = 2 ^ 384 - 2"
    using le384.to_nat_sub [of ?m u384_LE_U32_1] by (simp_all add: le_val_LE_U32_MAX)
  have "sval ?m = - 1" "sval ?n = - 2"
    unfolding sval_def signed_of_def v by simp_all
  moreover have "same_top ?m ?n"
    unfolding same_top_def v by simp
  ultimately show ?thesis
    using i384_partial_cmp_correct [OF r] by (simp add: cmp_def)
qed

text \<open>
  Signed addition and subtraction are exact whenever the result fits in 384 bits.
\<close>

theorem i384_add_sub_correct:
  assumes "u32_repr x" "u32_repr y"
    and "- (2 ^ 383) \<le> sval x + sval y" "sval x + sval y < 2 ^ 383"
    and "- (2 ^ 383) \<le> sval x - sval y" "sval x - sval y < 2 ^ 383"
  shows "sval (le_i384_add_inplace x y) = sval x + sval y \<and> sval (le_i384_sub_inplace x y) = sval x - sval y"
proof -
  have "le_i384_add_inplace x y = le_add_inplace x y" "le_i384_sub_inplace x y = le_sub_inplace x y"
    by (simp_all add: le_i384_add_inplace_def le_add_inplace_def le_i384_sub_inplace_def le_sub_inplace_def)
  then show ?thesis
    using le384.signed_add [OF assms(1,2)] le384.signed_sub [OF assms(1,2)] assms(3-) by (simp add: sval_def)
qed

theorem i384_add_sub_correct_witness:
  "sval (le_i384_sub_inplace u384_LE_U32_0 u384_LE_U32_1) = - 1"
proof -
  have "sval u384_LE_U32_0 = 0" "sval u384_LE_U32_1 = 1"
    by (simp_all add: sval_def signed_of_def)
  then show ?thesis
    using i384_add_sub_correct [of u384_LE_U32_0 u384_LE_U32_1] by simp
qed

text \<open>
  C21. A 242-trit integer converted to a signed 384-bit integer keeps its value, and converting it
  back gives the same trits.
\<close>

theorem t242_i384_roundtrip:
  assumes "length ts = 242"
  shows "\<exists>ds. le_i384_from_t242 ts = Some ds \<and> u32_repr ds \<and> sval ds = bal_val ts
    \<and> t242_try_from_i384 ds = Some (Inr ts)"
proof -
  obtain ds where ds: "le_i384_from_t242 ts = Some ds" "u32_repr ds" "sval ds = bal_val ts"
    using le_i384_from_t242_law [OF assms] by blast
  have "\<bar>sval ds\<bar> \<le> int (half_range 242)"
    using bal_val_bound [of ts] ds(3) assms by simp
  then obtain us where "t242_try_from_i384 ds = Some (Inr us)" "length us = 242" "bal_val us = sval ds"
    using t242_try_from_i384_law [OF ds(2)] by auto
  then show ?thesis
    using ds assms bal_val_inj [of us ts] by auto
qed

theorem t242_i384_roundtrip_witness:
  "\<exists>ds. le_i384_from_t242 (replicate 242 NegOne) = Some ds \<and> u32_repr ds
    \<and> sval ds = bal_val (replicate 242 NegOne)
    \<and> t242_try_from_i384 ds = Some (Inr (replicate 242 NegOne))"
  by (rule t242_i384_roundtrip) simp

text \<open>
  The conversion of a signed 384-bit integer to 242 trits returns its value when it is in their
  range, and the range error exactly when it is not.
\<close>

theorem t242_try_from_i384_correct:
  assumes "u32_repr ds"
  shows "if \<bar>sval ds\<bar> \<le> int (half_range 242)
    then \<exists>ts. t242_try_from_i384 ds = Some (Inr ts) \<and> length ts = 242 \<and> bal_val ts = sval ds
    else t242_try_from_i384 ds = Some (Inl BinaryExceedsTernaryRange)"
  using assms by (rule t242_try_from_i384_law)

theorem t242_try_from_i384_correct_witness:
  "\<exists>ts. t242_try_from_i384 u384_LE_U32_2 = Some (Inr ts) \<and> length ts = 242 \<and> bal_val ts = 2"
proof -
  have "sval u384_LE_U32_2 = 2"
    by (simp add: sval_def signed_of_def)
  then show ?thesis
    using t242_try_from_i384_correct [of u384_LE_U32_2] half_range_242 by simp
qed

text \<open>
  Reducing a signed 384-bit integer to 242 trits, as Kerl does after each permutation, yields
  the balanced residue of its value modulo \<open>3 ^ 242\<close>, except on the integers that share their top
  word with the least 242-trit integer and lie below it: the reversed comparison misses them, and
  the residue is that of the value plus \<open>2 ^ 384\<close>.
\<close>

theorem t242_from_i384_ignoring_mst_correct:
  assumes "u8_repr bs" "le_read_u32_into (toggle_endianness bs) = Some ds"
  shows "\<exists>ts. t242_from_i384_ignoring_mst bs = Some ts \<and> length ts = 242
    \<and> bal_val ts = (if misread ds then sval ds + int (half_range 242) + 2 ^ 384
        else sval ds + int (half_range 242)) mod 3 ^ 242 - int (half_range 242)"
proof -
  have "length (toggle_endianness bs) = 4 * 12"
    using assms(1) by (simp add: repr_defs toggle_endianness_def)
  then have "u32_repr ds"
    using le_read_law assms(2) by (fastforce simp: repr_defs)
  then show ?thesis
    using assms by (intro t242_from_i384_ignoring_mst_law)
qed

theorem t242_from_i384_ignoring_mst_correct_witness:
  "\<exists>ts. t242_from_i384_ignoring_mst (be_write_u32_into u384_BE_U32_2) = Some ts \<and> length ts = 242
    \<and> bal_val ts = 2"
proof -
  have e: "toggle_endianness (be_write_u32_into u384_BE_U32_2) = le_write_u32_into u384_LE_U32_2"
    by (simp add: toggle_endianness_def be_write_eq u384_BE_U32_2_def u384_LE_U32_2_def)
  have v: "sval u384_LE_U32_2 = 2"
    by (simp add: sval_def signed_of_def)
  then have "\<not> misread u384_LE_U32_2"
    by (simp add: misread_def)
  moreover have "(2 + int (half_range 242)) mod 3 ^ 242 = 2 + int (half_range 242)"
    using half_range_242 by (intro mod_pos_pos_trivial) simp_all
  moreover have "u8_repr (be_write_u32_into u384_BE_U32_2)"
    by (simp add: repr_defs u384_BE_U32_2_def)
  ultimately show ?thesis
    using t242_from_i384_ignoring_mst_correct [of "be_write_u32_into u384_BE_U32_2" u384_LE_U32_2] v
    by (simp add: e le_read_write)
qed

text \<open>
  The conversion of 243 balanced trits to a signed 384-bit integer does not keep the value: it
  adds half the ternary range and subtracts half the binary range. In particular the conversion of
  zero is a range error.
\<close>

theorem i384_try_from_t243_offset:
  assumes "length ts = 243"
  shows "if bal_val ts + int (half_range 243) < 2 ^ 384
    then \<exists>ds. le_i384_try_from_t243 ts = Some (Inr ds) \<and> u32_repr ds
      \<and> sval ds = bal_val ts + int (half_range 243) - 2 ^ 383
    else le_i384_try_from_t243 ts = Some (Inl TernaryExceedsBinaryRange)"
  using assms by (rule le_i384_try_from_t243_law)

theorem i384_try_from_t243_offset_witness:
  "bal_val (replicate 243 Zero) = 0
   \<and> le_i384_try_from_t243 (replicate 243 Zero) = Some (Inl TernaryExceedsBinaryRange)"
proof -
  have z: "bal_val (replicate n Zero) = 0" for n
    by (induction n) simp_all
  have "2 * half_range 243 + 1 = 3 ^ 243"
    by (rule half_range_double)
  then have "\<not> int (half_range 243) < 2 ^ 384"
    by simp
  then show ?thesis
    using i384_try_from_t243_offset [of "replicate 243 Zero"] z [of 243] by simp
qed

text \<open>
  Subtracting a digit panics exactly when the result would be negative and otherwise yields the
  difference; the little endian sign tests read the sign of the value.
\<close>

theorem i384_sub_integer_sign_correct:
  assumes "u32_repr ds"
  shows "(case le_sub_integer_inplace ds x of
      None \<Rightarrow> le_val ds < unat x
    | Some (ds', e) \<Rightarrow> u32_repr ds' \<and> le_val ds' + unat x = le_val ds)
    \<and> (le_is_negative ds \<longleftrightarrow> sval ds < 0) \<and> (le_is_positive ds \<longleftrightarrow> 0 \<le> sval ds)"
proof -
  have "ds \<noteq> []"
    using assms by (auto simp: repr_defs)
  then have "digit_diff ds (int (le_val ds) - int (unat x)) (le_sub_integer_inplace ds x)"
    by (rule le_sub_integer_law)
  then show ?thesis
    using assms sign_tests [OF assms]
    by (auto simp: digit_diff_def u32_repr_def simp del: of_nat_unat split: option.splits prod.splits)
qed

theorem i384_sub_integer_sign_correct_witness:
  "le_sub_integer_inplace u384_LE_U32_0 1 = None \<and> \<not> le_is_negative u384_LE_U32_0"
proof -
  have "sval u384_LE_U32_0 = 0"
    by (simp add: sval_def signed_of_def)
  then show ?thesis
    using i384_sub_integer_sign_correct [of u384_LE_U32_0 1] by (auto split: option.splits)
qed

end
