(* ===== verification/I384_Constants.thy ===== *)
theory I384_Constants
  imports Bigint_I384
begin

text \<open>
  The constants of the signed 384-bit integers (bee-ternary/src/bigint/i384/constants.rs), digit by digit as
  the source has them, in both byte orders and both digit sizes. Each denotes the number of its name.
\<close>

definition i384_BE_U8_0 :: "u8 list" where
  "i384_BE_U8_0 =
     [0, 0, 0, 0, 0, 0, 0, 0, 0, 0, 0, 0, 0, 0, 0, 0, 0, 0, 0, 0, 0, 0, 0, 0, 0, 0, 0, 0, 0, 0, 0, 0, 0, 0, 0, 0, 0,
      0, 0, 0, 0, 0, 0, 0, 0, 0, 0, 0]"

definition i384_BE_U8_1 :: "u8 list" where
  "i384_BE_U8_1 =
     [0, 0, 0, 0, 0, 0, 0, 0, 0, 0, 0, 0, 0, 0, 0, 0, 0, 0, 0, 0, 0, 0, 0, 0, 0, 0, 0, 0, 0, 0, 0, 0, 0, 0, 0, 0, 0,
      0, 0, 0, 0, 0, 0, 0, 0, 0, 0, 1]"

definition i384_BE_U8_NEG_1 :: "u8 list" where
  "i384_BE_U8_NEG_1 =
     [0xff, 0xff, 0xff, 0xff, 0xff, 0xff, 0xff, 0xff, 0xff, 0xff, 0xff, 0xff, 0xff, 0xff, 0xff, 0xff, 0xff, 0xff,
      0xff, 0xff, 0xff, 0xff, 0xff, 0xff, 0xff, 0xff, 0xff, 0xff, 0xff, 0xff, 0xff, 0xff, 0xff, 0xff, 0xff, 0xff,
      0xff, 0xff, 0xff, 0xff, 0xff, 0xff, 0xff, 0xff, 0xff, 0xff, 0xff, 0xff]"

definition i384_BE_U8_MAX :: "u8 list" where
  "i384_BE_U8_MAX =
     [0x7f, 0xff, 0xff, 0xff, 0xff, 0xff, 0xff, 0xff, 0xff, 0xff, 0xff, 0xff, 0xff, 0xff, 0xff, 0xff, 0xff, 0xff,
      0xff, 0xff, 0xff, 0xff, 0xff, 0xff, 0xff, 0xff, 0xff, 0xff, 0xff, 0xff, 0xff, 0xff, 0xff, 0xff, 0xff, 0xff,
      0xff, 0xff, 0xff, 0xff, 0xff, 0xff, 0xff, 0xff, 0xff, 0xff, 0xff, 0xff]"

definition i384_BE_U8_MIN :: "u8 list" where
  "i384_BE_U8_MIN =
     [0x80, 0, 0, 0, 0, 0, 0, 0, 0, 0, 0, 0, 0, 0, 0, 0, 0, 0, 0, 0, 0, 0, 0, 0, 0, 0, 0, 0, 0, 0, 0, 0, 0, 0, 0, 0,
      0, 0, 0, 0, 0, 0, 0, 0, 0, 0, 0, 0]"

definition i384_BE_U8_2 :: "u8 list" where
  "i384_BE_U8_2 =
     [0, 0, 0, 0, 0, 0, 0, 0, 0, 0, 0, 0, 0, 0, 0, 0, 0, 0, 0, 0, 0, 0, 0, 0, 0, 0, 0, 0, 0, 0, 0, 0, 0, 0, 0, 0, 0,
      0, 0, 0, 0, 0, 0, 0, 0, 0, 0, 2]"

definition i384_BE_U8_NEG_2 :: "u8 list" where
  "i384_BE_U8_NEG_2 =
     [0xff, 0xff, 0xff, 0xff, 0xff, 0xff, 0xff, 0xff, 0xff, 0xff, 0xff, 0xff, 0xff, 0xff, 0xff, 0xff, 0xff, 0xff,
      0xff, 0xff, 0xff, 0xff, 0xff, 0xff, 0xff, 0xff, 0xff, 0xff, 0xff, 0xff, 0xff, 0xff, 0xff, 0xff, 0xff, 0xff,
      0xff, 0xff, 0xff, 0xff, 0xff, 0xff, 0xff, 0xff, 0xff, 0xff, 0xff, 0xfe]"

definition i384_BE_U32_0 :: "u32 list" where
  "i384_BE_U32_0 =
     [0, 0, 0, 0, 0, 0, 0, 0, 0, 0, 0, 0]"

definition i384_BE_U32_1 :: "u32 list" where
  "i384_BE_U32_1 =
     [0, 0, 0, 0, 0, 0, 0, 0, 0, 0, 0, 1]"

definition i384_BE_U32_NEG_1 :: "u32 list" where
  "i384_BE_U32_NEG_1 =
     [0xffffffff, 0xffffffff, 0xffffffff, 0xffffffff, 0xffffffff, 0xffffffff, 0xffffffff, 0xffffffff, 0xffffffff,
      0xffffffff, 0xffffffff, 0xffffffff]"

definition i384_BE_U32_MAX :: "u32 list" where
  "i384_BE_U32_MAX =
     [0x7fffffff, 0xffffffff, 0xffffffff, 0xffffffff, 0xffffffff, 0xffffffff, 0xffffffff, 0xffffffff, 0xffffffff,
      0xffffffff, 0xffffffff, 0xffffffff]"

definition i384_BE_U32_MIN :: "u32 list" where
  "i384_BE_U32_MIN =
     [0x80000000, 0, 0, 0, 0, 0, 0, 0, 0, 0, 0, 0]"

definition i384_BE_U32_2 :: "u32 list" where
  "i384_BE_U32_2 =
     [0, 0, 0, 0, 0, 0, 0, 0, 0, 0, 0, 2]"

definition i384_BE_U32_NEG_2 :: "u32 list" where
  "i384_BE_U32_NEG_2 =
     [0xffffffff, 0xffffffff, 0xffffffff, 0xffffffff, 0xffffffff, 0xffffffff, 0xffffffff, 0xffffffff, 0xffffffff,
      0xffffffff, 0xffffffff, 0xfffffffe]"

definition i384_LE_U8_0 :: "u8 list" where
  "i384_LE_U8_0 = i384_BE_U8_0"

definition i384_LE_U8_1 :: "u8 list" where
  "i384_LE_U8_1 =
     [1, 0, 0, 0, 0, 0, 0, 0, 0, 0, 0, 0, 0, 0, 0, 0, 0, 0, 0, 0, 0, 0, 0, 0, 0, 0, 0, 0, 0, 0, 0, 0, 0, 0, 0, 0, 0,
      0, 0, 0, 0, 0, 0, 0, 0, 0, 0, 0]"

definition i384_LE_U8_NEG_1 :: "u8 list" where
  "i384_LE_U8_NEG_1 =
     [0xff, 0xff, 0xff, 0xff, 0xff, 0xff, 0xff, 0xff, 0xff, 0xff, 0xff, 0xff, 0xff, 0xff, 0xff, 0xff, 0xff, 0xff,
      0xff, 0xff, 0xff, 0xff, 0xff, 0xff, 0xff, 0xff, 0xff, 0xff, 0xff, 0xff, 0xff, 0xff, 0xff, 0xff, 0xff, 0xff,
      0xff, 0xff, 0xff, 0xff, 0xff, 0xff, 0xff, 0xff, 0xff, 0xff, 0xff, 0xff]"

definition i384_LE_U8_MAX :: "u8 list" where
  "i384_LE_U8_MAX =
     [0xff, 0xff, 0xff, 0xff, 0xff, 0xff, 0xff, 0xff, 0xff, 0xff, 0xff, 0xff, 0xff, 0xff, 0xff, 0xff, 0xff, 0xff,
      0xff, 0xff, 0xff, 0xff, 0xff, 0xff, 0xff, 0xff, 0xff, 0xff, 0xff, 0xff, 0xff, 0xff, 0xff, 0xff, 0xff, 0xff,
      0xff, 0xff, 0xff, 0xff, 0xff, 0xff, 0xff, 0xff, 0xff, 0xff, 0xff, 0x7f]"

definition i384_LE_U8_MIN :: "u8 list" where
  "i384_LE_U8_MIN =
     [0, 0, 0, 0, 0, 0, 0, 0, 0, 0, 0, 0, 0, 0, 0, 0, 0, 0, 0, 0, 0, 0, 0, 0, 0, 0, 0, 0, 0, 0, 0, 0, 0, 0, 0, 0, 0,
      0, 0, 0, 0, 0, 0, 0, 0, 0, 0, 0x80]"

definition i384_LE_U8_2 :: "u8 list" where
  "i384_LE_U8_2 =
     [2, 0, 0, 0, 0, 0, 0, 0, 0, 0, 0, 0, 0, 0, 0, 0, 0, 0, 0, 0, 0, 0, 0, 0, 0, 0, 0, 0, 0, 0, 0, 0, 0, 0, 0, 0, 0,
      0, 0, 0, 0, 0, 0, 0, 0, 0, 0, 0]"

definition i384_LE_U8_NEG_2 :: "u8 list" where
  "i384_LE_U8_NEG_2 =
     [0xfe, 0xff, 0xff, 0xff, 0xff, 0xff, 0xff, 0xff, 0xff, 0xff, 0xff, 0xff, 0xff, 0xff, 0xff, 0xff, 0xff, 0xff,
      0xff, 0xff, 0xff, 0xff, 0xff, 0xff, 0xff, 0xff, 0xff, 0xff, 0xff, 0xff, 0xff, 0xff, 0xff, 0xff, 0xff, 0xff,
      0xff, 0xff, 0xff, 0xff, 0xff, 0xff, 0xff, 0xff, 0xff, 0xff, 0xff, 0xff]"

definition i384_LE_U32_0 :: "u32 list" where
  "i384_LE_U32_0 = i384_BE_U32_0"

definition i384_LE_U32_1 :: "u32 list" where
  "i384_LE_U32_1 =
     [1, 0, 0, 0, 0, 0, 0, 0, 0, 0, 0, 0]"

definition i384_LE_U32_NEG_1 :: "u32 list" where
  "i384_LE_U32_NEG_1 =
     [0xffffffff, 0xffffffff, 0xffffffff, 0xffffffff, 0xffffffff, 0xffffffff, 0xffffffff, 0xffffffff, 0xffffffff,
      0xffffffff, 0xffffffff, 0xffffffff]"

definition i384_LE_U32_MAX :: "u32 list" where
  "i384_LE_U32_MAX =
     [0xffffffff, 0xffffffff, 0xffffffff, 0xffffffff, 0xffffffff, 0xffffffff, 0xffffffff, 0xffffffff, 0xffffffff,
      0xffffffff, 0xffffffff, 0x7fffffff]"

definition i384_LE_U32_MIN :: "u32 list" where
  "i384_LE_U32_MIN =
     [0, 0, 0, 0, 0, 0, 0, 0, 0, 0, 0, 0x80000000]"

definition i384_LE_U32_2 :: "u32 list" where
  "i384_LE_U32_2 =
     [2, 0, 0, 0, 0, 0, 0, 0, 0, 0, 0, 0]"

definition i384_LE_U32_NEG_2 :: "u32 list" where
  "i384_LE_U32_NEG_2 =
     [0xfffffffe, 0xffffffff, 0xffffffff, 0xffffffff, 0xffffffff, 0xffffffff, 0xffffffff, 0xffffffff, 0xffffffff,
      0xffffffff, 0xffffffff, 0xffffffff]"

text \<open>The number that a constant denotes: its digits read in their order, in two's complement.\<close>

definition le_signed :: "'a::len word list \<Rightarrow> int" where
  "le_signed ds = signed_of 384 (le_val ds)"

definition be_signed :: "'a::len word list \<Rightarrow> int" where
  "be_signed ds = signed_of 384 (be_val ds)"

lemma i384_be_u8_values:
  "be_signed i384_BE_U8_0 = 0"
  "be_signed i384_BE_U8_1 = 1"
  "be_signed i384_BE_U8_NEG_1 = - 1"
  "be_signed i384_BE_U8_MAX = 2 ^ 383 - 1"
  "be_signed i384_BE_U8_MIN = - (2 ^ 383)"
  "be_signed i384_BE_U8_2 = 2"
  "be_signed i384_BE_U8_NEG_2 = - 2"
  by (simp_all add: be_signed_def signed_of_def be_val_def le_val_def i384_BE_U8_0_def i384_BE_U8_1_def i384_BE_U8_NEG_1_def i384_BE_U8_MAX_def i384_BE_U8_MIN_def i384_BE_U8_2_def i384_BE_U8_NEG_2_def)

lemma i384_be_u32_values:
  "be_signed i384_BE_U32_0 = 0"
  "be_signed i384_BE_U32_1 = 1"
  "be_signed i384_BE_U32_NEG_1 = - 1"
  "be_signed i384_BE_U32_MAX = 2 ^ 383 - 1"
  "be_signed i384_BE_U32_MIN = - (2 ^ 383)"
  "be_signed i384_BE_U32_2 = 2"
  "be_signed i384_BE_U32_NEG_2 = - 2"
  by (simp_all add: be_signed_def signed_of_def be_val_def le_val_def i384_BE_U32_0_def i384_BE_U32_1_def i384_BE_U32_NEG_1_def i384_BE_U32_MAX_def i384_BE_U32_MIN_def i384_BE_U32_2_def i384_BE_U32_NEG_2_def)

lemma i384_le_u8_values:
  "le_signed i384_LE_U8_0 = 0"
  "le_signed i384_LE_U8_1 = 1"
  "le_signed i384_LE_U8_NEG_1 = - 1"
  "le_signed i384_LE_U8_MAX = 2 ^ 383 - 1"
  "le_signed i384_LE_U8_MIN = - (2 ^ 383)"
  "le_signed i384_LE_U8_2 = 2"
  "le_signed i384_LE_U8_NEG_2 = - 2"
  by (simp_all add: le_signed_def signed_of_def be_val_def le_val_def i384_LE_U8_0_def i384_LE_U8_1_def i384_LE_U8_NEG_1_def i384_LE_U8_MAX_def i384_LE_U8_MIN_def i384_LE_U8_2_def i384_LE_U8_NEG_2_def i384_BE_U8_0_def)

lemma i384_le_u32_values:
  "le_signed i384_LE_U32_0 = 0"
  "le_signed i384_LE_U32_1 = 1"
  "le_signed i384_LE_U32_NEG_1 = - 1"
  "le_signed i384_LE_U32_MAX = 2 ^ 383 - 1"
  "le_signed i384_LE_U32_MIN = - (2 ^ 383)"
  "le_signed i384_LE_U32_2 = 2"
  "le_signed i384_LE_U32_NEG_2 = - 2"
  by (simp_all add: le_signed_def signed_of_def be_val_def le_val_def i384_LE_U32_0_def i384_LE_U32_1_def i384_LE_U32_NEG_1_def i384_LE_U32_MAX_def i384_LE_U32_MIN_def i384_LE_U32_2_def i384_LE_U32_NEG_2_def i384_BE_U32_0_def)

end
