(* ===== verification/Trit_Slices.thy ===== *)
theory Trit_Slices
  imports Encodings
begin

text \<open>
  Access to T1B1 buffers the way the crates above bee-ternary use it: indexing with a range,
  \<open>copy_from\<close> into such a range, \<open>get\<close> and \<open>set\<close> with their panics, and iteration over chunks. A T1B1
  buffer is a list of trits; a panic is \<open>None\<close>. The lemmas relate each access to the list operation it
  stands for, so that the clients reason about lists.
\<close>

section \<open>Single trits\<close>

definition t1b1_get :: "'t list \<Rightarrow> nat \<Rightarrow> 't option" where
  "t1b1_get self index = (if index < length self then t1b1_get_unchecked self index else None)"

definition t1b1_set :: "'t list \<Rightarrow> nat \<Rightarrow> 't \<Rightarrow> 't list option" where
  "t1b1_set self index trit = trits_set t1b1_buf self index trit"

lemma t1b1_get_eq: "t1b1_get xs i = (if i < length xs then Some (xs ! i) else None)"
  by (simp add: t1b1_get_def t1b1_get_unchecked_def)

lemma t1b1_set_eq: "t1b1_set xs i t = (if i < length xs then Some (xs[i := t]) else None)"
  by (simp add: t1b1_set_def trits_set_def t1b1_buf_def t1b1_set_unchecked_def)

section \<open>Ranges\<close>

text \<open>\<open>self[start..end].copy_from(trits)\<close>: the range must exist and the lengths must agree.\<close>

definition t1b1_copy_into :: "'t list \<Rightarrow> nat \<Rightarrow> nat \<Rightarrow> 't list \<Rightarrow> 't list option" where
  "t1b1_copy_into self start end' trits = do {
     dst \<leftarrow> t1b1_slice self start end';
     dst \<leftarrow> trits_copy_from t1b1_buf t1b1_buf dst trits;
     Some (take start self @ dst @ drop end' self) }"

lemma t1b1_slice_eq:
  "t1b1_slice xs a b = (if a \<le> b \<and> b \<le> length xs then Some (take (b - a) (drop a xs)) else None)"
  by (simp add: t1b1_slice_def t1b1_slice_unchecked_def)

lemma trits_iter_t1b1: "trits_iter t1b1_buf xs = Some xs"
proof -
  have "map (t1b1_get_unchecked xs) [0..<length xs] = map Some xs"
    by (rule nth_equalityI) (simp_all add: t1b1_get_unchecked_def)
  then show ?thesis
    by (simp add: trits_iter_def t1b1_buf_def comp_def)
qed

lemma set_from_t1b1:
  "i + length ts \<le> length xs \<Longrightarrow>
   set_from t1b1_buf xs i ts = Some (take i xs @ ts @ drop (i + length ts) xs)"
proof (induction ts arbitrary: xs i)
  case (Cons t ts)
  have "take (Suc i) (xs[i := t]) = take i xs @ [t]"
    using Cons.prems by (simp add: take_Suc_conv_app_nth)
  then show ?case
    using Cons.IH [of "Suc i" "xs[i := t]"] Cons.prems
    by (simp add: t1b1_buf_def t1b1_set_unchecked_def)
qed simp

lemma trits_copy_from_t1b1:
  "trits_copy_from t1b1_buf t1b1_buf xs ts = (if length xs = length ts then Some ts else None)"
  using set_from_t1b1 [of 0 ts xs] trits_iter_t1b1 [of ts]
  by (auto simp: trits_copy_from_def t1b1_buf_def)

lemma t1b1_copy_into_eq:
  "t1b1_copy_into xs a b ts =
     (if a \<le> b \<and> b \<le> length xs \<and> length ts = b - a then Some (take a xs @ ts @ drop b xs) else None)"
  by (auto simp: t1b1_copy_into_def t1b1_slice_eq trits_copy_from_t1b1)

section \<open>Chunks\<close>

function chunks_of :: "nat \<Rightarrow> 't list \<Rightarrow> 't list list" where
  "chunks_of k xs = (if xs = [] \<or> k = 0 then [] else take k xs # chunks_of k (drop k xs))"
  by auto
termination
  by (relation "measure (\<lambda>(_, xs). length xs)") auto

declare chunks_of.simps [simp del]

lemma chunks_of_Nil [simp]: "chunks_of k [] = []"
  by (simp add: chunks_of.simps)

lemma chunks_of_append:
  "0 < k \<Longrightarrow> length xs = k \<Longrightarrow> chunks_of k (xs @ ys) = xs # chunks_of k ys"
  by (auto simp: chunks_of.simps [of k "xs @ ys"])

lemma chunks_of_short: "xs \<noteq> [] \<Longrightarrow> length xs \<le> k \<Longrightarrow> chunks_of k xs = [xs]"
proof -
  assume a: "xs \<noteq> []" "length xs \<le> k"
  then have "k \<noteq> 0"
    by (cases xs) auto
  then show ?thesis
    using a by (simp add: chunks_of.simps [of k xs])
qed

lemma chunks_of_append_dvd:
  assumes "0 < k" "k dvd length xs"
  shows "chunks_of k (xs @ ys) = chunks_of k xs @ chunks_of k ys"
  using assms
proof (induction k xs rule: chunks_of.induct)
  case (1 k xs)
  show ?case
  proof (cases "xs = []")
    case False
    then have "k \<le> length xs"
      using "1.prems" by (auto dest: dvd_imp_le)
    then have "chunks_of k (xs @ ys) = take k xs # chunks_of k (drop k xs @ ys)"
      using "1.prems" chunks_of_append [of k "take k xs" "drop k xs @ ys"]
      by (simp flip: append_assoc)
    then show ?thesis
      using 1 False by (simp add: chunks_of.simps [of k xs] dvd_diff_nat)
  qed simp
qed

lemma concat_chunks_of [simp]: "0 < k \<Longrightarrow> concat (chunks_of k xs) = xs"
proof (induction k xs rule: chunks_of.induct)
  case (1 k xs)
  then show ?case
    by (cases "xs = []") (simp_all add: chunks_of.simps [of k xs])
qed

lemma length_chunks_of:
  "0 < k \<Longrightarrow> k dvd length xs \<Longrightarrow> length (chunks_of k xs) = length xs div k"
proof (induction k xs rule: chunks_of.induct)
  case (1 k xs)
  then show ?case
    by (cases "xs = []") (auto simp: chunks_of.simps [of k xs] dvd_diff_nat le_div_geq dest: dvd_imp_le)
qed

lemma chunks_of_all:
  "0 < k \<Longrightarrow> k dvd length xs \<Longrightarrow> c \<in> set (chunks_of k xs) \<Longrightarrow> length c = k"
proof (induction k xs rule: chunks_of.induct)
  case (1 k xs)
  then show ?case
    by (cases "xs = []") (auto simp: chunks_of.simps [of k xs] dvd_diff_nat dest: dvd_imp_le)
qed

lemma chunks_of_concat:
  "0 < k \<Longrightarrow> list_all (\<lambda>c. length c = k) cs \<Longrightarrow> chunks_of k (concat cs) = cs"
  by (induction cs) (simp_all add: chunks_of_append)

lemma chunks_of_upt:
  assumes "0 < k"
  shows "map (\<lambda>i. take k (drop (i * k) xs)) [0..<(length xs + k - 1) div k] = chunks_of k xs"
  using assms
proof (induction k xs rule: chunks_of.induct)
  case (1 k xs)
  show ?case
  proof (cases "xs = []")
    case False
    have n: "(length xs + k - 1) div k = Suc ((length (drop k xs) + k - 1) div k)"
    proof (cases "k \<le> length xs")
      case True
      then have "length xs + k - 1 = (length xs - k + k - 1) + k"
        using "1.prems" by simp
      then show ?thesis
        using "1.prems" by (simp only: div_add_self2 length_drop)
    next
      case False
      then have l: "length xs + k - 1 = (length xs - 1) + k" "length xs - 1 < k" "length (drop k xs) = 0"
        using "1.prems" \<open>xs \<noteq> []\<close> by (cases xs; simp)+
      have "(length xs + k - 1) div k = Suc ((length xs - 1) div k)"
        using "1.prems" unfolding l(1) by (simp add: div_add_self2)
      then show ?thesis
        using l(2) "1.prems" unfolding l(3) by simp
    qed
    have "map (\<lambda>i. take k (drop (i * k) xs)) [0..<Suc m] =
        take k xs # map (\<lambda>i. take k (drop (i * k) (drop k xs))) [0..<m]" for m
      unfolding map_upt_Suc by (simp add: add.commute)
    then show ?thesis
      using "1.IH" "1.prems" False unfolding n by (simp add: chunks_of.simps [of k xs] del: upt_Suc)
  qed (use "1.prems" in simp)
qed

lemma ceil_div_bound:
  fixes i k n :: nat
  assumes "0 < k" "i < (n + k - 1) div k"
  shows "i * k \<le> n"
proof -
  have "Suc i * k \<le> (n + k - 1) div k * k"
    using assms(2) by (intro mult_le_mono1) simp
  also have "\<dots> \<le> n + k - 1"
    by (rule div_times_less_eq_dividend)
  finally show ?thesis
    using assms(1) by simp
qed

lemma t1b1_chunks_eq: "0 < k \<Longrightarrow> t1b1_chunks xs k = Some (chunks_of k xs)"
proof -
  assume k: "0 < k"
  have "t1b1_slice xs (i * k) (min (i * k + k) (length xs)) = Some (take k (drop (i * k) xs))"
    if "i < (length xs + k - 1) div k" for i
  proof -
    have "i * k \<le> length xs"
      using k that ceil_div_bound by blast
    then show ?thesis
      by (simp add: t1b1_slice_eq min_def)
  qed
  then have "map (\<lambda>i. t1b1_slice xs i (min (i + k) (length xs))) (step_by (length xs) k) =
      map Some (map (\<lambda>i. take k (drop (i * k) xs)) [0..<(length xs + k - 1) div k])"
    by (auto simp: step_by_def)
  then show ?thesis
    unfolding t1b1_chunks_def chunks_of_upt [OF k] using k by simp
qed

end
