(* ===== verification/Sponge.thy ===== *)
theory Sponge
  imports Trit_Slices Bigint_I384
begin

text \<open>
  The sponges of bee-crypto (src/bee-crypto/src/sponge): the trait \<open>Sponge\<close> with its default methods
  as a dictionary of operations, \<open>CurlP\<close> with its two fixed round counts, and \<open>Kerl\<close> over the Keccak
  of the tiny-keccak crate, which is a parameter.

  The locale \<open>sponge_law\<close> is the contract the signature schemes rely on: an implementation is a
  function of an abstract state that takes up and gives out blocks of 243 trits, and resetting it
  makes it as good as new. Both implementations satisfy it.
\<close>

section \<open>The trait (sponge.rs)\<close>

datatype sponge_type = SpongeKerl | SpongeCurlP27 | SpongeCurlP81

record ('s, 'e) sponge =
  sp_IN_LEN :: nat
  sp_OUT_LEN :: nat
  sp_default :: 's
  sp_absorb :: "'s \<Rightarrow> btrit list \<Rightarrow> ('s \<times> ('e + unit)) option"
  sp_reset :: "'s \<Rightarrow> 's"
  sp_squeeze_into :: "'s \<Rightarrow> btrit list \<Rightarrow> ('s \<times> btrit list \<times> ('e + unit)) option"

text \<open>A buffer that is written to is returned with the state; the \<open>?\<close> returns at the first error.\<close>

definition sp_squeeze :: "('s, 'e) sponge \<Rightarrow> 's \<Rightarrow> ('s \<times> ('e + btrit list)) option" where
  "sp_squeeze S self = do {
     output \<leftarrow> trit_buf_zeros t1b1_buf Zero (sp_OUT_LEN S);
     (self, output, r) \<leftarrow> sp_squeeze_into S self output;
     (case r of Inl e \<Rightarrow> Some (self, Inl e) | Inr _ \<Rightarrow> Some (self, Inr output)) }"

definition sp_digest_into ::
  "('s, 'e) sponge \<Rightarrow> 's \<Rightarrow> btrit list \<Rightarrow> btrit list \<Rightarrow> ('s \<times> btrit list \<times> ('e + unit)) option" where
  "sp_digest_into S self input buf = do {
     (self, r) \<leftarrow> sp_absorb S self input;
     (case r of
        Inl e \<Rightarrow> Some (self, buf, Inl e)
      | Inr _ \<Rightarrow> do {
          (self, buf, r) \<leftarrow> sp_squeeze_into S self buf;
          (case r of
             Inl e \<Rightarrow> Some (self, buf, Inl e)
           | Inr _ \<Rightarrow> Some (sp_reset S self, buf, Inr ())) }) }"

definition sp_digest :: "('s, 'e) sponge \<Rightarrow> 's \<Rightarrow> btrit list \<Rightarrow> ('s \<times> ('e + btrit list)) option" where
  "sp_digest S self input = do {
     (self, r) \<leftarrow> sp_absorb S self input;
     (case r of
        Inl e \<Rightarrow> Some (self, Inl e)
      | Inr _ \<Rightarrow> do {
          (self, r) \<leftarrow> sp_squeeze S self;
          (case r of
             Inl e \<Rightarrow> Some (self, Inl e)
           | Inr output \<Rightarrow> Some (sp_reset S self, Inr output)) }) }"

section \<open>CurlP (curlp.rs)\<close>

definition HASH_LEN :: nat where "HASH_LEN = 243"
definition STATE_LEN :: nat where "STATE_LEN = HASH_LEN * 3"
definition HALF_STATE_LEN :: nat where "HALF_STATE_LEN = STATE_LEN div 2"

definition TRUTH_TABLE :: "i8 list" where
  "TRUTH_TABLE = [1, 0, - 1, 2, 1, - 1, 0, 2, - 1, 1, 0]"

record curlp =
  curl_rounds :: nat
  curl_state :: "btrit list"
  curl_work_state :: "btrit list"

definition curlp_new :: "nat \<Rightarrow> curlp" where
  "curlp_new rounds = \<lparr>curl_rounds = rounds, curl_state = replicate STATE_LEN Zero,
     curl_work_state = replicate STATE_LEN Zero\<rparr>"

text \<open>The \<open>i8\<close> arithmetic stays between 0 and 10.\<close>

definition calculate_truth_table_index :: "btrit list \<Rightarrow> nat \<Rightarrow> nat \<Rightarrow> nat option" where
  "calculate_truth_table_index xs p q = do {
     a \<leftarrow> t1b1_get xs p;
     b \<leftarrow> t1b1_get xs q;
     idx \<leftarrow> checked_signed 8 (btrit_into_i8 a + 4 * btrit_into_i8 b + 5);
     Some (nat idx) }"

text \<open>\<open>TRUTH_TABLE[index].try_into().unwrap()\<close>\<close>

definition truth_table_trit :: "nat \<Rightarrow> btrit option" where
  "truth_table_trit idx = (if idx < length TRUTH_TABLE then btrit_try_from_i8 (TRUTH_TABLE ! idx) else None)"

definition box_trit :: "btrit list \<Rightarrow> nat \<Rightarrow> nat \<Rightarrow> btrit option" where
  "box_trit input p q = do { idx \<leftarrow> calculate_truth_table_index input p q; truth_table_trit idx }"

fun box_loop :: "btrit list \<Rightarrow> nat list \<Rightarrow> btrit list \<Rightarrow> btrit list option" where
  "box_loop input [] output = Some output"
| "box_loop input (state_index # is) output = do {
     let left_idx = HALF_STATE_LEN - state_index;
     let right_idx = STATE_LEN - state_index - 1;
     t \<leftarrow> box_trit input left_idx right_idx;
     output \<leftarrow> t1b1_set output (2 * state_index + 1) t;
     let left_idx = left_idx - 1;
     t \<leftarrow> box_trit input right_idx left_idx;
     output \<leftarrow> t1b1_set output (2 * state_index + 2) t;
     box_loop input is output }"

definition apply_substitution_box :: "btrit list \<Rightarrow> btrit list \<Rightarrow> btrit list option" where
  "apply_substitution_box input output =
     (if length input \<le> STATE_LEN \<and> length output \<le> STATE_LEN
      then do {
        t \<leftarrow> box_trit input 0 HALF_STATE_LEN;
        output \<leftarrow> t1b1_set output 0 t;
        box_loop input [0..<HALF_STATE_LEN] output }
      else None)"

text \<open>Every round writes the other buffer and swaps the two.\<close>

fun transform_loop :: "nat \<Rightarrow> btrit list \<Rightarrow> btrit list \<Rightarrow> (btrit list \<times> btrit list) option" where
  "transform_loop 0 lhs rhs = Some (lhs, rhs)"
| "transform_loop (Suc n) lhs rhs = do {
     rhs \<leftarrow> apply_substitution_box lhs rhs;
     transform_loop n rhs lhs }"

definition curlp_transform :: "curlp \<Rightarrow> curlp option" where
  "curlp_transform self = do {
     (lhs, rhs) \<leftarrow> transform_loop (curl_rounds self) (curl_state self) (curl_work_state self);
     let (lhs, rhs) = (if even (curl_rounds self) then (rhs, lhs) else (lhs, rhs));
     Some (self\<lparr>curl_state := lhs, curl_work_state := rhs\<rparr>) }"

fun curlp_absorb_loop :: "curlp \<Rightarrow> btrit list list \<Rightarrow> curlp option" where
  "curlp_absorb_loop self [] = Some self"
| "curlp_absorb_loop self (chunk # chunks) = do {
     state \<leftarrow> t1b1_copy_into (curl_state self) 0 (length chunk) chunk;
     self \<leftarrow> curlp_transform (self\<lparr>curl_state := state\<rparr>);
     curlp_absorb_loop self chunks }"

definition curlp_absorb :: "curlp \<Rightarrow> btrit list \<Rightarrow> (curlp \<times> ('e + unit)) option" where
  "curlp_absorb self input = do {
     chunks \<leftarrow> t1b1_chunks input HASH_LEN;
     self \<leftarrow> curlp_absorb_loop self chunks;
     Some (self, Inr ()) }"

definition curlp_reset :: "curlp \<Rightarrow> curlp" where
  "curlp_reset self = self\<lparr>curl_state := replicate (length (curl_state self)) Zero\<rparr>"

text \<open>The mutable chunks of the buffer are written one after the other.\<close>

fun curlp_squeeze_loop :: "curlp \<Rightarrow> btrit list list \<Rightarrow> (curlp \<times> btrit list list) option" where
  "curlp_squeeze_loop self [] = Some (self, [])"
| "curlp_squeeze_loop self (chunk # chunks) = do {
     hash \<leftarrow> t1b1_slice (curl_state self) 0 (length chunk);
     chunk \<leftarrow> trits_copy_from t1b1_buf t1b1_buf chunk hash;
     self \<leftarrow> curlp_transform self;
     (self, chunks) \<leftarrow> curlp_squeeze_loop self chunks;
     Some (self, chunk # chunks) }"

definition curlp_squeeze_into :: "curlp \<Rightarrow> btrit list \<Rightarrow> (curlp \<times> btrit list \<times> ('e + unit)) option" where
  "curlp_squeeze_into self buf = do {
     chunks \<leftarrow> t1b1_chunks buf HASH_LEN;
     (self, chunks) \<leftarrow> curlp_squeeze_loop self chunks;
     Some (self, concat chunks, Inr ()) }"

text \<open>\<open>CurlP27\<close> and \<open>CurlP81\<close> forward every method; the error type is empty, here \<open>unit\<close>, and never returned.\<close>

definition curlp_sponge :: "nat \<Rightarrow> (curlp, unit) sponge" where
  "curlp_sponge rounds = \<lparr>sp_IN_LEN = HASH_LEN, sp_OUT_LEN = HASH_LEN, sp_default = curlp_new rounds,
     sp_absorb = curlp_absorb, sp_reset = curlp_reset, sp_squeeze_into = curlp_squeeze_into\<rparr>"

definition CurlP27 :: "(curlp, unit) sponge" where "CurlP27 = curlp_sponge 27"
definition CurlP81 :: "(curlp, unit) sponge" where "CurlP81 = curlp_sponge 81"

section \<open>Kerl (kerl.rs)\<close>

text \<open>
  The Keccak hasher of the tiny-keccak crate: \<open>Keccak::v384()\<close>, \<open>update\<close>, and \<open>finalize\<close>, which
  consumes the hasher and fills a slice of the given length.
\<close>

record 'k keccak_impl =
  kk_v384 :: 'k
  kk_update :: "'k \<Rightarrow> u8 list \<Rightarrow> 'k"
  kk_finalize :: "'k \<Rightarrow> nat \<Rightarrow> u8 list"

record 'k kerl =
  kerl_keccak :: 'k
  kerl_binary_buffer :: "u8 list"
  kerl_ternary_buffer :: "btrit list"

definition kerl_new :: "'k keccak_impl \<Rightarrow> 'k kerl" where
  "kerl_new K = \<lparr>kerl_keccak = kk_v384 K, kerl_binary_buffer = replicate BINARY_LEN_IN_U8 0,
     kerl_ternary_buffer = replicate T243_LEN Zero\<rparr>"

datatype kerl_error = NotMultipleOfHashLength | TernaryBinaryConversion bigint_error

fun kerl_absorb_loop :: "'k keccak_impl \<Rightarrow> 'k kerl \<Rightarrow> btrit list list \<Rightarrow> 'k kerl option" where
  "kerl_absorb_loop K self [] = Some self"
| "kerl_absorb_loop K self (trits_chunk # chunks) = do {
     ternary \<leftarrow> trits_copy_from t1b1_buf t1b1_buf (kerl_ternary_buffer self) trits_chunk;
     t242 \<leftarrow> t243_into_t242 ternary;
     binary \<leftarrow> i384_be_u8_from_t242 t242;
     kerl_absorb_loop K
       (self\<lparr>kerl_ternary_buffer := ternary, kerl_binary_buffer := binary,
          kerl_keccak := kk_update K (kerl_keccak self) binary\<rparr>) chunks }"

definition kerl_absorb :: "'k keccak_impl \<Rightarrow> 'k kerl \<Rightarrow> btrit list \<Rightarrow> ('k kerl \<times> (kerl_error + unit)) option" where
  "kerl_absorb K self input =
     (if length input mod HASH_LEN \<noteq> 0 then Some (self, Inl NotMultipleOfHashLength)
      else do {
        chunks \<leftarrow> t1b1_chunks input HASH_LEN;
        self \<leftarrow> kerl_absorb_loop K self chunks;
        Some (self, Inr ()) })"

definition kerl_reset :: "'k keccak_impl \<Rightarrow> 'k kerl \<Rightarrow> 'k kerl" where
  "kerl_reset K self = self\<lparr>kerl_keccak := kk_v384 K\<rparr>"

fun kerl_squeeze_loop ::
  "'k keccak_impl \<Rightarrow> 'k kerl \<Rightarrow> btrit list list \<Rightarrow> ('k kerl \<times> btrit list list) option" where
  "kerl_squeeze_loop K self [] = Some (self, [])"
| "kerl_squeeze_loop K self (trit_chunk # chunks) = do {
     let binary = kk_finalize K (kerl_keccak self) (length (kerl_binary_buffer self));
     t242 \<leftarrow> t242_from_i384_ignoring_mst binary;
     ternary_value \<leftarrow> t242_into_t243 Zero t242;
     trit_chunk \<leftarrow> trits_copy_from t1b1_buf t1b1_buf trit_chunk ternary_value;
     let binary = be_u8_not_inplace binary;
     (self, chunks) \<leftarrow> kerl_squeeze_loop K
       (self\<lparr>kerl_binary_buffer := binary, kerl_keccak := kk_update K (kk_v384 K) binary\<rparr>) chunks;
     Some (self, trit_chunk # chunks) }"

definition kerl_squeeze_into ::
  "'k keccak_impl \<Rightarrow> 'k kerl \<Rightarrow> btrit list \<Rightarrow> ('k kerl \<times> btrit list \<times> (kerl_error + unit)) option" where
  "kerl_squeeze_into K self buf =
     (if length buf mod HASH_LEN \<noteq> 0 then Some (self, buf, Inl NotMultipleOfHashLength)
      else do {
        chunks \<leftarrow> t1b1_chunks buf HASH_LEN;
        (self, chunks) \<leftarrow> kerl_squeeze_loop K self chunks;
        Some (self, concat chunks, Inr ()) })"

definition Kerl :: "'k keccak_impl \<Rightarrow> ('k kerl, kerl_error) sponge" where
  "Kerl K = \<lparr>sp_IN_LEN = HASH_LEN, sp_OUT_LEN = HASH_LEN, sp_default = kerl_new K,
     sp_absorb = kerl_absorb K, sp_reset = kerl_reset K, sp_squeeze_into = kerl_squeeze_into K\<rparr>"

section \<open>The substitution box\<close>

text \<open>
  The reference for the box: the two-argument function that the table stores, applied along the walk
  through the state in steps of 364 modulo 729.
\<close>

definition curl_f :: "btrit \<Rightarrow> btrit \<Rightarrow> btrit" where
  "curl_f a b = (case b of
     NegOne \<Rightarrow> (case a of NegOne \<Rightarrow> PlusOne | Zero \<Rightarrow> Zero | PlusOne \<Rightarrow> NegOne)
   | Zero \<Rightarrow> (case a of NegOne \<Rightarrow> PlusOne | Zero \<Rightarrow> NegOne | PlusOne \<Rightarrow> Zero)
   | PlusOne \<Rightarrow> (case a of NegOne \<Rightarrow> NegOne | Zero \<Rightarrow> PlusOne | PlusOne \<Rightarrow> Zero))"

definition curl_step :: "btrit list \<Rightarrow> nat \<Rightarrow> btrit" where
  "curl_step xs k = curl_f (xs ! (364 * k mod 729)) (xs ! (364 * (k + 1) mod 729))"

definition curl_round :: "btrit list \<Rightarrow> btrit list" where
  "curl_round xs = map (curl_step xs) [0..<729]"

lemma length_curl_round [simp]: "length (curl_round xs) = 729"
  by (simp add: curl_round_def)

lemmas curl_lens = HASH_LEN_def STATE_LEN_def HALF_STATE_LEN_def

lemma truth_table_curl_f:
  "truth_table_trit (nat (btrit_into_i8 a + 4 * btrit_into_i8 b + 5)) = Some (curl_f a b)"
  by (cases a; cases b) (simp_all add: truth_table_trit_def TRUTH_TABLE_def btrit_try_from_i8_def curl_f_def)

lemma box_trit_eq: "p < length xs \<Longrightarrow> q < length xs \<Longrightarrow> box_trit xs p q = Some (curl_f (xs ! p) (xs ! q))"
proof -
  assume "p < length xs" "q < length xs"
  moreover have "checked_signed 8 (btrit_into_i8 a + 4 * btrit_into_i8 b + 5) =
      Some (btrit_into_i8 a + 4 * btrit_into_i8 b + 5)" for a b
    by (cases a; cases b) (simp_all add: checked_signed_def)
  ultimately show ?thesis
    by (simp add: box_trit_def calculate_truth_table_index_def t1b1_get_eq truth_table_curl_f)
qed

lemma walk_odd: "i \<le> 364 \<Longrightarrow> 364 * (2 * i + 1) mod 729 = 364 - (i::nat)"
proof -
  assume "i \<le> 364"
  then have "364 * (2 * i + 1) = 364 - i + 729 * i"
    by simp
  then show ?thesis
    by (simp only: mod_mult_self2) simp
qed

lemma walk_even: "i \<le> 364 \<Longrightarrow> 364 * (2 * i + 2) mod 729 = 728 - (i::nat)"
proof -
  assume "i \<le> 364"
  then have "364 * (2 * i + 2) = 728 - i + 729 * i"
    by simp
  then show ?thesis
    by (simp only: mod_mult_self2) simp
qed

lemma curl_step_odd: "i < 364 \<Longrightarrow> curl_step xs (Suc (2 * i)) = curl_f (xs ! (364 - i)) (xs ! (728 - i))"
  using walk_odd [of i] walk_even [of i] by (simp add: curl_step_def)

lemma curl_step_even: "i < 364 \<Longrightarrow> curl_step xs (Suc (Suc (2 * i))) = curl_f (xs ! (728 - i)) (xs ! (363 - i))"
  using walk_even [of i] walk_odd [of "Suc i"] by (simp add: curl_step_def)

lemma box_loop_eq:
  assumes "length input = 729" "length ys = 729" "i \<le> 364"
  shows "box_loop input [i..<364] ys =
    Some (map (\<lambda>k. if 2 * i < k then curl_step input k else ys ! k) [0..<729])"
  using assms(2,3)
proof (induction "364 - i" arbitrary: i ys)
  case 0
  then have "map (\<lambda>k. if 2 * i < k then curl_step input k else ys ! k) [0..<729] = ys"
    by (intro nth_equalityI) auto
  then show ?case
    using 0 by simp
next
  case (Suc n)
  let ?out = "ys[2 * i + 1 := curl_step input (2 * i + 1), 2 * i + 2 := curl_step input (2 * i + 2)]"
  have i: "i < 364" "[i..<364] = i # [Suc i..<364]"
    using Suc.hyps(2) by (auto simp: upt_conv_Cons)
  have "box_loop input [i..<364] ys = box_loop input [Suc i..<364] ?out"
    using i(1) assms(1) Suc.prems(1)
    by (simp add: i(2) curl_lens box_trit_eq t1b1_set_eq curl_step_odd curl_step_even Let_def)
  also have "\<dots> = Some (map (\<lambda>k. if 2 * Suc i < k then curl_step input k else ?out ! k) [0..<729])"
    using Suc i by (intro Suc.hyps(1)) auto
  also have "map (\<lambda>k. if 2 * Suc i < k then curl_step input k else ?out ! k) [0..<729] =
      map (\<lambda>k. if 2 * i < k then curl_step input k else ys ! k) [0..<729]"
    using i(1) Suc.prems(1) by (auto simp: nth_list_update intro!: arg_cong [where f = "curl_step input"])
  finally show ?case .
qed

lemma apply_substitution_box_eq:
  assumes "length input = 729" "length ys = 729"
  shows "apply_substitution_box input ys = Some (curl_round input)"
proof -
  let ?out = "ys[0 := curl_step input 0]"
  have "box_trit input 0 364 = Some (curl_step input 0)"
    using assms(1) by (simp add: box_trit_eq curl_step_def)
  then have "apply_substitution_box input ys = box_loop input [0..<364] ?out"
    using assms by (simp add: apply_substitution_box_def curl_lens t1b1_set_eq)
  also have "\<dots> = Some (map (\<lambda>k. if 2 * 0 < k then curl_step input k else ?out ! k) [0..<729])"
    using assms by (intro box_loop_eq) simp_all
  also have "map (\<lambda>k. if 2 * 0 < k then curl_step input k else ?out ! k) [0..<729] = curl_round input"
    using assms(2) by (auto simp: curl_round_def nth_list_update)
  finally show ?thesis .
qed

section \<open>The rounds of CurlP\<close>

lemma transform_loop_eq:
  assumes "length lhs = 729" "length rhs = 729"
  shows "transform_loop n lhs rhs =
    Some ((curl_round ^^ n) lhs, if n = 0 then rhs else (curl_round ^^ (n - 1)) lhs)"
  using assms
proof (induction n arbitrary: lhs rhs)
  case (Suc n)
  then show ?case
    by (cases n) (simp_all add: apply_substitution_box_eq funpow_swap1)
qed simp

definition curlp_inv :: "nat \<Rightarrow> curlp \<Rightarrow> bool" where
  "curlp_inv n self \<longleftrightarrow> curl_rounds self = n \<and> length (curl_state self) = 729 \<and> length (curl_work_state self) = 729"

lemma length_curl_rounds [simp]: "length xs = 729 \<Longrightarrow> length ((curl_round ^^ n) xs) = 729"
  by (cases n) simp_all

lemma curlp_transform_eq:
  assumes "curlp_inv n self" "odd n"
  shows "\<exists>self'. curlp_transform self = Some self' \<and> curlp_inv n self'
    \<and> curl_state self' = (curl_round ^^ n) (curl_state self)"
  using assms by (simp add: curlp_transform_def curlp_inv_def transform_loop_eq)

section \<open>The contract of a sponge\<close>

lemma push_times_t1b1: "push_times t1b1_buf xs n t = Some (xs @ replicate n t)"
  by (induction n arbitrary: xs) (simp_all add: t1b1_buf_def t1b1_push_def)

lemma t1b1_zeros: "trit_buf_zeros t1b1_buf z n = Some (replicate n z)"
  using push_times_t1b1 [of "[]" n z] by (simp add: trit_buf_zeros_def trit_buf_filled_def t1b1_buf_def)

fun squeeze_blocks :: "('v \<Rightarrow> btrit list \<times> 'v) \<Rightarrow> nat \<Rightarrow> 'v \<Rightarrow> btrit list list \<times> 'v" where
  "squeeze_blocks f 0 v = ([], v)"
| "squeeze_blocks f (Suc n) v =
     (case f v of (b, v) \<Rightarrow> case squeeze_blocks f n v of (bs, v) \<Rightarrow> (b # bs, v))"

lemma length_squeeze_blocks [simp]: "length (fst (squeeze_blocks f n v)) = n"
  by (induction n arbitrary: v) (simp_all add: case_prod_unfold)

text \<open>
  The abstract state \<open>view\<close> is what the outputs depend on: it takes up one block at a time (\<open>vabsorb\<close>)
  and gives out one block at a time (\<open>vsqueeze\<close>).
\<close>

locale sponge_law =
  fixes S :: "('s, 'e) sponge"
    and inv :: "'s \<Rightarrow> bool"
    and view :: "'s \<Rightarrow> 'v"
    and vabsorb :: "'v \<Rightarrow> btrit list \<Rightarrow> 'v"
    and vsqueeze :: "'v \<Rightarrow> btrit list \<times> 'v"
  assumes out_len: "sp_OUT_LEN S = 243"
    and default_inv: "inv (sp_default S)"
    and absorb_law: "inv s \<Longrightarrow> 243 dvd length input \<Longrightarrow>
      \<exists>s'. sp_absorb S s input = Some (s', Inr ()) \<and> inv s'
        \<and> view s' = foldl vabsorb (view s) (chunks_of 243 input)"
    and squeeze_law: "inv s \<Longrightarrow> 243 dvd length buf \<Longrightarrow>
      \<exists>s' out. sp_squeeze_into S s buf = Some (s', out, Inr ()) \<and> inv s' \<and> length out = length buf
        \<and> out = concat (fst (squeeze_blocks vsqueeze (length buf div 243) (view s)))
        \<and> view s' = snd (squeeze_blocks vsqueeze (length buf div 243) (view s))"
    and reset_law: "inv s \<Longrightarrow> inv (sp_reset S s) \<and> view (sp_reset S s) = view (sp_default S)"
begin

text \<open>A sponge that is as good as a new one, and the function it computes from there.\<close>

definition fresh :: "'s \<Rightarrow> bool" where
  "fresh s \<longleftrightarrow> inv s \<and> view s = view (sp_default S)"

definition absorbed :: "btrit list \<Rightarrow> 'v" where
  "absorbed input = foldl vabsorb (view (sp_default S)) (chunks_of 243 input)"

definition hash :: "nat \<Rightarrow> btrit list \<Rightarrow> btrit list" where
  "hash n input = concat (fst (squeeze_blocks vsqueeze n (absorbed input)))"

lemma fresh_default [simp]: "fresh (sp_default S)"
  by (simp add: fresh_def default_inv)

lemma fresh_reset: "inv s \<Longrightarrow> fresh (sp_reset S s)"
  by (simp add: fresh_def reset_law)

lemma absorb_fresh:
  assumes "fresh s" "243 dvd length input"
  obtains s' where "sp_absorb S s input = Some (s', Inr ())" "inv s'" "view s' = absorbed input"
  using absorb_law [of s input] assms by (auto simp: fresh_def absorbed_def)

lemma absorb_more:
  assumes "inv s" "view s = absorbed xs" "243 dvd length xs" "243 dvd length ys"
  obtains s' where "sp_absorb S s ys = Some (s', Inr ())" "inv s'" "view s' = absorbed (xs @ ys)"
  using absorb_law [of s ys] assms by (auto simp: absorbed_def chunks_of_append_dvd)

lemma squeeze_hash:
  assumes "inv s" "view s = absorbed xs" "length buf = 243 * n"
  obtains s' where "sp_squeeze_into S s buf = Some (s', hash n xs, Inr ())" "inv s'"
  using squeeze_law [of s buf] assms by (auto simp: hash_def)

lemma length_hash [simp]: "243 dvd length xs \<Longrightarrow> length (hash n xs) = 243 * n"
proof -
  assume xs: "243 dvd length xs"
  obtain s where s: "inv s" "view s = absorbed xs"
    by (rule absorb_fresh [OF fresh_default xs]) blast
  show ?thesis
    using squeeze_law [OF s(1), of "replicate (243 * n) Zero"] s(2) by (auto simp: hash_def)
qed

text \<open>The default methods compute the function and leave the sponge fresh.\<close>

lemma digest_into_hash:
  assumes "fresh s" "243 dvd length input" "length buf = 243 * n"
  shows "\<exists>s'. sp_digest_into S s input buf = Some (s', hash n input, Inr ()) \<and> fresh s'"
proof -
  obtain s1 where s1: "sp_absorb S s input = Some (s1, Inr ())" "inv s1" "view s1 = absorbed input"
    using absorb_fresh [OF assms(1,2)] by blast
  obtain s2 where s2: "sp_squeeze_into S s1 buf = Some (s2, hash n input, Inr ())" "inv s2"
    using squeeze_hash [OF s1(2,3) assms(3)] by blast
  then show ?thesis
    using s1(1) by (simp add: sp_digest_into_def fresh_reset)
qed

lemma digest_hash:
  assumes "fresh s" "243 dvd length input"
  shows "\<exists>s'. sp_digest S s input = Some (s', Inr (hash 1 input)) \<and> fresh s'"
proof -
  obtain s1 where s1: "sp_absorb S s input = Some (s1, Inr ())" "inv s1" "view s1 = absorbed input"
    using absorb_fresh [OF assms(1,2)] by blast
  have z: "trit_buf_zeros t1b1_buf Zero 243 = Some (replicate 243 Zero)"
    by (rule t1b1_zeros)
  obtain s2 where s2: "sp_squeeze_into S s1 (replicate 243 Zero) = Some (s2, hash 1 input, Inr ())" "inv s2"
    by (rule squeeze_hash [OF s1(2,3), of "replicate 243 Zero" 1]) simp_all
  then show ?thesis
    using s1(1) z by (simp add: sp_digest_def sp_squeeze_def out_len fresh_reset)
qed

lemma digest_repeatable:
  assumes "243 dvd length a" "243 dvd length b"
  shows "\<exists>s1 s2 s3 h g. sp_digest S (sp_default S) a = Some (s1, Inr h)
    \<and> sp_digest S s1 b = Some (s2, Inr g) \<and> sp_digest S s2 a = Some (s3, Inr h) \<and> length h = 243"
proof -
  obtain s1 where s1: "sp_digest S (sp_default S) a = Some (s1, Inr (hash 1 a))" "fresh s1"
    using digest_hash [OF fresh_default assms(1)] by blast
  obtain s2 where s2: "sp_digest S s1 b = Some (s2, Inr (hash 1 b))" "fresh s2"
    using digest_hash [OF s1(2) assms(2)] by blast
  obtain s3 where s3: "sp_digest S s2 a = Some (s3, Inr (hash 1 a))"
    using digest_hash [OF s2(2) assms(1)] by blast
  have "length (hash 1 a) = 243"
    using assms(1) by simp
  then show ?thesis
    using s1(1) s2(1) s3 by blast
qed

text \<open>Absorbing two halves one after the other, as the Merkle tree does, hashes their concatenation.\<close>

lemma absorb_two_hash:
  assumes "fresh s" "243 dvd length xs" "243 dvd length ys" "length buf = 243 * n"
  shows "\<exists>s1 s2 s3. sp_absorb S s xs = Some (s1, Inr ()) \<and> sp_absorb S s1 ys = Some (s2, Inr ())
    \<and> sp_squeeze_into S s2 buf = Some (s3, hash n (xs @ ys), Inr ()) \<and> fresh (sp_reset S s3)"
proof -
  obtain s1 where s1: "sp_absorb S s xs = Some (s1, Inr ())" "inv s1" "view s1 = absorbed xs"
    using absorb_fresh [OF assms(1,2)] by blast
  obtain s2 where s2: "sp_absorb S s1 ys = Some (s2, Inr ())" "inv s2" "view s2 = absorbed (xs @ ys)"
    using absorb_more [OF s1(2,3) assms(2,3)] by blast
  obtain s3 where "sp_squeeze_into S s2 buf = Some (s3, hash n (xs @ ys), Inr ())" "inv s3"
    using squeeze_hash [OF s2(2,3) assms(4)] by blast
  then show ?thesis
    using s1(1) s2(1) by (simp add: fresh_reset)
qed

end

section \<open>CurlP satisfies the contract\<close>

definition curl_vabsorb :: "nat \<Rightarrow> btrit list \<Rightarrow> btrit list \<Rightarrow> btrit list" where
  "curl_vabsorb n v c = (curl_round ^^ n) (c @ drop (length c) v)"

definition curl_vsqueeze :: "nat \<Rightarrow> btrit list \<Rightarrow> btrit list \<times> btrit list" where
  "curl_vsqueeze n v = (take 243 v, (curl_round ^^ n) v)"

lemma curlp_absorb_loop_law:
  assumes "curlp_inv n self" "odd n" "list_all (\<lambda>c. length c \<le> 729) cs"
  shows "\<exists>self'. curlp_absorb_loop self cs = Some self' \<and> curlp_inv n self'
    \<and> curl_state self' = foldl (curl_vabsorb n) (curl_state self) cs"
  using assms
proof (induction cs arbitrary: self)
  case (Cons c cs)
  let ?in = "self\<lparr>curl_state := c @ drop (length c) (curl_state self)\<rparr>"
  have "t1b1_copy_into (curl_state self) 0 (length c) c = Some (c @ drop (length c) (curl_state self))"
    using Cons.prems by (simp add: t1b1_copy_into_eq curlp_inv_def)
  moreover have "curlp_inv n ?in"
    using Cons.prems by (simp add: curlp_inv_def)
  moreover obtain self' where "curlp_transform ?in = Some self'" "curlp_inv n self'"
    "curl_state self' = curl_vabsorb n (curl_state self) c"
    using curlp_transform_eq [OF calculation(2) Cons.prems(2)] by (auto simp: curl_vabsorb_def)
  ultimately show ?case
    using Cons.IH [of self'] Cons.prems by simp
qed simp

lemma curlp_squeeze_loop_law:
  assumes "curlp_inv n self" "odd n" "list_all (\<lambda>c. length c = 243) cs"
  shows "\<exists>self'. curlp_squeeze_loop self cs =
      Some (self', fst (squeeze_blocks (curl_vsqueeze n) (length cs) (curl_state self)))
    \<and> curlp_inv n self' \<and> curl_state self' = snd (squeeze_blocks (curl_vsqueeze n) (length cs) (curl_state self))
    \<and> list_all (\<lambda>c. length c = 243) (fst (squeeze_blocks (curl_vsqueeze n) (length cs) (curl_state self)))"
  using assms
proof (induction cs arbitrary: self)
  case (Cons c cs)
  obtain self1 where self1: "curlp_transform self = Some self1" "curlp_inv n self1"
    "curl_state self1 = (curl_round ^^ n) (curl_state self)"
    using curlp_transform_eq [OF Cons.prems(1,2)] by blast
  have "t1b1_slice (curl_state self) 0 (length c) = Some (take 243 (curl_state self))"
    "trits_copy_from t1b1_buf t1b1_buf c (take 243 (curl_state self)) = Some (take 243 (curl_state self))"
    using Cons.prems by (simp_all add: t1b1_slice_eq trits_copy_from_t1b1 curlp_inv_def)
  then show ?case
    using Cons.IH [OF self1(2)] Cons.prems self1
    by (auto simp: curl_vsqueeze_def case_prod_unfold curlp_inv_def)
qed simp

lemma list_all_chunks: "0 < k \<Longrightarrow> k dvd length xs \<Longrightarrow> list_all (\<lambda>c. length c = k) (chunks_of k xs)"
  using chunks_of_all by (auto simp: list_all_iff)

lemma length_concat_blocks: "list_all (\<lambda>c. length c = k) cs \<Longrightarrow> length (concat cs) = k * length cs"
  by (induction cs) simp_all

lemma curlp_sponge_law:
  assumes "odd n"
  shows "sponge_law (curlp_sponge n) (curlp_inv n) curl_state (curl_vabsorb n) (curl_vsqueeze n)"
proof (unfold_locales, goal_cases)
  case 1
  show ?case
    by (simp add: curlp_sponge_def HASH_LEN_def)
next
  case 2
  show ?case
    by (simp add: curlp_sponge_def curlp_new_def curlp_inv_def curl_lens)
next
  case (3 s input)
  have "list_all (\<lambda>c. length c \<le> 729) (chunks_of 243 input)"
    using list_all_chunks [of 243 input] 3(2) by (auto simp: list_all_iff)
  then show ?case
    using curlp_absorb_loop_law [OF 3(1) assms, of "chunks_of 243 input"]
    by (auto simp: curlp_sponge_def curlp_absorb_def HASH_LEN_def t1b1_chunks_eq)
next
  case (4 s buf)
  have cs: "list_all (\<lambda>c. length c = 243) (chunks_of 243 buf)" "length (chunks_of 243 buf) = length buf div 243"
    using list_all_chunks [of 243 buf] length_chunks_of [of 243 buf] 4(2) by simp_all
  then show ?case
    using curlp_squeeze_loop_law [OF 4(1) assms cs(1)] 4(2)
    by (auto simp: curlp_sponge_def curlp_squeeze_into_def HASH_LEN_def t1b1_chunks_eq length_concat_blocks)
next
  case (5 s)
  then show ?case
    by (simp add: curlp_sponge_def curlp_reset_def curlp_new_def curlp_inv_def curl_lens)
qed

interpretation curl27: sponge_law CurlP27 "curlp_inv 27" curl_state "curl_vabsorb 27" "curl_vsqueeze 27"
  unfolding CurlP27_def by (rule curlp_sponge_law) simp

interpretation curl81: sponge_law CurlP81 "curlp_inv 81" curl_state "curl_vabsorb 81" "curl_vsqueeze 81"
  unfolding CurlP81_def by (rule curlp_sponge_law) simp

section \<open>Kerl satisfies the contract\<close>

text \<open>What the documentation of tiny-keccak promises: \<open>finalize\<close> fills the slice it is given.\<close>

definition keccak_fills :: "'k keccak_impl \<Rightarrow> bool" where
  "keccak_fills K \<longleftrightarrow> (\<forall>k n. length (kk_finalize K k n) = n)"

definition kerl_inv :: "'k kerl \<Rightarrow> bool" where
  "kerl_inv self \<longleftrightarrow> length (kerl_ternary_buffer self) = 243 \<and> length (kerl_binary_buffer self) = 48"

definition kerl_vabsorb :: "'k keccak_impl \<Rightarrow> 'k \<Rightarrow> btrit list \<Rightarrow> 'k" where
  "kerl_vabsorb K k c = kk_update K k (the (i384_be_u8_from_t242 (butlast c)))"

definition kerl_vsqueeze :: "'k keccak_impl \<Rightarrow> 'k \<Rightarrow> btrit list \<times> 'k" where
  "kerl_vsqueeze K k = (the (t242_from_i384_ignoring_mst (kk_finalize K k 48)) @ [Zero],
     kk_update K (kk_v384 K) (be_u8_not_inplace (kk_finalize K k 48)))"

lemma i384_be_u8_from_t242_total:
  "length ts = 242 \<Longrightarrow> \<exists>bs. i384_be_u8_from_t242 ts = Some bs \<and> length bs = 48"
  using le_i384_from_t242_law [of ts]
  by (auto simp: i384_be_u8_from_t242_def toggle_endianness_def repr_defs)

lemma t242_from_i384_ignoring_mst_total:
  assumes "length bs = 48"
  shows "\<exists>ts. t242_from_i384_ignoring_mst bs = Some ts \<and> length ts = 242"
proof -
  obtain ds where "le_read_u32_into (toggle_endianness bs) = Some ds" "length ds = 12"
    using le_read_law [of "toggle_endianness bs" 12] assms by (auto simp: toggle_endianness_def)
  then show ?thesis
    using t242_from_i384_ignoring_mst_law [of bs ds] assms by (auto simp: repr_defs)
qed

lemma kerl_absorb_loop_law:
  assumes "kerl_inv self" "list_all (\<lambda>c. length c = 243) cs"
  shows "\<exists>self'. kerl_absorb_loop K self cs = Some self' \<and> kerl_inv self'
    \<and> kerl_keccak self' = foldl (kerl_vabsorb K) (kerl_keccak self) cs"
  using assms
proof (induction cs arbitrary: self)
  case (Cons c cs)
  obtain bs where bs: "i384_be_u8_from_t242 (butlast c) = Some bs" "length bs = 48"
    using i384_be_u8_from_t242_total [of "butlast c"] Cons.prems by auto
  let ?self = "self\<lparr>kerl_ternary_buffer := c, kerl_binary_buffer := bs,
    kerl_keccak := kk_update K (kerl_keccak self) bs\<rparr>"
  have "kerl_absorb_loop K self (c # cs) = kerl_absorb_loop K ?self cs"
    using Cons.prems bs(1) by (simp add: trits_copy_from_t1b1 kerl_inv_def t243_into_t242_eq)
  moreover have "kerl_inv ?self"
    using Cons.prems bs(2) by (simp add: kerl_inv_def)
  ultimately show ?case
    using Cons.IH [of ?self] Cons.prems(2) bs(1) by (simp add: kerl_vabsorb_def)
qed simp

lemma kerl_squeeze_loop_law:
  assumes "keccak_fills K" "kerl_inv self" "list_all (\<lambda>c. length c = 243) cs"
  shows "\<exists>self'. kerl_squeeze_loop K self cs =
      Some (self', fst (squeeze_blocks (kerl_vsqueeze K) (length cs) (kerl_keccak self)))
    \<and> kerl_inv self' \<and> kerl_keccak self' = snd (squeeze_blocks (kerl_vsqueeze K) (length cs) (kerl_keccak self))
    \<and> list_all (\<lambda>c. length c = 243) (fst (squeeze_blocks (kerl_vsqueeze K) (length cs) (kerl_keccak self)))"
  using assms(2,3)
proof (induction cs arbitrary: self)
  case (Cons c cs)
  let ?bs = "kk_finalize K (kerl_keccak self) 48"
  let ?self = "self\<lparr>kerl_binary_buffer := be_u8_not_inplace ?bs,
    kerl_keccak := kk_update K (kk_v384 K) (be_u8_not_inplace ?bs)\<rparr>"
  have l: "length ?bs = 48"
    using assms(1) by (simp add: keccak_fills_def)
  then obtain ts where ts: "t242_from_i384_ignoring_mst ?bs = Some ts" "length ts = 242"
    using t242_from_i384_ignoring_mst_total by blast
  have "kerl_squeeze_loop K self (c # cs) =
      do { (self, cs) \<leftarrow> kerl_squeeze_loop K ?self cs; Some (self, (ts @ [Zero]) # cs) }"
    using Cons.prems ts by (simp add: trits_copy_from_t1b1 kerl_inv_def t242_into_t243_eq Let_def)
  moreover have "kerl_inv ?self"
    using Cons.prems l by (simp add: kerl_inv_def be_u8_not_inplace_def)
  ultimately show ?case
    using Cons.IH [of ?self] Cons.prems(2) ts
    by (auto simp: kerl_vsqueeze_def case_prod_unfold)
qed simp

lemma kerl_sponge_law:
  assumes "keccak_fills K"
  shows "sponge_law (Kerl K) kerl_inv kerl_keccak (kerl_vabsorb K) (kerl_vsqueeze K)"
proof (unfold_locales, goal_cases)
  case 1
  show ?case
    by (simp add: Kerl_def HASH_LEN_def)
next
  case 2
  show ?case
    by (simp add: Kerl_def kerl_new_def kerl_inv_def T243_LEN_def BINARY_LEN_IN_U8_def BINARY_LEN_def)
next
  case (3 s input)
  then show ?case
    using kerl_absorb_loop_law [OF 3(1) list_all_chunks [of 243 input], of K]
    by (auto simp: Kerl_def kerl_absorb_def HASH_LEN_def t1b1_chunks_eq mod_eq_0_iff_dvd)
next
  case (4 s buf)
  have cs: "list_all (\<lambda>c. length c = 243) (chunks_of 243 buf)" "length (chunks_of 243 buf) = length buf div 243"
    using list_all_chunks [of 243 buf] length_chunks_of [of 243 buf] 4(2) by simp_all
  then show ?case
    using kerl_squeeze_loop_law [OF assms 4(1) cs(1)] 4(2)
    by (auto simp: Kerl_def kerl_squeeze_into_def HASH_LEN_def t1b1_chunks_eq length_concat_blocks mod_eq_0_iff_dvd)
next
  case (5 s)
  then show ?case
    by (simp add: Kerl_def kerl_reset_def kerl_new_def kerl_inv_def)
qed

section \<open>Properties\<close>

text \<open>
  C24. The rounds of \<open>CurlP\<close> against the reference walk in steps of 364: the box computes one reference
  round, and a transformation with an odd number of rounds, as both fixed variants have it, computes
  that many. With an even number the final swap gives back the state before the last round, and with
  none the work buffer.
\<close>

theorem curlp_transform_reference:
  assumes "length (curl_state self) = 729" "length (curl_work_state self) = 729"
  shows "apply_substitution_box (curl_state self) (curl_work_state self) = Some (curl_round (curl_state self))
    \<and> map_option curl_state (curlp_transform self) = Some
        (if odd (curl_rounds self) then (curl_round ^^ curl_rounds self) (curl_state self)
         else if curl_rounds self = 0 then curl_work_state self
         else (curl_round ^^ (curl_rounds self - 1)) (curl_state self))"
  using assms by (simp add: apply_substitution_box_eq curlp_transform_def transform_loop_eq)

theorem curlp_transform_reference_witness:
  "map_option curl_state (curlp_transform (curlp_new 2)) = Some (curl_round (replicate 729 Zero))"
proof -
  have l: "length (curl_state (curlp_new 2)) = 729" "length (curl_work_state (curlp_new 2)) = 729"
    by (simp_all add: curlp_new_def curl_lens)
  have "curl_rounds (curlp_new 2) = 2" "curl_state (curlp_new 2) = replicate 729 Zero"
    by (simp_all add: curlp_new_def curl_lens)
  then show ?thesis
    using conjunct2 [OF curlp_transform_reference [OF l]] by simp
qed

text \<open>
  A digest is a function of its input. For each of the three sponges and every input of whole blocks
  it succeeds with 243 trits, and the reset it ends with makes the sponge as good as new: the same
  digest follows, whatever was digested before. Kerl refuses an input that is not made of whole blocks.
\<close>

theorem sponge_digest_repeatable:
  assumes "keccak_fills K" "243 dvd length a" "243 dvd length b"
  shows "(\<exists>s1 s2 s3 h g. sp_digest CurlP27 (sp_default CurlP27) a = Some (s1, Inr h)
      \<and> sp_digest CurlP27 s1 b = Some (s2, Inr g) \<and> sp_digest CurlP27 s2 a = Some (s3, Inr h) \<and> length h = 243)
    \<and> (\<exists>s1 s2 s3 h g. sp_digest CurlP81 (sp_default CurlP81) a = Some (s1, Inr h)
      \<and> sp_digest CurlP81 s1 b = Some (s2, Inr g) \<and> sp_digest CurlP81 s2 a = Some (s3, Inr h) \<and> length h = 243)
    \<and> (\<exists>s1 s2 s3 h g. sp_digest (Kerl K) (sp_default (Kerl K)) a = Some (s1, Inr h)
      \<and> sp_digest (Kerl K) s1 b = Some (s2, Inr g) \<and> sp_digest (Kerl K) s2 a = Some (s3, Inr h) \<and> length h = 243)
    \<and> (\<forall>s c. \<not> 243 dvd length c \<longrightarrow> sp_digest (Kerl K) s c = Some (s, Inl NotMultipleOfHashLength))"
proof (intro conjI)
  show "\<forall>s c. \<not> 243 dvd length c \<longrightarrow> sp_digest (Kerl K) s c = Some (s, Inl NotMultipleOfHashLength)"
    by (simp add: sp_digest_def Kerl_def kerl_absorb_def HASH_LEN_def mod_eq_0_iff_dvd)
qed (rule curl27.digest_repeatable [OF assms(2,3)] curl81.digest_repeatable [OF assms(2,3)]
    sponge_law.digest_repeatable [OF kerl_sponge_law [OF assms(1)] assms(2,3)])+

text \<open>A stand-in for the Keccak of the external crate.\<close>

definition example_keccak :: "u8 keccak_impl" where
  "example_keccak = \<lparr>kk_v384 = 0, kk_update = (\<lambda>k bs. foldl (+) (3 * k) bs), kk_finalize = (\<lambda>k n. replicate n k)\<rparr>"

lemma keccak_fills_example: "keccak_fills example_keccak"
  by (simp add: keccak_fills_def example_keccak_def)

theorem sponge_digest_repeatable_witness:
  "\<exists>s1 s2 s3 h g. sp_digest (Kerl example_keccak) (sp_default (Kerl example_keccak)) (replicate 243 PlusOne) = Some (s1, Inr h)
    \<and> sp_digest (Kerl example_keccak) s1 (replicate 486 Zero) = Some (s2, Inr g)
    \<and> sp_digest (Kerl example_keccak) s2 (replicate 243 PlusOne) = Some (s3, Inr h) \<and> length h = 243"
  using sponge_digest_repeatable [OF keccak_fills_example, of "replicate 243 PlusOne" "replicate 486 Zero"] by simp

end
