(* ===== verification/Wots.thy ===== *)
theory Wots
  imports Sponge
begin

text \<open>
  Winternitz one-time signatures (src/bee-signing/src/wots.rs), the seeds they are generated from
  (iota_seed.rs) and the normalisation of the hash that is signed (normalize.rs). All of it is generic
  in the sponge, a dictionary of the trait; a panic is \<open>None\<close>, an error an \<open>Inl\<close>. The random generation
  of a seed is not modelled.

  The main result is that what is signed verifies: the public key recovered from a signature is the
  one generated from the private key, for every sponge that satisfies \<open>sponge_law\<close>.
\<close>

section \<open>Seeds (iota_seed.rs)\<close>

type_synonym iota_seed = "btrit list"

datatype iota_seed_error = SeedInvalidLength nat

definition iota_seed_from_buf :: "btrit list \<Rightarrow> iota_seed_error + iota_seed" where
  "iota_seed_from_buf buf = (if length buf \<noteq> 243 then Inl (SeedInvalidLength (length buf)) else Inr buf)"

text \<open>One increment: the loop over the trits stops at the first one that can be incremented.\<close>

fun seed_increment :: "btrit list \<Rightarrow> btrit list" where
  "seed_increment [] = []"
| "seed_increment (t # ts) =
     (case btrit_checked_increment t of
        Some ntrit \<Rightarrow> ntrit # ts
      | None \<Rightarrow> NegOne # seed_increment ts)"

fun seed_increments :: "nat \<Rightarrow> btrit list \<Rightarrow> btrit list" where
  "seed_increments 0 subseed = subseed"
| "seed_increments (Suc n) subseed = seed_increments n (seed_increment subseed)"

text \<open>An error of the sponge is declared unreachable.\<close>

definition iota_seed_subseed :: "('s, 'e) sponge \<Rightarrow> iota_seed \<Rightarrow> u64 \<Rightarrow> iota_seed option" where
  "iota_seed_subseed S seed index = do {
     (_, r) \<leftarrow> sp_digest S (sp_default S) (seed_increments (unat index) seed);
     (case r of Inr buf \<Rightarrow> Some buf | Inl _ \<Rightarrow> None) }"

section \<open>Keys (wots.rs)\<close>

datatype wots_security_level = Low | Medium | High

primrec security_level_as_usize :: "wots_security_level \<Rightarrow> nat" where
  "security_level_as_usize Low = 1"
| "security_level_as_usize Medium = 2"
| "security_level_as_usize High = 3"

datatype wots_error = MissingSecurityLevel | FailedSpongeOperation

type_synonym wots_private_key_generator_builder = "wots_security_level option"
type_synonym wots_private_key_generator = wots_security_level

definition wots_builder_security_level ::
  "wots_private_key_generator_builder \<Rightarrow> wots_security_level \<Rightarrow> wots_private_key_generator_builder" where
  "wots_builder_security_level self security_level = Some security_level"

definition wots_build :: "wots_private_key_generator_builder \<Rightarrow> wots_error + wots_private_key_generator" where
  "wots_build self = (case self of Some level \<Rightarrow> Inr level | None \<Rightarrow> Inl MissingSecurityLevel)"

definition wots_generate ::
  "('s, 'e) sponge \<Rightarrow> wots_private_key_generator \<Rightarrow> iota_seed \<Rightarrow> u64 \<Rightarrow> (wots_error + btrit list) option" where
  "wots_generate S self seed index = do {
     subseed \<leftarrow> iota_seed_subseed S seed index;
     state \<leftarrow> trit_buf_zeros t1b1_buf Zero (security_level_as_usize self * 6561);
     (_, state, r) \<leftarrow> sp_digest_into S (sp_default S) subseed state;
     Some (case r of Inl _ \<Rightarrow> Inl FailedSpongeOperation | Inr _ \<Rightarrow> Inr state) }"

text \<open>Hashing one chunk in place a number of times.\<close>

fun chunk_hash ::
  "('s, 'e) sponge \<Rightarrow> nat \<Rightarrow> 's \<Rightarrow> btrit list \<Rightarrow> ('s \<times> (wots_error + btrit list)) option" where
  "chunk_hash S 0 sponge chunk = Some (sponge, Inr chunk)"
| "chunk_hash S (Suc n) sponge chunk = do {
     (sponge, r) \<leftarrow> sp_absorb S sponge chunk;
     (case r of
        Inl _ \<Rightarrow> Some (sponge, Inl FailedSpongeOperation)
      | Inr _ \<Rightarrow> do {
          (sponge, chunk, r) \<leftarrow> sp_squeeze_into S sponge chunk;
          (case r of
             Inl _ \<Rightarrow> Some (sponge, Inl FailedSpongeOperation)
           | Inr _ \<Rightarrow> chunk_hash S n (sp_reset S sponge) chunk) }) }"

text \<open>The loop over \<open>chunks_mut(243).enumerate()\<close>; \<open>rounds\<close> is the number of times for a chunk.\<close>

fun hash_chunks ::
  "('s, 'e) sponge \<Rightarrow> (nat \<Rightarrow> nat option) \<Rightarrow> nat \<Rightarrow> 's \<Rightarrow> btrit list list
    \<Rightarrow> ('s \<times> (wots_error + btrit list list)) option" where
  "hash_chunks S rounds i sponge [] = Some (sponge, Inr [])"
| "hash_chunks S rounds i sponge (chunk # chunks) = do {
     n \<leftarrow> rounds i;
     (sponge, r) \<leftarrow> chunk_hash S n sponge chunk;
     (case r of
        Inl e \<Rightarrow> Some (sponge, Inl e)
      | Inr chunk \<Rightarrow> do {
          (sponge, r) \<leftarrow> hash_chunks S rounds (Suc i) sponge chunks;
          Some (sponge, (case r of Inl e \<Rightarrow> Inl e | Inr chunks \<Rightarrow> Inr (chunk # chunks))) }) }"

text \<open>
  The end of \<open>generate_public_key\<close> and of \<open>recover_public_key\<close>: a digest for every 27 chunks, written
  into its place of \<open>digests\<close>, and the digest of the digests.
\<close>

fun digest_fragments ::
  "('s, 'e) sponge \<Rightarrow> nat \<Rightarrow> 's \<Rightarrow> btrit list list \<Rightarrow> btrit list \<Rightarrow> ('s \<times> (wots_error + btrit list)) option" where
  "digest_fragments S i sponge [] digests = Some (sponge, Inr digests)"
| "digest_fragments S i sponge (chunk # chunks) digests = do {
     buf \<leftarrow> t1b1_slice digests (i * 243) ((i + 1) * 243);
     (sponge, buf, r) \<leftarrow> sp_digest_into S sponge chunk buf;
     (case r of
        Inl _ \<Rightarrow> Some (sponge, Inl FailedSpongeOperation)
      | Inr _ \<Rightarrow> do {
          digests \<leftarrow> t1b1_copy_into digests (i * 243) ((i + 1) * 243) buf;
          digest_fragments S (Suc i) sponge chunks digests }) }"

definition public_key_of_state :: "('s, 'e) sponge \<Rightarrow> 's \<Rightarrow> btrit list \<Rightarrow> (wots_error + btrit list) option" where
  "public_key_of_state S sponge state = do {
     digests \<leftarrow> trit_buf_zeros t1b1_buf Zero (length state div 6561 * 243);
     hash \<leftarrow> trit_buf_zeros t1b1_buf Zero 243;
     fragments \<leftarrow> t1b1_chunks state 6561;
     (sponge, r) \<leftarrow> digest_fragments S 0 sponge fragments digests;
     (case r of
        Inl e \<Rightarrow> Some (Inl e)
      | Inr digests \<Rightarrow> do {
          (_, hash, r) \<leftarrow> sp_digest_into S sponge digests hash;
          Some (case r of Inl _ \<Rightarrow> Inl FailedSpongeOperation | Inr _ \<Rightarrow> Inr hash) }) }"

definition wots_generate_public_key :: "('s, 'e) sponge \<Rightarrow> btrit list \<Rightarrow> (wots_error + btrit list) option" where
  "wots_generate_public_key S state = do {
     chunks \<leftarrow> t1b1_chunks state 243;
     (sponge, r) \<leftarrow> hash_chunks S (\<lambda>_. Some 26) 0 (sp_default S) chunks;
     (case r of
        Inl e \<Rightarrow> Some (Inl e)
      | Inr chunks \<Rightarrow> public_key_of_state S sponge (concat chunks)) }"

text \<open>
  \<open>message[i * 3] + message[i * 3 + 1] * 3 + message[i * 3 + 2] * 9\<close> in \<open>i8\<close>, and the number of
  iterations of \<open>0..(13 - val)\<close> and \<open>0..(val - -13)\<close>.
\<close>

definition message_val :: "i8 list \<Rightarrow> nat \<Rightarrow> i8 option" where
  "message_val message' i =
     (if i * 3 + 2 < length message'
      then do {
        b \<leftarrow> checked_signed 8 (message' ! (i * 3 + 1) * 3);
        ab \<leftarrow> checked_signed 8 (message' ! (i * 3) + b);
        c \<leftarrow> checked_signed 8 (message' ! (i * 3 + 2) * 9);
        checked_signed 8 (ab + c) }
      else None)"

definition sign_rounds :: "i8 list \<Rightarrow> nat \<Rightarrow> nat option" where
  "sign_rounds message' i = do {
     val \<leftarrow> message_val message' i;
     n \<leftarrow> checked_signed 8 (13 - val);
     Some (nat n) }"

definition recover_rounds :: "i8 list \<Rightarrow> nat \<Rightarrow> nat option" where
  "recover_rounds message' i = do {
     val \<leftarrow> message_val message' i;
     n \<leftarrow> checked_signed 8 (val - (- 13));
     Some (nat n) }"

definition wots_sign :: "('s, 'e) sponge \<Rightarrow> btrit list \<Rightarrow> i8 list \<Rightarrow> (wots_error + btrit list) option" where
  "wots_sign S state message' = do {
     chunks \<leftarrow> t1b1_chunks state 243;
     (_, r) \<leftarrow> hash_chunks S (sign_rounds message') 0 (sp_default S) chunks;
     Some (case r of Inl e \<Rightarrow> Inl e | Inr chunks \<Rightarrow> Inr (concat chunks)) }"

definition wots_recover_public_key ::
  "('s, 'e) sponge \<Rightarrow> btrit list \<Rightarrow> i8 list \<Rightarrow> (wots_error + btrit list) option" where
  "wots_recover_public_key S signature message' = do {
     chunks \<leftarrow> t1b1_chunks signature 243;
     (sponge, r) \<leftarrow> hash_chunks S (recover_rounds message') 0 (sp_default S) chunks;
     (case r of
        Inl e \<Rightarrow> Some (Inl e)
      | Inr chunks \<Rightarrow> public_key_of_state S sponge (concat chunks)) }"

definition wots_verify ::
  "('s, 'e) sponge \<Rightarrow> btrit list \<Rightarrow> i8 list \<Rightarrow> btrit list \<Rightarrow> (wots_error + bool) option" where
  "wots_verify S public_key message' signature = do {
     r \<leftarrow> wots_recover_public_key S signature message';
     (case r of
        Inl e \<Rightarrow> Some (Inl e)
      | Inr recovered \<Rightarrow> map_option Inr (trits_eq t1b1_buf t1b1_buf recovered public_key)) }"

section \<open>The hash chains\<close>

lemma trits_eq_t1b1: "trits_eq t1b1_buf t1b1_buf xs ys = Some (xs = ys)"
proof -
  have "length xs = length ys \<Longrightarrow> list_all (\<lambda>(a, b). a = b) (zip xs ys) \<longleftrightarrow> xs = ys"
    by (induction xs ys rule: list_induct2) auto
  then show ?thesis
    using trits_iter_t1b1 [of xs] trits_iter_t1b1 [of ys] by (auto simp: trits_eq_def t1b1_buf_def)
qed

context sponge_law
begin

lemma chunk_hash_law:
  assumes "fresh s" "length chunk = 243"
  shows "\<exists>s'. chunk_hash S n s chunk = Some (s', Inr ((hash 1 ^^ n) chunk)) \<and> fresh s'
    \<and> length ((hash 1 ^^ n) chunk) = 243"
  using assms
proof (induction n arbitrary: s chunk)
  case (Suc n)
  obtain s1 where s1: "sp_absorb S s chunk = Some (s1, Inr ())" "inv s1" "view s1 = absorbed chunk"
    using absorb_fresh [OF Suc.prems(1), of chunk] Suc.prems(2) by auto
  obtain s2 where s2: "sp_squeeze_into S s1 chunk = Some (s2, hash 1 chunk, Inr ())" "inv s2"
    using squeeze_hash [OF s1(2,3), of chunk 1] Suc.prems(2) by auto
  show ?case
    using Suc.IH [OF fresh_reset [OF s2(2)], of "hash 1 chunk"] Suc.prems(2) s1(1) s2(1)
    by (simp add: funpow_swap1)
qed simp

fun iterated :: "(nat \<Rightarrow> nat) \<Rightarrow> nat \<Rightarrow> btrit list list \<Rightarrow> btrit list list" where
  "iterated f i [] = []"
| "iterated f i (c # cs) = (hash 1 ^^ f i) c # iterated f (Suc i) cs"

lemma length_iterated [simp]: "length (iterated f i cs) = length cs"
  by (induction cs arbitrary: i) simp_all

lemma iterated_iterated: "iterated f i (iterated g i cs) = iterated (\<lambda>k. f k + g k) i cs"
  by (induction cs arbitrary: i) (simp_all add: funpow_add)

lemma iterated_cong: "(\<And>k. i \<le> k \<Longrightarrow> k < i + length cs \<Longrightarrow> f k = g k) \<Longrightarrow> iterated f i cs = iterated g i cs"
  by (induction cs arbitrary: i) simp_all

lemma hash_chunks_law:
  assumes "fresh s" "list_all (\<lambda>c. length c = 243) cs"
    and "\<And>k. k < length cs \<Longrightarrow> rounds (i + k) = Some (f (i + k))"
  shows "\<exists>s'. hash_chunks S rounds i s cs = Some (s', Inr (iterated f i cs)) \<and> fresh s'
    \<and> list_all (\<lambda>c. length c = 243) (iterated f i cs)"
  using assms
proof (induction cs arbitrary: s i)
  case (Cons c cs)
  obtain s1 where "chunk_hash S (f i) s c = Some (s1, Inr ((hash 1 ^^ f i) c))" "fresh s1"
    "length ((hash 1 ^^ f i) c) = 243"
    using chunk_hash_law [OF Cons.prems(1)] Cons.prems(2) by auto
  moreover have "rounds (Suc i + k) = Some (f (Suc i + k))" if "k < length cs" for k
    using Cons.prems(3) [of "Suc k"] that by simp
  ultimately show ?case
    using Cons.IH [of s1 "Suc i"] Cons.prems(2) Cons.prems(3) [of 0] by auto
qed simp

end

text \<open>
  The trits of a message as bytes: every three of them make a value from -13 to 13, so that the rounds
  of signing and of recovering add up to 26.
\<close>

definition message_of :: "btrit list \<Rightarrow> i8 list" where
  "message_of ts = map btrit_into_i8 ts"

lemma message_rounds:
  assumes "i * 3 + 2 < length ts"
  shows "\<exists>n m. sign_rounds (message_of ts) i = Some n \<and> recover_rounds (message_of ts) i = Some m \<and> m + n = 26"
proof -
  let ?a = "btrit_into_i8 (ts ! (i * 3))" and ?b = "btrit_into_i8 (ts ! (i * 3 + 1))"
    and ?c = "btrit_into_i8 (ts ! (i * 3 + 2))"
  let ?v = "?a + ?b * 3 + ?c * 9"
  have r: "- 1 \<le> ?a" "?a \<le> 1" "- 1 \<le> ?b" "?b \<le> 1" "- 1 \<le> ?c" "?c \<le> 1"
    using btrit_into_i8_range by blast+
  then have v: "message_val (message_of ts) i = Some ?v"
    using assms by (simp add: message_val_def message_of_def checked_signed_def)
  have "- 13 \<le> ?v" "?v \<le> 13"
    using r by linarith+
  then have "sign_rounds (message_of ts) i = Some (nat (13 - ?v))"
    "recover_rounds (message_of ts) i = Some (nat (?v + 13))" "nat (?v + 13) + nat (13 - ?v) = 26"
    by (simp_all add: sign_rounds_def recover_rounds_def v checked_signed_def)
  then show ?thesis
    by blast
qed

lemma message_rounds_fun:
  assumes "3 * n \<le> length ts"
  shows "\<exists>f g. (\<forall>k < n. sign_rounds (message_of ts) k = Some (f k) \<and> recover_rounds (message_of ts) k = Some (g k)
    \<and> g k + f k = 26)"
proof -
  have "\<forall>k. \<exists>n' m. k < n \<longrightarrow> sign_rounds (message_of ts) k = Some n' \<and> recover_rounds (message_of ts) k = Some m \<and> m + n' = 26"
    using message_rounds [of _ ts] assms by fastforce
  then show ?thesis
    by metis
qed

context sponge_law
begin

definition key_digest :: "btrit list \<Rightarrow> btrit list" where
  "key_digest state = hash 1 (concat (map (hash 1) (chunks_of 6561 state)))"

lemma digest_fragments_law:
  assumes "fresh s" "list_all (\<lambda>c. length c = 6561) cs" "length digests = 243 * (i + length cs)"
  shows "\<exists>s'. digest_fragments S i s cs digests =
    Some (s', Inr (take (243 * i) digests @ concat (map (hash 1) cs))) \<and> fresh s'"
  using assms
proof (induction cs arbitrary: s i digests)
  case (Cons c cs)
  let ?buf = "take 243 (drop (243 * i) digests)"
  let ?digests = "take (243 * i) digests @ hash 1 c @ drop (243 * (i + 1)) digests"
  have c: "243 dvd length c" "length ?buf = 243 * 1"
    using Cons.prems(2,3) by simp_all
  obtain s1 where s1: "sp_digest_into S s c ?buf = Some (s1, hash 1 c, Inr ())" "fresh s1"
    using digest_into_hash [OF Cons.prems(1) c] by blast
  have h: "length (hash 1 c) = 243"
    using c(1) by simp
  have sl: "t1b1_slice digests (i * 243) ((i + 1) * 243) = Some ?buf"
    "t1b1_copy_into digests (i * 243) ((i + 1) * 243) (hash 1 c) = Some ?digests"
    using Cons.prems(3) h by (simp_all add: t1b1_slice_eq t1b1_copy_into_eq mult.commute)
  have "digest_fragments S i s (c # cs) digests = digest_fragments S (Suc i) s1 cs ?digests"
    by (simp only: digest_fragments.simps sl s1(1) bind.bind_lunit case_prod_conv sum.case)
  moreover have "take (243 * Suc i) ?digests = take (243 * i) digests @ hash 1 c"
    using Cons.prems(3) h by simp
  moreover have "length ?digests = 243 * (Suc i + length cs)"
    using Cons.prems(3) h by simp
  ultimately show ?case
    using Cons.IH [OF s1(2), of ?digests "Suc i"] Cons.prems(2) by simp
qed simp

lemma public_key_of_state_law:
  assumes "fresh s" "6561 dvd length state"
  shows "public_key_of_state S s state = Some (Inr (key_digest state)) \<and> length (key_digest state) = 243"
proof -
  have cs: "list_all (\<lambda>c. length c = 6561) (chunks_of 6561 state)"
    "length (chunks_of 6561 state) = length state div 6561"
    using list_all_chunks [of 6561 state] length_chunks_of [of 6561 state] assms(2) by simp_all
  let ?ds = "concat (map (hash 1) (chunks_of 6561 state))"
  obtain s1 where s1: "digest_fragments S 0 s (chunks_of 6561 state) (replicate (length state div 6561 * 243) Zero) =
      Some (s1, Inr ?ds)" "fresh s1"
    using digest_fragments_law [OF assms(1) cs(1), of "replicate (length state div 6561 * 243) Zero" 0] cs(2) by auto
  have "list_all (\<lambda>c. length c = 243) (map (hash 1) (chunks_of 6561 state))"
    using cs(1) by (auto simp: list_all_iff)
  then have ds: "243 dvd length ?ds"
    using length_concat_blocks by force
  obtain s2 where "sp_digest_into S s1 ?ds (replicate 243 Zero) = Some (s2, key_digest state, Inr ())"
    using digest_into_hash [OF s1(2) ds, of "replicate 243 Zero" 1] by (auto simp: key_digest_def)
  then have "public_key_of_state S s state = Some (Inr (key_digest state))"
    by (simp add: public_key_of_state_def t1b1_zeros t1b1_chunks_eq s1(1))
  moreover have "length (key_digest state) = 243"
    using ds unfolding key_digest_def by (simp del: length_concat)
  ultimately show ?thesis
    by simp
qed

text \<open>The public key as a function of the private one, and the signature that leads back to it.\<close>

lemma generate_public_key_law:
  assumes "6561 dvd length state"
  shows "wots_generate_public_key S state =
    Some (Inr (key_digest (concat (iterated (\<lambda>_. 26) 0 (chunks_of 243 state)))))
    \<and> length (key_digest (concat (iterated (\<lambda>_. 26) 0 (chunks_of 243 state)))) = 243"
proof -
  have d: "243 dvd length state"
    using assms by (rule dvd_trans [rotated]) simp
  let ?cs = "iterated (\<lambda>_. 26) 0 (chunks_of 243 state)"
  obtain s where s: "hash_chunks S (\<lambda>_. Some 26) 0 (sp_default S) (chunks_of 243 state) = Some (s, Inr ?cs)"
    "fresh s" "list_all (\<lambda>c. length c = 243) ?cs"
    using hash_chunks_law [OF fresh_default list_all_chunks [OF _ d], of "\<lambda>_. Some 26" 0 "\<lambda>_. 26"] by auto
  have "6561 dvd length (concat ?cs)"
    using length_concat_blocks [OF s(3)] length_chunks_of [OF _ d] d assms by simp
  from public_key_of_state_law [OF s(2) this] show ?thesis
    by (simp add: wots_generate_public_key_def t1b1_chunks_eq s(1))
qed

lemma sign_recover_law:
  assumes "6561 dvd length state" "length state \<le> 81 * length msg"
  shows "\<exists>sig. wots_sign S state (message_of msg) = Some (Inr sig) \<and> length sig = length state
    \<and> wots_recover_public_key S sig (message_of msg) = wots_generate_public_key S state"
proof -
  have d: "243 dvd length state"
    using assms(1) by (rule dvd_trans [rotated]) simp
  let ?cs = "chunks_of 243 state"
  have n: "length ?cs = length state div 243" "3 * (length state div 243) \<le> length msg"
    using length_chunks_of [of 243 state] d assms(2) by auto
  obtain f g where fg: "\<forall>k < length ?cs. sign_rounds (message_of msg) k = Some (f k)
    \<and> recover_rounds (message_of msg) k = Some (g k) \<and> g k + f k = 26"
    using message_rounds_fun [of "length ?cs" msg] n by auto
  obtain s where s: "hash_chunks S (sign_rounds (message_of msg)) 0 (sp_default S) ?cs = Some (s, Inr (iterated f 0 ?cs))"
    "list_all (\<lambda>c. length c = 243) (iterated f 0 ?cs)"
    using hash_chunks_law [OF fresh_default list_all_chunks [OF _ d], of "sign_rounds (message_of msg)" 0 f] fg by auto
  let ?sig = "concat (iterated f 0 ?cs)"
  have sig: "chunks_of 243 ?sig = iterated f 0 ?cs" "length ?sig = length state"
    using chunks_of_concat [OF _ s(2)] length_concat_blocks [OF s(2)] n(1) d by simp_all
  have twice: "iterated g 0 (iterated f 0 ?cs) = iterated (\<lambda>_. 26) 0 ?cs"
    unfolding iterated_iterated using fg by (intro iterated_cong) simp
  obtain s' where s': "hash_chunks S (recover_rounds (message_of msg)) 0 (sp_default S) (chunks_of 243 ?sig) =
      Some (s', Inr (iterated (\<lambda>_. 26) 0 ?cs))" "fresh s'" "list_all (\<lambda>c. length c = 243) (iterated (\<lambda>_. 26) 0 ?cs)"
    using hash_chunks_law [OF fresh_default s(2), of "recover_rounds (message_of msg)" 0 g] fg
    unfolding sig(1) twice by auto
  have "6561 dvd length (concat (iterated (\<lambda>_. 26) 0 ?cs))"
    using length_concat_blocks [OF s'(3)] n(1) d assms(1) by simp
  from public_key_of_state_law [OF s'(2) this]
  have "wots_recover_public_key S ?sig (message_of msg) = wots_generate_public_key S state"
    using generate_public_key_law [OF assms(1)] by (simp add: wots_recover_public_key_def t1b1_chunks_eq s'(1))
  then show ?thesis
    using s(1) sig(2) by (intro exI [of _ ?sig]) (simp add: wots_sign_def t1b1_chunks_eq)
qed

lemma wots_correct:
  assumes "6561 dvd length state" "length state \<le> 81 * length msg"
  shows "\<exists>sig pk. wots_sign S state (message_of msg) = Some (Inr sig) \<and> length sig = length state
    \<and> wots_generate_public_key S state = Some (Inr pk) \<and> length pk = 243
    \<and> wots_recover_public_key S sig (message_of msg) = Some (Inr pk)
    \<and> wots_verify S pk (message_of msg) sig = Some (Inr True)"
proof -
  obtain pk where "wots_generate_public_key S state = Some (Inr pk)" "length pk = 243"
    using generate_public_key_law [OF assms(1)] by blast
  then show ?thesis
    using sign_recover_law [OF assms] by (auto simp: wots_verify_def trits_eq_t1b1)
qed

lemma wots_generate_law:
  assumes "length seed = 243"
  shows "\<exists>state. wots_generate S level seed index = Some (Inr state)
    \<and> length state = security_level_as_usize level * 6561"
proof -
  have len: "length (seed_increments n ts) = length ts" for n ts
  proof (induction n arbitrary: ts)
    case (Suc n)
    have "length (seed_increment ts) = length ts"
      by (induction ts) (auto split: option.split)
    then show ?case
      using Suc by simp
  qed simp
  let ?sub = "hash 1 (seed_increments (unat index) seed)"
  have d: "243 dvd length (seed_increments (unat index) seed)"
    using assms len by simp
  have "iota_seed_subseed S seed index = Some ?sub"
    using digest_hash [OF fresh_default d] by (auto simp: iota_seed_subseed_def)
  moreover have l: "243 dvd length ?sub" "security_level_as_usize level * 6561 = 243 * (27 * security_level_as_usize level)"
    using d by simp_all
  moreover obtain s' where "sp_digest_into S (sp_default S) ?sub (replicate (security_level_as_usize level * 6561) Zero) =
      Some (s', hash (27 * security_level_as_usize level) ?sub, Inr ())"
    using digest_into_hash [OF fresh_default l(1), of "replicate (security_level_as_usize level * 6561) Zero"
        "27 * security_level_as_usize level"] by auto
  moreover have "length (hash (27 * security_level_as_usize level) ?sub) = security_level_as_usize level * 6561"
    using l by simp
  ultimately show ?thesis
    by (simp add: wots_generate_def t1b1_zeros)
qed

end

section \<open>The one-time scheme as an interface (scheme.rs)\<close>

text \<open>
  The traits \<open>PrivateKeyGenerator\<close>, \<open>PrivateKey\<close> and \<open>RecoverableSignature\<close> of a scheme, as a dictionary:
  public keys and signatures are given by their trits.
\<close>

record ('sd, 'k, 'e) ots_scheme =
  ots_generate :: "'sd \<Rightarrow> u64 \<Rightarrow> ('e + 'k) option"
  ots_public_key :: "'k \<Rightarrow> ('e + btrit list) option"
  ots_sign :: "'k \<Rightarrow> i8 list \<Rightarrow> ('k \<times> ('e + btrit list)) option"
  ots_recover :: "btrit list \<Rightarrow> i8 list \<Rightarrow> ('e + btrit list) option"

definition wots_scheme :: "('s, 'e) sponge \<Rightarrow> wots_private_key_generator \<Rightarrow> (iota_seed, btrit list, wots_error) ots_scheme" where
  "wots_scheme S self = \<lparr>ots_generate = wots_generate S self, ots_public_key = wots_generate_public_key S,
     ots_sign = (\<lambda>state message'. map_option (Pair state) (wots_sign S state message')),
     ots_recover = wots_recover_public_key S\<rparr>"

text \<open>What a scheme promises: its keys sign what its signatures recover the public key from.\<close>

locale ots_law =
  fixes O' :: "('sd, 'k, 'e) ots_scheme"
    and good_seed :: "'sd \<Rightarrow> bool"
    and good_key :: "'k \<Rightarrow> bool"
    and good_msg :: "i8 list \<Rightarrow> bool"
  assumes ots_generate_law: "good_seed sd \<Longrightarrow> \<exists>k. ots_generate O' sd i = Some (Inr k) \<and> good_key k"
    and ots_public_key_law: "good_key k \<Longrightarrow> \<exists>pk. ots_public_key O' k = Some (Inr pk) \<and> length pk = 243"
    and ots_sign_law: "good_key k \<Longrightarrow> good_msg m \<Longrightarrow>
      \<exists>k' sig. ots_sign O' k m = Some (k', Inr sig) \<and> good_key k' \<and> ots_public_key O' k' = ots_public_key O' k
        \<and> 6561 dvd length sig \<and> ots_recover O' sig m = ots_public_key O' k"

definition wots_message :: "wots_private_key_generator \<Rightarrow> i8 list \<Rightarrow> bool" where
  "wots_message level m \<longleftrightarrow> (\<exists>ts. m = message_of ts \<and> 81 * security_level_as_usize level \<le> length ts)"

context sponge_law
begin

lemma wots_scheme_law:
  "ots_law (wots_scheme S level) (\<lambda>seed. length seed = 243)
     (\<lambda>state. length state = security_level_as_usize level * 6561) (wots_message level)"
proof (unfold_locales, goal_cases)
  case (1 sd i)
  then show ?case
    using wots_generate_law [of sd level i] by (simp add: wots_scheme_def)
next
  case (2 k)
  then show ?case
    using generate_public_key_law [of k] by (simp add: wots_scheme_def)
next
  case (3 k m)
  then show ?case
    using sign_recover_law [of k] by (fastforce simp: wots_scheme_def wots_message_def)
qed

end

interpretation wots27: ots_law "wots_scheme CurlP27 level" "\<lambda>seed. length seed = 243"
    "\<lambda>state. length state = security_level_as_usize level * 6561" "wots_message level" for level
  by (rule curl27.wots_scheme_law)

interpretation wots81: ots_law "wots_scheme CurlP81 level" "\<lambda>seed. length seed = 243"
    "\<lambda>state. length state = security_level_as_usize level * 6561" "wots_message level" for level
  by (rule curl81.wots_scheme_law)

section \<open>Properties\<close>

text \<open>Key generation, signing and verification in a row.\<close>

definition wots_roundtrip :: "('s, 'e) sponge \<Rightarrow> wots_security_level \<Rightarrow> iota_seed \<Rightarrow> u64 \<Rightarrow> btrit list \<Rightarrow> bool" where
  "wots_roundtrip S level seed index msg \<longleftrightarrow>
     (\<exists>state sig pk. wots_generate S level seed index = Some (Inr state)
        \<and> length state = security_level_as_usize level * 6561
        \<and> wots_generate_public_key S state = Some (Inr pk) \<and> length pk = 243
        \<and> wots_sign S state (message_of msg) = Some (Inr sig) \<and> length sig = length state
        \<and> wots_recover_public_key S sig (message_of msg) = Some (Inr pk)
        \<and> wots_verify S pk (message_of msg) sig = Some (Inr True))"

context sponge_law
begin

lemma wots_roundtrip_law:
  assumes "length seed = 243" "length msg = 243"
  shows "wots_roundtrip S level seed index msg"
proof -
  obtain state where state: "wots_generate S level seed index = Some (Inr state)"
    "length state = security_level_as_usize level * 6561"
    using wots_generate_law [OF assms(1)] by blast
  have "security_level_as_usize level \<le> 3"
    by (cases level) simp_all
  then have "6561 dvd length state" "length state \<le> 81 * length msg"
    using state(2) assms(2) by simp_all
  from wots_correct [OF this] show ?thesis
    using state unfolding wots_roundtrip_def by blast
qed

end

text \<open>
  C22. What is signed verifies: with each of the sponges, every security level, every seed of 243 trits and
  every key index, key generation, signing a message of 243 trits and verification succeed, and the
  public key recovered from the signature is the one generated from the private key.
\<close>

theorem wots_signatures_verify:
  assumes "keccak_fills K" "length seed = 243" "length msg = 243"
  shows "wots_roundtrip CurlP27 level seed index msg \<and> wots_roundtrip CurlP81 level seed index msg
    \<and> wots_roundtrip (Kerl K) level seed index msg"
  using curl27.wots_roundtrip_law [OF assms(2,3)] curl81.wots_roundtrip_law [OF assms(2,3)]
    sponge_law.wots_roundtrip_law [OF kerl_sponge_law [OF assms(1)] assms(2,3)] by blast

theorem wots_signatures_verify_witness:
  "wots_roundtrip (Kerl example_keccak) Medium (replicate 243 PlusOne) 3 (replicate 243 NegOne)"
  using wots_signatures_verify [OF keccak_fills_example, of "replicate 243 PlusOne" "replicate 243 NegOne"] by simp

end
