(* ===== verification/Transactions.thy ===== *)
theory Transactions
  imports Num_Conversions Wots
begin

text \<open>
  Transactions (bee-bundle: constants.rs, transaction/fields.rs, transaction/builder.rs,
  transaction/transaction.rs). A transaction is a record of its fifteen fields; on the wire it is a
  sequence of 8019 trits in which every field has its place. The fields made of trits are T1B1 buffers,
  a hash is an array of \<open>i8\<close>, the value an \<open>i64\<close>, timestamps and indices are 64-bit words. The
  theorems say which buffers are accepted and with which error the others are refused, and that reading
  and writing are inverse to each other.
\<close>

section \<open>The layout (constants.rs)\<close>

record offset =
  off_start :: nat
  off_length :: nat

record field =
  trit_offset :: offset
  tryte_offset :: offset

definition field_byte_start :: "field \<Rightarrow> nat" where
  "field_byte_start self = off_start (trit_offset self) div 5"

definition field_byte_length :: "field \<Rightarrow> nat" where
  "field_byte_length self =
     (if off_length (trit_offset self) mod 5 = 0 then off_length (trit_offset self) div 5
      else off_length (trit_offset self) div 5 + 1)"

definition offsets_from_trits :: "nat \<Rightarrow> nat \<Rightarrow> field" where
  "offsets_from_trits start len =
     \<lparr>trit_offset = \<lparr>off_start = start, off_length = len\<rparr>,
      tryte_offset = \<lparr>off_start = start div 3, off_length = len div 3\<rparr>\<rparr>"

definition offsets_from_previous_field :: "field \<Rightarrow> nat \<Rightarrow> field" where
  "offsets_from_previous_field prev len =
     \<lparr>trit_offset = \<lparr>off_start = off_start (trit_offset prev) + off_length (trit_offset prev), off_length = len\<rparr>,
      tryte_offset = \<lparr>off_start = (off_start (trit_offset prev) + off_length (trit_offset prev)) div 3,
        off_length = len div 3\<rparr>\<rparr>"

definition IOTA_SUPPLY :: int where "IOTA_SUPPLY = 2779530283277761"
definition TRANSACTION_TRIT_LEN :: nat where "TRANSACTION_TRIT_LEN = 8019"
definition TRANSACTION_TRYT_LEN :: nat where "TRANSACTION_TRYT_LEN = TRANSACTION_TRIT_LEN div 3"
definition TRANSACTION_BYTE_LEN :: nat where "TRANSACTION_BYTE_LEN = TRANSACTION_TRIT_LEN div 5 + 1"
definition PAYLOAD_TRIT_LEN :: nat where "PAYLOAD_TRIT_LEN = 6561"
definition ADDRESS_TRIT_LEN :: nat where "ADDRESS_TRIT_LEN = 243"
definition VALUE_TRIT_LEN :: nat where "VALUE_TRIT_LEN = 81"
definition TAG_TRIT_LEN :: nat where "TAG_TRIT_LEN = 81"
definition TIMESTAMP_TRIT_LEN :: nat where "TIMESTAMP_TRIT_LEN = 27"
definition INDEX_TRIT_LEN :: nat where "INDEX_TRIT_LEN = 27"
definition HASH_TRIT_LEN :: nat where "HASH_TRIT_LEN = 243"
definition NONCE_TRIT_LEN :: nat where "NONCE_TRIT_LEN = 81"

definition PAYLOAD :: field where "PAYLOAD = offsets_from_trits 0 PAYLOAD_TRIT_LEN"
definition ADDRESS :: field where "ADDRESS = offsets_from_previous_field PAYLOAD ADDRESS_TRIT_LEN"
definition VALUE :: field where "VALUE = offsets_from_previous_field ADDRESS VALUE_TRIT_LEN"
definition OBSOLETE_TAG :: field where "OBSOLETE_TAG = offsets_from_previous_field VALUE TAG_TRIT_LEN"
definition TIMESTAMP :: field where "TIMESTAMP = offsets_from_previous_field OBSOLETE_TAG TIMESTAMP_TRIT_LEN"
definition INDEX :: field where "INDEX = offsets_from_previous_field TIMESTAMP INDEX_TRIT_LEN"
definition LAST_INDEX :: field where "LAST_INDEX = offsets_from_previous_field INDEX INDEX_TRIT_LEN"
definition BUNDLE :: field where "BUNDLE = offsets_from_previous_field LAST_INDEX HASH_TRIT_LEN"
definition TRUNK :: field where "TRUNK = offsets_from_previous_field BUNDLE HASH_TRIT_LEN"
definition BRANCH :: field where "BRANCH = offsets_from_previous_field TRUNK HASH_TRIT_LEN"
definition TAG :: field where "TAG = offsets_from_previous_field BRANCH TAG_TRIT_LEN"
definition ATTACHMENT_TS :: field where "ATTACHMENT_TS = offsets_from_previous_field TAG TIMESTAMP_TRIT_LEN"
definition ATTACHMENT_LBTS :: field where "ATTACHMENT_LBTS = offsets_from_previous_field ATTACHMENT_TS TIMESTAMP_TRIT_LEN"
definition ATTACHMENT_UBTS :: field where "ATTACHMENT_UBTS = offsets_from_previous_field ATTACHMENT_LBTS TIMESTAMP_TRIT_LEN"
definition NONCE :: field where "NONCE = offsets_from_previous_field ATTACHMENT_UBTS NONCE_TRIT_LEN"

section \<open>Fields (fields.rs)\<close>

type_synonym payload = "btrit list"
type_synonym address = "btrit list"
type_synonym tag = "btrit list"
type_synonym nonce = "btrit list"
type_synonym hash = "i8 list"

datatype transaction_field_error = FieldWrongLength | FieldDeserializationError

definition hash_zeros :: hash where
  "hash_zeros = replicate 243 0"

text \<open>\<open>as_trits\<close> reads the bytes as T1B1 trits; a byte that is none has no behaviour.\<close>

definition hash_as_trits :: "hash \<Rightarrow> btrit list option" where
  "hash_as_trits self = those (map btrit_try_from_i8 self)"

text \<open>The number of zeros at the end, counted in a \<open>u8\<close>.\<close>

fun weight_loop :: "hash \<Rightarrow> nat list \<Rightarrow> nat \<Rightarrow> nat option" where
  "weight_loop self [] weight = Some weight"
| "weight_loop self (i # is) weight =
     (if self ! i \<noteq> 0 then Some weight
      else if weight + 1 < 256 then weight_loop self is (weight + 1) else None)"

definition hash_weight :: "hash \<Rightarrow> nat option" where
  "hash_weight self = weight_loop self (rev [0..<length self]) 0"

definition hash_eq :: "hash \<Rightarrow> hash \<Rightarrow> bool" where
  "hash_eq self other = list_all (\<lambda>(a, b). a = b) (zip self other)"

text \<open>\<open>copy_from_slice\<close> panics when the lengths differ.\<close>

definition hash_from_inner_unchecked :: "btrit list \<Rightarrow> hash option" where
  "hash_from_inner_unchecked buf = (if length buf = 243 then Some (message_of buf) else None)"

definition hash_try_from_inner :: "btrit list \<Rightarrow> (transaction_field_error + hash) option" where
  "hash_try_from_inner buf =
     (if length buf \<noteq> HASH_TRIT_LEN then Some (Inl FieldWrongLength)
      else map_option Inr (hash_from_inner_unchecked buf))"

text \<open>The buffers of payload, address, tag and nonce share one implementation.\<close>

definition field_try_from_inner :: "nat \<Rightarrow> btrit list \<Rightarrow> transaction_field_error + btrit list" where
  "field_try_from_inner trit_len val = (if length val \<noteq> trit_len then Inl FieldWrongLength else Inr val)"

section \<open>Transactions and their builder\<close>

datatype transaction_error =
    InvalidNumericField string trits_i64_conversion_error
  | MissingField string
  | InvalidValue int
  | InvalidAddress

record transaction =
  tx_payload :: payload
  tx_address :: address
  tx_value :: int
  tx_obsolete_tag :: tag
  tx_timestamp :: u64
  tx_index :: u64
  tx_last_index :: u64
  tx_bundle :: hash
  tx_trunk :: hash
  tx_branch :: hash
  tx_tag :: tag
  tx_attachment_ts :: u64
  tx_attachment_lbts :: u64
  tx_attachment_ubts :: u64
  tx_nonce :: nonce

record transaction_builder =
  tb_payload :: "payload option"
  tb_address :: "address option"
  tb_value :: "int option"
  tb_obsolete_tag :: "tag option"
  tb_timestamp :: "u64 option"
  tb_index :: "u64 option"
  tb_last_index :: "u64 option"
  tb_bundle :: "hash option"
  tb_trunk :: "hash option"
  tb_branch :: "hash option"
  tb_tag :: "tag option"
  tb_attachment_ts :: "u64 option"
  tb_attachment_lbts :: "u64 option"
  tb_attachment_ubts :: "u64 option"
  tb_nonce :: "nonce option"

definition tb_new :: transaction_builder where
  "tb_new = \<lparr>tb_payload = None, tb_address = None, tb_value = None, tb_obsolete_tag = None, tb_timestamp = None,
     tb_index = None, tb_last_index = None, tb_bundle = None, tb_trunk = None, tb_branch = None,
     tb_tag = None, tb_attachment_ts = None, tb_attachment_lbts = None, tb_attachment_ubts = None, tb_nonce = None\<rparr>"

definition tb_with_payload :: "transaction_builder \<Rightarrow> payload \<Rightarrow> transaction_builder" where
  "tb_with_payload self x = self\<lparr>tb_payload := Some x\<rparr>"

definition tb_with_address :: "transaction_builder \<Rightarrow> address \<Rightarrow> transaction_builder" where
  "tb_with_address self x = self\<lparr>tb_address := Some x\<rparr>"

definition tb_with_value :: "transaction_builder \<Rightarrow> int \<Rightarrow> transaction_builder" where
  "tb_with_value self x = self\<lparr>tb_value := Some x\<rparr>"

definition tb_with_obsolete_tag :: "transaction_builder \<Rightarrow> tag \<Rightarrow> transaction_builder" where
  "tb_with_obsolete_tag self x = self\<lparr>tb_obsolete_tag := Some x\<rparr>"

definition tb_with_timestamp :: "transaction_builder \<Rightarrow> u64 \<Rightarrow> transaction_builder" where
  "tb_with_timestamp self x = self\<lparr>tb_timestamp := Some x\<rparr>"

definition tb_with_index :: "transaction_builder \<Rightarrow> u64 \<Rightarrow> transaction_builder" where
  "tb_with_index self x = self\<lparr>tb_index := Some x\<rparr>"

definition tb_with_last_index :: "transaction_builder \<Rightarrow> u64 \<Rightarrow> transaction_builder" where
  "tb_with_last_index self x = self\<lparr>tb_last_index := Some x\<rparr>"

definition tb_with_bundle :: "transaction_builder \<Rightarrow> hash \<Rightarrow> transaction_builder" where
  "tb_with_bundle self x = self\<lparr>tb_bundle := Some x\<rparr>"

definition tb_with_trunk :: "transaction_builder \<Rightarrow> hash \<Rightarrow> transaction_builder" where
  "tb_with_trunk self x = self\<lparr>tb_trunk := Some x\<rparr>"

definition tb_with_branch :: "transaction_builder \<Rightarrow> hash \<Rightarrow> transaction_builder" where
  "tb_with_branch self x = self\<lparr>tb_branch := Some x\<rparr>"

definition tb_with_tag :: "transaction_builder \<Rightarrow> tag \<Rightarrow> transaction_builder" where
  "tb_with_tag self x = self\<lparr>tb_tag := Some x\<rparr>"

definition tb_with_attachment_ts :: "transaction_builder \<Rightarrow> u64 \<Rightarrow> transaction_builder" where
  "tb_with_attachment_ts self x = self\<lparr>tb_attachment_ts := Some x\<rparr>"

definition tb_with_attachment_lbts :: "transaction_builder \<Rightarrow> u64 \<Rightarrow> transaction_builder" where
  "tb_with_attachment_lbts self x = self\<lparr>tb_attachment_lbts := Some x\<rparr>"

definition tb_with_attachment_ubts :: "transaction_builder \<Rightarrow> u64 \<Rightarrow> transaction_builder" where
  "tb_with_attachment_ubts self x = self\<lparr>tb_attachment_ubts := Some x\<rparr>"

definition tb_with_nonce :: "transaction_builder \<Rightarrow> nonce \<Rightarrow> transaction_builder" where
  "tb_with_nonce self x = self\<lparr>tb_nonce := Some x\<rparr>"

text \<open>\<open>abs\<close> of an \<open>i64\<close> overflows for the smallest value.\<close>

definition i64_abs :: "int \<Rightarrow> int option" where
  "i64_abs v = checked_signed 64 \<bar>v\<bar>"

definition tb_build :: "transaction_builder \<Rightarrow> (transaction_error + transaction) option" where
  "tb_build self =
     res_try (ok_or (MissingField ''value'') (tb_value self)) (\<lambda>val.
     res_try (ok_or (MissingField ''address'') (tb_address self)) (\<lambda>addr. do {
       a \<leftarrow> i64_abs val;
       if a > IOTA_SUPPLY then Some (Inl (InvalidValue val))
       else do {
         bad \<leftarrow> (if val \<noteq> 0
           then do { t \<leftarrow> t1b1_get addr (off_length (trit_offset ADDRESS) - 1); Some (t \<noteq> Zero) }
           else Some False);
         if bad then Some (Inl InvalidAddress)
         else
           res_try (ok_or (MissingField ''payload'') (tb_payload self)) (\<lambda>v_payload.
           res_try (ok_or (MissingField ''obsolete_tag'') (tb_obsolete_tag self)) (\<lambda>v_obsolete_tag.
           res_try (ok_or (MissingField ''timestamp'') (tb_timestamp self)) (\<lambda>v_timestamp.
           res_try (ok_or (MissingField ''index'') (tb_index self)) (\<lambda>v_index.
           res_try (ok_or (MissingField ''last_index'') (tb_last_index self)) (\<lambda>v_last_index.
           res_try (ok_or (MissingField ''tag'') (tb_tag self)) (\<lambda>v_tag.
           res_try (ok_or (MissingField ''bundle'') (tb_bundle self)) (\<lambda>v_bundle.
           res_try (ok_or (MissingField ''trunk'') (tb_trunk self)) (\<lambda>v_trunk.
           res_try (ok_or (MissingField ''branch'') (tb_branch self)) (\<lambda>v_branch.
           res_try (ok_or (MissingField ''attachment_ts'') (tb_attachment_ts self)) (\<lambda>v_attachment_ts.
           res_try (ok_or (MissingField ''attachment_lbts'') (tb_attachment_lbts self)) (\<lambda>v_attachment_lbts.
           res_try (ok_or (MissingField ''attachment_ubts'') (tb_attachment_ubts self)) (\<lambda>v_attachment_ubts.
           res_try (ok_or (MissingField ''nonce'') (tb_nonce self)) (\<lambda>v_nonce.
             Some (Inr \<lparr>tx_payload = v_payload, tx_address = addr, tx_value = val, tx_obsolete_tag = v_obsolete_tag,
               tx_timestamp = v_timestamp, tx_index = v_index, tx_last_index = v_last_index, tx_bundle = v_bundle,
               tx_trunk = v_trunk, tx_branch = v_branch, tx_tag = v_tag, tx_attachment_ts = v_attachment_ts,
               tx_attachment_lbts = v_attachment_lbts, tx_attachment_ubts = v_attachment_ubts, tx_nonce = v_nonce\<rparr>)))))))))))))) } }))"

section \<open>Reading and writing trits (transaction.rs)\<close>

definition field_buf :: "btrit list \<Rightarrow> field \<Rightarrow> btrit list option" where
  "field_buf trits f = do {
     s \<leftarrow> t1b1_slice trits (off_start (trit_offset f)) (off_start (trit_offset f) + off_length (trit_offset f));
     trits_encode t1b1_buf t1b1_buf s }"

definition field_i64 :: "btrit list \<Rightarrow> field \<Rightarrow> string \<Rightarrow> (transaction_error + int) option" where
  "field_i64 trits f name = do {
     buf \<leftarrow> field_buf trits f;
     r \<leftarrow> i64_try_from_trits buf;
     Some (case r of Inl e \<Rightarrow> Inl (InvalidNumericField name e) | Inr v \<Rightarrow> Inr v) }"

definition field_hash :: "btrit list \<Rightarrow> field \<Rightarrow> hash option" where
  "field_hash trits f = do { buf \<leftarrow> field_buf trits f; hash_from_inner_unchecked buf }"

definition transaction_from_trits ::
  "('b, btrit) raw_encoding_buf \<Rightarrow> 'b \<Rightarrow> (transaction_error + transaction) option" where
  "transaction_from_trits d buffer = do {
     trits \<leftarrow> trits_encode d t1b1_buf buffer;
     let b = tb_new;
     x \<leftarrow> field_buf trits PAYLOAD;
     let b = tb_with_payload b x;
     x \<leftarrow> field_buf trits ADDRESS;
     let b = tb_with_address b x;
     res_try (field_i64 trits VALUE ''value'') (\<lambda>x. do {
     let b = tb_with_value b x;
     x \<leftarrow> field_buf trits OBSOLETE_TAG;
     let b = tb_with_obsolete_tag b x;
     res_try (field_i64 trits TIMESTAMP ''timestamp'') (\<lambda>x. do {
     let b = tb_with_timestamp b (word_of_int x);
     res_try (field_i64 trits INDEX ''index'') (\<lambda>x. do {
     let b = tb_with_index b (word_of_int x);
     res_try (field_i64 trits LAST_INDEX ''last_index'') (\<lambda>x. do {
     let b = tb_with_last_index b (word_of_int x);
     x \<leftarrow> field_buf trits TAG;
     let b = tb_with_tag b x;
     res_try (field_i64 trits ATTACHMENT_TS ''attachment_ts'') (\<lambda>x. do {
     let b = tb_with_attachment_ts b (word_of_int x);
     x \<leftarrow> field_hash trits BUNDLE;
     let b = tb_with_bundle b x;
     x \<leftarrow> field_hash trits TRUNK;
     let b = tb_with_trunk b x;
     x \<leftarrow> field_hash trits BRANCH;
     let b = tb_with_branch b x;
     res_try (field_i64 trits ATTACHMENT_LBTS ''attachment_lbts'') (\<lambda>x. do {
     let b = tb_with_attachment_lbts b (word_of_int x);
     res_try (field_i64 trits ATTACHMENT_UBTS ''attachment_ubts'') (\<lambda>x. do {
     let b = tb_with_attachment_ubts b (word_of_int x);
     x \<leftarrow> field_buf trits NONCE;
     let b = tb_with_nonce b x;
     tb_build b })})})})})})}) }"

text \<open>A number is written as the trits of its value, as many as it needs.\<close>

definition write_i64 :: "btrit list \<Rightarrow> field \<Rightarrow> int \<Rightarrow> btrit list option" where
  "write_i64 buf f v = do {
     value_buf \<leftarrow> trits_from_i64 v;
     t1b1_copy_raw_bytes buf value_buf (off_start (trit_offset f)) (length value_buf) }"

definition write_field :: "btrit list \<Rightarrow> field \<Rightarrow> btrit list \<Rightarrow> btrit list option" where
  "write_field buf f trits = t1b1_copy_raw_bytes buf trits (off_start (trit_offset f)) (off_length (trit_offset f))"

definition write_hash :: "btrit list \<Rightarrow> field \<Rightarrow> hash \<Rightarrow> btrit list option" where
  "write_hash buf f h = do { trits \<leftarrow> hash_as_trits h; write_field buf f trits }"

definition into_trits_allocated :: "transaction \<Rightarrow> btrit list \<Rightarrow> btrit list option" where
  "into_trits_allocated self buf = do {
     buf \<leftarrow> write_field buf PAYLOAD (tx_payload self);
     buf \<leftarrow> write_field buf ADDRESS (tx_address self);
     buf \<leftarrow> write_field buf OBSOLETE_TAG (tx_obsolete_tag self);
     buf \<leftarrow> write_hash buf BUNDLE (tx_bundle self);
     buf \<leftarrow> write_hash buf BRANCH (tx_branch self);
     buf \<leftarrow> write_hash buf TRUNK (tx_trunk self);
     buf \<leftarrow> write_field buf TAG (tx_tag self);
     buf \<leftarrow> write_field buf NONCE (tx_nonce self);
     buf \<leftarrow> write_i64 buf VALUE (tx_value self);
     buf \<leftarrow> write_i64 buf INDEX (sint (tx_index self));
     buf \<leftarrow> write_i64 buf LAST_INDEX (sint (tx_last_index self));
     buf \<leftarrow> write_i64 buf TIMESTAMP (sint (tx_timestamp self));
     buf \<leftarrow> write_i64 buf ATTACHMENT_TS (sint (tx_attachment_ts self));
     buf \<leftarrow> write_i64 buf ATTACHMENT_LBTS (sint (tx_attachment_lbts self));
     buf \<leftarrow> write_i64 buf ATTACHMENT_UBTS (sint (tx_attachment_ubts self));
     Some buf }"

definition tx_is_tail :: "transaction \<Rightarrow> bool" where
  "tx_is_tail self \<longleftrightarrow> tx_index self = 0"

definition tx_is_head :: "transaction \<Rightarrow> bool" where
  "tx_is_head self \<longleftrightarrow> tx_index self = tx_last_index self"

definition tx_get_timestamp :: "transaction \<Rightarrow> u64" where
  "tx_get_timestamp self = (if tx_attachment_ts self = 0 then tx_timestamp self else tx_attachment_ts self div 1000)"

section \<open>Segments\<close>

text \<open>
  A buffer of a transaction is the concatenation of fifteen segments. Reading a field is reading a
  segment and writing a field replaces (a prefix of) a segment.
\<close>

definition tx_lengths :: "nat list" where
  "tx_lengths = [6561, 243, 81, 81, 27, 27, 27, 243, 243, 243, 81, 27, 27, 27, 81]"

definition tx_start :: "nat \<Rightarrow> nat" where
  "tx_start k = sum_list (take k tx_lengths)"

definition tx_len :: "nat \<Rightarrow> nat" where
  "tx_len k = tx_lengths ! k"

definition tx_segments :: "btrit list list \<Rightarrow> bool" where
  "tx_segments segs \<longleftrightarrow> map length segs = tx_lengths"

lemmas layout_defs =
  PAYLOAD_def ADDRESS_def VALUE_def OBSOLETE_TAG_def TIMESTAMP_def INDEX_def LAST_INDEX_def BUNDLE_def
  TRUNK_def BRANCH_def TAG_def ATTACHMENT_TS_def ATTACHMENT_LBTS_def ATTACHMENT_UBTS_def NONCE_def
  offsets_from_previous_field_def offsets_from_trits_def PAYLOAD_TRIT_LEN_def ADDRESS_TRIT_LEN_def
  VALUE_TRIT_LEN_def TAG_TRIT_LEN_def TIMESTAMP_TRIT_LEN_def INDEX_TRIT_LEN_def HASH_TRIT_LEN_def
  NONCE_TRIT_LEN_def

lemma field_starts:
  "off_start (trit_offset PAYLOAD) = tx_start 0"
  "off_start (trit_offset ADDRESS) = tx_start 1"
  "off_start (trit_offset VALUE) = tx_start 2"
  "off_start (trit_offset OBSOLETE_TAG) = tx_start 3"
  "off_start (trit_offset TIMESTAMP) = tx_start 4"
  "off_start (trit_offset INDEX) = tx_start 5"
  "off_start (trit_offset LAST_INDEX) = tx_start 6"
  "off_start (trit_offset BUNDLE) = tx_start 7"
  "off_start (trit_offset TRUNK) = tx_start 8"
  "off_start (trit_offset BRANCH) = tx_start 9"
  "off_start (trit_offset TAG) = tx_start 10"
  "off_start (trit_offset ATTACHMENT_TS) = tx_start 11"
  "off_start (trit_offset ATTACHMENT_LBTS) = tx_start 12"
  "off_start (trit_offset ATTACHMENT_UBTS) = tx_start 13"
  "off_start (trit_offset NONCE) = tx_start 14"
  by (simp_all add: layout_defs tx_start_def tx_lengths_def take_Cons')

lemma field_lengths:
  "off_length (trit_offset PAYLOAD) = tx_len 0"
  "off_length (trit_offset ADDRESS) = tx_len 1"
  "off_length (trit_offset VALUE) = tx_len 2"
  "off_length (trit_offset OBSOLETE_TAG) = tx_len 3"
  "off_length (trit_offset TIMESTAMP) = tx_len 4"
  "off_length (trit_offset INDEX) = tx_len 5"
  "off_length (trit_offset LAST_INDEX) = tx_len 6"
  "off_length (trit_offset BUNDLE) = tx_len 7"
  "off_length (trit_offset TRUNK) = tx_len 8"
  "off_length (trit_offset BRANCH) = tx_len 9"
  "off_length (trit_offset TAG) = tx_len 10"
  "off_length (trit_offset ATTACHMENT_TS) = tx_len 11"
  "off_length (trit_offset ATTACHMENT_LBTS) = tx_len 12"
  "off_length (trit_offset ATTACHMENT_UBTS) = tx_len 13"
  "off_length (trit_offset NONCE) = tx_len 14"
  by (simp_all add: layout_defs tx_len_def tx_lengths_def)

lemma tx_len_values:
  "tx_len 0 = 6561" "tx_len 1 = 243" "tx_len 2 = 81" "tx_len 3 = 81" "tx_len 4 = 27" "tx_len 5 = 27"
  "tx_len 6 = 27" "tx_len 7 = 243" "tx_len 8 = 243" "tx_len 9 = 243" "tx_len 10 = 81" "tx_len 11 = 27"
  "tx_len 12 = 27" "tx_len 13 = 27" "tx_len 14 = 81" "tx_len (Suc 0) = 243"
  by (simp_all add: tx_len_def tx_lengths_def)

lemma tx_segments_length: "tx_segments segs \<Longrightarrow> length segs = 15"
  unfolding tx_segments_def tx_lengths_def by (drule arg_cong [where f = length]) simp

lemma tx_segments_nth: "tx_segments segs \<Longrightarrow> k < 15 \<Longrightarrow> length (segs ! k) = tx_len k"
  using tx_segments_length [of segs] unfolding tx_segments_def tx_len_def by (metis nth_map)

lemma tx_segments_update:
  assumes "tx_segments segs" "k < 15" "length s = tx_len k"
  shows "tx_segments (segs[k := s])"
proof -
  have "map length (segs[k := s]) = (map length segs)[k := tx_len k]"
    using assms(3) by (simp add: map_update)
  also have "\<dots> = tx_lengths"
    using assms(1) by (simp add: tx_segments_def tx_len_def list_update_id)
  finally show ?thesis
    by (simp add: tx_segments_def)
qed

lemma concat_split:
  "k < length segs \<Longrightarrow> concat segs = concat (take k segs) @ segs ! k @ concat (drop (Suc k) segs)"
  by (metis concat.simps(2) concat_append id_take_nth_drop)

lemma concat_update:
  "k < length segs \<Longrightarrow> concat (segs[k := s]) = concat (take k segs) @ s @ concat (drop (Suc k) segs)"
  by (simp add: upd_conv_take_nth_drop)

lemma tx_segments_start: "tx_segments segs \<Longrightarrow> length (concat (take k segs)) = tx_start k"
  by (simp add: tx_segments_def tx_start_def length_concat flip: take_map)

lemma copy_segment:
  assumes "tx_segments segs" "k < 15" "n \<le> tx_len k" "n \<le> length ts"
  shows "t1b1_copy_raw_bytes (concat segs) ts (tx_start k) n = Some (concat (segs[k := take n ts @ drop n (segs ! k)]))"
proof -
  have k: "k < length segs"
    using assms by (simp add: tx_segments_length)
  have n: "length (concat (take k segs)) = tx_start k" "length (segs ! k) = tx_len k"
    using assms by (simp_all add: tx_segments_start tx_segments_nth)
  show ?thesis
    unfolding concat_split [OF k] concat_update [OF k] t1b1_copy_raw_bytes_def
    using assms(3,4) n by simp
qed

lemma slice_segment:
  assumes "tx_segments segs" "k < 15"
  shows "t1b1_slice (concat segs) (tx_start k) (tx_start k + tx_len k) = Some (segs ! k)"
proof -
  have k: "k < length segs"
    using assms by (simp add: tx_segments_length)
  have n: "length (concat (take k segs)) = tx_start k" "length (segs ! k) = tx_len k"
    using assms by (simp_all add: tx_segments_start tx_segments_nth)
  show ?thesis
    unfolding concat_split [OF k] t1b1_slice_eq using n by simp
qed

lemma trits_encode_t1b1: "trits_encode t1b1_buf t1b1_buf (xs :: 'a list) = Some xs"
proof -
  have "push_all t1b1_buf ys xs = Some (ys @ xs)" for ys
    by (induction xs arbitrary: ys) (simp_all add: t1b1_buf_def t1b1_push_def)
  moreover have "buf_new (t1b1_buf :: ('a list, 'a) raw_encoding_buf) = []"
    by (simp add: t1b1_buf_def)
  ultimately show ?thesis
    by (simp add: trits_encode_def trits_iter_t1b1 trit_buf_from_iter_def)
qed

lemma segments_exist:
  assumes "length buf = 8019"
  shows "\<exists>segs. tx_segments segs \<and> concat segs = buf"
proof -
  have "\<exists>segs. map length segs = ns \<and> concat segs = ts" if "length ts = sum_list ns" for ts :: "btrit list" and ns
    using that
  proof (induction ns arbitrary: ts)
    case (Cons n ns)
    then obtain segs where "map length segs = ns" "concat segs = drop n ts"
      using Cons.IH [of "drop n ts"] Cons.prems by fastforce
    then have "map length (take n ts # segs) = n # ns \<and> concat (take n ts # segs) = ts"
      using Cons.prems by simp
    then show ?case
      by (rule exI)
  qed simp
  then show ?thesis
    using assms by (simp add: tx_segments_def tx_lengths_def)
qed

lemma field_buf_segment:
  assumes "tx_segments segs" "k < 15" "off_start (trit_offset f) = tx_start k" "off_length (trit_offset f) = tx_len k"
  shows "field_buf (concat segs) f = Some (segs ! k)"
  using slice_segment [OF assms(1,2)] assms(3,4) by (simp add: field_buf_def trits_encode_t1b1)

lemma field_bufs:
  assumes "tx_segments segs"
  shows "field_buf (concat segs) PAYLOAD = Some (segs ! 0)" "field_buf (concat segs) ADDRESS = Some (segs ! 1)"
    "field_buf (concat segs) VALUE = Some (segs ! 2)" "field_buf (concat segs) OBSOLETE_TAG = Some (segs ! 3)"
    "field_buf (concat segs) TIMESTAMP = Some (segs ! 4)" "field_buf (concat segs) INDEX = Some (segs ! 5)"
    "field_buf (concat segs) LAST_INDEX = Some (segs ! 6)" "field_buf (concat segs) BUNDLE = Some (segs ! 7)"
    "field_buf (concat segs) TRUNK = Some (segs ! 8)" "field_buf (concat segs) BRANCH = Some (segs ! 9)"
    "field_buf (concat segs) TAG = Some (segs ! 10)" "field_buf (concat segs) ATTACHMENT_TS = Some (segs ! 11)"
    "field_buf (concat segs) ATTACHMENT_LBTS = Some (segs ! 12)"
    "field_buf (concat segs) ATTACHMENT_UBTS = Some (segs ! 13)" "field_buf (concat segs) NONCE = Some (segs ! 14)"
  by (rule field_buf_segment [OF assms]; simp only: field_starts field_lengths; simp)+

section \<open>Numbers in a field\<close>

text \<open>The trits a field of \<open>n\<close> trits holds for a value.\<close>

definition field_trits :: "nat \<Rightarrow> int \<Rightarrow> btrit list" where
  "field_trits n v = (let ts = the (trits_from_i64 v) in ts @ replicate (n - length ts) Zero)"

lemma trits_from_i64_fits:
  assumes "i64_MIN \<le> v" "v \<le> i64_MAX" "\<bar>v\<bar> \<le> int (half_range n)" "0 < n"
  shows "\<exists>ts. trits_from_i64 v = Some ts \<and> length ts \<le> n \<and> bal_val ts = v"
proof -
  obtain ts where ts: "trits_from_i64 v = Some ts" "bal_val ts = v"
    and m: "\<forall>m < length ts. half_range m < nat \<bar>v\<bar> \<or> m = 0"
    using trits_from_i64_law [OF assms(1,2)] by blast
  have "\<not> n < length ts"
  proof
    assume "n < length ts"
    then have "half_range n < nat \<bar>v\<bar>"
      using m assms(4) by auto
    then show False
      using assms(3) by linarith
  qed
  then show ?thesis
    using ts by auto
qed

lemma field_trits_law:
  assumes "i64_MIN \<le> v" "v \<le> i64_MAX" "\<bar>v\<bar> \<le> int (half_range n)" "0 < n"
  shows "length (field_trits n v) = n" "bal_val (field_trits n v) = v"
  using trits_from_i64_fits [OF assms] by (auto simp: field_trits_def bal_val_append)

lemma field_trits_unique:
  assumes "i64_MIN \<le> bal_val ts" "bal_val ts \<le> i64_MAX" "ts \<noteq> []"
  shows "field_trits (length ts) (bal_val ts) = ts"
  using field_trits_law [OF assms(1,2) bal_val_bound] assms(3) by (intro bal_val_inj) simp_all

lemma small_field_in_i64:
  assumes "length ts = 27"
  shows "i64_MIN \<le> bal_val ts" "bal_val ts \<le> i64_MAX"
  using bal_val_bound [of ts] assms by (simp_all add: half_range_def i64_MIN_def i64_MAX_def)

lemma field_i64_small:
  assumes "field_buf trits f = Some ts" "length ts = 27"
  shows "field_i64 trits f name = Some (Inr (bal_val ts))"
  using assms small_field_in_i64 [OF assms(2)] by (auto simp: field_i64_def i64_try_from_trits_eq)

lemma sint_word_of_int_i64: "i64_MIN \<le> v \<Longrightarrow> v \<le> i64_MAX \<Longrightarrow> sint (word_of_int v :: u64) = v"
  by (simp add: i64_MIN_def i64_MAX_def signed_of_int signed_take_bit_int_eq_self)

lemma sint_in_i64: "i64_MIN \<le> sint (w :: u64)" "sint w \<le> i64_MAX"
  using sint_greater_eq [of w] sint_less [of w] by (simp_all add: i64_MIN_def i64_MAX_def)

section \<open>Reading a transaction\<close>

definition tx_of_segments :: "btrit list list \<Rightarrow> transaction" where
  "tx_of_segments segs = \<lparr>tx_payload = segs ! 0,
     tx_address = segs ! 1,
     tx_value = bal_val (segs ! 2),
     tx_obsolete_tag = segs ! 3,
     tx_timestamp = word_of_int (bal_val (segs ! 4)),
     tx_index = word_of_int (bal_val (segs ! 5)),
     tx_last_index = word_of_int (bal_val (segs ! 6)),
     tx_bundle = message_of (segs ! 7),
     tx_trunk = message_of (segs ! 8),
     tx_branch = message_of (segs ! 9),
     tx_tag = segs ! 10,
     tx_attachment_ts = word_of_int (bal_val (segs ! 11)),
     tx_attachment_lbts = word_of_int (bal_val (segs ! 12)),
     tx_attachment_ubts = word_of_int (bal_val (segs ! 13)),
     tx_nonce = segs ! 14\<rparr>"

definition build_checks :: "int \<Rightarrow> btrit list \<Rightarrow> transaction \<Rightarrow> (transaction_error + transaction) option" where
  "build_checks v addr tx =
     (if v = i64_MIN then None
      else if \<bar>v\<bar> > IOTA_SUPPLY then Some (Inl (InvalidValue v))
      else if v \<noteq> 0 \<and> addr ! 242 \<noteq> Zero then Some (Inl InvalidAddress)
      else Some (Inr tx))"

lemma i64_abs_eq: "i64_MIN \<le> v \<Longrightarrow> v \<le> i64_MAX \<Longrightarrow> i64_abs v = (if v = i64_MIN then None else Some \<bar>v\<bar>)"
  by (auto simp: i64_abs_def checked_signed_def i64_MIN_def i64_MAX_def)

lemmas tb_with_defs = tb_with_payload_def tb_with_address_def tb_with_value_def tb_with_obsolete_tag_def tb_with_timestamp_def tb_with_index_def
  tb_with_last_index_def tb_with_bundle_def tb_with_trunk_def tb_with_branch_def tb_with_tag_def tb_with_attachment_ts_def
  tb_with_attachment_lbts_def tb_with_attachment_ubts_def tb_with_nonce_def

lemma tb_build_complete:
  assumes "i64_MIN \<le> v" "v \<le> i64_MAX" "length addr = 243"
  shows "tb_build \<lparr>tb_payload = Some x0, tb_address = Some addr, tb_value = Some v, tb_obsolete_tag = Some x3, tb_timestamp = Some x4, tb_index = Some x5, tb_last_index = Some x6, tb_bundle = Some x7, tb_trunk = Some x8, tb_branch = Some x9, tb_tag = Some x10, tb_attachment_ts = Some x11, tb_attachment_lbts = Some x12, tb_attachment_ubts = Some x13, tb_nonce = Some x14\<rparr>
    = build_checks v addr \<lparr>tx_payload = x0, tx_address = addr, tx_value = v, tx_obsolete_tag = x3, tx_timestamp = x4, tx_index = x5, tx_last_index = x6, tx_bundle = x7, tx_trunk = x8, tx_branch = x9, tx_tag = x10, tx_attachment_ts = x11, tx_attachment_lbts = x12, tx_attachment_ubts = x13, tx_nonce = x14\<rparr>"
  using assms
  by (simp add: tb_build_def build_checks_def i64_abs_eq t1b1_get_eq field_lengths tx_len_values)

lemma from_trits_segments:
  assumes "tx_segments segs"
  shows "transaction_from_trits t1b1_buf (concat segs) =
    res_try (field_i64 (concat segs) VALUE ''value'')
      (\<lambda>v. build_checks v (segs ! 1) ((tx_of_segments segs)\<lparr>tx_value := v\<rparr>))"
proof -
  have l: "length (segs ! 4) = 27" "length (segs ! 5) = 27" "length (segs ! 6) = 27" "length (segs ! 11) = 27"
    "length (segs ! 12) = 27" "length (segs ! 13) = 27" "length (segs ! 7) = 243" "length (segs ! 8) = 243"
    "length (segs ! 9) = 243" "length (segs ! 1) = 243" "length (segs ! 2) = 81"
    using tx_segments_nth [OF assms] by (simp_all add: tx_len_values)
  have h: "field_hash (concat segs) BUNDLE = Some (message_of (segs ! 7))"
    "field_hash (concat segs) TRUNK = Some (message_of (segs ! 8))"
    "field_hash (concat segs) BRANCH = Some (message_of (segs ! 9))"
    by (simp_all add: field_hash_def field_bufs [OF assms] hash_from_inner_unchecked_def l)
  note n = field_i64_small [OF field_bufs(5) [OF assms] l(1)] field_i64_small [OF field_bufs(6) [OF assms] l(2)]
    field_i64_small [OF field_bufs(7) [OF assms] l(3)] field_i64_small [OF field_bufs(12) [OF assms] l(4)]
    field_i64_small [OF field_bufs(13) [OF assms] l(5)] field_i64_small [OF field_bufs(14) [OF assms] l(6)]
  have v: "i64_MIN \<le> v \<and> v \<le> i64_MAX" if "field_i64 (concat segs) VALUE ''value'' = Some (Inr v)" for v
    using that by (auto simp: field_i64_def field_bufs [OF assms] i64_try_from_trits_eq i64_MIN_def i64_MAX_def
        split: if_splits)
  show ?thesis
  proof (cases "field_i64 (concat segs) VALUE ''value''")
    case None
    then show ?thesis
      by (simp add: transaction_from_trits_def trits_encode_t1b1 field_bufs [OF assms])
  next
    case (Some r)
    then show ?thesis
      using v by (cases r)
        (simp_all add: transaction_from_trits_def trits_encode_t1b1 field_bufs [OF assms] n h tb_with_defs tb_new_def
          tb_build_complete l(10) [simplified] tx_of_segments_def)
  qed
qed

section \<open>Writing a transaction\<close>

definition hash_wf :: "hash \<Rightarrow> bool" where
  "hash_wf h \<longleftrightarrow> length h = 243 \<and> list_all (\<lambda>b. b \<in> {- 1, 0, 1}) h"

definition time_fits :: "u64 \<Rightarrow> bool" where
  "time_fits w \<longleftrightarrow> \<bar>sint w\<bar> \<le> int (half_range 27)"

text \<open>The transactions whose fields have their lengths and whose numbers fit their fields.\<close>

definition tx_wf :: "transaction \<Rightarrow> bool" where
  "tx_wf tx \<longleftrightarrow>
     length (tx_payload tx) = 6561 \<and> length (tx_address tx) = 243 \<and> length (tx_obsolete_tag tx) = 81
     \<and> length (tx_tag tx) = 81 \<and> length (tx_nonce tx) = 81
     \<and> hash_wf (tx_bundle tx) \<and> hash_wf (tx_trunk tx) \<and> hash_wf (tx_branch tx)
     \<and> \<bar>tx_value tx\<bar> \<le> IOTA_SUPPLY \<and> (tx_value tx \<noteq> 0 \<longrightarrow> tx_address tx ! 242 = Zero)
     \<and> time_fits (tx_timestamp tx) \<and> time_fits (tx_index tx) \<and> time_fits (tx_last_index tx)
     \<and> time_fits (tx_attachment_ts tx) \<and> time_fits (tx_attachment_lbts tx) \<and> time_fits (tx_attachment_ubts tx)"

definition hash_trits :: "hash \<Rightarrow> btrit list" where
  "hash_trits h = map (\<lambda>b. the (btrit_try_from_i8 b)) h"

definition segments_of :: "transaction \<Rightarrow> btrit list list" where
  "segments_of tx =
     [tx_payload tx, tx_address tx, field_trits 81 (tx_value tx), tx_obsolete_tag tx,
      field_trits 27 (sint (tx_timestamp tx)), field_trits 27 (sint (tx_index tx)),
      field_trits 27 (sint (tx_last_index tx)), hash_trits (tx_bundle tx), hash_trits (tx_trunk tx),
      hash_trits (tx_branch tx), tx_tag tx, field_trits 27 (sint (tx_attachment_ts tx)),
      field_trits 27 (sint (tx_attachment_lbts tx)), field_trits 27 (sint (tx_attachment_ubts tx)), tx_nonce tx]"

definition zero_segments :: "btrit list list" where
  "zero_segments = map (\<lambda>n. replicate n Zero) tx_lengths"

lemma hash_as_trits_wf:
  assumes "hash_wf h"
  shows "hash_as_trits h = Some (hash_trits h)" "length (hash_trits h) = 243" "message_of (hash_trits h) = h"
proof -
  have b: "btrit_try_from_i8 b = Some (the (btrit_try_from_i8 b)) \<and> btrit_into_i8 (the (btrit_try_from_i8 b)) = b"
    if "b \<in> {- 1, 0, 1}" for b
    using that by (auto simp: btrit_try_from_i8_def)
  have w: "b \<in> {- 1, 0, 1}" if "b \<in> set h" for b
    using that assms unfolding hash_wf_def list_all_iff by blast
  have "map btrit_try_from_i8 h = map Some (hash_trits h)"
    using b w by (auto simp: hash_trits_def)
  then show "hash_as_trits h = Some (hash_trits h)"
    by (simp add: hash_as_trits_def)
  show "message_of (hash_trits h) = h"
    using b w by (simp add: message_of_def hash_trits_def map_idI)
qed (use assms in \<open>simp add: hash_wf_def hash_trits_def\<close>)

lemma message_of_wf: "length ts = 243 \<Longrightarrow> hash_wf (message_of ts)"
proof -
  have "btrit_into_i8 t \<in> {- 1, 0, 1}" for t
    by (cases t) simp_all
  then show "length ts = 243 \<Longrightarrow> hash_wf (message_of ts)"
    unfolding hash_wf_def message_of_def list_all_iff by auto
qed

lemma hash_trits_message_of [simp]: "hash_trits (message_of ts) = ts"
  by (simp add: hash_trits_def message_of_def map_idI)

lemma write_segment:
  assumes "off_start (trit_offset f) = tx_start k" "off_length (trit_offset f) = tx_len k" "k < 15"
    and "tx_segments segs" "length ts = tx_len k"
  shows "write_field (concat segs) f ts = Some (concat (segs[k := ts]))"
  using copy_segment [OF assms(4,3), of "tx_len k" ts] tx_segments_nth [OF assms(4,3)] assms
  by (simp add: write_field_def)

lemma write_hash_segment:
  assumes "off_start (trit_offset f) = tx_start k" "off_length (trit_offset f) = tx_len k" "k < 15"
    and "tx_len k = 243" "tx_segments segs" "hash_wf h"
  shows "write_hash (concat segs) f h = Some (concat (segs[k := hash_trits h]))"
  using write_segment [OF assms(1-3,5)] hash_as_trits_wf [OF assms(6)] assms(4) by (simp add: write_hash_def)

lemma write_i64_segment:
  assumes "off_start (trit_offset f) = tx_start k" "k < 15" "tx_segments segs" "0 < tx_len k"
    and "segs ! k = replicate (tx_len k) Zero"
    and "i64_MIN \<le> v" "v \<le> i64_MAX" "\<bar>v\<bar> \<le> int (half_range (tx_len k))"
  shows "write_i64 (concat segs) f v = Some (concat (segs[k := field_trits (tx_len k) v]))"
proof -
  obtain ts where "trits_from_i64 v = Some ts" "length ts \<le> tx_len k"
    using trits_from_i64_fits [OF assms(6-8,4)] by blast
  then show ?thesis
    using copy_segment [OF assms(3,2), of "length ts" ts] assms(1,5)
    by (simp add: write_i64_def field_trits_def)
qed

lemmas write_segments =
  write_segment [OF field_starts(1) field_lengths(1)]
  write_segment [OF field_starts(2) field_lengths(2)]
  write_segment [OF field_starts(4) field_lengths(4)]
  write_segment [OF field_starts(11) field_lengths(11)]
  write_segment [OF field_starts(15) field_lengths(15)]
  write_hash_segment [OF field_starts(8) field_lengths(8)]
  write_hash_segment [OF field_starts(9) field_lengths(9)]
  write_hash_segment [OF field_starts(10) field_lengths(10)]
  write_i64_segment [OF field_starts(3)]
  write_i64_segment [OF field_starts(5)]
  write_i64_segment [OF field_starts(6)]
  write_i64_segment [OF field_starts(7)]
  write_i64_segment [OF field_starts(12)]
  write_i64_segment [OF field_starts(13)]
  write_i64_segment [OF field_starts(14)]

lemma zero_segments_law: "tx_segments zero_segments" "concat zero_segments = replicate 8019 Zero"
proof -
  show "tx_segments zero_segments"
    by (simp add: tx_segments_def zero_segments_def comp_def)
  have "concat (map (\<lambda>n. replicate n Zero) ns) = replicate (sum_list ns) Zero" for ns
    by (induction ns) (simp_all add: replicate_add)
  then have "concat zero_segments = replicate (sum_list tx_lengths) Zero"
    by (simp only: zero_segments_def)
  moreover have "sum_list tx_lengths = 8019"
    by (simp add: tx_lengths_def)
  ultimately show "concat zero_segments = replicate 8019 Zero"
    by simp
qed

lemma zero_segments_nth: "k < 15 \<Longrightarrow> zero_segments ! k = replicate (tx_len k) Zero"
  using tx_segments_length [OF zero_segments_law(1)] by (simp add: zero_segments_def tx_len_def)

lemma tx_wf_value:
  assumes "tx_wf tx"
  shows "\<bar>tx_value tx\<bar> \<le> int (half_range 81)" "i64_MIN \<le> tx_value tx" "tx_value tx \<le> i64_MAX"
proof -
  have "\<bar>tx_value tx\<bar> \<le> IOTA_SUPPLY"
    using assms unfolding tx_wf_def by blast
  then show "\<bar>tx_value tx\<bar> \<le> int (half_range 81)" "i64_MIN \<le> tx_value tx" "tx_value tx \<le> i64_MAX"
    unfolding IOTA_SUPPLY_def half_range_def i64_MIN_def i64_MAX_def by simp_all
qed

lemma segments_of_wf:
  assumes "tx_wf tx"
  shows "tx_segments (segments_of tx)"
proof -
  note tx_wf_value [OF assms]
  moreover have "length (field_trits 27 (sint w)) = 27" if "time_fits w" for w
    using field_trits_law(1) [OF sint_in_i64, of w 27] that by (simp add: time_fits_def)
  ultimately show ?thesis
    using assms field_trits_law(1) [of "tx_value tx" 81]
    by (simp add: tx_segments_def tx_lengths_def segments_of_def tx_wf_def hash_as_trits_wf)
qed

lemma into_trits_segments:
  assumes "tx_wf tx"
  shows "into_trits_allocated tx (replicate 8019 Zero) = Some (concat (segments_of tx))"
proof -
  note v = tx_wf_value [OF assms]
  have u: "length (field_trits 27 (sint w)) = 27" "\<bar>sint w\<bar> \<le> int (half_range 27)" if "time_fits w" for w
    using field_trits_law(1) [OF sint_in_i64, of w 27] that by (simp_all add: time_fits_def)
  note w = assms [unfolded tx_wf_def]
  have l: "length (field_trits 81 (tx_value tx)) = 81"
    using field_trits_law(1) [OF v(2,3,1)] by simp
  have "into_trits_allocated tx (concat zero_segments) = Some (concat (zero_segments
      [0 := tx_payload tx, 1 := tx_address tx, 3 := tx_obsolete_tag tx, 7 := hash_trits (tx_bundle tx),
       9 := hash_trits (tx_branch tx), 8 := hash_trits (tx_trunk tx), 10 := tx_tag tx, 14 := tx_nonce tx,
       2 := field_trits 81 (tx_value tx), 5 := field_trits 27 (sint (tx_index tx)),
       6 := field_trits 27 (sint (tx_last_index tx)), 4 := field_trits 27 (sint (tx_timestamp tx)),
       11 := field_trits 27 (sint (tx_attachment_ts tx)), 12 := field_trits 27 (sint (tx_attachment_lbts tx)),
       13 := field_trits 27 (sint (tx_attachment_ubts tx))]))"
    using w v l u
    by (simp add: into_trits_allocated_def write_segments tx_segments_update zero_segments_law(1) tx_len_values
        zero_segments_nth sint_in_i64 hash_as_trits_wf(2))
  also have "zero_segments
      [0 := tx_payload tx, 1 := tx_address tx, 3 := tx_obsolete_tag tx, 7 := hash_trits (tx_bundle tx),
       9 := hash_trits (tx_branch tx), 8 := hash_trits (tx_trunk tx), 10 := tx_tag tx, 14 := tx_nonce tx,
       2 := field_trits 81 (tx_value tx), 5 := field_trits 27 (sint (tx_index tx)),
       6 := field_trits 27 (sint (tx_last_index tx)), 4 := field_trits 27 (sint (tx_timestamp tx)),
       11 := field_trits 27 (sint (tx_attachment_ts tx)), 12 := field_trits 27 (sint (tx_attachment_lbts tx)),
       13 := field_trits 27 (sint (tx_attachment_ubts tx))] = segments_of tx"
    by (simp add: zero_segments_def tx_lengths_def segments_of_def)
  finally show ?thesis
    by (simp add: zero_segments_law(2))
qed

section \<open>Reading and writing are inverse\<close>

lemma length_segments: "tx_segments segs \<Longrightarrow> length (concat segs) = 8019"
  by (simp add: tx_segments_def length_concat tx_lengths_def)

lemma from_trits_any_encoding:
  "trits_encode d t1b1_buf buffer = Some trits \<Longrightarrow>
   transaction_from_trits d buffer = transaction_from_trits t1b1_buf trits"
  by (simp add: transaction_from_trits_def trits_encode_t1b1)

lemma field_i64_value:
  assumes "tx_segments segs"
  shows "field_i64 (concat segs) VALUE ''value'' = Some (
     if i64_MIN \<le> bal_val (segs ! 2) \<and> bal_val (segs ! 2) \<le> i64_MAX then Inr (bal_val (segs ! 2))
     else if bal_val (segs ! 2) = i64_MIN - 1 then Inr i64_MAX
     else Inl (InvalidNumericField ''value'' AbsValueTooBig))"
  using tx_segments_nth [OF assms, of 2]
  by (auto simp: field_i64_def field_bufs [OF assms] i64_try_from_trits_eq tx_len_values)

lemma supply_bounds: "\<bar>v\<bar> \<le> IOTA_SUPPLY \<Longrightarrow> i64_MIN < v \<and> v < i64_MAX"
  unfolding IOTA_SUPPLY_def i64_MIN_def i64_MAX_def by (simp add: abs_le_iff)

lemma read_segments_of:
  assumes "tx_wf tx"
  shows "tx_of_segments (segments_of tx) = tx"
proof -
  have u: "word_of_int (bal_val (field_trits 27 (sint w))) = w" if "time_fits w" for w
    using field_trits_law(2) [OF sint_in_i64, of w 27] that by (simp add: time_fits_def)
  have v: "bal_val (field_trits 81 (tx_value tx)) = tx_value tx"
    using field_trits_law(2) tx_wf_value [OF assms] by simp
  note w = assms [unfolded tx_wf_def]
  show ?thesis
    using w u v hash_as_trits_wf(3) by (simp add: tx_of_segments_def segments_of_def)
qed

lemma segments_of_read:
  assumes "tx_segments segs" "\<bar>bal_val (segs ! 2)\<bar> \<le> IOTA_SUPPLY"
    and "bal_val (segs ! 2) \<noteq> 0 \<longrightarrow> segs ! 1 ! 242 = Zero"
  shows "segments_of (tx_of_segments segs) = segs" "tx_wf (tx_of_segments segs)"
proof -
  note l = tx_segments_nth [OF assms(1)]
  have t: "field_trits 27 (sint (word_of_int (bal_val ts) :: u64)) = ts" "time_fits (word_of_int (bal_val ts))"
    if "length ts = 27" for ts
    using field_trits_unique [of ts] small_field_in_i64 [OF that] sint_word_of_int_i64 bal_val_bound [of ts] that
    by (force simp: time_fits_def)+
  have v: "field_trits 81 (bal_val (segs ! 2)) = segs ! 2"
    using field_trits_unique [of "segs ! 2"] supply_bounds [OF assms(2)] l [of 2] by (force simp: tx_len_values)
  have "segs = map (\<lambda>k. segs ! k) [0..<15]"
    using map_nth [of segs] tx_segments_length [OF assms(1)] by simp
  also have "\<dots> = [segs ! 0, segs ! 1, segs ! 2, segs ! 3, segs ! 4, segs ! 5, segs ! 6, segs ! 7, segs ! 8, segs ! 9,
      segs ! 10, segs ! 11, segs ! 12, segs ! 13, segs ! 14]"
    by (simp add: upt_rec numeral_eq_Suc)
  finally have e: "segs = \<dots>" .
  show "segments_of (tx_of_segments segs) = segs"
    unfolding segments_of_def tx_of_segments_def
    by (subst e) (simp add: t v l tx_len_values)
  show "tx_wf (tx_of_segments segs)"
    using assms(2,3) by (simp add: tx_wf_def tx_of_segments_def t l tx_len_values message_of_wf)
qed

lemma from_trits_law:
  assumes "trits_encode d t1b1_buf buffer = Some (concat segs)" "tx_segments segs"
  shows "transaction_from_trits d buffer =
    (let v = bal_val (segs ! 2)
     in if v = i64_MIN then None
        else if v = i64_MIN - 1 then Some (Inl (InvalidValue i64_MAX))
        else if v < i64_MIN \<or> i64_MAX < v then Some (Inl (InvalidNumericField ''value'' AbsValueTooBig))
        else if IOTA_SUPPLY < \<bar>v\<bar> then Some (Inl (InvalidValue v))
        else if v \<noteq> 0 \<and> segs ! 1 ! 242 \<noteq> Zero then Some (Inl InvalidAddress)
        else Some (Inr (tx_of_segments segs)))"
proof -
  have "i64_MIN < i64_MAX" "IOTA_SUPPLY < \<bar>i64_MAX\<bar>" "i64_MAX \<noteq> 0"
    by (simp_all add: i64_MIN_def i64_MAX_def IOTA_SUPPLY_def)
  then show ?thesis
    unfolding from_trits_any_encoding [OF assms(1)] from_trits_segments [OF assms(2)] field_i64_value [OF assms(2)]
    by (auto simp: Let_def build_checks_def tx_of_segments_def)
qed

text \<open>
  C12. Reading a transaction from 8019 trits in any encoding. Of the numeric fields only the value can be out
  of range; a value above the supply and a value transaction whose address does not end in a zero trit
  are refused. A value of \<open>i64::MIN\<close> panics (the absolute value overflows) and the value below it is
  read as \<open>i64::MAX\<close>. Every other buffer gives the transaction with exactly the trits of its fields.
\<close>

theorem transaction_from_trits_correct:
  assumes "trits_encode d t1b1_buf buffer = Some (concat segs)" "tx_segments segs"
  shows "transaction_from_trits d buffer =
    (let v = bal_val (segs ! 2)
     in if v = i64_MIN then None
        else if v = i64_MIN - 1 then Some (Inl (InvalidValue i64_MAX))
        else if v < i64_MIN \<or> i64_MAX < v then Some (Inl (InvalidNumericField ''value'' AbsValueTooBig))
        else if IOTA_SUPPLY < \<bar>v\<bar> then Some (Inl (InvalidValue v))
        else if v \<noteq> 0 \<and> segs ! 1 ! 242 \<noteq> Zero then Some (Inl InvalidAddress)
        else Some (Inr (tx_of_segments segs)))"
  by (rule from_trits_law [OF assms])

theorem transaction_from_trits_correct_witness:
  "\<exists>b. trits_encode t1b1_buf (packed_buf_dict t5b1) (concat zero_segments) = Some b
    \<and> transaction_from_trits (packed_buf_dict t5b1) b = Some (Inr (tx_of_segments zero_segments))"
proof -
  have "length (concat zero_segments) \<le> packed_cap t5b1"
    by (simp add: zero_segments_law(2) packed_cap_def t5b1_def)
  then obtain b where b: "trits_encode t1b1_buf (packed_buf_dict t5b1) (concat zero_segments) = Some b"
    "trits_encode (packed_buf_dict t5b1) t1b1_buf b = Some (concat zero_segments)"
    using t5b1.t1b1_roundtrip by blast
  have "bal_val (zero_segments ! 2) = 0"
    by (simp add: zero_segments_nth)
  then have "transaction_from_trits (packed_buf_dict t5b1) b = Some (Inr (tx_of_segments zero_segments))"
    using transaction_from_trits_correct [OF b(2) zero_segments_law(1)]
    by (simp add: i64_MIN_def i64_MAX_def IOTA_SUPPLY_def)
  then show ?thesis
    using b(1) by blast
qed

lemma trits_inverse_law:
  assumes "length buf = 8019"
  shows "transaction_from_trits t1b1_buf buf = Some (Inr tx) \<longleftrightarrow>
      tx_wf tx \<and> into_trits_allocated tx (replicate 8019 Zero) = Some buf"
    and "tx_wf tx' \<Longrightarrow> \<exists>b. into_trits_allocated tx' (replicate 8019 Zero) = Some b \<and> length b = 8019"
proof -
  show "\<exists>b. into_trits_allocated tx' (replicate 8019 Zero) = Some b \<and> length b = 8019" if "tx_wf tx'" for tx'
    using into_trits_segments [OF that] length_segments [OF segments_of_wf [OF that]] by blast
  obtain segs where segs: "tx_segments segs" "buf = concat segs"
    using segments_exist [OF assms] by blast
  note r = from_trits_law [OF trits_encode_t1b1 segs(1), folded segs(2)]
  show "transaction_from_trits t1b1_buf buf = Some (Inr tx) \<longleftrightarrow>
      tx_wf tx \<and> into_trits_allocated tx (replicate 8019 Zero) = Some buf" (is "?L \<longleftrightarrow> ?R")
  proof
    assume ?L
    then have "tx = tx_of_segments segs" "\<bar>bal_val (segs ! 2)\<bar> \<le> IOTA_SUPPLY"
      "bal_val (segs ! 2) \<noteq> 0 \<longrightarrow> segs ! 1 ! 242 = Zero"
      unfolding r Let_def by (auto split: if_splits)
    then show ?R
      using segments_of_read [OF segs(1)] into_trits_segments segs(2) by simp
  next
    assume R: ?R
    then have c: "concat (segments_of tx) = buf" "tx_segments (segments_of tx)" and e: "tx_of_segments (segments_of tx) = tx"
      using into_trits_segments [of tx] segments_of_wf [of tx] read_segments_of [of tx] by auto
    have "bal_val (segments_of tx ! 2) = tx_value tx" "segments_of tx ! 1 = tx_address tx"
      using e by (metis tx_of_segments_def transaction.select_convs(3)) (simp add: segments_of_def)
    then show ?L
      using from_trits_law [OF trits_encode_t1b1 c(2)] R e supply_bounds [of "tx_value tx"]
      unfolding c(1) tx_wf_def Let_def by auto
  qed
qed
text \<open>
  C11. Reading and writing are inverse: a buffer of 8019 trits is accepted as a transaction exactly when that
  transaction is well formed and writing it into a zeroed buffer gives the buffer back. Every well formed
  transaction can be written.
\<close>

theorem transaction_trits_inverse:
  assumes "length buf = 8019"
  shows "(transaction_from_trits t1b1_buf buf = Some (Inr tx) \<longleftrightarrow>
      tx_wf tx \<and> into_trits_allocated tx (replicate 8019 Zero) = Some buf)
    \<and> (tx_wf tx \<longrightarrow> (\<exists>b. into_trits_allocated tx (replicate 8019 Zero) = Some b \<and> length b = 8019))"
  using trits_inverse_law [OF assms] by blast

theorem transaction_trits_inverse_witness:
  "transaction_from_trits t1b1_buf (replicate 8019 Zero) = Some (Inr (tx_of_segments zero_segments))
    \<and> into_trits_allocated (tx_of_segments zero_segments) (replicate 8019 Zero) = Some (replicate 8019 Zero)"
proof -
  have "bal_val (zero_segments ! 2) = 0"
    by (simp add: zero_segments_nth)
  then have w: "tx_wf (tx_of_segments zero_segments)" "segments_of (tx_of_segments zero_segments) = zero_segments"
    using segments_of_read [OF zero_segments_law(1)] by (simp_all add: IOTA_SUPPLY_def)
  then have "into_trits_allocated (tx_of_segments zero_segments) (replicate 8019 Zero) = Some (replicate 8019 Zero)"
    using into_trits_segments [OF w(1)] by (simp add: zero_segments_law(2))
  then show ?thesis
    using transaction_trits_inverse [of "replicate 8019 Zero" "tx_of_segments zero_segments"] w(1) by simp
qed

end
