(* ===== verification/Normalize.thy ===== *)
theory Normalize
  imports Wots
begin

text \<open>
  The normalisation of a hash before it is signed (src/bee-signing/src/normalize.rs). Every fragment of
  27 trytes is shifted until its values sum to zero, so that no two normalised hashes are ordered in
  every chunk. The result: for every hash of 243 trits the loops end, nothing overflows, every fragment
  sums to zero with its values in the range of a tryte, and a hash whose fragments sum to zero is kept.
\<close>

section \<open>normalize_hash\<close>

definition SECURITY_LEVEL_MAX :: nat where "SECURITY_LEVEL_MAX = 3"
definition NORMALIZED_FRAGMENT_LENGTH :: nat where "NORMALIZED_FRAGMENT_LENGTH = 27"

text \<open>The values of a fragment and their sum, which is an \<open>i16\<close>.\<close>

fun fragment_loop :: "i8 list \<Rightarrow> nat list \<Rightarrow> int \<Rightarrow> (i8 list \<times> int) option" where
  "fragment_loop hash_trits [] acc = Some ([], acc)"
| "fragment_loop hash_trits (j # js) acc = do {
     v \<leftarrow> message_val hash_trits j;
     acc \<leftarrow> checked_signed 16 (acc + v);
     (vs, acc) \<leftarrow> fragment_loop hash_trits js acc;
     Some (v # vs, acc) }"

text \<open>The inner \<open>for\<close> loops: the first value above the minimum is decremented, or the first one below the maximum incremented.\<close>

fun decrement_first :: "i8 list \<Rightarrow> i8 list" where
  "decrement_first [] = []"
| "decrement_first (v # vs) = (if v > MIN_TRYTE_VALUE then (v - 1) # vs else v # decrement_first vs)"

fun increment_first :: "i8 list \<Rightarrow> i8 list" where
  "increment_first [] = []"
| "increment_first (v # vs) = (if v < MAX_TRYTE_VALUE then (v + 1) # vs else v # increment_first vs)"

function lower_loop :: "i8 list \<Rightarrow> int \<Rightarrow> i8 list" where
  "lower_loop vs acc = (if acc > 0 then lower_loop (decrement_first vs) (acc - 1) else vs)"
  by auto
termination
  by (relation "measure (\<lambda>(_, acc). nat acc)") auto

function raise_loop :: "i8 list \<Rightarrow> int \<Rightarrow> i8 list" where
  "raise_loop vs acc = (if acc < 0 then raise_loop (increment_first vs) (acc + 1) else vs)"
  by auto
termination
  by (relation "measure (\<lambda>(_, acc). nat (- acc))") auto

declare lower_loop.simps [simp del] raise_loop.simps [simp del]

definition normalize_fragment :: "i8 list \<Rightarrow> nat \<Rightarrow> i8 list option" where
  "normalize_fragment hash_trits i = do {
     (vs, acc) \<leftarrow> fragment_loop hash_trits
       [i * NORMALIZED_FRAGMENT_LENGTH..<(i + 1) * NORMALIZED_FRAGMENT_LENGTH] 0;
     Some (if acc > 0 then lower_loop vs acc else raise_loop vs acc) }"

text \<open>The bytes are read as T3B1 trits, collected into a T3B1 buffer and encoded as T1B1.\<close>

definition normalize_hash :: "btrit list \<Rightarrow> btrit list option" where
  "normalize_hash hash = do {
     fragments \<leftarrow> those (map (normalize_fragment (message_of hash)) [0..<SECURITY_LEVEL_MAX]);
     let normalized_hash = concat fragments;
     s \<leftarrow> raw_from_raw_unchecked t3b1 normalized_hash (length normalized_hash * 3);
     ts \<leftarrow> those (map (raw_get_unchecked t3b1 normalized_hash s) [0..<raw_len t3b1 s]);
     buf \<leftarrow> trit_buf_from_iter t3b1_buf ts;
     trits_encode t3b1_buf t1b1_buf buf }"

section \<open>One fragment\<close>

definition tryte_values :: "i8 list \<Rightarrow> bool" where
  "tryte_values vs \<longleftrightarrow> list_all (\<lambda>v. - 13 \<le> v \<and> v \<le> 13) vs"

lemmas tryte_bounds = MIN_TRYTE_VALUE_def MAX_TRYTE_VALUE_def

lemma decrement_first_law:
  "tryte_values vs \<Longrightarrow> 0 < sum_list vs \<Longrightarrow>
   tryte_values (decrement_first vs) \<and> sum_list (decrement_first vs) = sum_list vs - 1
   \<and> length (decrement_first vs) = length vs"
proof (induction vs)
  case (Cons v vs)
  then show ?case
    by (cases "v > - 13") (auto simp: tryte_values_def tryte_bounds)
qed simp

lemma increment_first_law:
  "tryte_values vs \<Longrightarrow> sum_list vs < 0 \<Longrightarrow>
   tryte_values (increment_first vs) \<and> sum_list (increment_first vs) = sum_list vs + 1
   \<and> length (increment_first vs) = length vs"
proof (induction vs)
  case (Cons v vs)
  then show ?case
    by (cases "v < 13") (auto simp: tryte_values_def tryte_bounds)
qed simp

lemma lower_loop_law:
  "tryte_values vs \<Longrightarrow> 0 \<le> sum_list vs \<Longrightarrow>
   tryte_values (lower_loop vs (sum_list vs)) \<and> sum_list (lower_loop vs (sum_list vs)) = 0
   \<and> length (lower_loop vs (sum_list vs)) = length vs"
proof (induction "nat (sum_list vs)" arbitrary: vs)
  case 0
  then show ?case
    by (simp add: lower_loop.simps)
next
  case (Suc n)
  then have "0 < sum_list vs"
    by simp
  then show ?case
    using Suc.hyps(1) [of "decrement_first vs"] Suc.hyps(2) Suc.prems(1) decrement_first_law [of vs]
    by (simp add: lower_loop.simps [of vs])
qed

lemma raise_loop_law:
  "tryte_values vs \<Longrightarrow> sum_list vs \<le> 0 \<Longrightarrow>
   tryte_values (raise_loop vs (sum_list vs)) \<and> sum_list (raise_loop vs (sum_list vs)) = 0
   \<and> length (raise_loop vs (sum_list vs)) = length vs"
proof (induction "nat (- sum_list vs)" arbitrary: vs)
  case 0
  then show ?case
    by (simp add: raise_loop.simps)
next
  case (Suc n)
  then have "sum_list vs < 0"
    by simp
  then show ?case
    using Suc.hyps(1) [of "increment_first vs"] Suc.hyps(2) Suc.prems(1) increment_first_law [of vs]
    by (simp add: raise_loop.simps [of vs])
qed

text \<open>The value of the \<open>j\<close>-th tryte of a trit sequence.\<close>

definition tryte_at :: "btrit list \<Rightarrow> nat \<Rightarrow> int" where
  "tryte_at ts j = bal_val (take 3 (drop (3 * j) ts))"

lemma message_val_tryte:
  assumes "3 * j + 2 < length ts"
  shows "message_val (message_of ts) j = Some (tryte_at ts j)" "- 13 \<le> tryte_at ts j" "tryte_at ts j \<le> 13"
proof -
  have d: "take 3 (drop (3 * j) ts) = [ts ! (3 * j), ts ! (3 * j + 1), ts ! (3 * j + 2)]"
    using assms by (intro nth_equalityI) (auto simp: less_Suc_eq numeral_3_eq_3)
  have t: "tryte_at ts j = btrit_into_i8 (ts ! (3 * j)) + 3 * btrit_into_i8 (ts ! (3 * j + 1)) + 9 * btrit_into_i8 (ts ! (3 * j + 2))"
    by (simp add: tryte_at_def d)
  show "message_val (message_of ts) j = Some (tryte_at ts j)"
    using assms btrit_into_i8_range [of "ts ! (3 * j)"] btrit_into_i8_range [of "ts ! (3 * j + 1)"]
      btrit_into_i8_range [of "ts ! (3 * j + 2)"]
    by (simp add: message_val_def message_of_def checked_signed_def t mult.commute)
  show "- 13 \<le> tryte_at ts j" "tryte_at ts j \<le> 13"
    using btrit_into_i8_range [of "ts ! (3 * j)"] btrit_into_i8_range [of "ts ! (3 * j + 1)"]
      btrit_into_i8_range [of "ts ! (3 * j + 2)"] unfolding t by linarith+
qed

lemma fragment_loop_law:
  assumes "\<And>j. j \<in> set js \<Longrightarrow> 3 * j + 2 < length ts" "\<bar>a\<bar> + 13 * int (length js) < 2 ^ 15"
  shows "fragment_loop (message_of ts) js a =
    Some (map (tryte_at ts) js, a + sum_list (map (tryte_at ts) js)) \<and> tryte_values (map (tryte_at ts) js)"
  using assms
proof (induction js arbitrary: a)
  case (Cons j js)
  have j: "message_val (message_of ts) j = Some (tryte_at ts j)" "- 13 \<le> tryte_at ts j" "tryte_at ts j \<le> 13"
    using message_val_tryte Cons.prems(1) by auto
  moreover have "checked_signed 16 (a + tryte_at ts j) = Some (a + tryte_at ts j)"
    using j(2,3) Cons.prems(2) by (intro checked_signed_Some) auto
  ultimately show ?case
    using Cons.IH [of "a + tryte_at ts j"] Cons.prems by (simp add: tryte_values_def)
qed (simp add: tryte_values_def)

lemma normalize_fragment_law:
  assumes "length ts = 243" "i < 3"
  shows "\<exists>vs. normalize_fragment (message_of ts) i = Some vs \<and> length vs = 27 \<and> tryte_values vs \<and> sum_list vs = 0
    \<and> (sum_list (map (tryte_at ts) [i * 27..<(i + 1) * 27]) = 0 \<longrightarrow> vs = map (tryte_at ts) [i * 27..<(i + 1) * 27])"
proof -
  let ?js = "[i * 27..<(i + 1) * 27]"
  let ?vs = "map (tryte_at ts) ?js"
  have "fragment_loop (message_of ts) ?js 0 = Some (?vs, sum_list ?vs)" "tryte_values ?vs"
    using fragment_loop_law [of ?js ts 0] assms by auto
  moreover have "raise_loop ?vs 0 = ?vs"
    by (simp add: raise_loop.simps)
  ultimately show ?thesis
    using lower_loop_law [of ?vs] raise_loop_law [of ?vs]
    by (cases "sum_list ?vs > 0") (simp_all add: normalize_fragment_def NORMALIZED_FRAGMENT_LENGTH_def not_less)
qed

section \<open>The bytes as trits\<close>

definition t3b1_trits :: "i8 \<Rightarrow> btrit list" where
  "t3b1_trits v = map (\<lambda>e. the (t3b1_extract v e)) [0, 1, 2]"

lemma t3b1_trits_value: "- 13 \<le> v \<Longrightarrow> v \<le> 13 \<Longrightarrow> bal_val (t3b1_trits v) = v"
proof -
  assume "- 13 \<le> v" "v \<le> 13"
  then have "v \<in> set [- 13..13]"
    by (simp only: set_upto atLeastAtMost_iff)
  moreover have "list_all (\<lambda>v. bal_val (t3b1_trits v) = v) [- 13..13]"
    by code_simp
  ultimately show ?thesis
    unfolding list_all_iff by (rule bspec [rotated])
qed

lemma trit_at_t3b1: "e < 3 \<Longrightarrow> trit_at t3b1 vs (3 * j + e) = t3b1_trits (vs ! j) ! e"
proof -
  assume e: "e < 3"
  have "[0, 1, 2] ! e = e"
    using e by (cases e; cases "e - 1"; cases "e - 2") simp_all
  moreover have "(3 * j + e) div 3 = j" "(3 * j + e) mod 3 = e"
    using e by simp_all
  ultimately show ?thesis
    using e by (simp add: trit_at_def t3b1_def t3b1_trits_def del: list.map)
qed

lemma tryte_at_t3b1:
  assumes "tryte_values vs" "j < length vs"
  shows "tryte_at (map (trit_at t3b1 vs) [0..<length vs * 3]) j = vs ! j"
proof -
  let ?ts = "map (trit_at t3b1 vs) [0..<length vs * 3]"
  have "take 3 (drop (3 * j) ?ts) = t3b1_trits (vs ! j)"
  proof (rule nth_equalityI)
    fix e
    assume "e < length (take 3 (drop (3 * j) ?ts))"
    then show "take 3 (drop (3 * j) ?ts) ! e = t3b1_trits (vs ! j) ! e"
      using assms(2) trit_at_t3b1 [of e vs j] by simp
  qed (use assms(2) in \<open>simp add: t3b1_trits_def\<close>)
  moreover have "- 13 \<le> vs ! j" "vs ! j \<le> 13"
    using assms by (auto simp: tryte_values_def list_all_length)
  ultimately show ?thesis
    by (simp add: tryte_at_def t3b1_trits_value)
qed

lemma t3b1_reencode:
  assumes "tryte_values vs" "length vs \<le> 81"
  shows "do {
     s \<leftarrow> raw_from_raw_unchecked t3b1 vs (length vs * 3);
     ts \<leftarrow> those (map (raw_get_unchecked t3b1 vs s) [0..<raw_len t3b1 s]);
     buf \<leftarrow> trit_buf_from_iter t3b1_buf ts;
     trits_encode t3b1_buf t1b1_buf buf } = Some (map (trit_at t3b1 vs) [0..<length vs * 3])"
proof -
  let ?ts = "map (trit_at t3b1 vs) [0..<length vs * 3]"
  have cap: "length vs * 3 \<le> packed_cap t3b1"
    using assms(2) by (simp add: packed_cap_def t3b1_def)
  have valid: "list_all (is_valid t3b1) vs"
    using assms(1) by (auto simp: tryte_values_def t3b1_def t3b1_is_valid_def list_all_iff)
  obtain s where s: "raw_try_from_raw t3b1 vs (length vs * 3) = Some (Inr s)" "wf_slice t3b1 vs s"
    "slice_trits t3b1 vs s = ?ts"
    using t3b1.try_from_raw_law [OF valid _ cap] by (auto simp: t3b1_def)
  have "raw_from_raw_unchecked t3b1 vs (length vs * 3) = Some s"
    using s(1) valid by (auto simp: raw_try_from_raw_def split: if_splits option.splits)
  moreover have "map (raw_get_unchecked t3b1 vs s) [0..<raw_len t3b1 s] = map Some ?ts"
    using t3b1.raw_get_law [OF s(2)] length_slice_trits [of t3b1 vs s]
    unfolding s(3) by (intro nth_equalityI) simp_all
  moreover obtain b where "trits_encode t1b1_buf t3b1_buf ?ts = Some b" "trits_encode t3b1_buf t1b1_buf b = Some ?ts"
    using t3b1.t1b1_roundtrip [of ?ts] cap unfolding t3b1_buf_def by auto
  moreover have "trits_encode t1b1_buf t3b1_buf ?ts = trit_buf_from_iter t3b1_buf ?ts"
    by (simp add: trits_encode_def trits_iter_t1b1)
  moreover have "those (map Some ?ts) = Some ?ts"
    using map_Some_those [of "\<lambda>x. x" ?ts] by simp
  ultimately show ?thesis
    by (simp del: map_map)
qed

section \<open>The whole hash\<close>

definition fragment_sum :: "btrit list \<Rightarrow> nat \<Rightarrow> int" where
  "fragment_sum ts i = sum_list (map (tryte_at ts) [i * 27..<(i + 1) * 27])"

lemma trits_of_trytes:
  assumes "length xs = 3 * n" "length ys = 3 * n" "\<And>j. j < n \<Longrightarrow> tryte_at xs j = tryte_at ys j"
  shows "xs = ys"
  using assms
proof (induction n arbitrary: xs ys)
  case (Suc n)
  have t: "tryte_at zs (Suc j) = tryte_at (drop 3 zs) j" for zs j
    by (simp add: tryte_at_def add.commute)
  have "drop 3 xs = drop 3 ys"
    using Suc.prems by (intro Suc.IH) (simp_all flip: t)
  moreover have "take 3 xs = take 3 ys"
    using Suc.prems(1,2) Suc.prems(3) [of 0] bal_val_inj [of "take 3 xs" "take 3 ys"]
    by (simp add: tryte_at_def)
  ultimately show ?case
    by (metis append_take_drop_id)
qed simp

lemma fragment_map_split: "[0..<81] = [0 * 27..<(0 + 1) * 27] @ [1 * 27..<(1 + 1) * 27] @ [2 * 27..<(2 + 1) * (27::nat)]"
  by (simp add: upt_rec)

lemma normalize_hash_law:
  assumes "length hash = 243"
  shows "\<exists>ts. normalize_hash hash = Some ts \<and> length ts = 243 \<and> (\<forall>i < 3. fragment_sum ts i = 0)
    \<and> ((\<forall>i < 3. fragment_sum hash i = 0) \<longrightarrow> ts = hash)"
proof -
  have "\<forall>i. \<exists>vs. i < 3 \<longrightarrow> normalize_fragment (message_of hash) i = Some vs \<and> length vs = 27 \<and> tryte_values vs
      \<and> sum_list vs = 0 \<and> (fragment_sum hash i = 0 \<longrightarrow> vs = map (tryte_at hash) [i * 27..<(i + 1) * 27])"
    using normalize_fragment_law [OF assms] unfolding fragment_sum_def by blast
  then obtain f where f: "i < 3 \<Longrightarrow> normalize_fragment (message_of hash) i = Some (f i) \<and> length (f i) = 27 \<and> tryte_values (f i)
      \<and> sum_list (f i) = 0 \<and> (fragment_sum hash i = 0 \<longrightarrow> f i = map (tryte_at hash) [i * 27..<(i + 1) * 27])" for i
    by metis
  define vs where "vs = f 0 @ f 1 @ f 2"
  let ?ts = "map (trit_at t3b1 vs) [0..<length vs * 3]"
  have lf: "length (f 0) = 27" "length (f 1) = 27" "length (f 2) = 27"
    "tryte_values (f 0)" "tryte_values (f 1)" "tryte_values (f 2)"
    using f by simp_all
  then have vs: "length vs = 81" "tryte_values vs"
    by (simp_all add: vs_def tryte_values_def)
  have nf: "normalize_fragment (message_of hash) i = Some (f i)" if "i < 3" for i
    using f [OF that] by blast
  have three: "[0..<3] = [0, 1, 2::nat]"
    by (simp add: upt_rec)
  have "those (map (normalize_fragment (message_of hash)) [0..<3]) = Some [f 0, f 1, f 2]"
    unfolding three using nf [of 0] nf [of 1] nf [of 2] by simp
  moreover have "concat [f 0, f 1, f 2] = vs"
    by (simp add: vs_def)
  ultimately have "normalize_hash hash = Some ?ts"
    using t3b1_reencode [OF vs(2)] vs(1)
    by (simp add: normalize_hash_def SECURITY_LEVEL_MAX_def Let_def del: concat.simps)
  moreover have at: "tryte_at ?ts j = vs ! j" if "j < 81" for j
    using tryte_at_t3b1 [OF vs(2)] that vs(1) by simp
  moreover have "map (tryte_at ?ts) [i * 27..<(i + 1) * 27] = f i" if "i < 3" for i
  proof (rule nth_equalityI)
    fix k
    assume "k < length (map (tryte_at ?ts) [i * 27..<(i + 1) * 27])"
    then have k: "k < 27"
      by simp
    have "vs ! (i * 27 + k) = f i ! k"
      using that k lf(1-3) by (auto simp: vs_def nth_append less_Suc_eq numeral_3_eq_3 numeral_2_eq_2)
    then show "map (tryte_at ?ts) [i * 27..<(i + 1) * 27] ! k = f i ! k"
      using at [of "i * 27 + k"] that k by simp
  qed (use f [OF that] in simp)
  then have "\<forall>i < 3. fragment_sum ?ts i = 0"
    using f by (simp add: fragment_sum_def)
  moreover have "?ts = hash" if z: "\<forall>i < 3. fragment_sum hash i = 0"
  proof (rule trits_of_trytes)
    have "f i = map (tryte_at hash) [i * 27..<(i + 1) * 27]" if "i < 3" for i
      using f [OF that] z that by blast
    then have "vs = map (tryte_at hash) [0..<81]"
      unfolding vs_def fragment_map_split map_append by (metis numeral_3_eq_3 less_Suc_eq numeral_2_eq_2 One_nat_def)
    then show "tryte_at ?ts j = tryte_at hash j" if "j < 81" for j
      using at [OF that] that by simp
  qed (use vs(1) assms in simp_all)
  ultimately show ?thesis
    using vs(1) by (intro exI [of _ ?ts]) simp
qed

section \<open>Properties\<close>

text \<open>
  Every hash of 243 trits is normalised without a panic to 243 trits of which each fragment of 27
  trytes sums to zero, and a hash that already has this property is returned unchanged.
\<close>

theorem normalize_hash_correct:
  assumes "length hash = 243"
  shows "\<exists>ts. normalize_hash hash = Some ts \<and> length ts = 243 \<and> (\<forall>i < 3. fragment_sum ts i = 0)
    \<and> ((\<forall>i < 3. fragment_sum hash i = 0) \<longrightarrow> ts = hash)"
  by (rule normalize_hash_law [OF assms])

theorem normalize_hash_correct_witness:
  "\<exists>ts. normalize_hash (replicate 243 PlusOne) = Some ts \<and> length ts = 243 \<and> (\<forall>i < 3. fragment_sum ts i = 0)"
  using normalize_hash_correct [of "replicate 243 PlusOne"] by simp blast

end
