(* ===== verification/Bundles.thy ===== *)
theory Bundles
  imports Transactions Normalize
begin

text \<open>
  Bundles (bee-bundle: transaction/builder.rs essence, bundle/outgoing_bundle_builder.rs,
  bundle/incoming_bundle_builder.rs, bundle/bundle.rs). The stages of the two staged builders are types
  without data, so a builder is the list it wraps and each stage's operation a function on it. A panic, and
  a loop that does not end, is \<open>None\<close>; an error is \<open>Inl\<close>.
\<close>

section \<open>The essence of a transaction (builder.rs)\<close>

text \<open>The fields are written one after the other; each number takes the trits it needs.\<close>

definition tb_essence :: "transaction_builder \<Rightarrow> btrit list option" where
  "tb_essence self = do {
     essence \<leftarrow> trit_buf_zeros t1b1_buf Zero
       (off_length (trit_offset ADDRESS) + off_length (trit_offset VALUE) + off_length (trit_offset OBSOLETE_TAG)
        + off_length (trit_offset TIMESTAMP) + off_length (trit_offset INDEX) + off_length (trit_offset LAST_INDEX));
     addr \<leftarrow> tb_address self;
     v \<leftarrow> tb_value self;
     val \<leftarrow> trits_from_i64 v;
     obsolete_tag \<leftarrow> tb_obsolete_tag self;
     t \<leftarrow> tb_timestamp self;
     timestamp \<leftarrow> trits_from_i64 (sint t);
     i \<leftarrow> tb_index self;
     idx \<leftarrow> trits_from_i64 (sint i);
     l \<leftarrow> tb_last_index self;
     last_index \<leftarrow> trits_from_i64 (sint l);
     let start = 0;
     essence \<leftarrow> t1b1_copy_into essence start (off_length (trit_offset ADDRESS)) addr;
     let start = start + off_length (trit_offset ADDRESS);
     essence \<leftarrow> t1b1_copy_into essence start (start + length val) val;
     let start = start + off_length (trit_offset VALUE);
     essence \<leftarrow> t1b1_copy_into essence start (start + off_length (trit_offset OBSOLETE_TAG)) obsolete_tag;
     let start = start + off_length (trit_offset OBSOLETE_TAG);
     essence \<leftarrow> t1b1_copy_into essence start (start + length timestamp) timestamp;
     let start = start + off_length (trit_offset TIMESTAMP);
     essence \<leftarrow> t1b1_copy_into essence start (start + length idx) idx;
     let start = start + off_length (trit_offset INDEX);
     essence \<leftarrow> t1b1_copy_into essence start (start + length last_index) last_index;
     Some essence }"

section \<open>Outgoing bundles (outgoing_bundle_builder.rs)\<close>

datatype outgoing_bundle_builder_error =
    OutgoingEmpty
  | UnsignedInput
  | OutgoingInvalidValue int
  | MissingTransactionBuilderField string
  | TransactionError transaction_error
  | FailedSigningOperation

type_synonym outgoing_bundle_builder = "transaction_builder list"

definition outgoing_new :: outgoing_bundle_builder where
  "outgoing_new = []"

definition outgoing_push :: "outgoing_bundle_builder \<Rightarrow> transaction_builder \<Rightarrow> outgoing_bundle_builder" where
  "outgoing_push self builder = self @ [builder]"

text \<open>The result of \<open>absorb\<close> is ignored.\<close>

fun absorb_essences :: "('s, 'e) sponge \<Rightarrow> 's \<Rightarrow> transaction_builder list \<Rightarrow> 's option" where
  "absorb_essences S sponge [] = Some sponge"
| "absorb_essences S sponge (builder # builders) = do {
     essence \<leftarrow> tb_essence builder;
     (sponge, _) \<leftarrow> sp_absorb S sponge essence;
     absorb_essences S sponge builders }"

definition has_m_bug :: "btrit list \<Rightarrow> bool option" where
  "has_m_bug hash = do {
     normalized \<leftarrow> normalize_hash hash;
     chunks \<leftarrow> t1b1_chunks normalized 3;
     Some (list_ex (list_all (\<lambda>trit. trit = PlusOne)) chunks) }"

fun tag_increment :: "tag \<Rightarrow> tag" where
  "tag_increment [] = []"
| "tag_increment (t # ts) =
     (case t of NegOne \<Rightarrow> Zero # ts | Zero \<Rightarrow> PlusOne # ts | PlusOne \<Rightarrow> NegOne # tag_increment ts)"

definition set_first_tag :: "transaction_builder list \<Rightarrow> tag \<Rightarrow> transaction_builder list" where
  "set_first_tag builders tag = (case builders of [] \<Rightarrow> [] | b # bs \<Rightarrow> b\<lparr>tb_obsolete_tag := Some tag\<rparr> # bs)"

partial_function (option) bundle_hash_loop ::
  "('s, 'e) sponge \<Rightarrow> 's \<Rightarrow> transaction_builder list \<Rightarrow> tag \<Rightarrow> (transaction_builder list \<times> hash) option" where
  "bundle_hash_loop S sponge builders obsolete_tag = do {
     let sponge = sp_reset S sponge;
     sponge \<leftarrow> absorb_essences S sponge builders;
     (sponge, r) \<leftarrow> sp_squeeze S sponge;
     (case r of
        Inl _ \<Rightarrow> None
      | Inr trits \<Rightarrow> do {
          bug \<leftarrow> has_m_bug trits;
          if \<not> bug then do { h \<leftarrow> hash_from_inner_unchecked trits; Some (builders, h) }
          else bundle_hash_loop S sponge (set_first_tag builders (tag_increment obsolete_tag)) (tag_increment obsolete_tag) }) }"

definition calculate_bundle_hash ::
  "('s, 'e) sponge \<Rightarrow> transaction_builder list \<Rightarrow> (outgoing_bundle_builder_error + transaction_builder list) option" where
  "calculate_bundle_hash S builders =
     (case builders of
        [] \<Rightarrow> Some (Inl OutgoingEmpty)
      | builder # _ \<Rightarrow>
          (case tb_obsolete_tag builder of
             None \<Rightarrow> Some (Inl (MissingTransactionBuilderField ''obsolete_tag''))
           | Some obsolete_tag \<Rightarrow> do {
               (builders, h) \<leftarrow> bundle_hash_loop S (sp_default S) builders obsolete_tag;
               Some (Inr (map (\<lambda>b. b\<lparr>tb_bundle := Some h\<rparr>) builders)) }))"

fun seal_loop ::
  "nat \<Rightarrow> nat \<Rightarrow> int \<Rightarrow> transaction_builder list
    \<Rightarrow> (outgoing_bundle_builder_error + transaction_builder list \<times> int) option" where
  "seal_loop index last_index acc [] = Some (Inr ([], acc))"
| "seal_loop index last_index acc (builder # builders) =
     (if tb_payload builder = None then Some (Inl (MissingTransactionBuilderField ''payload''))
      else if tb_address builder = None then Some (Inl (MissingTransactionBuilderField ''address''))
      else if tb_value builder = None then Some (Inl (MissingTransactionBuilderField ''value''))
      else if tb_tag builder = None then Some (Inl (MissingTransactionBuilderField ''tag''))
      else do {
        let builder = builder\<lparr>tb_index := Some (word_of_nat index), tb_last_index := Some (word_of_nat last_index)\<rparr>;
        v \<leftarrow> tb_value builder;
        acc \<leftarrow> checked_signed 64 (acc + v);
        a \<leftarrow> i64_abs acc;
        if a > IOTA_SUPPLY then Some (Inl (OutgoingInvalidValue acc))
        else res_try (seal_loop (index + 1) last_index acc builders) (\<lambda>(builders, acc).
          Some (Inr (builder # builders, acc))) })"

text \<open>The last index is computed before the length is checked: \<open>len() - 1\<close> underflows for an empty bundle.\<close>

definition seal ::
  "('s, 'e) sponge \<Rightarrow> outgoing_bundle_builder \<Rightarrow> (outgoing_bundle_builder_error + outgoing_bundle_builder) option" where
  "seal S self = do {
     last_index \<leftarrow> (if length self = 0 then None else Some (length self - 1));
     if length self = 0 then Some (Inl OutgoingEmpty)
     else res_try (seal_loop 0 last_index 0 self) (\<lambda>(builders, acc).
       if acc \<noteq> 0 then Some (Inl (OutgoingInvalidValue acc))
       else calculate_bundle_hash S builders) }"

fun has_no_input :: "transaction_builder list \<Rightarrow> (outgoing_bundle_builder_error + unit) option" where
  "has_no_input [] = Some (Inr ())"
| "has_no_input (builder # builders) = do {
     v \<leftarrow> tb_value builder;
     if v < 0 then Some (Inl UnsignedInput) else has_no_input builders }"

definition signed_attach_local ::
  "outgoing_bundle_builder \<Rightarrow> hash \<Rightarrow> hash \<Rightarrow> (outgoing_bundle_builder_error + outgoing_bundle_builder) option" where
  "signed_attach_local self trunk branch = Some (Inr self)"

definition signed_attach_remote ::
  "outgoing_bundle_builder \<Rightarrow> hash \<Rightarrow> hash \<Rightarrow> (outgoing_bundle_builder_error + outgoing_bundle_builder) option" where
  "signed_attach_remote self trunk branch = Some (Inr self)"

definition sealed_attach_local ::
  "outgoing_bundle_builder \<Rightarrow> hash \<Rightarrow> hash \<Rightarrow> (outgoing_bundle_builder_error + outgoing_bundle_builder) option" where
  "sealed_attach_local self trunk branch = res_try (has_no_input self) (\<lambda>_. signed_attach_local self trunk branch)"

definition sealed_attach_remote ::
  "outgoing_bundle_builder \<Rightarrow> hash \<Rightarrow> hash \<Rightarrow> (outgoing_bundle_builder_error + outgoing_bundle_builder) option" where
  "sealed_attach_remote self trunk branch = res_try (has_no_input self) (\<lambda>_. signed_attach_remote self trunk branch)"

text \<open>Signing: the fragments of all signatures, the first input, and writing the fragments from there on.\<close>

fun signature_fragments ::
  "('s, 'e) sponge \<Rightarrow> iota_seed \<Rightarrow> btrit list \<Rightarrow> (u64 \<times> address \<times> wots_security_level) list
    \<Rightarrow> (outgoing_bundle_builder_error + payload list) option" where
  "signature_fragments S seed msg [] = Some (Inr [])"
| "signature_fragments S seed msg ((index, _, security) # inputs) =
     (case wots_build (wots_builder_security_level None security) of
        Inl _ \<Rightarrow> None
      | Inr key_generator \<Rightarrow> do {
          key \<leftarrow> wots_generate S key_generator seed index;
          (case key of
             Inl _ \<Rightarrow> Some (Inl FailedSigningOperation)
           | Inr key \<Rightarrow> do {
               signature \<leftarrow> wots_sign S key (message_of msg);
               (case signature of
                  Inl _ \<Rightarrow> Some (Inl FailedSigningOperation)
                | Inr signature \<Rightarrow> do {
                    fragments \<leftarrow> t1b1_chunks signature PAYLOAD_TRIT_LEN;
                    res_try (signature_fragments S seed msg inputs) (\<lambda>more. Some (Inr (fragments @ more))) }) }) })"

fun first_input :: "transaction_builder list \<Rightarrow> u64 option" where
  "first_input [] = Some 0"
| "first_input (i # builders) = do {
     v \<leftarrow> tb_value i;
     if v < 0 then tb_index i else first_input builders }"

fun write_payloads :: "transaction_builder list \<Rightarrow> nat \<Rightarrow> payload list \<Rightarrow> transaction_builder list option" where
  "write_payloads builders input_index [] = Some builders"
| "write_payloads builders input_index (payload # payloads) =
     (if input_index < length builders
      then write_payloads (builders[input_index := (builders ! input_index)\<lparr>tb_payload := Some payload\<rparr>])
        (input_index + 1) payloads
      else None)"

definition sign ::
  "('s, 'e) sponge \<Rightarrow> outgoing_bundle_builder \<Rightarrow> iota_seed \<Rightarrow> (u64 \<times> address \<times> wots_security_level) list
    \<Rightarrow> (outgoing_bundle_builder_error + outgoing_bundle_builder) option" where
  "sign S self seed inputs = do {
     first \<leftarrow> (case self of [] \<Rightarrow> None | b # _ \<Rightarrow> Some b);
     bundle \<leftarrow> tb_bundle first;
     trits \<leftarrow> hash_as_trits bundle;
     msg \<leftarrow> normalize_hash trits;
     res_try (signature_fragments S seed msg inputs) (\<lambda>fragments. do {
       input_index \<leftarrow> first_input self;
       builders \<leftarrow> write_payloads self (unat input_index) fragments;
       Some (Inr builders) }) }"

fun outgoing_build :: "outgoing_bundle_builder \<Rightarrow> (outgoing_bundle_builder_error + transaction list) option" where
  "outgoing_build [] = Some (Inr [])"
| "outgoing_build (transaction_builder # builders) = do {
     r \<leftarrow> tb_build transaction_builder;
     (case r of
        Inl e \<Rightarrow> Some (Inl (TransactionError e))
      | Inr transaction \<Rightarrow> res_try (outgoing_build builders) (\<lambda>transactions. Some (Inr (transaction # transactions)))) }"

section \<open>Bundles (bundle.rs)\<close>

type_synonym tx_bundle_list = "transaction list"

definition bundle_get :: "tx_bundle_list \<Rightarrow> nat \<Rightarrow> transaction option" where
  "bundle_get self index = (if index < length self then Some (self ! index) else None)"

definition bundle_hash :: "tx_bundle_list \<Rightarrow> hash option" where
  "bundle_hash self = map_option tx_bundle (bundle_get self 0)"

definition bundle_tail :: "tx_bundle_list \<Rightarrow> transaction option" where
  "bundle_tail self = bundle_get self 0"

definition bundle_head :: "tx_bundle_list \<Rightarrow> transaction option" where
  "bundle_head self = (if length self = 0 then None else bundle_get self (length self - 1))"

definition bundle_trunk :: "tx_bundle_list \<Rightarrow> hash option" where
  "bundle_trunk self = map_option tx_trunk (bundle_head self)"

definition bundle_branch :: "tx_bundle_list \<Rightarrow> hash option" where
  "bundle_branch self = map_option tx_branch (bundle_head self)"

text \<open>The addition to an entry overflows like every \<open>i64\<close> addition.\<close>

fun ledger_diff_loop :: "tx_bundle_list \<Rightarrow> (address \<rightharpoonup> int) \<Rightarrow> (address \<rightharpoonup> int) option" where
  "ledger_diff_loop [] diff = Some diff"
| "ledger_diff_loop (transaction # transactions) diff =
     (if tx_value transaction \<noteq> 0
      then do {
        v \<leftarrow> checked_signed 64
          ((case diff (tx_address transaction) of Some d \<Rightarrow> d | None \<Rightarrow> 0) + tx_value transaction);
        ledger_diff_loop transactions (diff(tx_address transaction \<mapsto> v)) }
      else ledger_diff_loop transactions diff)"

definition ledger_diff :: "tx_bundle_list \<Rightarrow> (address \<rightharpoonup> int) option" where
  "ledger_diff self = ledger_diff_loop self Map.empty"

section \<open>Incoming bundles (incoming_bundle_builder.rs)\<close>

datatype incoming_bundle_builder_error =
    IncomingEmpty
  | InvalidIndex u64
  | InvalidLastIndex u64
  | IncomingInvalidValue int
  | InvalidSignature
  | InvalidBundleHash
  | InvalidBranchInconsistency

definition incoming_push :: "transaction list \<Rightarrow> transaction \<Rightarrow> transaction list" where
  "incoming_push self transaction = self @ [transaction]"

text \<open>Nothing is absorbed: the loop over the transactions is empty.\<close>

definition calculate_hash :: "('s, 'e) sponge \<Rightarrow> transaction list \<Rightarrow> btrit list option" where
  "calculate_hash S self = do {
     (_, r) \<leftarrow> sp_squeeze S (sp_default S);
     (case r of Inl _ \<Rightarrow> None | Inr trits \<Rightarrow> Some trits) }"

text \<open>The public key type is its \<open>verify\<close>; both values are made from empty buffers.\<close>

definition validate_signatures ::
  "(btrit list \<Rightarrow> i8 list \<Rightarrow> btrit list \<Rightarrow> ('f + bool) option) \<Rightarrow> (incoming_bundle_builder_error + unit) option" where
  "validate_signatures verify = do {
     r \<leftarrow> verify [] [] [];
     Some (case r of Inr valid \<Rightarrow> if valid then Inr () else Inl InvalidSignature | Inl _ \<Rightarrow> Inl InvalidSignature) }"

fun validate_loop ::
  "nat \<Rightarrow> u64 \<Rightarrow> i8 list \<Rightarrow> hash \<Rightarrow> int \<Rightarrow> transaction list \<Rightarrow> (incoming_bundle_builder_error + int) option" where
  "validate_loop index last_index calculated first_branch acc [] = Some (Inr acc)"
| "validate_loop index last_index calculated first_branch acc (transaction # transactions) =
     (if word_of_nat index \<noteq> tx_index transaction then Some (Inl (InvalidIndex (tx_index transaction)))
      else if last_index \<noteq> tx_last_index transaction then Some (Inl (InvalidLastIndex (tx_last_index transaction)))
      else do {
        acc \<leftarrow> checked_signed 64 (acc + tx_value transaction);
        a \<leftarrow> i64_abs acc;
        if a > IOTA_SUPPLY then Some (Inl (IncomingInvalidValue acc))
        else if index = 0 \<and> calculated \<noteq> tx_bundle transaction then Some (Inl InvalidBundleHash)
        else if index > 0 \<and> \<not> hash_eq (tx_branch transaction) first_branch then Some (Inl InvalidBranchInconsistency)
        else validate_loop (index + 1) last_index calculated first_branch acc transactions })"

definition incoming_validate ::
  "('s, 'e) sponge \<Rightarrow> (btrit list \<Rightarrow> i8 list \<Rightarrow> btrit list \<Rightarrow> ('f + bool) option) \<Rightarrow> transaction list
    \<Rightarrow> (incoming_bundle_builder_error + transaction list) option" where
  "incoming_validate S verify self =
     (case self of
        [] \<Rightarrow> Some (Inl IncomingEmpty)
      | first # _ \<Rightarrow> do {
          trits \<leftarrow> calculate_hash S self;
          res_try (validate_loop 0 (word_of_nat (length self - 1)) (message_of trits) (tx_branch first) 0 self) (\<lambda>acc.
            if acc \<noteq> 0 then Some (Inl (IncomingInvalidValue acc))
            else res_try (validate_signatures verify) (\<lambda>_. Some (Inr self))) })"

definition incoming_build :: "transaction list \<Rightarrow> tx_bundle_list" where
  "incoming_build self = self"

section \<open>The bundle hash\<close>

lemma copy_into_length: "t1b1_copy_into xs a b ts = Some ys \<Longrightarrow> length ys = length xs"
  by (auto simp: t1b1_copy_into_eq split: if_splits)

lemma tb_essence_length: "tb_essence b = Some e \<Longrightarrow> length e = 486"
  by (auto simp: tb_essence_def t1b1_zeros field_lengths tx_len_values Let_def split: Option.bind_splits dest!: copy_into_length)

lemma has_m_bug_law:
  assumes "length h = 243"
  shows "\<exists>b. has_m_bug h = Some b"
  using normalize_hash_law [OF assms] by (auto simp: has_m_bug_def t1b1_chunks_eq)

text \<open>The hash of the essences as a new sponge computes it.\<close>

definition essence_hash :: "('s, 'e) sponge \<Rightarrow> transaction_builder list \<Rightarrow> btrit list option" where
  "essence_hash S builders = do {
     sponge \<leftarrow> absorb_essences S (sp_default S) builders;
     (_, r) \<leftarrow> sp_squeeze S sponge;
     (case r of Inl _ \<Rightarrow> None | Inr trits \<Rightarrow> Some trits) }"

text \<open>After \<open>k\<close> increments of the tag, and not earlier, the normalised hash is free of the tryte M.\<close>

definition m_free_at :: "('s, 'e) sponge \<Rightarrow> transaction_builder list \<Rightarrow> tag \<Rightarrow> nat \<Rightarrow> btrit list \<Rightarrow> bool" where
  "m_free_at S builders tag k h \<longleftrightarrow>
     essence_hash S (set_first_tag builders ((tag_increment ^^ k) tag)) = Some h \<and> has_m_bug h = Some False
     \<and> (\<forall>j < k. \<exists>h'. essence_hash S (set_first_tag builders ((tag_increment ^^ j) tag)) = Some h' \<and> has_m_bug h' = Some True)"

lemma set_first_tag_simps [simp]:
  "set_first_tag (set_first_tag bs t) u = set_first_tag bs u"
  "bs \<noteq> [] \<Longrightarrow> tb_obsolete_tag (hd bs) = Some t \<Longrightarrow> set_first_tag bs t = bs"
  "set_first_tag bs t = [] \<longleftrightarrow> bs = []" "length (set_first_tag bs t) = length bs"
  "bs \<noteq> [] \<Longrightarrow> tb_obsolete_tag (hd (set_first_tag bs t)) = Some t"
  by (auto simp: set_first_tag_def split: list.splits)

context sponge_law
begin

lemma absorb_essences_law:
  assumes "inv s" "view s = absorbed xs" "243 dvd length xs"
  shows "(case those (map tb_essence bs) of
      None \<Rightarrow> absorb_essences S s bs = None
    | Some es \<Rightarrow> (\<exists>s'. absorb_essences S s bs = Some s' \<and> inv s' \<and> view s' = absorbed (xs @ concat es) \<and> 243 dvd length (concat es)))"
  using assms
proof (induction bs arbitrary: s xs)
  case (Cons b bs)
  show ?case
  proof (cases "tb_essence b")
    case (Some e)
    have e: "243 dvd length e"
      by (simp add: tb_essence_length [OF Some])
    obtain s' where s': "sp_absorb S s e = Some (s', Inr ())" "inv s'" "view s' = absorbed (xs @ e)"
      by (rule absorb_more [OF Cons.prems e])
    show ?thesis
      using Cons.IH [OF s'(2,3)] Cons.prems(3) e by (auto simp: Some s'(1) split: option.splits)
  qed simp
qed simp

lemma squeeze_absorbed:
  assumes "inv s" "view s = absorbed xs"
  shows "\<exists>s'. sp_squeeze S s = Some (s', Inr (hash 1 xs)) \<and> inv s'"
proof -
  obtain s' where "sp_squeeze_into S s (replicate 243 Zero) = Some (s', hash 1 xs, Inr ())" "inv s'"
    by (rule squeeze_hash [OF assms, of "replicate 243 Zero" 1]) simp
  then show ?thesis
    by (simp add: sp_squeeze_def out_len t1b1_zeros)
qed

lemma fresh_absorbed: "fresh s \<Longrightarrow> inv s \<and> view s = absorbed []"
  by (simp add: fresh_def absorbed_def)

text \<open>One iteration of the loop computes the hash a new sponge would compute.\<close>

lemma hash_iteration:
  assumes "fresh s"
  shows "(case essence_hash S bs of
      None \<Rightarrow> absorb_essences S s bs = None
    | Some h \<Rightarrow> length h = 243 \<and> (\<exists>s' s''. absorb_essences S s bs = Some s' \<and> sp_squeeze S s' = Some (s'', Inr h) \<and> inv s''))"
proof -
  note d = absorb_essences_law [of "sp_default S" "[]" bs, OF fresh_absorbed [OF fresh_default, THEN conjunct1]
      fresh_absorbed [OF fresh_default, THEN conjunct2]]
  note f = absorb_essences_law [of s "[]" bs, OF fresh_absorbed [OF assms, THEN conjunct1] fresh_absorbed [OF assms, THEN conjunct2]]
  show ?thesis
  proof (cases "those (map tb_essence bs)")
    case None
    then show ?thesis
      using d f by (simp add: essence_hash_def)
  next
    case (Some es)
    then obtain s1 s2 where s: "absorb_essences S (sp_default S) bs = Some s1" "inv s1" "view s1 = absorbed (concat es)"
      "absorb_essences S s bs = Some s2" "inv s2" "view s2 = absorbed (concat es)" "243 dvd length (concat es)"
      using d f by auto
    obtain s3 where "sp_squeeze S s1 = Some (s3, Inr (hash 1 (concat es)))"
      using squeeze_absorbed [OF s(2,3)] by blast
    then have h: "essence_hash S bs = Some (hash 1 (concat es))"
      using s(1) by (simp add: essence_hash_def)
    show ?thesis
      unfolding h using squeeze_absorbed [OF s(5,6)] s(4,7) length_hash by auto
  qed
qed

lemma bundle_hash_loop_step:
  assumes "inv s"
  shows "(case essence_hash S bs of
      None \<Rightarrow> bundle_hash_loop S s bs tag = None
    | Some h \<Rightarrow> (case has_m_bug h of
        None \<Rightarrow> False
      | Some False \<Rightarrow> bundle_hash_loop S s bs tag = Some (bs, message_of h)
      | Some True \<Rightarrow> (\<exists>s'. inv s' \<and> bundle_hash_loop S s bs tag =
          bundle_hash_loop S s' (set_first_tag bs (tag_increment tag)) (tag_increment tag))))"
proof -
  note i = hash_iteration [OF fresh_reset [OF assms], of bs]
  note u = bundle_hash_loop.simps [of S s bs tag]
  show ?thesis
  proof (cases "essence_hash S bs")
    case None
    then show ?thesis
      using i u by (simp add: Let_def)
  next
    case (Some h)
    then have "length h = 243"
      using i by simp
    then obtain b where "has_m_bug h = Some b"
      using has_m_bug_law by blast
    then show ?thesis
      using i Some u \<open>length h = 243\<close> by (cases b) (auto simp: Let_def hash_from_inner_unchecked_def)
  qed
qed

lemma bundle_hash_loop_returns:
  assumes "inv s" "bs \<noteq> []" "tb_obsolete_tag (hd bs) = Some tag" "m_free_at S bs tag k h"
  shows "bundle_hash_loop S s bs tag = Some (set_first_tag bs ((tag_increment ^^ k) tag), message_of h)"
  using assms
proof (induction k arbitrary: s bs tag)
  case 0
  then show ?case
    using bundle_hash_loop_step [OF 0(1), of bs tag] by (simp add: m_free_at_def)
next
  case (Suc k)
  let ?bs = "set_first_tag bs (tag_increment tag)"
  have z: "\<exists>h'. essence_hash S bs = Some h' \<and> has_m_bug h' = Some True"
    using Suc.prems(2-4) unfolding m_free_at_def by (auto dest: spec [of _ 0])
  then obtain s' where s': "inv s'" "bundle_hash_loop S s bs tag = bundle_hash_loop S s' ?bs (tag_increment tag)"
    using bundle_hash_loop_step [OF Suc.prems(1), of bs tag] by auto
  have "m_free_at S ?bs (tag_increment tag) k h"
    using Suc.prems(4) unfolding m_free_at_def by (auto simp: funpow_swap1 dest: spec [of _ "Suc _"])
  then show ?case
    using Suc.IH [OF s'(1), of ?bs "tag_increment tag"] Suc.prems(2) by (simp add: s'(2) funpow_swap1)
qed

lemma m_free_at_Suc:
  assumes "bs \<noteq> []" "tb_obsolete_tag (hd bs) = Some tag" "essence_hash S bs = Some h'" "has_m_bug h' = Some True"
    and "m_free_at S (set_first_tag bs (tag_increment tag)) (tag_increment tag) k h"
  shows "m_free_at S bs tag (Suc k) h"
  unfolding m_free_at_def
proof (intro conjI allI impI)
  fix j
  assume "j < Suc k"
  then show "\<exists>h'. essence_hash S (set_first_tag bs ((tag_increment ^^ j) tag)) = Some h' \<and> has_m_bug h' = Some True"
    using assms by (cases j) (auto simp: m_free_at_def funpow_swap1)
qed (use assms(5) in \<open>simp_all add: m_free_at_def funpow_swap1\<close>)

lemma bundle_hash_loop_m_free:
  assumes "bundle_hash_loop S s bs tag = Some r" "inv s" "bs \<noteq> []" "tb_obsolete_tag (hd bs) = Some tag"
  shows "\<exists>k h. m_free_at S bs tag k h \<and> r = (set_first_tag bs ((tag_increment ^^ k) tag), message_of h)"
proof -
  have "\<And>S' s bs tag r. bundle_hash_loop S' s bs tag = Some r \<Longrightarrow> S' = S \<longrightarrow> inv s \<longrightarrow> bs \<noteq> [] \<longrightarrow> tb_obsolete_tag (hd bs) = Some tag \<longrightarrow>
    (\<exists>k h. m_free_at S bs tag k h \<and> r = (set_first_tag bs ((tag_increment ^^ k) tag), message_of h))"
  proof (erule bundle_hash_loop.raw_induct [rotated], intro impI)
    fix f S' s bs tag r
    assume IH: "\<And>S' s bs tag r. f S' s bs tag = Some r \<Longrightarrow> S' = S \<longrightarrow> inv s \<longrightarrow> bs \<noteq> [] \<longrightarrow> tb_obsolete_tag (hd bs) = Some tag \<longrightarrow>
        (\<exists>k h. m_free_at S bs tag k h \<and> r = (set_first_tag bs ((tag_increment ^^ k) tag), message_of h))"
      and body: "(let sponge = sp_reset S' s in absorb_essences S' sponge bs \<bind> (\<lambda>sponge. sp_squeeze S' sponge \<bind>
          (\<lambda>(sponge, r). case r of Inl _ \<Rightarrow> None | Inr trits \<Rightarrow> has_m_bug trits \<bind>
            (\<lambda>bug. if \<not> bug then hash_from_inner_unchecked trits \<bind> (\<lambda>h. Some (bs, h))
              else f S' sponge (set_first_tag bs (tag_increment tag)) (tag_increment tag))))) = Some r"
      and a: "S' = S" "inv s" "bs \<noteq> []" "tb_obsolete_tag (hd bs) = Some tag"
    note i = hash_iteration [OF fresh_reset [OF a(2)], of bs]
    obtain h s' s'' where h: "essence_hash S bs = Some h" "length h = 243" "absorb_essences S (sp_reset S s) bs = Some s'"
      "sp_squeeze S s' = Some (s'', Inr h)" "inv s''"
      using body i a(1) by (cases "essence_hash S bs") auto
    obtain bug where bug: "has_m_bug h = Some bug"
      using has_m_bug_law [OF h(2)] by blast
    show "\<exists>k h. m_free_at S bs tag k h \<and> r = (set_first_tag bs ((tag_increment ^^ k) tag), message_of h)"
    proof (cases bug)
      case True
      then have "f S s'' (set_first_tag bs (tag_increment tag)) (tag_increment tag) = Some r"
        using body h bug a(1) by simp
      then obtain k t where "m_free_at S (set_first_tag bs (tag_increment tag)) (tag_increment tag) k t"
        "r = (set_first_tag bs ((tag_increment ^^ k) (tag_increment tag)), message_of t)"
        using IH h(5) a(3) by fastforce
      then show ?thesis
        using m_free_at_Suc [OF a(3,4) h(1)] bug True by (intro exI [of _ "Suc k"] exI [of _ t]) (simp add: funpow_swap1)
    next
      case False
      then have "r = (bs, message_of h)"
        using body h bug a(1) by (simp add: hash_from_inner_unchecked_def)
      moreover have "m_free_at S bs tag 0 h"
        using h(1) bug False a(3,4) by (simp add: m_free_at_def)
      ultimately show ?thesis
        using a(3,4) by (intro exI [of _ 0] exI [of _ h]) simp
    qed
  qed
  then show ?thesis
    using assms by blast
qed

end

section \<open>Sealing\<close>

text \<open>What \<open>seal\<close> asks of the builders: the fields are there and no partial sum exceeds the supply.\<close>

fun sums_within :: "int \<Rightarrow> transaction_builder list \<Rightarrow> bool" where
  "sums_within acc [] = True"
| "sums_within acc (b # bs) =
     (case tb_value b of None \<Rightarrow> False | Some v \<Rightarrow> \<bar>acc + v\<bar> \<le> IOTA_SUPPLY \<and> sums_within (acc + v) bs)"

definition value_of :: "transaction_builder \<Rightarrow> int" where
  "value_of b = (case tb_value b of None \<Rightarrow> 0 | Some v \<Rightarrow> v)"

definition sealable :: "transaction_builder list \<Rightarrow> bool" where
  "sealable bs \<longleftrightarrow> list_all (\<lambda>b. tb_payload b \<noteq> None \<and> tb_address b \<noteq> None \<and> tb_tag b \<noteq> None) bs \<and> sums_within 0 bs
     \<and> sum_list (map value_of bs) = 0"

text \<open>The builders with their indices.\<close>

fun indexed :: "nat \<Rightarrow> nat \<Rightarrow> transaction_builder list \<Rightarrow> transaction_builder list" where
  "indexed i n [] = []"
| "indexed i n (b # bs) = b\<lparr>tb_index := Some (word_of_nat i), tb_last_index := Some (word_of_nat n)\<rparr> # indexed (Suc i) n bs"

lemma indexed_simps [simp]:
  "indexed i n bs = [] \<longleftrightarrow> bs = []" "length (indexed i n bs) = length bs"
  "bs \<noteq> [] \<Longrightarrow> tb_obsolete_tag (hd (indexed i n bs)) = tb_obsolete_tag (hd bs)"
  by (induction i n bs rule: indexed.induct) auto

lemma seal_loop_law:
  "seal_loop i n acc bs = Some (Inr r) \<longleftrightarrow>
    list_all (\<lambda>b. tb_payload b \<noteq> None \<and> tb_address b \<noteq> None \<and> tb_tag b \<noteq> None) bs \<and> sums_within acc bs
    \<and> r = (indexed i n bs, acc + sum_list (map value_of bs))"
proof (induction i n acc bs arbitrary: r rule: seal_loop.induct)
  case (2 i n acc b bs)
  show ?case
  proof (cases "tb_payload b = None \<or> tb_address b = None \<or> tb_value b = None \<or> tb_tag b = None")
    case True
    then show ?thesis
      by (auto split: option.splits)
  next
    case False
    then obtain v pl ad tg where v: "tb_value b = Some v" "tb_payload b = Some pl" "tb_address b = Some ad" "tb_tag b = Some tg"
      by auto
    show ?thesis
    proof (cases "\<bar>acc + v\<bar> \<le> IOTA_SUPPLY")
      case True
      then have c: "checked_signed 64 (acc + v) = Some (acc + v)" "i64_abs (acc + v) = Some \<bar>acc + v\<bar>"
        using supply_bounds [OF True] by (simp_all add: checked_signed_def i64_abs_def i64_MIN_def i64_MAX_def abs_less_iff)
      have IH: "seal_loop (Suc i) n (acc + v) bs = Some (Inr r) \<longleftrightarrow>
          list_all (\<lambda>b. tb_payload b \<noteq> None \<and> tb_address b \<noteq> None \<and> tb_tag b \<noteq> None) bs \<and> sums_within (acc + v) bs
          \<and> r = (indexed (Suc i) n bs, acc + v + sum_list (map value_of bs))" for r
        using 2 [of _ v "acc + v" "\<bar>acc + v\<bar>" r] v True c by simp
      have "seal_loop i n acc (b # bs) = res_try (seal_loop (Suc i) n (acc + v) bs) (\<lambda>(bs, acc).
          Some (Inr (b\<lparr>tb_index := Some (word_of_nat i), tb_last_index := Some (word_of_nat n)\<rparr> # bs, acc)))"
        using v True c by simp
      then have "seal_loop i n acc (b # bs) = Some (Inr r) \<longleftrightarrow> (\<exists>x. seal_loop (Suc i) n (acc + v) bs = Some (Inr x) \<and>
          r = (b\<lparr>tb_index := Some (word_of_nat i), tb_last_index := Some (word_of_nat n)\<rparr> # fst x, snd x))"
        by (auto simp: res_try_Inr_iff)
      moreover have "value_of b = v"
        by (simp add: value_of_def v)
      ultimately show ?thesis
        unfolding IH using v True by (auto simp: algebra_simps)
    next
      case overflow: False
      have "seal_loop i n acc (b # bs) \<noteq> Some (Inr r)"
        using v overflow by (auto simp: i64_abs_def checked_signed_def split: Option.bind_splits if_splits)
      then show ?thesis
        using v overflow by simp
    qed
  qed
qed auto

text \<open>
  C7. Sealing an outgoing bundle. It succeeds exactly when the bundle is not empty, every builder has the
  fields that are needed, no partial sum exceeds the supply, the values sum to zero, the first builder has
  an obsolete tag, and some number of increments of that tag gives a bundle hash without the tryte M; the
  sealed bundle is then the indexed one with the least such increment and the bundle hash in every
  transaction. An empty bundle panics instead of returning the error for it.
\<close>

theorem seal_correct:
  assumes "keccak_fills K"
  shows "(seal (Kerl K) self = Some (Inr sealed) \<longleftrightarrow> self \<noteq> [] \<and> sealable self
      \<and> (\<exists>tag k h. tb_obsolete_tag (hd self) = Some tag \<and> m_free_at (Kerl K) (indexed 0 (length self - 1) self) tag k h
        \<and> sealed = map (\<lambda>b. b\<lparr>tb_bundle := Some (message_of h)\<rparr>)
            (set_first_tag (indexed 0 (length self - 1) self) ((tag_increment ^^ k) tag))))
    \<and> seal (Kerl K) [] = None"
proof (intro conjI)
  show "seal (Kerl K) [] = None"
    by (simp add: seal_def)
  let ?bs = "indexed 0 (length self - 1) self"
  note law = kerl_sponge_law [OF assms]
  note ret = sponge_law.bundle_hash_loop_returns [OF law sponge_law.default_inv [OF law]]
  note m = sponge_law.bundle_hash_loop_m_free [OF law _ sponge_law.default_inv [OF law]]
  have loop: "bundle_hash_loop (Kerl K) (sp_default (Kerl K)) ?bs tag = Some r \<longleftrightarrow>
      (\<exists>k h. m_free_at (Kerl K) ?bs tag k h \<and> r = (set_first_tag ?bs ((tag_increment ^^ k) tag), message_of h))"
    if "self \<noteq> []" "tb_obsolete_tag (hd self) = Some tag" for tag r
    using ret [of ?bs tag] m [of ?bs tag r] that by auto
  have calc: "calculate_bundle_hash (Kerl K) ?bs = Some (Inr sealed) \<longleftrightarrow>
      (\<exists>tag k h. tb_obsolete_tag (hd self) = Some tag \<and> m_free_at (Kerl K) ?bs tag k h
        \<and> sealed = map (\<lambda>b. b\<lparr>tb_bundle := Some (message_of h)\<rparr>) (set_first_tag ?bs ((tag_increment ^^ k) tag)))"
    if "self \<noteq> []"
  proof (cases "tb_obsolete_tag (hd self)")
    case None
    then show ?thesis
      using that by (cases self) (auto simp: calculate_bundle_hash_def)
  next
    case (Some tag)
    have "calculate_bundle_hash (Kerl K) ?bs = bundle_hash_loop (Kerl K) (sp_default (Kerl K)) ?bs tag \<bind>
        (\<lambda>(builders, h). Some (Inr (map (\<lambda>b. b\<lparr>tb_bundle := Some h\<rparr>) builders)))"
      using that Some by (cases self) (simp_all add: calculate_bundle_hash_def)
    then have "calculate_bundle_hash (Kerl K) ?bs = Some (Inr sealed) \<longleftrightarrow> (\<exists>builders h.
        bundle_hash_loop (Kerl K) (sp_default (Kerl K)) ?bs tag = Some (builders, h)
        \<and> sealed = map (\<lambda>b. b\<lparr>tb_bundle := Some h\<rparr>) builders)"
      by (auto split: Option.bind_splits)
    also have "\<dots> \<longleftrightarrow> (\<exists>k h. m_free_at (Kerl K) ?bs tag k h
        \<and> sealed = map (\<lambda>b. b\<lparr>tb_bundle := Some (message_of h)\<rparr>) (set_first_tag ?bs ((tag_increment ^^ k) tag)))"
      unfolding loop [OF that Some] by blast
    finally show ?thesis
      using Some by simp
  qed
  show "seal (Kerl K) self = Some (Inr sealed) \<longleftrightarrow> self \<noteq> [] \<and> sealable self
      \<and> (\<exists>tag k h. tb_obsolete_tag (hd self) = Some tag \<and> m_free_at (Kerl K) ?bs tag k h
        \<and> sealed = map (\<lambda>b. b\<lparr>tb_bundle := Some (message_of h)\<rparr>) (set_first_tag ?bs ((tag_increment ^^ k) tag)))"
  proof (cases "self = []")
    case False
    have "seal (Kerl K) self = Some (Inr sealed) \<longleftrightarrow> sealable self \<and> calculate_bundle_hash (Kerl K) ?bs = Some (Inr sealed)"
      using False unfolding seal_def sealable_def by (auto simp: res_try_Inr_iff seal_loop_law split: if_splits)
    then show ?thesis
      using calc [OF False] False by simp
  qed (simp add: seal_def)
qed

theorem seal_correct_witness:
  "keccak_fills example_keccak \<and> seal (Kerl example_keccak) [] = None
   \<and> seal (Kerl example_keccak) [tb_with_value (tb_with_address tb_new []) 5] \<noteq> Some (Inr [tb_new])"
  using seal_correct [OF keccak_fills_example, of "[tb_with_value (tb_with_address tb_new []) 5]" "[tb_new]"]
    keccak_fills_example by (simp add: sealable_def tb_with_defs tb_new_def)

section \<open>Signing\<close>

text \<open>The trits the fragments written from position \<open>i\<close> on make up.\<close>

definition payload_trits :: "transaction_builder list \<Rightarrow> nat \<Rightarrow> nat \<Rightarrow> btrit list" where
  "payload_trits builders i n = concat (map (\<lambda>b. case tb_payload b of Some p \<Rightarrow> p | None \<Rightarrow> []) (take n (drop i builders)))"

text \<open>A signature of the message with the key of an input verifies against the address of that key.\<close>

definition signature_valid ::
  "('s, 'e) sponge \<Rightarrow> iota_seed \<Rightarrow> btrit list \<Rightarrow> u64 \<times> address \<times> wots_security_level \<Rightarrow> btrit list \<Rightarrow> bool" where
  "signature_valid S seed msg input sig = (case input of (index, _, security) \<Rightarrow>
     length sig = security_level_as_usize security * 6561
     \<and> (\<exists>key pk. wots_generate S security seed index = Some (Inr key) \<and> wots_generate_public_key S key = Some (Inr pk)
        \<and> wots_verify S pk (message_of msg) sig = Some (Inr True)))"

definition fragment_count :: "(u64 \<times> address \<times> wots_security_level) list \<Rightarrow> nat" where
  "fragment_count inputs = sum_list (map (\<lambda>(_, _, security). security_level_as_usize security) inputs)"

lemma write_payloads_law:
  "i + length ps \<le> length bs \<Longrightarrow>
   write_payloads bs i ps = Some (take i bs @ map2 (\<lambda>b p. b\<lparr>tb_payload := Some p\<rparr>) (take (length ps) (drop i bs)) ps
     @ drop (i + length ps) bs)"
proof (induction bs i ps rule: write_payloads.induct)
  case (2 bs i p ps)
  let ?b = "(bs ! i)\<lparr>tb_payload := Some p\<rparr>"
  have i: "i < length bs"
    using "2.prems" by simp
  then have "take (Suc i) (bs[i := ?b]) = take i bs @ [?b]" "drop i bs = bs ! i # drop (Suc i) bs"
    "drop (Suc i) (bs[i := ?b]) = drop (Suc i) bs" "drop (Suc (i + length ps)) (bs[i := ?b]) = drop (Suc (i + length ps)) bs"
    by (simp_all add: take_Suc_conv_app_nth Cons_nth_drop_Suc)
  then show ?case
    using 2 i by simp
qed simp

lemma write_payloads_only:
  "write_payloads bs i ps = Some bs' \<Longrightarrow> map (\<lambda>b. b\<lparr>tb_payload := None\<rparr>) bs' = map (\<lambda>b. b\<lparr>tb_payload := None\<rparr>) bs"
proof (induction bs i ps rule: write_payloads.induct)
  case (2 bs i p ps)
  then have "i < length bs"
    "map (\<lambda>b. b\<lparr>tb_payload := None\<rparr>) bs' = map (\<lambda>b. b\<lparr>tb_payload := None\<rparr>) (bs[i := (bs ! i)\<lparr>tb_payload := Some p\<rparr>])"
    by (simp_all split: if_splits)
  then show ?case
    by (simp add: list_eq_iff_nth_eq nth_list_update)
qed simp

lemma write_payloads_trits:
  assumes "i + length ps \<le> length bs" "write_payloads bs i ps = Some bs'"
  shows "payload_trits bs' i (length ps) = concat ps" "length bs' = length bs" "take i bs' = take i bs"
    "drop (i + length ps) bs' = drop (i + length ps) bs"
proof -
  let ?m = "map2 (\<lambda>b p. b\<lparr>tb_payload := Some p\<rparr>) (take (length ps) (drop i bs)) ps"
  have e: "bs' = take i bs @ ?m @ drop (i + length ps) bs" and l: "length ?m = length ps"
    using write_payloads_law [OF assms(1)] assms by simp_all
  have "map (\<lambda>b. case tb_payload b of Some p \<Rightarrow> p | None \<Rightarrow> []) ?m = ps"
    by (rule nth_equalityI) (use assms(1) in simp_all)
  then show "payload_trits bs' i (length ps) = concat ps"
    using assms(1) l by (simp add: payload_trits_def e)
  show "length bs' = length bs" "take i bs' = take i bs" "drop (i + length ps) bs' = drop (i + length ps) bs"
    using assms(1) l by (simp_all add: e)
qed

lemma signature_fragments_law:
  assumes "keccak_fills K" "length seed = 243" "length msg = 243"
  shows "\<exists>fragments sigs. signature_fragments (Kerl K) seed msg inputs = Some (Inr fragments)
    \<and> length fragments = fragment_count inputs \<and> concat fragments = concat sigs
    \<and> list_all2 (signature_valid (Kerl K) seed msg) inputs sigs"
proof (induction inputs)
  case (Cons input inputs)
  obtain index addr security where input: "input = (index, addr, security)"
    by (cases input)
  obtain fragments sigs where IH: "signature_fragments (Kerl K) seed msg inputs = Some (Inr fragments)"
    "length fragments = fragment_count inputs" "concat fragments = concat sigs"
    "list_all2 (signature_valid (Kerl K) seed msg) inputs sigs"
    using Cons.IH by blast
  obtain key sig pk where k: "wots_generate (Kerl K) security seed index = Some (Inr key)"
    "length key = security_level_as_usize security * 6561" "wots_generate_public_key (Kerl K) key = Some (Inr pk)"
    "wots_sign (Kerl K) key (message_of msg) = Some (Inr sig)" "length sig = length key"
    "wots_verify (Kerl K) pk (message_of msg) sig = Some (Inr True)"
    using sponge_law.wots_roundtrip_law [OF kerl_sponge_law [OF assms(1)] assms(2,3)] unfolding wots_roundtrip_def by blast
  have "signature_fragments (Kerl K) seed msg (input # inputs) = Some (Inr (chunks_of 6561 sig @ fragments))"
    using k IH(1) by (simp add: input wots_build_def wots_builder_security_level_def t1b1_chunks_eq PAYLOAD_TRIT_LEN_def)
  moreover have "length (chunks_of 6561 sig) = security_level_as_usize security"
    using length_chunks_of [of 6561 sig] k(2,5) by simp
  moreover have "signature_valid (Kerl K) seed msg input sig"
    using k by (auto simp: signature_valid_def input)
  ultimately show ?case
    using IH(2-4) by (intro exI [of _ "chunks_of 6561 sig @ fragments"] exI [of _ "sig # sigs"])
      (simp add: fragment_count_def input)
qed (auto simp: fragment_count_def)

text \<open>
  C13. Signing an outgoing bundle with Kerl and a seed of 243 trits. The first builder has the bundle hash, and the index of the first
  builder with a negative value (0 if there is none) leaves room for the fragments of all inputs. Then
  signing succeeds. No builder is changed in anything but its payload, the builders outside that range are
  not changed at all, and what the ones in it hold is one signature of the normalised bundle hash per input, in
  order, each of which verifies against the public key of that input.
\<close>

theorem sign_correct:
  assumes "keccak_fills K" "length seed = 243" "bs \<noteq> []" "tb_bundle (hd bs) = Some h" "hash_wf h"
    and "first_input bs = Some i" "unat i + fragment_count inputs \<le> length bs"
  shows "\<exists>bs' msg sigs. sign (Kerl K) bs seed inputs = Some (Inr bs') \<and> normalize_hash (hash_trits h) = Some msg
    \<and> list_all2 (signature_valid (Kerl K) seed msg) inputs sigs
    \<and> payload_trits bs' (unat i) (fragment_count inputs) = concat sigs
    \<and> map (\<lambda>b. b\<lparr>tb_payload := None\<rparr>) bs' = map (\<lambda>b. b\<lparr>tb_payload := None\<rparr>) bs
    \<and> take (unat i) bs' = take (unat i) bs
    \<and> drop (unat i + fragment_count inputs) bs' = drop (unat i + fragment_count inputs) bs"
proof -
  obtain msg where msg: "normalize_hash (hash_trits h) = Some msg" "length msg = 243"
    using normalize_hash_law [OF hash_as_trits_wf(2) [OF assms(5)]] by blast
  obtain fragments sigs where f: "signature_fragments (Kerl K) seed msg inputs = Some (Inr fragments)"
    "length fragments = fragment_count inputs" "concat fragments = concat sigs"
    "list_all2 (signature_valid (Kerl K) seed msg) inputs sigs"
    using signature_fragments_law [OF assms(1,2) msg(2)] by blast
  have r: "unat i + length fragments \<le> length bs"
    using assms(7) f(2) by simp
  obtain bs' where bs': "write_payloads bs (unat i) fragments = Some bs'"
    using write_payloads_law [OF r] by blast
  have "sign (Kerl K) bs seed inputs = Some (Inr bs')"
    using assms(3,4,6) hash_as_trits_wf(1) [OF assms(5)] msg(1) f(1) bs' by (cases bs) (simp_all add: sign_def)
  then show ?thesis
    using msg(1) f write_payloads_trits [OF r bs'] write_payloads_only [OF bs'] by auto
qed

definition signing_builder :: transaction_builder where
  "signing_builder = tb_new\<lparr>tb_value := Some (- 1), tb_index := Some 0, tb_bundle := Some (replicate 243 0)\<rparr>"

theorem sign_correct_witness:
  "\<exists>bs' msg sigs. sign (Kerl example_keccak) [signing_builder, tb_new] (replicate 243 Zero) [(7, [], Medium)] = Some (Inr bs')
    \<and> list_all2 (signature_valid (Kerl example_keccak) (replicate 243 Zero) msg) [(7, [], Medium)] sigs
    \<and> payload_trits bs' 0 2 = concat sigs \<and> map tb_value bs' = [Some (- 1), None]"
proof -
  have h: "hash_wf (replicate 243 0)"
    by (simp add: hash_wf_def list_all_iff)
  obtain bs' msg sigs where r: "sign (Kerl example_keccak) [signing_builder, tb_new] (replicate 243 Zero) [(7, [], Medium)] = Some (Inr bs')"
      "list_all2 (signature_valid (Kerl example_keccak) (replicate 243 Zero) msg) [(7, [], Medium)] sigs"
      "payload_trits bs' 0 2 = concat sigs"
      and k: "map (\<lambda>b. b\<lparr>tb_payload := None\<rparr>) bs' = map (\<lambda>b. b\<lparr>tb_payload := None\<rparr>) [signing_builder, tb_new]"
    using sign_correct [OF keccak_fills_example, of "replicate 243 Zero" "[signing_builder, tb_new]" "replicate 243 0" 0
        "[(7, [], Medium)]"] h
    by (simp add: signing_builder_def fragment_count_def) metis
  have "map tb_value bs' = map tb_value (map (\<lambda>b. b\<lparr>tb_payload := None\<rparr>) bs')"
    by simp
  also have "\<dots> = [Some (- 1), None]"
    unfolding k by (simp add: signing_builder_def tb_new_def)
  finally show ?thesis
    using r by metis
qed

section \<open>Bundles\<close>

definition address_sum :: "transaction list \<Rightarrow> address \<Rightarrow> int" where
  "address_sum txs a = sum_list (map tx_value (filter (\<lambda>tx. tx_address tx = a) txs))"

definition touched :: "transaction list \<Rightarrow> address \<Rightarrow> bool" where
  "touched txs a \<longleftrightarrow> list_ex (\<lambda>tx. tx_address tx = a \<and> tx_value tx \<noteq> 0) txs"

abbreviation entry_or_zero :: "(address \<rightharpoonup> int) \<Rightarrow> address \<Rightarrow> int" where
  "entry_or_zero d a \<equiv> case d a of Some v \<Rightarrow> v | None \<Rightarrow> 0"

lemma ledger_diff_loop_law:
  assumes "list_all (\<lambda>tx. \<bar>tx_value tx\<bar> \<le> IOTA_SUPPLY) txs" "\<And>a. \<bar>entry_or_zero d a\<bar> \<le> int m * IOTA_SUPPLY"
    and "m + length txs \<le> 3318"
  shows "\<exists>d'. ledger_diff_loop txs d = Some d' \<and>
    (\<forall>a. d' a = (if touched txs a \<or> d a \<noteq> None then Some (entry_or_zero d a + address_sum txs a) else None))"
  using assms
proof (induction txs arbitrary: d m)
  case Nil
  then show ?case
    by (auto simp: touched_def address_sum_def split: option.splits)
next
  case (Cons tx txs)
  show ?case
  proof (cases "tx_value tx = 0")
    case True
    then have "\<exists>d'. ledger_diff_loop txs d = Some d' \<and>
        (\<forall>a. d' a = (if touched txs a \<or> d a \<noteq> None then Some (entry_or_zero d a + address_sum txs a) else None))"
      using Cons.prems by (intro Cons.IH [of d m]) auto
    moreover have "touched (tx # txs) a = touched txs a" "address_sum (tx # txs) a = address_sum txs a" for a
      using True by (simp_all add: touched_def address_sum_def)
    ultimately show ?thesis
      using True by (simp split del: if_split cong: if_cong)
  next
    case False
    let ?a = "tx_address tx" and ?v = "entry_or_zero d (tx_address tx) + tx_value tx"
    have b: "\<bar>?v\<bar> \<le> int (Suc m) * IOTA_SUPPLY"
    proof -
      have "\<bar>tx_value tx\<bar> \<le> IOTA_SUPPLY"
        using Cons.prems(1) by simp
      moreover have "\<bar>entry_or_zero d ?a\<bar> \<le> int m * IOTA_SUPPLY"
        using Cons.prems(2) .
      moreover have "int (Suc m) * IOTA_SUPPLY = int m * IOTA_SUPPLY + IOTA_SUPPLY"
        by (simp add: distrib_right)
      ultimately show ?thesis
        by linarith
    qed
    have "int (Suc m) * IOTA_SUPPLY \<le> 3318 * IOTA_SUPPLY"
      using Cons.prems(3) by (intro mult_right_mono) (simp_all add: IOTA_SUPPLY_def)
    with b have "\<bar>?v\<bar> \<le> 3318 * IOTA_SUPPLY"
      by linarith
    then have c: "checked_signed 64 ?v = Some ?v"
      unfolding checked_signed_def IOTA_SUPPLY_def by simp linarith
    have e: "\<bar>entry_or_zero (d(?a \<mapsto> ?v)) a\<bar> \<le> int (Suc m) * IOTA_SUPPLY" for a
      using b Cons.prems(2) [of a] by (cases "a = ?a") (simp_all add: distrib_right IOTA_SUPPLY_def)
    have "list_all (\<lambda>tx. \<bar>tx_value tx\<bar> \<le> IOTA_SUPPLY) txs" and "Suc m + length txs \<le> 3318"
      using Cons.prems(1,3) by simp_all
    from Cons.IH [of "d(?a \<mapsto> ?v)", OF this(1) e this(2)] obtain d' where d': "ledger_diff_loop txs (d(?a \<mapsto> ?v)) = Some d'"
      "\<And>a. d' a = (if touched txs a \<or> (d(?a \<mapsto> ?v)) a \<noteq> None then Some (entry_or_zero (d(?a \<mapsto> ?v)) a + address_sum txs a) else None)"
      by blast
    have "d' a = (if touched (tx # txs) a \<or> d a \<noteq> None then Some (entry_or_zero d a + address_sum (tx # txs) a) else None)" for a
      using d'(2) [of a] False by (cases "a = ?a") (simp_all add: touched_def address_sum_def)
    then show ?thesis
      using d'(1) False c by (intro exI [of _ d']) (simp add: fun_eq_iff)
  qed
qed

text \<open>
  The ledger difference of a bundle of at most 3318 transactions with values up to the supply is computed
  without overflow. It has an entry for exactly the addresses with a transaction of non-zero value, and the
  entry is the sum of all values for the address.
\<close>

theorem ledger_diff_correct:
  assumes "list_all (\<lambda>tx. \<bar>tx_value tx\<bar> \<le> IOTA_SUPPLY) txs" "length txs \<le> 3318"
  shows "\<exists>d. ledger_diff txs = Some d \<and> (\<forall>a. d a = (if touched txs a then Some (address_sum txs a) else None))"
proof -
  obtain d where "ledger_diff_loop txs Map.empty = Some d"
    "\<forall>a. d a = (if touched txs a then Some (address_sum txs a) else None)"
    using ledger_diff_loop_law [OF assms(1), of Map.empty 0] assms(2) by auto
  then show ?thesis
    unfolding ledger_diff_def by blast
qed

theorem ledger_diff_correct_witness:
  "\<exists>d. ledger_diff [(tx_of_segments zero_segments)\<lparr>tx_value := 5\<rparr>, (tx_of_segments zero_segments)\<lparr>tx_value := - 5\<rparr>] = Some d
    \<and> d (tx_address (tx_of_segments zero_segments)) = Some 0"
  using ledger_diff_correct [of "[(tx_of_segments zero_segments)\<lparr>tx_value := 5\<rparr>, (tx_of_segments zero_segments)\<lparr>tx_value := - 5\<rparr>]"]
  by (auto simp: IOTA_SUPPLY_def touched_def address_sum_def)

context sponge_law
begin

lemma verify_empty: "wots_verify S [] [] [] = Some (Inr False)"
  using public_key_of_state_law [OF fresh_default, of "[]"]
  by (auto simp: wots_verify_def wots_recover_public_key_def t1b1_chunks_eq trits_eq_t1b1)

end

text \<open>
  No incoming bundle is ever accepted: the signature check of the builder verifies an empty signature
  against an empty public key, which fails with every sponge, so every validation ends in an error.
\<close>

theorem incoming_never_valid:
  assumes "keccak_fills K"
  shows "incoming_validate (Kerl K) (wots_verify (Kerl K)) txs \<noteq> Some (Inr r)
    \<and> incoming_validate (Kerl K) (wots_verify (Kerl K)) [] = Some (Inl IncomingEmpty)"
  using sponge_law.verify_empty [OF kerl_sponge_law [OF assms]]
  by (auto simp: incoming_validate_def validate_signatures_def res_try_Inr_iff split: list.splits if_splits
      Option.bind_splits)

theorem incoming_never_valid_witness:
  "keccak_fills example_keccak
   \<and> incoming_validate (Kerl example_keccak) (wots_verify (Kerl example_keccak)) [tx_of_segments zero_segments] \<noteq> Some (Inr [])"
  using incoming_never_valid [OF keccak_fills_example] keccak_fills_example by blast

end
