(* ===== verification/Ledger.thy ===== *)
theory Ledger
  imports Bundles "HOL-Library.Finite_Map"
begin

text \<open>
  The ledger worker (src/bee-ledger/src/worker.rs): the balances of addresses, changed by the differences
  of bundles and read by requests. A difference is the list of the entries of its hash map in the order the
  map yields them, an order the results do not depend on. The last section connects the ledger with
  \<open>ledger_diff\<close> of a bundle: a bundle whose values add up to zero moves tokens and neither makes nor
  destroys any.
\<close>

section \<open>The worker\<close>

type_synonym ledger_state = "(address, u64) fmap"

datatype ledger_worker_event =
    ApplyDiff "(address \<times> int) list"
  | GetBalance address

record ledger_worker =
  lw_state :: ledger_state

definition ledger_new :: "ledger_state \<Rightarrow> ledger_worker" where
  "ledger_new state = \<lparr>lw_state = state\<rparr>"

text \<open>
  One entry: a known balance is read as an \<open>i64\<close>, the checked sum with the value replaces it unless it is
  negative. An unknown address gets the value cast to \<open>u64\<close>.
\<close>

definition apply_entry :: "ledger_state \<Rightarrow> address \<Rightarrow> int \<Rightarrow> ledger_state option" where
  "apply_entry state key v =
     (case fmlookup state key of
        Some balance \<Rightarrow> do {
          s \<leftarrow> checked_signed 64 (signed_of 64 (unat balance) + v);
          Some (if s \<ge> 0 then fmupd key (word_of_int s) state else state) }
      | None \<Rightarrow> Some (fmupd key (word_of_int v) state))"

fun apply_diff_loop :: "ledger_state \<Rightarrow> (address \<times> int) list \<Rightarrow> ledger_state option" where
  "apply_diff_loop state [] = Some state"
| "apply_diff_loop state ((key, v) # diff) = do {
     state \<leftarrow> apply_entry state key v;
     apply_diff_loop state diff }"

definition apply_diff :: "ledger_worker \<Rightarrow> (address \<times> int) list \<Rightarrow> ledger_worker option" where
  "apply_diff self diff = do {
     state \<leftarrow> apply_diff_loop (lw_state self) diff;
     Some (self\<lparr>lw_state := state\<rparr>) }"

definition get_balance :: "ledger_worker \<Rightarrow> address \<Rightarrow> u64 option" where
  "get_balance self a = fmlookup (lw_state self) a"

text \<open>The \<open>run\<close> loop on the events received before the shutdown, with the answers it sends.\<close>

fun ledger_run :: "ledger_worker \<Rightarrow> ledger_worker_event list \<Rightarrow> (ledger_worker \<times> u64 option list) option" where
  "ledger_run self [] = Some (self, [])"
| "ledger_run self (ApplyDiff diff # events) = do {
     self \<leftarrow> apply_diff self diff;
     ledger_run self events }"
| "ledger_run self (GetBalance a # events) = do {
     (self', answers) \<leftarrow> ledger_run self events;
     Some (self', get_balance self a # answers) }"

section \<open>What a difference does\<close>

text \<open>
  A known balance is cast to \<open>i64\<close>, which is \<open>sint\<close> of it, and the sum with the value must be in the range of
  an \<open>i64\<close>.
\<close>

definition entry_fits :: "ledger_state \<Rightarrow> address \<times> int \<Rightarrow> bool" where
  "entry_fits state e = (case e of (key, v) \<Rightarrow>
     (case fmlookup state key of Some b \<Rightarrow> - (2 ^ 63) \<le> sint b + v \<and> sint b + v < 2 ^ 63 | None \<Rightarrow> True))"

definition entry_balance :: "u64 option \<Rightarrow> int \<Rightarrow> u64 option" where
  "entry_balance b v = (case b of
     Some b \<Rightarrow> Some (if 0 \<le> sint b + v then word_of_int (sint b + v) else b)
   | None \<Rightarrow> Some (word_of_int v))"

lemma uint_lt2p_64: "uint (b :: u64) < 2 ^ 64"
  using uint_bounded [of b] by simp

lemma sint_cases: "sint (b :: u64) = (if uint b < 2 ^ 63 then uint b else uint b - 2 ^ 64)"
proof -
  have "0 \<le> uint b" "uint b < 2 ^ 64"
    using uint_lt2p_64 [of b] by simp_all
  moreover have "(x + 2 ^ 63) mod 2 ^ 64 = (if x < 2 ^ 63 then x + 2 ^ 63 else x - 2 ^ 63)" if "0 \<le> x" "x < 2 ^ 64" for x :: int
  proof (cases "x < 2 ^ 63")
    case False
    then have "(x - 2 ^ 63) mod 2 ^ 64 = x - 2 ^ 63"
      using that by (intro mod_pos_pos_trivial) auto
    then show ?thesis
      using False mod_add_self2 [of "x - 2 ^ 63" "2 ^ 64"] by (simp add: add.commute)
  qed (use that in \<open>simp add: mod_pos_pos_trivial\<close>)
  ultimately show ?thesis
    by (simp add: sint_uint signed_take_bit_eq_take_bit_shift take_bit_eq_mod)
qed

lemma signed_of_sint: "signed_of 64 (unat b) = sint (b :: u64)"
proof -
  have "2 * unat b < 2 ^ 64 \<longleftrightarrow> int (2 * unat b) < int (2 ^ 64)"
    by (simp only: of_nat_less_iff)
  then show ?thesis
    by (simp add: signed_of_def sint_cases)
qed

lemma apply_entry_law:
  "entry_fits state (key, v) \<Longrightarrow> \<exists>state'. apply_entry state key v = Some state' \<and>
    (\<forall>a. fmlookup state' a = (if a = key then entry_balance (fmlookup state key) v else fmlookup state a))"
  "\<not> entry_fits state (key, v) \<Longrightarrow> apply_entry state key v = None"
  by (auto simp: apply_entry_def entry_fits_def entry_balance_def signed_of_sint checked_signed_def split: option.splits)

lemma apply_diff_loop_law:
  assumes "distinct (map fst diff)"
  shows "if list_all (entry_fits state) diff
    then \<exists>state'. apply_diff_loop state diff = Some state' \<and>
      (\<forall>a. fmlookup state' a = (case map_of diff a of None \<Rightarrow> fmlookup state a | Some v \<Rightarrow> entry_balance (fmlookup state a) v))
    else apply_diff_loop state diff = None"
  using assms
proof (induction diff arbitrary: state)
  case Nil
  then show ?case
    by simp
next
  case (Cons e diff)
  obtain key v where e: "e = (key, v)"
    by (cases e)
  show ?case
  proof (cases "entry_fits state e")
    case False
    then show ?thesis
      using e apply_entry_law(2) by simp
  next
    case True
    then obtain state1 where s1: "apply_entry state key v = Some state1"
      "\<And>a. fmlookup state1 a = (if a = key then entry_balance (fmlookup state key) v else fmlookup state a)"
      using apply_entry_law(1) e by blast
    have fresh: "map_of diff key = None" "distinct (map fst diff)"
      using Cons.prems e by (simp_all add: map_of_eq_None_iff)
    have "entry_fits state1 e' = entry_fits state e'" if "e' \<in> set diff" for e'
    proof -
      have "fst e' \<noteq> key"
        using that Cons.prems e by force
      then show ?thesis
        using s1(2) by (auto simp: entry_fits_def split: prod.splits)
    qed
    then have f: "list_all (entry_fits state1) diff = list_all (entry_fits state) diff"
      by (simp add: list_all_iff)
    have "(case map_of diff a of None \<Rightarrow> fmlookup state1 a | Some v \<Rightarrow> entry_balance (fmlookup state1 a) v)
        = (case map_of (e # diff) a of None \<Rightarrow> fmlookup state a | Some v \<Rightarrow> entry_balance (fmlookup state a) v)" for a
      using s1(2) [of a] fresh(1) e by (cases "a = key"; cases "map_of diff a") simp_all
    from Cons.IH [OF fresh(2), of state1, unfolded f this] show ?thesis
      using s1(1) e True by (cases "list_all (entry_fits state) diff") (simp_all del: map_of.simps)
  qed
qed

text \<open>
  C27. Applying a difference, whose keys are distinct since it is a hash map, whatever order the entries come
  in. The worker panics exactly if for some known balance of the difference, cast to \<open>i64\<close>, the sum with
  the value leaves the range of an \<open>i64\<close>. Otherwise each address with a known balance gets the sum of the balance,
  cast to \<open>i64\<close>, and the value, and keeps its balance when that sum is negative; a balance of \<open>2 ^ 63\<close> or more
  counts as negative there. An unknown address gets the value cast to an unsigned integer, also when the value
  is negative: then it has a balance of \<open>2 ^ 63\<close> or more. All other balances stay.
\<close>

theorem apply_diff_correct:
  assumes "distinct (map fst diff)"
  shows "case apply_diff self diff of
      None \<Rightarrow> \<exists>key v b. (key, v) \<in> set diff \<and> get_balance self key = Some b \<and> (sint b + v < - (2 ^ 63) \<or> 2 ^ 63 \<le> sint b + v)
    | Some self' \<Rightarrow>
        (\<forall>key v b. (key, v) \<in> set diff \<and> get_balance self key = Some b \<longrightarrow> - (2 ^ 63) \<le> sint b + v \<and> sint b + v < 2 ^ 63)
        \<and> (\<forall>a. get_balance self' a =
          (case map_of diff a of
             None \<Rightarrow> get_balance self a
           | Some v \<Rightarrow>
               (case get_balance self a of
                  Some b \<Rightarrow> Some (if 0 \<le> sint b + v then word_of_int (sint b + v) else b)
                | None \<Rightarrow> Some (word_of_int v))))"
proof (cases "list_all (entry_fits (lw_state self)) diff")
  case True
  then have "- (2 ^ 63) \<le> sint b + v \<and> sint b + v < 2 ^ 63" if "(key, v) \<in> set diff" "get_balance self key = Some b" for key v b
    using that by (auto simp: list_all_iff entry_fits_def get_balance_def dest!: bspec [of _ _ "(key, v)"])
  moreover obtain state' where "apply_diff_loop (lw_state self) diff = Some state'"
    "\<And>a. fmlookup state' a = (case map_of diff a of None \<Rightarrow> fmlookup (lw_state self) a | Some v \<Rightarrow> entry_balance (fmlookup (lw_state self) a) v)"
    using True apply_diff_loop_law [OF assms, of "lw_state self"] by auto
  ultimately show ?thesis
    unfolding apply_diff_def get_balance_def entry_balance_def by simp blast
next
  case False
  then obtain key v where "(key, v) \<in> set diff" "\<not> entry_fits (lw_state self) (key, v)"
    by (auto simp: list_all_iff)
  then have "\<exists>key v b. (key, v) \<in> set diff \<and> get_balance self key = Some b \<and> (sint b + v < - (2 ^ 63) \<or> 2 ^ 63 \<le> sint b + v)"
    by (intro exI [of _ key] exI [of _ v]) (auto simp: entry_fits_def get_balance_def split: option.splits)
  then show ?thesis
    using False apply_diff_loop_law [OF assms, of "lw_state self"] by (simp add: apply_diff_def)
qed

theorem apply_diff_correct_witness:
  "\<exists>self'. apply_diff (ledger_new (fmupd [PlusOne] 7 fmempty)) [([PlusOne], - 7), ([Zero], - 1)] = Some self'
    \<and> get_balance self' [PlusOne] = Some 0 \<and> get_balance self' [Zero] = Some 18446744073709551615
    \<and> apply_diff self' [([Zero], 1)] \<noteq> None \<and> apply_diff self' [([Zero], - (2 ^ 63))] = None"
proof -
  let ?self = "ledger_new (fmupd [PlusOne] 7 fmempty)" and ?diff = "[([PlusOne], - 7), ([Zero], - 1 :: int)]"
  have seven: "sint (7 :: u64) = 7" and big: "sint (18446744073709551615 :: u64) = - 1"
    by simp_all
  have d: "distinct (map fst ?diff)"
    by simp
  have "apply_diff ?self ?diff \<noteq> None"
    using signed_of_sint [of 7] by (simp add: apply_diff_def apply_entry_def ledger_new_def checked_signed_def)
  then obtain self' where e: "apply_diff ?self ?diff = Some self'"
    by blast
  from apply_diff_correct [OF d, of ?self] have b: "get_balance self' [PlusOne] = Some 0"
    "get_balance self' [Zero] = Some 18446744073709551615"
    unfolding e by (simp_all add: get_balance_def ledger_new_def seven)
  have k: "distinct (map fst [([Zero], v :: int)])" for v
    by simp
  have "apply_diff self' [([Zero], 1)] \<noteq> None" "apply_diff self' [([Zero], - (2 ^ 63))] = None"
    using apply_diff_correct [OF k [of 1], of self'] apply_diff_correct [OF k [of "- (2 ^ 63)"], of self'] b(2) big
    by (auto split: option.splits)
  then show ?thesis
    using e b by blast
qed

section \<open>Conservation of the supply\<close>

definition balance_or_zero :: "ledger_state \<Rightarrow> address \<Rightarrow> int" where
  "balance_or_zero state a = (case fmlookup state a of Some b \<Rightarrow> uint b | None \<Rightarrow> 0)"

definition total_balance :: "ledger_state \<Rightarrow> int" where
  "total_balance state = (\<Sum>a\<in>fmdom' state. balance_or_zero state a)"

definition diff_value :: "(address \<times> int) list \<Rightarrow> address \<Rightarrow> int" where
  "diff_value diff a = (case map_of diff a of Some v \<Rightarrow> v | None \<Rightarrow> 0)"

lemma balance_nonneg [simp]: "0 \<le> balance_or_zero state a"
  by (simp add: balance_or_zero_def split: option.splits)

lemma total_balance_superset:
  assumes "finite A" "fmdom' state \<subseteq> A"
  shows "total_balance state = (\<Sum>a\<in>A. balance_or_zero state a)"
  unfolding total_balance_def
  using assms by (intro sum.mono_neutral_left) (auto simp: balance_or_zero_def fmlookup_dom'_iff split: option.splits)

lemma diff_value_outside: "a \<notin> fst ` set diff \<Longrightarrow> diff_value diff a = 0"
  using map_of_eq_None_iff [of diff a] by (simp add: diff_value_def)

lemma sum_diff_value:
  assumes "distinct (map fst diff)" "finite A" "fst ` set diff \<subseteq> A"
  shows "(\<Sum>a\<in>A. diff_value diff a) = sum_list (map snd diff)"
proof -
  have "(\<Sum>a\<in>A. diff_value diff a) = (\<Sum>a\<in>fst ` set diff. diff_value diff a)"
    using assms(2,3) by (intro sum.mono_neutral_right) (auto simp: diff_value_outside)
  also have "\<dots> = (\<Sum>e\<in>set diff. diff_value diff (fst e))"
    using assms(1) by (intro sum.reindex_cong [where l = fst]) (auto simp: distinct_map)
  also have "\<dots> = (\<Sum>e\<in>set diff. snd e)"
    using assms(1) by (intro sum.cong) (auto simp: diff_value_def)
  also have "\<dots> = sum_list (map snd diff)"
    using assms(1) by (simp add: sum_list_distinct_conv_sum_set distinct_map)
  finally show ?thesis .
qed

lemma applicable_bound:
  assumes "distinct (map fst diff)" "sum_list (map snd diff) = 0"
    and "\<And>a. 0 \<le> balance_or_zero state a + diff_value diff a"
  shows "\<bar>diff_value diff a\<bar> \<le> total_balance state"
    and "balance_or_zero state a \<le> total_balance state"
proof -
  define A where "A = fmdom' state \<union> fst ` set diff \<union> {a}"
  have A: "finite A" "fmdom' state \<subseteq> A" "fst ` set diff \<subseteq> A" "a \<in> A"
    by (auto simp: A_def)
  let ?b = "balance_or_zero state" and ?v = "diff_value diff"
  have total: "total_balance state = ?b a + (\<Sum>x\<in>A - {a}. ?b x)"
    using total_balance_superset [OF A(1,2)] A(1,4) by (simp add: sum.remove)
  have zero: "?v a + (\<Sum>x\<in>A - {a}. ?v x) = 0"
    using sum_diff_value [OF assms(1) A(1,3)] assms(2) A(1,4) by (simp add: sum.remove)
  have rest: "0 \<le> (\<Sum>x\<in>A - {a}. ?b x)"
    by (rule sum_nonneg) simp
  then show "?b a \<le> total_balance state"
    using total by simp
  have "0 \<le> (\<Sum>x\<in>A - {a}. ?b x + ?v x)"
    by (rule sum_nonneg) (rule assms(3))
  then show "\<bar>?v a\<bar> \<le> total_balance state"
    using total zero rest assms(3) [of a] balance_nonneg [of state a] unfolding sum.distrib by linarith
qed

lemma small_sint: "uint b < 2 ^ 62 \<Longrightarrow> sint (b :: u64) = uint b"
  by (simp add: sint_cases)

lemma small_sum: "\<bar>v\<bar> < 4611686018427387904 \<Longrightarrow> - 9223372036854775808 \<le> uint (b :: u64) + v"
  using uint_ge_0 [of b] by linarith

lemma entry_balance_value:
  assumes "0 \<le> (case b of Some b \<Rightarrow> uint b | None \<Rightarrow> 0) + v" "\<bar>v\<bar> < 2 ^ 62" "(case b of Some b \<Rightarrow> uint b | None \<Rightarrow> 0) < 2 ^ 62"
  shows "\<exists>b'. entry_balance b v = Some b' \<and> uint b' = (case b of Some b \<Rightarrow> uint b | None \<Rightarrow> 0) + v"
proof -
  have u: "uint (word_of_int i :: u64) = i" if "0 \<le> i" "i < 2 ^ 64" for i
    using that by (simp add: uint_word_of_int_eq take_bit_int_eq_self)
  show ?thesis
    using assms u [of v] u [of "uint (the b) + v"] small_sint [of "the b"]
    unfolding entry_balance_def by (cases b) (simp_all del: of_int_add)
qed

lemma apply_diff_total:
  assumes "distinct (map fst diff)" "sum_list (map snd diff) = 0" "total_balance (lw_state self) \<le> IOTA_SUPPLY"
    and app: "\<And>a. 0 \<le> balance_or_zero (lw_state self) a + diff_value diff a"
  shows "\<exists>self'. apply_diff self diff = Some self' \<and> total_balance (lw_state self') = total_balance (lw_state self)
    \<and> (\<forall>a. balance_or_zero (lw_state self') a = balance_or_zero (lw_state self) a + diff_value diff a)"
proof -
  let ?st = "lw_state self"
  note bounds = applicable_bound [OF assms(1,2) app]
  have small: "\<bar>diff_value diff a\<bar> < 2 ^ 62" "balance_or_zero ?st a < 2 ^ 62" for a
    using bounds [of a] assms(3) by (simp_all add: IOTA_SUPPLY_def)
  have "entry_fits ?st (key, v)" if "(key, v) \<in> set diff" for key v
  proof -
    have "diff_value diff key = v"
      using that assms(1) by (simp add: diff_value_def)
    moreover have "uint b < 2 ^ 62" if "fmlookup ?st key = Some b" for b
      using small(2) [of key] that by (simp add: balance_or_zero_def)
    ultimately show ?thesis
      using small(1) [of key] by (auto simp: entry_fits_def small_sint split: option.splits intro!: small_sum)
  qed
  then have "list_all (entry_fits ?st) diff"
    by (auto simp: list_all_iff)
  with apply_diff_loop_law [OF assms(1), of ?st] obtain st' where st': "apply_diff_loop ?st diff = Some st'"
    "\<And>a. fmlookup st' a = (case map_of diff a of None \<Rightarrow> fmlookup ?st a | Some v \<Rightarrow> entry_balance (fmlookup ?st a) v)"
    by auto
  have b: "balance_or_zero st' a = balance_or_zero ?st a + diff_value diff a" for a
    using entry_balance_value [of "fmlookup ?st a" "diff_value diff a"] app [of a] small [of a]
    unfolding balance_or_zero_def diff_value_def st'(2) by (auto split: option.splits)
  define A where "A = fmdom' ?st \<union> fmdom' st' \<union> fst ` set diff"
  have A: "finite A" "fmdom' ?st \<subseteq> A" "fmdom' st' \<subseteq> A" "fst ` set diff \<subseteq> A"
    by (auto simp: A_def)
  have "total_balance st' = total_balance ?st"
    using sum_diff_value [OF assms(1) A(1,4)] assms(2)
    unfolding total_balance_superset [OF A(1,2)] total_balance_superset [OF A(1,3)] b by (simp add: sum.distrib)
  then show ?thesis
    using st'(1) b by (simp add: apply_diff_def)
qed

lemma address_sum_Cons [simp]:
  "address_sum (tx # txs) a = (if tx_address tx = a then tx_value tx else 0) + address_sum txs a"
  by (simp add: address_sum_def)

lemma address_sum_total:
  assumes "finite A" "tx_address ` set txs \<subseteq> A"
  shows "(\<Sum>a\<in>A. address_sum txs a) = sum_list (map tx_value txs)"
  using assms(2)
proof (induction txs)
  case Nil
  then show ?case
    by (simp add: address_sum_def)
next
  case (Cons tx txs)
  then show ?case
    using assms(1) by (simp add: sum.distrib)
qed

lemma untouched_sum: "\<not> touched txs a \<Longrightarrow> address_sum txs a = 0"
  by (induction txs) (auto simp: touched_def address_sum_def)

text \<open>
  C14. A bundle of values that add up to zero, applied to the ledger. No value exceeds the supply in absolute
  value, the bundle has at most 3318 transactions (with more, the sums of \<open>ledger_diff\<close> may leave the range of an
  \<open>i64\<close>), and the total of all balances is at most the supply. If every address can pay, \<open>ledger_diff\<close> succeeds
  and its result is applied without overflow, whatever order its entries come in; every balance changes
  by the sum of the values for its address, and the total of all balances stays.
\<close>

theorem bundle_conserves_supply:
  assumes "list_all (\<lambda>tx. \<bar>tx_value tx\<bar> \<le> IOTA_SUPPLY) txs" "length txs \<le> 3318" "sum_list (map tx_value txs) = 0"
    and "total_balance (lw_state self) \<le> IOTA_SUPPLY"
    and "\<And>a. 0 \<le> balance_or_zero (lw_state self) a + address_sum txs a"
  shows "\<exists>d. ledger_diff txs = Some d \<and>
    (\<forall>diff. distinct (map fst diff) \<and> map_of diff = d \<longrightarrow>
      (\<exists>self'. apply_diff self diff = Some self' \<and> total_balance (lw_state self') = total_balance (lw_state self)
        \<and> (\<forall>a. balance_or_zero (lw_state self') a = balance_or_zero (lw_state self) a + address_sum txs a)))"
proof -
  have "\<exists>d'. ledger_diff_loop txs Map.empty = Some d' \<and>
    (\<forall>a. d' a = (if touched txs a \<or> Map.empty a \<noteq> (None :: int option)
       then Some (entry_or_zero Map.empty a + address_sum txs a) else None))"
    using assms(2) by (intro ledger_diff_loop_law [OF assms(1), of _ 0]) simp_all
  then obtain d where d: "ledger_diff txs = Some d" "\<And>a. d a = (if touched txs a then Some (address_sum txs a) else None)"
    by (auto simp: ledger_diff_def)
  have "\<exists>self'. apply_diff self diff = Some self' \<and> total_balance (lw_state self') = total_balance (lw_state self)
      \<and> (\<forall>a. balance_or_zero (lw_state self') a = balance_or_zero (lw_state self) a + address_sum txs a)"
    if diff: "distinct (map fst diff)" "map_of diff = d" for diff
  proof -
    have v: "diff_value diff = address_sum txs"
      using d(2) diff(2) untouched_sum by (simp add: diff_value_def fun_eq_iff)
    define A where "A = tx_address ` set txs \<union> fst ` set diff"
    have "finite A" "tx_address ` set txs \<subseteq> A" "fst ` set diff \<subseteq> A"
      by (auto simp: A_def)
    then have "sum_list (map snd diff) = 0"
      using sum_diff_value [OF diff(1), of A] address_sum_total [of A txs] assms(3) v by simp
    from apply_diff_total [OF diff(1) this assms(4)] show ?thesis
      using assms(5) v by simp
  qed
  then show ?thesis
    using d(1) by blast
qed

definition transfer_bundle :: "transaction list" where
  "transfer_bundle =
     [(tx_of_segments zero_segments)\<lparr>tx_address := [PlusOne], tx_value := - 5\<rparr>,
      (tx_of_segments zero_segments)\<lparr>tx_address := [Zero], tx_value := 5\<rparr>]"

theorem bundle_conserves_supply_witness:
  "\<exists>self'. map_option (\<lambda>d. d [PlusOne]) (ledger_diff transfer_bundle) = Some (Some (- 5))
    \<and> apply_diff (ledger_new (fmupd [PlusOne] 7 fmempty)) [([PlusOne], - 5), ([Zero], 5)] = Some self'
    \<and> total_balance (lw_state self') = 7 \<and> balance_or_zero (lw_state self') [Zero] = 5"
proof -
  let ?self = "ledger_new (fmupd [PlusOne] 7 fmempty)" and ?diff = "[([PlusOne], - 5), ([Zero], 5 :: int)]"
  have sum: "address_sum transfer_bundle a = (if a = [PlusOne] then - 5 else if a = [Zero] then 5 else 0)" for a
    by (simp add: transfer_bundle_def address_sum_def)
  have bal: "balance_or_zero (lw_state ?self) a = (if a = [PlusOne] then 7 else 0)" for a
    by (simp add: balance_or_zero_def ledger_new_def)
  have total: "total_balance (lw_state ?self) = 7"
    by (simp add: total_balance_def bal) (simp add: ledger_new_def)
  have d: "ledger_diff transfer_bundle = Some (map_of ?diff)"
    by (simp add: ledger_diff_def transfer_bundle_def checked_signed_def fun_eq_iff)
  have "\<exists>d. ledger_diff transfer_bundle = Some d \<and>
    (\<forall>diff. distinct (map fst diff) \<and> map_of diff = d \<longrightarrow>
      (\<exists>self'. apply_diff ?self diff = Some self' \<and> total_balance (lw_state self') = total_balance (lw_state ?self)
        \<and> (\<forall>a. balance_or_zero (lw_state self') a = balance_or_zero (lw_state ?self) a + address_sum transfer_bundle a)))"
  proof (rule bundle_conserves_supply)
    show "list_all (\<lambda>tx. \<bar>tx_value tx\<bar> \<le> IOTA_SUPPLY) transfer_bundle" "length transfer_bundle \<le> 3318"
      "sum_list (map tx_value transfer_bundle) = 0"
      by (simp_all add: transfer_bundle_def IOTA_SUPPLY_def)
  qed (simp_all add: total IOTA_SUPPLY_def bal sum)
  then obtain self' where "apply_diff ?self ?diff = Some self'" "total_balance (lw_state self') = 7"
    "\<forall>a. balance_or_zero (lw_state self') a = balance_or_zero (lw_state ?self) a + address_sum transfer_bundle a"
    unfolding d total by (elim exE conjE allE [of _ ?diff]) auto
  then show ?thesis
    using d bal sum by simp
qed

end
