(* ===== verification/Messages.thy ===== *)
theory Messages
  imports Bigint_U384
begin

text \<open>
  The messages of the gossip protocol and their type-length-value encoding
  (bee-protocol/src/message). The trait \<open>Message\<close> is a record of operations; each message type
  provides one. A slice that is written through \<open>&mut [u8]\<close> is passed in and returned. The locale
  \<open>message\<close> states what the encoding relies on, and the round trips of \<open>tlv_into_bytes\<close> and
  \<open>tlv_from_bytes\<close> are proved once inside it; every message type is an instance. The theory also
  holds the compression of transaction bytes and the negotiation of the protocol version.
\<close>

section \<open>Slices and big endian integers\<close>

type_synonym bytes = "u8 list"

text \<open>\<open>split_at\<close> and \<open>copy_from_slice\<close> panic on an index out of range and on different lengths.\<close>

definition split_at :: "nat \<Rightarrow> bytes \<Rightarrow> (bytes \<times> bytes) option" where
  "split_at mid bs = (if mid \<le> length bs then Some (take mid bs, drop mid bs) else None)"

definition copy_from_slice :: "bytes \<Rightarrow> bytes \<Rightarrow> bytes option" where
  "copy_from_slice dst src = (if length dst = length src then Some src else None)"

text \<open>\<open>from_be_bytes\<close> of an array of \<open>n\<close> bytes, with the conversion of the slice to the array before it.\<close>

definition from_be_bytes :: "nat \<Rightarrow> bytes \<Rightarrow> 'a::len word option" where
  "from_be_bytes n bs = (if length bs = n then Some (word_of_nat (be_val bs)) else None)"

definition to_be_bytes :: "nat \<Rightarrow> 'a::len word \<Rightarrow> bytes" where
  "to_be_bytes n w = rev (map word_of_nat (to_digits 256 n (unat w)))"

section \<open>Header (tlv/header.rs)\<close>

definition HEADER_TYPE_SIZE :: nat where "HEADER_TYPE_SIZE = 1"
definition HEADER_LENGTH_SIZE :: nat where "HEADER_LENGTH_SIZE = 2"
definition HEADER_SIZE :: nat where "HEADER_SIZE = HEADER_TYPE_SIZE + HEADER_LENGTH_SIZE"

record header =
  message_type :: u8
  message_length :: u16

definition header_from_bytes :: "bytes \<Rightarrow> header option" where
  "header_from_bytes bs =
     (if HEADER_SIZE \<le> length bs
      then map_option (\<lambda>len. \<lparr>message_type = bs ! 0, message_length = len\<rparr>)
        (from_be_bytes 2 (take HEADER_LENGTH_SIZE (drop HEADER_TYPE_SIZE bs)))
      else None)"

definition header_to_bytes :: "header \<Rightarrow> bytes \<Rightarrow> bytes option" where
  "header_to_bytes self bs =
     (if 0 < length bs
      then map_option (\<lambda>rest. message_type self # rest)
        (copy_from_slice (drop 1 bs) (to_be_bytes 2 (message_length self)))
      else None)"

section \<open>The trait \<open>Message\<close> (message.rs)\<close>

record 'm message_impl =
  msg_ID :: u8
  msg_size_range :: "nat \<times> nat"
  msg_from_bytes :: "bytes \<Rightarrow> 'm option"
  msg_size :: "'m \<Rightarrow> nat"
  msg_into_bytes :: "'m \<Rightarrow> bytes \<Rightarrow> bytes option"

definition range_contains :: "nat \<times> nat \<Rightarrow> nat \<Rightarrow> bool" where
  "range_contains r n = (fst r \<le> n \<and> n < snd r)"

section \<open>Type-length-value encoding (tlv/tlv.rs)\<close>

datatype tlv_error =
    InvalidAdvertisedType u8 u8
  | InvalidAdvertisedLength nat nat
  | InvalidLength nat

definition tlv_from_bytes :: "'m message_impl \<Rightarrow> header \<Rightarrow> bytes \<Rightarrow> (tlv_error + 'm) option" where
  "tlv_from_bytes M header bs =
     (if message_type header \<noteq> msg_ID M
      then Some (Inl (InvalidAdvertisedType (message_type header) (msg_ID M)))
      else if unat (message_length header) \<noteq> length bs
      then Some (Inl (InvalidAdvertisedLength (unat (message_length header)) (length bs)))
      else if \<not> range_contains (msg_size_range M) (length bs)
      then Some (Inl (InvalidLength (length bs)))
      else map_option Inr (msg_from_bytes M bs))"

definition tlv_into_bytes :: "'m message_impl \<Rightarrow> 'm \<Rightarrow> bytes option" where
  "tlv_into_bytes M message = do {
     let size = msg_size M message;
     let bs = replicate (HEADER_SIZE + size) 0;
     (header, payload) \<leftarrow> split_at HEADER_SIZE bs;
     header \<leftarrow> header_to_bytes \<lparr>message_type = msg_ID M, message_length = word_of_nat size\<rparr> header;
     payload \<leftarrow> msg_into_bytes M message payload;
     Some (header @ payload) }"

section \<open>Handshake (v0/handshake.rs)\<close>

definition COORDINATOR_SIZE :: nat where "COORDINATOR_SIZE = 49"
definition handshake_CONSTANT_SIZE :: nat where "handshake_CONSTANT_SIZE = 2 + 8 + COORDINATOR_SIZE + 1"

record handshake =
  port :: u16
  timestamp :: u64
  coordinator :: bytes
  minimum_weight_magnitude :: u8
  supported_versions :: bytes

text \<open>The clock is an argument: \<open>now\<close> is the time in milliseconds.\<close>

definition handshake_new :: "u64 \<Rightarrow> u16 \<Rightarrow> bytes \<Rightarrow> u8 \<Rightarrow> bytes \<Rightarrow> handshake option" where
  "handshake_new now port' coordinator' mwm versions = do {
     self_coordinator \<leftarrow> copy_from_slice (replicate COORDINATOR_SIZE 0) coordinator';
     Some \<lparr>port = port', timestamp = now, coordinator = self_coordinator,
       minimum_weight_magnitude = mwm, supported_versions = versions\<rparr> }"

definition handshake_from_bytes :: "bytes \<Rightarrow> handshake option" where
  "handshake_from_bytes bs = do {
     (bs, next') \<leftarrow> split_at 2 bs;
     port' \<leftarrow> from_be_bytes 2 bs;
     (bs, next') \<leftarrow> split_at 8 next';
     timestamp' \<leftarrow> from_be_bytes 8 bs;
     (bs, next') \<leftarrow> split_at COORDINATOR_SIZE next';
     coordinator' \<leftarrow> copy_from_slice (replicate COORDINATOR_SIZE 0) bs;
     (bs, next') \<leftarrow> split_at 1 next';
     mwm \<leftarrow> from_be_bytes 1 bs;
     Some \<lparr>port = port', timestamp = timestamp', coordinator = coordinator',
       minimum_weight_magnitude = mwm, supported_versions = next'\<rparr> }"

definition handshake_size :: "handshake \<Rightarrow> nat" where
  "handshake_size self = handshake_CONSTANT_SIZE + length (supported_versions self)"

definition handshake_into_bytes :: "handshake \<Rightarrow> bytes \<Rightarrow> bytes option" where
  "handshake_into_bytes self bs = do {
     (bs, next') \<leftarrow> split_at 2 bs;
     b1 \<leftarrow> copy_from_slice bs (to_be_bytes 2 (port self));
     (bs, next') \<leftarrow> split_at 8 next';
     b2 \<leftarrow> copy_from_slice bs (to_be_bytes 8 (timestamp self));
     (bs, next') \<leftarrow> split_at COORDINATOR_SIZE next';
     b3 \<leftarrow> copy_from_slice bs (coordinator self);
     (bs, next') \<leftarrow> split_at 1 next';
     b4 \<leftarrow> copy_from_slice bs (to_be_bytes 1 (minimum_weight_magnitude self));
     b5 \<leftarrow> copy_from_slice next' (supported_versions self);
     Some (b1 @ b2 @ b3 @ b4 @ b5) }"

definition Handshake :: "handshake message_impl" where
  "Handshake =
     \<lparr>msg_ID = 1, msg_size_range = (handshake_CONSTANT_SIZE + 1, handshake_CONSTANT_SIZE + 32 + 1),
      msg_from_bytes = handshake_from_bytes, msg_size = handshake_size, msg_into_bytes = handshake_into_bytes\<rparr>"

section \<open>LegacyGossip (v1/legacy_gossip.rs)\<close>

definition HASH_SIZE :: nat where "HASH_SIZE = 49"

record legacy_gossip =
  lg_transaction :: bytes
  lg_hash :: bytes

definition legacy_gossip_from_bytes :: "bytes \<Rightarrow> legacy_gossip option" where
  "legacy_gossip_from_bytes bs =
     (if HASH_SIZE \<le> length bs then do {
        (bs, next') \<leftarrow> split_at (length bs - HASH_SIZE) bs;
        hash \<leftarrow> copy_from_slice (replicate HASH_SIZE 0) next';
        Some \<lparr>lg_transaction = bs, lg_hash = hash\<rparr> }
      else None)"

definition legacy_gossip_into_bytes :: "legacy_gossip \<Rightarrow> bytes \<Rightarrow> bytes option" where
  "legacy_gossip_into_bytes self bs =
     (if length (lg_transaction self) \<le> length bs then do {
        b1 \<leftarrow> copy_from_slice (take (length (lg_transaction self)) bs) (lg_transaction self);
        b2 \<leftarrow> copy_from_slice (drop (length (lg_transaction self)) bs) (lg_hash self);
        Some (b1 @ b2) }
      else None)"

definition LegacyGossip :: "legacy_gossip message_impl" where
  "LegacyGossip =
     \<lparr>msg_ID = 2, msg_size_range = (HASH_SIZE + 292, HASH_SIZE + 1604 + 1),
      msg_from_bytes = legacy_gossip_from_bytes, msg_size = (\<lambda>m. length (lg_transaction m) + HASH_SIZE),
      msg_into_bytes = legacy_gossip_into_bytes\<rparr>"

section \<open>MilestoneRequest (v2/milestone_request.rs)\<close>

record milestone_request =
  mr_index :: u32

definition milestone_request_from_bytes :: "bytes \<Rightarrow> milestone_request option" where
  "milestone_request_from_bytes bs =
     (if 4 \<le> length bs
      then map_option (\<lambda>i. \<lparr>mr_index = i\<rparr>) (from_be_bytes 4 (take 4 bs))
      else None)"

definition milestone_request_into_bytes :: "milestone_request \<Rightarrow> bytes \<Rightarrow> bytes option" where
  "milestone_request_into_bytes self bs = copy_from_slice bs (to_be_bytes 4 (mr_index self))"

definition MilestoneRequest :: "milestone_request message_impl" where
  "MilestoneRequest =
     \<lparr>msg_ID = 3, msg_size_range = (4, 4 + 1),
      msg_from_bytes = milestone_request_from_bytes, msg_size = (\<lambda>_. 4),
      msg_into_bytes = milestone_request_into_bytes\<rparr>"

section \<open>TransactionBroadcast (v2/transaction_broadcast.rs)\<close>

record transaction_broadcast =
  tb_transaction :: bytes

definition transaction_broadcast_from_bytes :: "bytes \<Rightarrow> transaction_broadcast option" where
  "transaction_broadcast_from_bytes bs = Some \<lparr>tb_transaction = bs\<rparr>"

definition transaction_broadcast_into_bytes :: "transaction_broadcast \<Rightarrow> bytes \<Rightarrow> bytes option" where
  "transaction_broadcast_into_bytes self bs = copy_from_slice bs (tb_transaction self)"

definition TransactionBroadcast :: "transaction_broadcast message_impl" where
  "TransactionBroadcast =
     \<lparr>msg_ID = 4, msg_size_range = (292, 1604 + 1),
      msg_from_bytes = transaction_broadcast_from_bytes, msg_size = (\<lambda>m. length (tb_transaction m)),
      msg_into_bytes = transaction_broadcast_into_bytes\<rparr>"

section \<open>TransactionRequest (v2/transaction_request.rs)\<close>

record transaction_request =
  tr_hash :: bytes

definition transaction_request_new :: "bytes \<Rightarrow> transaction_request option" where
  "transaction_request_new hash =
     map_option (\<lambda>h. \<lparr>tr_hash = h\<rparr>) (copy_from_slice (replicate HASH_SIZE 0) hash)"

definition transaction_request_from_bytes :: "bytes \<Rightarrow> transaction_request option" where
  "transaction_request_from_bytes bs =
     (if HASH_SIZE \<le> length bs
      then map_option (\<lambda>h. \<lparr>tr_hash = h\<rparr>) (copy_from_slice (replicate HASH_SIZE 0) (take HASH_SIZE bs))
      else None)"

definition transaction_request_into_bytes :: "transaction_request \<Rightarrow> bytes \<Rightarrow> bytes option" where
  "transaction_request_into_bytes self bs = copy_from_slice bs (tr_hash self)"

definition TransactionRequest :: "transaction_request message_impl" where
  "TransactionRequest =
     \<lparr>msg_ID = 5, msg_size_range = (HASH_SIZE, HASH_SIZE + 1),
      msg_from_bytes = transaction_request_from_bytes, msg_size = (\<lambda>_. HASH_SIZE),
      msg_into_bytes = transaction_request_into_bytes\<rparr>"

section \<open>Heartbeat (v2/heartbeat.rs)\<close>

record heartbeat =
  solid_milestone_index :: u32
  snapshot_milestone_index :: u32

definition heartbeat_from_bytes :: "bytes \<Rightarrow> heartbeat option" where
  "heartbeat_from_bytes bs = do {
     (bs, next') \<leftarrow> split_at 4 bs;
     solid \<leftarrow> from_be_bytes 4 bs;
     (bs, _) \<leftarrow> split_at 4 next';
     snapshot \<leftarrow> from_be_bytes 4 bs;
     Some \<lparr>solid_milestone_index = solid, snapshot_milestone_index = snapshot\<rparr> }"

definition heartbeat_into_bytes :: "heartbeat \<Rightarrow> bytes \<Rightarrow> bytes option" where
  "heartbeat_into_bytes self bs =
     (if 4 \<le> length bs then do {
        b1 \<leftarrow> copy_from_slice (take 4 bs) (to_be_bytes 4 (solid_milestone_index self));
        b2 \<leftarrow> copy_from_slice (drop 4 bs) (to_be_bytes 4 (snapshot_milestone_index self));
        Some (b1 @ b2) }
      else None)"

definition Heartbeat :: "heartbeat message_impl" where
  "Heartbeat =
     \<lparr>msg_ID = 6, msg_size_range = (8, 8 + 1),
      msg_from_bytes = heartbeat_from_bytes, msg_size = (\<lambda>_. 8),
      msg_into_bytes = heartbeat_into_bytes\<rparr>"

section \<open>Compression of transactions (compression.rs)\<close>

definition NON_PAYLOAD_SIZE :: nat where "NON_PAYLOAD_SIZE = 292"
definition MAX_PAYLOAD_SIZE :: nat where "MAX_PAYLOAD_SIZE = 1312"
definition TRANSACTION_BYTE_LEN :: nat where "TRANSACTION_BYTE_LEN = 1604"

text \<open>The loop over the payload indices from the last one; \<open>bytes[i]\<close> out of range panics.\<close>

fun trimmed_loop :: "bytes \<Rightarrow> nat list \<Rightarrow> nat \<Rightarrow> nat option" where
  "trimmed_loop bs [] trimmed_size = Some trimmed_size"
| "trimmed_loop bs (i # is) trimmed_size =
     (if i < length bs
      then if bs ! i \<noteq> 0 then Some trimmed_size else trimmed_loop bs is (trimmed_size + 1)
      else None)"

definition compress_transaction_bytes :: "bytes \<Rightarrow> bytes option" where
  "compress_transaction_bytes bs = do {
     trimmed_size \<leftarrow> trimmed_loop bs (rev [0..<MAX_PAYLOAD_SIZE]) 0;
     let compressed = replicate (MAX_PAYLOAD_SIZE - trimmed_size + NON_PAYLOAD_SIZE) 0;
     if MAX_PAYLOAD_SIZE \<le> length bs then do {
       b1 \<leftarrow> copy_from_slice (take (MAX_PAYLOAD_SIZE - trimmed_size) compressed)
              (take (MAX_PAYLOAD_SIZE - trimmed_size) bs);
       b2 \<leftarrow> copy_from_slice (drop (MAX_PAYLOAD_SIZE - trimmed_size) compressed) (drop MAX_PAYLOAD_SIZE bs);
       Some (b1 @ b2) }
     else None }"

definition uncompress_transaction_bytes :: "bytes \<Rightarrow> bytes option" where
  "uncompress_transaction_bytes bs =
     (let uncompressed = replicate TRANSACTION_BYTE_LEN 0
      in if NON_PAYLOAD_SIZE \<le> length bs
         then let payload_size = length bs - NON_PAYLOAD_SIZE
              in if payload_size \<le> TRANSACTION_BYTE_LEN then do {
                   b1 \<leftarrow> copy_from_slice (take payload_size uncompressed) (take payload_size bs);
                   let uncompressed = b1 @ drop payload_size uncompressed;
                   b2 \<leftarrow> copy_from_slice (drop MAX_PAYLOAD_SIZE uncompressed) (drop payload_size bs);
                   Some (take MAX_PAYLOAD_SIZE uncompressed @ b2) }
                 else None
         else None)"

section \<open>Versions (version.rs)\<close>

definition MESSAGES_VERSIONS :: bytes where "MESSAGES_VERSIONS = [0 OR push_bit 1 1]"

text \<open>The loop that finds the number of the highest set bit, counting from one.\<close>

definition highest_bit :: "u8 \<Rightarrow> u8" where
  "highest_bit b = fold (\<lambda>j highest. if drop_bit j b AND 1 = 1 then word_of_nat j + 1 else highest) [0..<8] 0"

text \<open>\<open>u8\<close> arithmetic panics when it overflows.\<close>

definition checked_u8 :: "nat \<Rightarrow> u8 option" where
  "checked_u8 n = (if n < 256 then Some (word_of_nat n) else None)"

fun common_version_loop :: "nat \<Rightarrow> bytes \<Rightarrow> bytes \<Rightarrow> u8 \<Rightarrow> u8 option" where
  "common_version_loop i [] versions highest_supported = Some highest_supported"
| "common_version_loop i (own # owns) versions highest_supported =
     (if i \<ge> length versions then Some highest_supported
      else let supported = versions ! i AND own
           in if supported = 0 then common_version_loop (Suc i) owns versions highest_supported
              else do {
                base' \<leftarrow> checked_u8 (unat (word_of_nat i :: u8) * 8);
                v \<leftarrow> checked_u8 (unat (highest_bit supported) + unat base');
                common_version_loop (Suc i) owns versions v })"

definition common_supported_version :: "bytes \<Rightarrow> bytes \<Rightarrow> (u8 + u8) option" where
  "common_supported_version own_supported_versions versions = do {
     highest_supported_version \<leftarrow> common_version_loop 0 own_supported_versions versions 0;
     if highest_supported_version = 0
     then if versions = [] then None
          else do {
            base' \<leftarrow> checked_u8 (unat (word_of_nat (length versions - 1) :: u8) * 8);
            v \<leftarrow> checked_u8 (unat (highest_bit (last versions)) + unat base');
            Some (Inl v) }
     else Some (Inr highest_supported_version) }"

definition messages_supported_version :: "bytes \<Rightarrow> (u8 + u8) option" where
  "messages_supported_version versions = common_supported_version MESSAGES_VERSIONS versions"


section \<open>Big endian integers\<close>

lemma length_to_be_bytes [simp]: "length (to_be_bytes n w) = n"
  by (simp add: to_be_bytes_def)

lemma le_val_word_of_nat: "digits_below 256 ds \<Longrightarrow> le_val (map word_of_nat ds :: u8 list) = pos_val 256 ds"
  by (induction ds) (simp_all add: unat_word_of_nat_small)

lemma be_val_to_be_bytes: "be_val (to_be_bytes n w) = unat w mod 256 ^ n"
  by (simp add: be_val_def to_be_bytes_def le_val_word_of_nat pos_val_to_digits)

lemma pow_256: "(256::nat) ^ n = 2 ^ (8 * n)"
  by (simp add: power_mult)

lemma from_to_be_bytes:
  fixes w :: "'a::len word"
  assumes "LENGTH('a) = 8 * n"
  shows "from_be_bytes n (to_be_bytes n w) = Some w"
proof -
  have "unat w < 256 ^ n"
    using unat_less_pow [of w] unfolding assms pow_256 .
  then show ?thesis
    by (simp add: from_be_bytes_def be_val_to_be_bytes)
qed

lemma to_from_be_bytes:
  assumes "LENGTH('a) = 8 * n" "from_be_bytes n bs = Some (w :: 'a::len word)"
  shows "to_be_bytes n w = bs"
proof -
  have bs: "length bs = n" "w = word_of_nat (be_val bs)"
    using assms(2) by (auto simp: from_be_bytes_def split: if_splits)
  have "unat w = be_val bs"
    unfolding bs(2) using be_val_bound [of bs] assms(1) bs(1) by (intro unat_word_of_nat_small) simp
  then have "be_val (to_be_bytes n w) = be_val bs"
    unfolding be_val_to_be_bytes using be_val_bound [of bs] bs(1) by (simp add: pow_256)
  then show ?thesis
    using bs(1) by (intro be_val_inj) simp_all
qed

lemma from_be_bytes_Some: "length bs = n \<Longrightarrow> \<exists>w. from_be_bytes n bs = Some w"
  by (simp add: from_be_bytes_def)

lemma copy_from_slice_Some [simp]: "length dst = length src \<Longrightarrow> copy_from_slice dst src = Some src"
  by (simp add: copy_from_slice_def)

lemma copy_from_slice_iff: "copy_from_slice dst src = Some r \<longleftrightarrow> length dst = length src \<and> r = src"
  by (auto simp: copy_from_slice_def)

lemma split_at_append [simp]: "length xs = n \<Longrightarrow> split_at n (xs @ ys) = Some (xs, ys)"
  by (simp add: split_at_def)

lemma split_at_Some: "n \<le> length bs \<Longrightarrow> split_at n bs = Some (take n bs, drop n bs)"
  by (simp add: split_at_def)

section \<open>Headers\<close>

lemma header_to_bytes_eq:
  "length bs = 3 \<Longrightarrow> header_to_bytes h bs = Some (message_type h # to_be_bytes 2 (message_length h))"
  by (simp add: header_to_bytes_def)

lemma header_roundtrip:
  "header_from_bytes (message_type h # to_be_bytes 2 (message_length h)) = Some \<lparr>message_type = message_type h, message_length = message_length h\<rparr>"
  using from_to_be_bytes [of 2 "message_length h"]
  by (simp add: header_from_bytes_def HEADER_SIZE_def HEADER_TYPE_SIZE_def HEADER_LENGTH_SIZE_def)

section \<open>The interface of a message and its encoding\<close>

text \<open>
  What the encoding relies on of a message type: the sizes it declares fit in the sixteen bits of the
  header; a well-formed message written into a buffer of its size can be read back; every payload of
  an allowed size is read as a well-formed message, which writes that payload again.
\<close>

locale message =
  fixes M :: "'m message_impl" and valid :: "'m \<Rightarrow> bool"
  assumes range_small: "snd (msg_size_range M) \<le> 2 ^ 16"
    and into_from: "valid m \<Longrightarrow> length buf = msg_size M m \<Longrightarrow>
      \<exists>bs. msg_into_bytes M m buf = Some bs \<and> length bs = msg_size M m \<and> msg_from_bytes M bs = Some m"
    and from_into: "range_contains (msg_size_range M) (length bs) \<Longrightarrow>
      \<exists>m. msg_from_bytes M bs = Some m \<and> valid m \<and> msg_size M m = length bs"
begin

definition sendable :: "'m \<Rightarrow> bool" where
  "sendable m \<longleftrightarrow> valid m \<and> range_contains (msg_size_range M) (msg_size M m)"

lemma tlv_into_bytes_law:
  assumes "valid m"
  shows "\<exists>payload. tlv_into_bytes M m = Some (msg_ID M # to_be_bytes 2 (word_of_nat (msg_size M m) :: u16) @ payload)
    \<and> length payload = msg_size M m \<and> msg_from_bytes M payload = Some m"
proof -
  obtain payload where "msg_into_bytes M m (replicate (msg_size M m) 0) = Some payload"
    "length payload = msg_size M m" "msg_from_bytes M payload = Some m"
    using into_from [OF assms, of "replicate (msg_size M m) 0"] by auto
  then show ?thesis
    by (simp add: tlv_into_bytes_def Let_def HEADER_SIZE_def HEADER_TYPE_SIZE_def HEADER_LENGTH_SIZE_def
        split_at_Some header_to_bytes_eq)
qed

lemma tlv_roundtrip:
  assumes "sendable m"
  shows "\<exists>payload. tlv_into_bytes M m = Some (msg_ID M # to_be_bytes 2 (word_of_nat (msg_size M m) :: u16) @ payload)
    \<and> length payload = msg_size M m \<and> unat (word_of_nat (msg_size M m) :: u16) = length payload
    \<and> tlv_from_bytes M \<lparr>message_type = msg_ID M, message_length = word_of_nat (msg_size M m)\<rparr> payload
        = Some (Inr m)"
proof -
  have "msg_size M m < 2 ^ LENGTH(16)"
    using assms range_small by (simp add: sendable_def range_contains_def)
  then have "unat (word_of_nat (msg_size M m) :: u16) = msg_size M m"
    by (rule unat_word_of_nat_small)
  moreover obtain payload where
    "tlv_into_bytes M m = Some (msg_ID M # to_be_bytes 2 (word_of_nat (msg_size M m) :: u16) @ payload)"
    "length payload = msg_size M m" "msg_from_bytes M payload = Some m"
    using tlv_into_bytes_law [of m] assms by (auto simp: sendable_def)
  ultimately show ?thesis
    using assms by (intro exI [of _ payload]) (simp add: sendable_def tlv_from_bytes_def)
qed

text \<open>On every header and payload the decoder returns a well-formed message or one of the errors.\<close>

lemma tlv_from_bytes_law:
  "if message_type h = msg_ID M \<and> unat (message_length h) = length bs
      \<and> range_contains (msg_size_range M) (length bs)
   then \<exists>m. tlv_from_bytes M h bs = Some (Inr m) \<and> sendable m \<and> msg_size M m = length bs
   else \<exists>e. tlv_from_bytes M h bs = Some (Inl e)"
  using from_into [of bs] by (auto simp: tlv_from_bytes_def sendable_def)

lemma tlv_into_bytes_inj:
  assumes "sendable m" "sendable n" "tlv_into_bytes M m = tlv_into_bytes M n"
  shows "m = n"
proof -
  obtain p q where p: "tlv_into_bytes M m = Some (msg_ID M # to_be_bytes 2 (word_of_nat (msg_size M m) :: u16) @ p)"
    "msg_from_bytes M p = Some m"
    and q: "tlv_into_bytes M n = Some (msg_ID M # to_be_bytes 2 (word_of_nat (msg_size M n) :: u16) @ q)"
    "msg_from_bytes M q = Some n"
    using tlv_into_bytes_law [of m] tlv_into_bytes_law [of n] assms(1,2) unfolding sendable_def by blast
  have "to_be_bytes 2 (word_of_nat (msg_size M m) :: u16) @ p = to_be_bytes 2 (word_of_nat (msg_size M n) :: u16) @ q"
    using assms(3) unfolding p(1) q(1) by (simp only: option.inject list.inject)
  then have "p = q"
    by (simp add: append_eq_append_conv)
  then have "Some m = Some n"
    using p(2) q(2) by (simp only:)
  then show ?thesis
    by simp
qed

end


section \<open>Every message type provides the interface\<close>

definition handshake_valid :: "handshake \<Rightarrow> bool" where
  "handshake_valid m \<longleftrightarrow> length (coordinator m) = COORDINATOR_SIZE"

lemma handshake_from_to:
  assumes "handshake_valid m" "length buf = handshake_size m"
  shows "\<exists>bs. handshake_into_bytes m buf = Some bs \<and> length bs = handshake_size m \<and> handshake_from_bytes bs = Some m"
proof -
  let ?bs = "to_be_bytes 2 (port m) @ to_be_bytes 8 (timestamp m) @ coordinator m
    @ to_be_bytes 1 (minimum_weight_magnitude m) @ supported_versions m"
  have c: "length (coordinator m) = 49"
    using assms(1) by (simp add: handshake_valid_def COORDINATOR_SIZE_def)
  have "handshake_into_bytes m buf = Some ?bs"
    using assms(2) c
    by (simp add: handshake_into_bytes_def split_at_Some handshake_size_def handshake_CONSTANT_SIZE_def COORDINATOR_SIZE_def)
  moreover have "handshake_from_bytes ?bs = Some m"
    using c from_to_be_bytes [of 2 "port m"] from_to_be_bytes [of 8 "timestamp m"]
      from_to_be_bytes [of 1 "minimum_weight_magnitude m"]
    by (simp add: handshake_from_bytes_def COORDINATOR_SIZE_def)
  ultimately show ?thesis
    using c by (simp add: handshake_size_def handshake_CONSTANT_SIZE_def COORDINATOR_SIZE_def)
qed

lemma handshake_from_bytes_law:
  assumes "60 \<le> length bs"
  shows "\<exists>m. handshake_from_bytes bs = Some m \<and> handshake_valid m \<and> handshake_size m = length bs"
proof -
  obtain p :: u16 where "from_be_bytes 2 (take 2 bs) = Some p"
    using from_be_bytes_Some [of "take 2 bs" 2] assms by auto
  moreover obtain t :: u64 where "from_be_bytes 8 (take 8 (drop 2 bs)) = Some t"
    using from_be_bytes_Some [of "take 8 (drop 2 bs)" 8] assms by auto
  moreover obtain w :: u8 where "from_be_bytes 1 (take 1 (drop 59 bs)) = Some w"
    using from_be_bytes_Some [of "take 1 (drop 59 bs)" 1] assms by auto
  ultimately show ?thesis
    using assms by (simp add: handshake_from_bytes_def split_at_Some COORDINATOR_SIZE_def handshake_valid_def
        handshake_size_def handshake_CONSTANT_SIZE_def)
qed

interpretation handshake: message Handshake handshake_valid
proof
  fix bs :: bytes
  assume "range_contains (msg_size_range Handshake) (length bs)"
  then have "60 \<le> length bs"
    by (simp add: Handshake_def range_contains_def handshake_CONSTANT_SIZE_def COORDINATOR_SIZE_def)
  then show "\<exists>m. msg_from_bytes Handshake bs = Some m \<and> handshake_valid m \<and> msg_size Handshake m = length bs"
    using handshake_from_bytes_law by (simp add: Handshake_def)
qed (simp_all add: Handshake_def handshake_from_to handshake_CONSTANT_SIZE_def COORDINATOR_SIZE_def)

definition legacy_gossip_valid :: "legacy_gossip \<Rightarrow> bool" where
  "legacy_gossip_valid m \<longleftrightarrow> length (lg_hash m) = HASH_SIZE"

interpretation legacy_gossip: message LegacyGossip legacy_gossip_valid
  by unfold_locales
    (auto simp: LegacyGossip_def legacy_gossip_valid_def legacy_gossip_from_bytes_def legacy_gossip_into_bytes_def
      HASH_SIZE_def split_at_Some range_contains_def)

interpretation milestone_request: message MilestoneRequest "\<lambda>_. True"
  using from_to_be_bytes [where ?'a = 32 and n = 4]
  by unfold_locales
    (auto simp: MilestoneRequest_def milestone_request_from_bytes_def milestone_request_into_bytes_def
      range_contains_def from_be_bytes_def)

interpretation transaction_broadcast: message TransactionBroadcast "\<lambda>_. True"
  by unfold_locales
    (auto simp: TransactionBroadcast_def transaction_broadcast_from_bytes_def transaction_broadcast_into_bytes_def
      range_contains_def)

definition transaction_request_valid :: "transaction_request \<Rightarrow> bool" where
  "transaction_request_valid m \<longleftrightarrow> length (tr_hash m) = HASH_SIZE"

interpretation transaction_request: message TransactionRequest transaction_request_valid
  by unfold_locales
    (auto simp: TransactionRequest_def transaction_request_valid_def transaction_request_from_bytes_def
      transaction_request_into_bytes_def HASH_SIZE_def range_contains_def)

lemma heartbeat_from_to:
  assumes "length buf = 8"
  shows "\<exists>bs. heartbeat_into_bytes m buf = Some bs \<and> length bs = 8 \<and> heartbeat_from_bytes bs = Some m"
proof -
  let ?bs = "to_be_bytes 4 (solid_milestone_index m) @ to_be_bytes 4 (snapshot_milestone_index m)"
  have "heartbeat_into_bytes m buf = Some ?bs"
    using assms by (simp add: heartbeat_into_bytes_def)
  moreover have "heartbeat_from_bytes ?bs = Some m"
    using from_to_be_bytes [of 4 "solid_milestone_index m"] from_to_be_bytes [of 4 "snapshot_milestone_index m"]
      split_at_append [of "to_be_bytes 4 (snapshot_milestone_index m)" 4 "[]"]
    by (simp add: heartbeat_from_bytes_def)
  ultimately show ?thesis
    by simp
qed

lemma heartbeat_from_bytes_law: "length bs = 8 \<Longrightarrow> \<exists>m. heartbeat_from_bytes bs = Some m"
  by (simp add: heartbeat_from_bytes_def split_at_Some from_be_bytes_def)

interpretation heartbeat: message Heartbeat "\<lambda>_. True"
  by unfold_locales
    (auto simp: Heartbeat_def heartbeat_from_to range_contains_def intro: heartbeat_from_bytes_law)

section \<open>Compression\<close>

lemma trimmed_loop_law:
  "k \<le> length bs \<Longrightarrow>
   \<exists>t. trimmed_loop bs (rev [0..<k]) n = Some (n + t) \<and> t \<le> k \<and> drop (k - t) (take k bs) = replicate t 0"
proof (induction k arbitrary: n)
  case (Suc k)
  show ?case
  proof (cases "bs ! k = 0")
    case True
    obtain t where t: "trimmed_loop bs (rev [0..<k]) (n + 1) = Some (n + 1 + t)" "t \<le> k"
      "drop (k - t) (take k bs) = replicate t 0"
      using Suc by fastforce
    have "take (Suc k) bs = take k bs @ [0]"
      using Suc.prems True by (simp add: take_Suc_conv_app_nth)
    then have "drop (Suc k - Suc t) (take (Suc k) bs) = replicate (Suc t) 0"
      using t(2,3) Suc.prems by (simp add: replicate_append_same)
    then show ?thesis
      using t True Suc.prems by (intro exI [of _ "Suc t"]) simp
  next
    case False
    then show ?thesis
      using Suc.prems by (intro exI [of _ 0]) simp
  qed
qed simp

lemma compress_law:
  assumes "length bs = 1604"
  shows "\<exists>t \<le> 1312. compress_transaction_bytes bs = Some (take (1312 - t) bs @ drop 1312 bs)
    \<and> drop (1312 - t) (take 1312 bs) = replicate t 0"
proof -
  obtain t where t: "trimmed_loop bs (rev [0..<1312]) 0 = Some t" "t \<le> 1312"
    "drop (1312 - t) (take 1312 bs) = replicate t 0"
    using trimmed_loop_law [of 1312 bs 0] assms by auto
  then show ?thesis
    using assms by (auto simp: compress_transaction_bytes_def MAX_PAYLOAD_SIZE_def NON_PAYLOAD_SIZE_def Let_def)
qed

lemma uncompress_length:
  assumes "292 \<le> length bs" "length bs \<le> 1604"
  shows "\<exists>b. uncompress_transaction_bytes bs = Some b \<and> length b = 1604"
  using assms
  by (simp add: uncompress_transaction_bytes_def TRANSACTION_BYTE_LEN_def MAX_PAYLOAD_SIZE_def NON_PAYLOAD_SIZE_def
      Let_def copy_from_slice_def)

lemma uncompress_law:
  assumes "length payload \<le> 1312" "length rest = 292"
  shows "uncompress_transaction_bytes (payload @ rest) =
    Some (payload @ replicate (1312 - length payload) 0 @ rest)"
  using assms
  by (simp add: uncompress_transaction_bytes_def TRANSACTION_BYTE_LEN_def MAX_PAYLOAD_SIZE_def NON_PAYLOAD_SIZE_def
      Let_def)


section \<open>Versions\<close>

lemma drop_bit_and_1: "drop_bit j b AND 1 = 1 \<longleftrightarrow> bit b j" for b :: "'a::len word"
  by (simp add: bit_iff_odd_drop_bit and_one_eq odd_iff_mod_2_eq_one)

lemma highest_bit_eq:
  "highest_bit b =
     (if bit b 7 then 8 else if bit b 6 then 7 else if bit b 5 then 6 else if bit b 4 then 5
      else if bit b 3 then 4 else if bit b 2 then 3 else if bit b 1 then 2 else if bit b 0 then 1 else 0)"
proof -
  have "[0..<8] = [0, 1, 2, 3, 4, 5, 6, 7 :: nat]"
    by (simp add: upt_rec)
  then show ?thesis
    unfolding highest_bit_def drop_bit_and_1 by simp
qed

lemma unat_highest_bit: "unat (highest_bit b) \<le> 8" "unat (highest_bit b) = 8 \<longleftrightarrow> bit b 7"
  by (simp_all add: highest_bit_eq)

lemma and_2_eq: "b AND 2 = (if bit b 1 then 2 else 0)" for b :: u8
proof (rule bit_eqI)
  fix k
  have "bit (2 :: u8) k \<longleftrightarrow> k = 1" if "possible_bit TYPE(u8) k"
    using that by (simp add: bit_2_iff)
  then show "possible_bit TYPE(u8) k \<Longrightarrow> bit (b AND 2) k = bit (if bit b 1 then 2 else 0 :: u8) k"
    by (auto simp: bit_and_iff)
qed

lemma messages_supported_version_eq:
  assumes "versions \<noteq> []" "length versions \<le> 32"
  shows "messages_supported_version versions =
    (if bit (hd versions) 1 then Some (Inr 2)
     else if length versions = 32 \<and> bit (last versions) 7 then None
     else Some (Inl (word_of_nat (unat (highest_bit (last versions)) + 8 * (length versions - 1)))))"
proof -
  obtain v vs where v: "versions = v # vs"
    using assms(1) by (cases versions) auto
  have loop: "common_version_loop 0 MESSAGES_VERSIONS versions 0 = Some (if bit v 1 then 2 else 0)"
    by (simp add: v MESSAGES_VERSIONS_def and_2_eq highest_bit_eq checked_u8_def Let_def bit_2_iff)
  have "length vs < 2 ^ LENGTH(8)"
    using assms(2) v by simp
  then have l: "unat (word_of_nat (length vs) :: u8) = length vs"
    by (rule unat_word_of_nat_small)
  have "unat (word_of_nat (length vs * 8) :: u8) = length vs * 8"
    using assms(2) v by (intro unat_word_of_nat_small) simp
  moreover have "unat (highest_bit (last versions)) + length vs * 8 < 256 \<longleftrightarrow>
      \<not> (length vs = 31 \<and> bit (last versions) 7)"
    using assms(2) v unat_highest_bit [of "last versions"] by auto
  ultimately show ?thesis
    using assms loop l v
    by (simp add: messages_supported_version_def common_supported_version_def checked_u8_def mult.commute)
qed

section \<open>Properties\<close>

text \<open>A byte string that decodes as one encoded message: its header and the payload after it.\<close>

definition decodes_to :: "'m message_impl \<Rightarrow> bytes \<Rightarrow> 'm \<Rightarrow> bool" where
  "decodes_to M bs m \<longleftrightarrow>
     (case header_from_bytes (take HEADER_SIZE bs) of
        None \<Rightarrow> False
      | Some h \<Rightarrow> tlv_from_bytes M h (drop HEADER_SIZE bs) = Some (Inr m))"

context message
begin

lemma encode_decodes:
  assumes "valid m" "range_contains (msg_size_range M) (msg_size M m)"
  shows "\<exists>bs. tlv_into_bytes M m = Some bs \<and> length bs = 3 + msg_size M m \<and> decodes_to M bs m"
proof -
  let ?h = "\<lparr>message_type = msg_ID M, message_length = word_of_nat (msg_size M m)\<rparr>"
  obtain payload where p: "tlv_into_bytes M m = Some (msg_ID M # to_be_bytes 2 (message_length ?h) @ payload)"
    "length payload = msg_size M m" "tlv_from_bytes M ?h payload = Some (Inr m)"
    using tlv_roundtrip [of m] assms by (auto simp: sendable_def)
  have "header_from_bytes (msg_ID M # to_be_bytes 2 (message_length ?h)) = Some ?h"
    using header_roundtrip [of ?h] by simp
  then show ?thesis
    using p by (simp add: decodes_to_def HEADER_SIZE_def HEADER_TYPE_SIZE_def HEADER_LENGTH_SIZE_def)
qed

lemma decode_total: "tlv_from_bytes M h bs \<noteq> None"
  using tlv_from_bytes_law [of h bs] by (auto split: if_splits)

end

text \<open>
  C25. Every message of the protocol, encoded by \<open>tlv_into_bytes\<close>, decodes to itself: a handshake
  with a coordinator key of 49 bytes and 1 to 32 version bytes, a gossip message or a broadcast whose
  transaction has 292 to 1604 bytes, the two requests and the heartbeat.
\<close>

theorem messages_roundtrip:
  assumes "length (coordinator hs) = 49" "1 \<le> length (supported_versions hs)" "length (supported_versions hs) \<le> 32"
    and "length (lg_hash lg) = 49" "292 \<le> length (lg_transaction lg)" "length (lg_transaction lg) \<le> 1604"
    and "292 \<le> length (tb_transaction tb)" "length (tb_transaction tb) \<le> 1604"
    and "length (tr_hash tr) = 49"
  shows "(\<exists>bs. tlv_into_bytes Handshake hs = Some bs \<and> decodes_to Handshake bs hs)
    \<and> (\<exists>bs. tlv_into_bytes LegacyGossip lg = Some bs \<and> decodes_to LegacyGossip bs lg)
    \<and> (\<exists>bs. tlv_into_bytes MilestoneRequest mr = Some bs \<and> decodes_to MilestoneRequest bs mr)
    \<and> (\<exists>bs. tlv_into_bytes TransactionBroadcast tb = Some bs \<and> decodes_to TransactionBroadcast bs tb)
    \<and> (\<exists>bs. tlv_into_bytes TransactionRequest tr = Some bs \<and> decodes_to TransactionRequest bs tr)
    \<and> (\<exists>bs. tlv_into_bytes Heartbeat hb = Some bs \<and> decodes_to Heartbeat bs hb)"
proof (intro conjI)
  show "\<exists>bs. tlv_into_bytes Handshake hs = Some bs \<and> decodes_to Handshake bs hs"
    using handshake.encode_decodes [of hs] assms
    by (fastforce simp: handshake_valid_def COORDINATOR_SIZE_def Handshake_def range_contains_def
        handshake_size_def handshake_CONSTANT_SIZE_def)
  show "\<exists>bs. tlv_into_bytes LegacyGossip lg = Some bs \<and> decodes_to LegacyGossip bs lg"
    using legacy_gossip.encode_decodes [of lg] assms
    by (fastforce simp: legacy_gossip_valid_def HASH_SIZE_def LegacyGossip_def range_contains_def)
  show "\<exists>bs. tlv_into_bytes MilestoneRequest mr = Some bs \<and> decodes_to MilestoneRequest bs mr"
    using milestone_request.encode_decodes [of mr] by (fastforce simp: MilestoneRequest_def range_contains_def)
  show "\<exists>bs. tlv_into_bytes TransactionBroadcast tb = Some bs \<and> decodes_to TransactionBroadcast bs tb"
    using transaction_broadcast.encode_decodes [of tb] assms
    by (fastforce simp: TransactionBroadcast_def range_contains_def)
  show "\<exists>bs. tlv_into_bytes TransactionRequest tr = Some bs \<and> decodes_to TransactionRequest bs tr"
    using transaction_request.encode_decodes [of tr] assms
    by (fastforce simp: transaction_request_valid_def HASH_SIZE_def TransactionRequest_def range_contains_def)
  show "\<exists>bs. tlv_into_bytes Heartbeat hb = Some bs \<and> decodes_to Heartbeat bs hb"
    using heartbeat.encode_decodes [of hb] by (fastforce simp: Heartbeat_def range_contains_def)
qed

theorem messages_roundtrip_witness:
  "\<exists>bs. tlv_into_bytes Handshake
      \<lparr>port = 15600, timestamp = 1, coordinator = replicate 49 7, minimum_weight_magnitude = 14,
       supported_versions = [2]\<rparr> = Some bs
    \<and> decodes_to Handshake bs
      \<lparr>port = 15600, timestamp = 1, coordinator = replicate 49 7, minimum_weight_magnitude = 14,
       supported_versions = [2]\<rparr>"
  using messages_roundtrip [of "\<lparr>port = 15600, timestamp = 1, coordinator = replicate 49 7,
      minimum_weight_magnitude = 14, supported_versions = [2]\<rparr>"
      "\<lparr>lg_transaction = replicate 292 0, lg_hash = replicate 49 0\<rparr>" "\<lparr>tb_transaction = replicate 292 0\<rparr>"
      "\<lparr>tr_hash = replicate 49 0\<rparr>"] by simp

text \<open>
  Decoding never panics, whatever header and payload a peer sends: the result is a message or an
  error value for every message type.
\<close>

theorem tlv_from_bytes_no_panic:
  "tlv_from_bytes Handshake h bs \<noteq> None \<and> tlv_from_bytes LegacyGossip h bs \<noteq> None
   \<and> tlv_from_bytes MilestoneRequest h bs \<noteq> None \<and> tlv_from_bytes TransactionBroadcast h bs \<noteq> None
   \<and> tlv_from_bytes TransactionRequest h bs \<noteq> None \<and> tlv_from_bytes Heartbeat h bs \<noteq> None"
  by (intro conjI) (rule handshake.decode_total legacy_gossip.decode_total milestone_request.decode_total
      transaction_broadcast.decode_total transaction_request.decode_total heartbeat.decode_total)+

lemma compress_roundtrip_law:
  assumes "length bs = 1604"
  shows "\<exists>cs. compress_transaction_bytes bs = Some cs \<and> 292 \<le> length cs \<and> length cs \<le> 1604
    \<and> uncompress_transaction_bytes cs = Some bs"
proof -
  obtain t where t: "t \<le> 1312" "compress_transaction_bytes bs = Some (take (1312 - t) bs @ drop 1312 bs)"
    "drop (1312 - t) (take 1312 bs) = replicate t 0"
    using compress_law [OF assms] by blast
  have "take (1312 - t) bs @ replicate t 0 = take 1312 bs"
    using append_take_drop_id [of "1312 - t" "take 1312 bs"] t(3) by simp
  then have "take (1312 - t) bs @ replicate t 0 @ drop 1312 bs = bs"
    by (metis append.assoc append_take_drop_id)
  then show ?thesis
    using uncompress_law [of "take (1312 - t) bs" "drop 1312 bs"] t(1,2) assms by simp
qed

text \<open>
  Compressing the 1604 bytes of a transaction drops exactly trailing zeros of the payload, and
  uncompressing the result restores the transaction.
\<close>

theorem compression_roundtrip:
  assumes "length bs = 1604"
  shows "\<exists>cs. compress_transaction_bytes bs = Some cs \<and> 292 \<le> length cs \<and> length cs \<le> 1604
    \<and> uncompress_transaction_bytes cs = Some bs"
  by (rule compress_roundtrip_law [OF assms])

theorem compression_roundtrip_witness:
  "\<exists>cs. compress_transaction_bytes (replicate 1604 0) = Some cs \<and> 292 \<le> length cs \<and> length cs \<le> 1604
    \<and> uncompress_transaction_bytes cs = Some (replicate 1604 0)"
  by (rule compression_roundtrip) simp

text \<open>
  Version negotiation with this node's versions: a peer that supports version 2 gets version 2;
  any other peer gets the highest version it advertises back as an error, except that 32 version
  bytes with the top bit of the last one set overflow the \<open>u8\<close> and panic.
\<close>

theorem version_negotiation_correct:
  assumes "versions \<noteq> []" "length versions \<le> 32"
  shows "messages_supported_version versions =
    (if bit (hd versions) 1 then Some (Inr 2)
     else if length versions = 32 \<and> bit (last versions) 7 then None
     else Some (Inl (word_of_nat (unat (highest_bit (last versions)) + 8 * (length versions - 1)))))"
  using assms by (rule messages_supported_version_eq)

theorem version_negotiation_correct_witness:
  "messages_supported_version [3] = Some (Inr 2) \<and> messages_supported_version [1, 4] = Some (Inl 11)
   \<and> messages_supported_version (replicate 31 0 @ [128]) = None"
proof (intro conjI)
  show "messages_supported_version [3] = Some (Inr 2)"
    using version_negotiation_correct [of "[3]"] by (simp add: bit_iff_odd)
  show "messages_supported_version [1, 4] = Some (Inl 11)"
    using version_negotiation_correct [of "[1, 4]"] by (simp add: highest_bit_eq bit_iff_odd)
  show "messages_supported_version (replicate 31 0 @ [128]) = None"
    using version_negotiation_correct [of "replicate 31 0 @ [128]"] by (simp add: bit_iff_odd)
qed

end
