(* ===== verification/Wire_Trits.thy ===== *)
theory Wire_Trits
  imports Trit_Slices Messages
begin

text \<open>
  Trits on the wire: the workers and the configuration send trits as the bytes of their T5B1 encoding and
  read them back with \<open>Trits::try_from_raw\<close>. The casts between \<open>u8\<close> and \<open>i8\<close> (\<open>cast_slice\<close> of bytemuck,
  a raw pointer cast) keep the bits. Reading what was written gives the trits back.
\<close>

definition cast_i8 :: "bytes \<Rightarrow> i8 list" where
  "cast_i8 bs = map sint bs"

definition cast_u8 :: "i8 list \<Rightarrow> bytes" where
  "cast_u8 bs = map word_of_int bs"

text \<open>\<open>cast_slice(trits.encode::<T5B1Buf>().as_i8_slice())\<close>\<close>

definition t5b1_bytes :: "btrit list \<Rightarrow> bytes option" where
  "t5b1_bytes trits = do {
     buf \<leftarrow> trits_encode t1b1_buf t5b1_buf trits;
     (ptr, len) \<leftarrow> enc_as_i8_slice t5b1_raw (raw_as_slice t5b1 buf);
     Some (cast_u8 (take len (drop ptr (packed_buf.bytes buf)))) }"

text \<open>The trits of a slice, collected into a buffer (\<open>to_buf\<close>).\<close>

definition slice_to_buf :: "('b, btrit) raw_encoding_buf \<Rightarrow> i8 list \<Rightarrow> slice \<Rightarrow> 'b option" where
  "slice_to_buf d raw s = do {
     ts \<leftarrow> those (map (raw_get_unchecked t5b1 raw s) [0..<raw_len t5b1 s]);
     trit_buf_from_iter d ts }"

lemma slice_to_buf_law:
  assumes "wf_slice t5b1 raw s"
  shows "slice_to_buf d raw s = trit_buf_from_iter d (slice_trits t5b1 raw s)"
proof -
  have "map (raw_get_unchecked t5b1 raw s) [0..<raw_len t5b1 s] = map Some (slice_trits t5b1 raw s)"
    using t5b1.raw_get_law [OF assms] length_slice_trits [of t5b1 raw s] by (intro nth_equalityI) simp_all
  then show ?thesis
    using map_Some_those [of "\<lambda>x. x" "slice_trits t5b1 raw s"] by (simp add: slice_to_buf_def)
qed

lemma from_iter_t1b1: "trit_buf_from_iter t1b1_buf ts = Some ts"
proof -
  have "push_all t1b1_buf xs ts = Some (xs @ ts)" for xs
    by (induction ts arbitrary: xs) (simp_all add: t1b1_buf_def t1b1_push_def)
  then show ?thesis
    by (simp add: trit_buf_from_iter_def t1b1_buf_def)
qed

lemma cast_i8_cast_u8: "list_all (is_valid t5b1) bs \<Longrightarrow> cast_i8 (cast_u8 bs) = bs"
  by (induction bs) (simp_all add: cast_i8_def cast_u8_def t5b1_defs sint_sbintrunc' signed_take_bit_int_eq_self)

text \<open>Writing trits, and reading them back with the number of trits written.\<close>

lemma t5b1_bytes_law:
  assumes "length ts \<le> packed_cap t5b1"
  shows "\<exists>bs s. t5b1_bytes ts = Some bs \<and> length bs = (length ts + 4) div 5
    \<and> raw_try_from_raw t5b1 (cast_i8 bs) (length ts) = Some (Inr s) \<and> wf_slice t5b1 (cast_i8 bs) s
    \<and> slice_trits t5b1 (cast_i8 bs) s = ts"
proof -
  obtain b where b: "trit_buf_from_iter t5b1_buf ts = Some b" "packed_inv t5b1 b" "packed_trits t5b1 b = ts"
    using t5b1.from_iter_law [OF assms] unfolding t5b1_buf_def by blast
  have count: "count b = length ts"
    using length_packed_trits [of t5b1 b] b(3) by simp
  have len: "length (packed_buf.bytes b) = (length ts + 4) div 5" and valid: "list_all (is_valid t5b1) (packed_buf.bytes b)"
    using b(2) ceil_div_5 [of "count b"] count unfolding packed_inv_def by (simp_all add: t5b1_def)
  have off: "raw_len_offset t5b1 (raw_as_slice t5b1 b) = (count b, 0)"
    using t5b1.as_slice_law(2,3) [OF b(2)] by (simp add: raw_len_def trit_addr_def prod_eq_iff)
  have "base (raw_as_slice t5b1 b) = 0" "TPB t5b1 = 5"
    by (simp_all add: raw_as_slice_def raw_make_def t5b1_def)
  then have "enc_as_i8_slice t5b1_raw (raw_as_slice t5b1 b) = Some (0, length (packed_buf.bytes b))"
    using off len count by (simp add: t5b1_raw_def raw_as_i8_slice_parts_def raw_len_def raw_ptr_def)
  moreover have "trits_encode t1b1_buf t5b1_buf ts = Some b"
    using b(1) by (simp add: trits_encode_def trits_iter_t1b1)
  ultimately have bs: "t5b1_bytes ts = Some (cast_u8 (packed_buf.bytes b))"
    by (simp add: t5b1_bytes_def)
  have "raw_try_from_raw t5b1 (packed_buf.bytes b) (length ts) = Some (Inr (raw_as_slice t5b1 b))"
    using valid len count by (simp add: raw_try_from_raw_def raw_from_raw_unchecked_def raw_as_slice_def) (simp add: t5b1_def)
  then show ?thesis
    using bs len valid t5b1.as_slice_law(1,4) [OF b(2)] b(3)
    by (simp add: cast_i8_cast_u8) (simp add: cast_u8_def)
qed

end
