(* ===== verification/Mss.thy ===== *)
theory Mss
  imports Wots
begin

text \<open>
  Merkle signatures over a one-time scheme (src/bee-signing/src/mss.rs). A private key holds the keys of
  the leaves and the whole tree as one buffer of trits, node \<open>i\<close> at trit \<open>243 * i\<close>, its children at
  \<open>2 * i + 1\<close> and \<open>2 * i + 2\<close>. Both the sponge and the one-time scheme are dictionaries of their traits.

  The result: what is signed verifies, for every leaf of a tree of every allowed depth but zero, which
  the builder accepts and the generator panics on.
\<close>

section \<open>Generation of keys\<close>

datatype mss_error =
    InvalidDepth u8
  | MissingDepth
  | MissingGenerator
  | FailedUnderlyingPrivateKeyGeneration
  | FailedUnderlyingPublicKeyGeneration
  | FailedUnderlyingSignatureGeneration
  | FailedUnderlyingPublicKeyRecovery
  | MssFailedSpongeOperation

record 'g mss_builder =
  mb_depth :: "u8 option"
  mb_generator :: "'g option"

record 'g mss_generator =
  mg_depth :: u8
  mg_generator :: 'g

definition mss_builder_default :: "'g mss_builder" where
  "mss_builder_default = \<lparr>mb_depth = None, mb_generator = None\<rparr>"

definition mss_depth :: "'g mss_builder \<Rightarrow> u8 \<Rightarrow> 'g mss_builder" where
  "mss_depth self depth = self\<lparr>mb_depth := Some depth\<rparr>"

definition mss_builder_generator :: "'g mss_builder \<Rightarrow> 'g \<Rightarrow> 'g mss_builder" where
  "mss_builder_generator self generator = self\<lparr>mb_generator := Some generator\<rparr>"

definition mss_build :: "'g mss_builder \<Rightarrow> mss_error + 'g mss_generator" where
  "mss_build self =
     (case mb_depth self of
        None \<Rightarrow> Inl MissingDepth
      | Some depth \<Rightarrow>
          if depth \<le> 20
          then (case mb_generator self of
                  None \<Rightarrow> Inl MissingGenerator
                | Some generator \<Rightarrow> Inr \<lparr>mg_depth = depth, mg_generator = generator\<rparr>)
          else Inl (InvalidDepth depth))"

record 'k mss_private_key =
  mpk_depth :: u8
  mpk_index :: u64
  mpk_keys :: "'k list"
  mpk_tree :: "btrit list"

text \<open>\<open>self.depth - 1\<close> on a \<open>u8\<close>.\<close>

definition depth_minus_1 :: "u8 \<Rightarrow> nat option" where
  "depth_minus_1 depth = (if depth = 0 then None else Some (unat depth - 1))"

text \<open>The loop over the leaves; \<open>n\<close> is \<open>1 << (self.depth - 1)\<close>.\<close>

fun mss_leaves_loop ::
  "('sd, 'k, 'e) ots_scheme \<Rightarrow> 'sd \<Rightarrow> nat \<Rightarrow> nat list \<Rightarrow> 'k list \<Rightarrow> btrit list
    \<Rightarrow> (mss_error + 'k list \<times> btrit list) option" where
  "mss_leaves_loop O' seed n [] keys tree = Some (Inr (keys, tree))"
| "mss_leaves_loop O' seed n (key_index # is) keys tree = do {
     r \<leftarrow> ots_generate O' seed (word_of_nat key_index);
     (case r of
        Inl _ \<Rightarrow> Some (Inl FailedUnderlyingPrivateKeyGeneration)
      | Inr ots_private_key \<Rightarrow> do {
          r \<leftarrow> ots_public_key O' ots_private_key;
          (case r of
             Inl _ \<Rightarrow> Some (Inl FailedUnderlyingPublicKeyGeneration)
           | Inr public_key \<Rightarrow> do {
               let tree_index = n + key_index - 1;
               tree \<leftarrow> t1b1_copy_into tree (tree_index * 243) ((tree_index + 1) * 243) public_key;
               mss_leaves_loop O' seed n is (keys @ [ots_private_key]) tree }) }) }"

text \<open>Hashing two nodes into a buffer, in generation and in verification.\<close>

definition hash_nodes ::
  "('s, 'e) sponge \<Rightarrow> 's \<Rightarrow> btrit list \<Rightarrow> btrit list \<Rightarrow> btrit list \<Rightarrow> ('s \<times> (mss_error + btrit list)) option" where
  "hash_nodes S sponge left' right' buf = do {
     (sponge, r) \<leftarrow> sp_absorb S sponge left';
     (case r of
        Inl _ \<Rightarrow> Some (sponge, Inl MssFailedSpongeOperation)
      | Inr _ \<Rightarrow> do {
          (sponge, r) \<leftarrow> sp_absorb S sponge right';
          (case r of
             Inl _ \<Rightarrow> Some (sponge, Inl MssFailedSpongeOperation)
           | Inr _ \<Rightarrow> do {
               (sponge, buf, r) \<leftarrow> sp_squeeze_into S sponge buf;
               (case r of
                  Inl _ \<Rightarrow> Some (sponge, Inl MssFailedSpongeOperation)
                | Inr _ \<Rightarrow> Some (sp_reset S sponge, Inr buf)) }) }) }"

text \<open>One row of the tree, \<open>n\<close> being \<open>1 << depth\<close>, and all rows from the leaves up.\<close>

fun mss_row_loop ::
  "('s, 'e) sponge \<Rightarrow> nat \<Rightarrow> nat list \<Rightarrow> 's \<Rightarrow> btrit list \<Rightarrow> ('s \<times> (mss_error + btrit list)) option" where
  "mss_row_loop S n [] sponge tree = Some (sponge, Inr tree)"
| "mss_row_loop S n (i # is) sponge tree = do {
     let index = n + i - 1;
     let left_index = index * 2 + 1;
     let right_index = left_index + 1;
     left_trits \<leftarrow> t1b1_slice tree (left_index * 243) ((left_index + 1) * 243);
     right_trits \<leftarrow> t1b1_slice tree (right_index * 243) ((right_index + 1) * 243);
     buf \<leftarrow> t1b1_slice tree (index * 243) ((index + 1) * 243);
     (sponge, r) \<leftarrow> hash_nodes S sponge left_trits right_trits buf;
     (case r of
        Inl e \<Rightarrow> Some (sponge, Inl e)
      | Inr buf \<Rightarrow> do {
          tree \<leftarrow> t1b1_copy_into tree (index * 243) ((index + 1) * 243) buf;
          mss_row_loop S n is sponge tree }) }"

fun mss_rows_loop ::
  "('s, 'e) sponge \<Rightarrow> nat list \<Rightarrow> 's \<Rightarrow> btrit list \<Rightarrow> (mss_error + btrit list) option" where
  "mss_rows_loop S [] sponge tree = Some (Inr tree)"
| "mss_rows_loop S (depth # depths) sponge tree = do {
     (sponge, r) \<leftarrow> mss_row_loop S (2 ^ depth) [0..<2 ^ depth] sponge tree;
     (case r of
        Inl e \<Rightarrow> Some (Inl e)
      | Inr tree \<Rightarrow> mss_rows_loop S depths sponge tree) }"

definition mss_generate ::
  "('s, 'e) sponge \<Rightarrow> ('sd, 'k, 'f) ots_scheme mss_generator \<Rightarrow> 'sd \<Rightarrow> (mss_error + 'k mss_private_key) option" where
  "mss_generate S self seed = do {
     tree \<leftarrow> trit_buf_zeros t1b1_buf Zero ((2 ^ unat (mg_depth self) - 1) * 243);
     d \<leftarrow> depth_minus_1 (mg_depth self);
     r \<leftarrow> mss_leaves_loop (mg_generator self) seed (2 ^ d) [0..<2 ^ d] [] tree;
     (case r of
        Inl e \<Rightarrow> Some (Inl e)
      | Inr (keys, tree) \<Rightarrow> do {
          r \<leftarrow> mss_rows_loop S (rev [0..<d]) (sp_default S) tree;
          Some (case r of
             Inl e \<Rightarrow> Inl e
           | Inr tree \<Rightarrow> Inr \<lparr>mpk_depth = mg_depth self, mpk_index = 0, mpk_keys = keys, mpk_tree = tree\<rparr>) }) }"

section \<open>Signing and verification\<close>

record mss_public_key =
  mpub_state :: "btrit list"
  mpub_depth :: u8

record mss_signature =
  msig_state :: "btrit list"
  msig_index :: u64

definition mss_generate_public_key :: "'k mss_private_key \<Rightarrow> mss_public_key option" where
  "mss_generate_public_key self = do {
     state \<leftarrow> t1b1_slice (mpk_tree self) 0 243;
     Some \<lparr>mpub_state = state, mpub_depth = mpk_depth self\<rparr> }"

text \<open>The \<open>while\<close> loop that copies the siblings on the way to the root.\<close>

function mss_siblings_loop :: "btrit list \<Rightarrow> nat \<Rightarrow> nat \<Rightarrow> nat \<Rightarrow> btrit list \<Rightarrow> btrit list option" where
  "mss_siblings_loop tree size' tree_index i state =
     (if tree_index \<noteq> 0
      then do {
        let sibling_index = (if tree_index mod 2 \<noteq> 0 then tree_index + 1 else tree_index - 1);
        sibling \<leftarrow> t1b1_slice tree (sibling_index * 243) ((sibling_index + 1) * 243);
        state \<leftarrow> t1b1_copy_into state (size' + i * 243) (size' + (i + 1) * 243) sibling;
        mss_siblings_loop tree size'
          (if tree_index mod 2 \<noteq> 0 then tree_index div 2 else (tree_index - 1) div 2) (i + 1) state }
      else Some state)"
  by auto
termination
  by (relation "measure (\<lambda>(_, _, t, _, _). t)") auto

declare mss_siblings_loop.simps [simp del]

definition mss_sign ::
  "('sd, 'k, 'e) ots_scheme \<Rightarrow> 'k mss_private_key \<Rightarrow> i8 list
    \<Rightarrow> ('k mss_private_key \<times> (mss_error + mss_signature)) option" where
  "mss_sign O' self message' = do {
     ots_private_key \<leftarrow> t1b1_get (mpk_keys self) (unat (mpk_index self));
     (ots_private_key, r) \<leftarrow> ots_sign O' ots_private_key message';
     let self = self\<lparr>mpk_keys := (mpk_keys self)[unat (mpk_index self) := ots_private_key]\<rparr>;
     (case r of
        Inl _ \<Rightarrow> Some (self, Inl FailedUnderlyingSignatureGeneration)
      | Inr ots_signature \<Rightarrow> do {
          state \<leftarrow> trit_buf_zeros t1b1_buf Zero (length ots_signature + 6561);
          d \<leftarrow> depth_minus_1 (mpk_depth self);
          let tree_index = 2 ^ d + unat (mpk_index self) - 1;
          state \<leftarrow> t1b1_copy_into state 0 (length ots_signature) ots_signature;
          state \<leftarrow> mss_siblings_loop (mpk_tree self) (length ots_signature) tree_index 0 state;
          Some (self\<lparr>mpk_index := mpk_index self + 1\<rparr>,
            Inr \<lparr>msig_state = state, msig_index = mpk_index self\<rparr>) }) }"

text \<open>The loop over the siblings; it stops when \<open>self.depth - 1 == i as u8\<close>.\<close>

fun mss_verify_loop ::
  "('s, 'e) sponge \<Rightarrow> u8 \<Rightarrow> u64 \<Rightarrow> nat \<Rightarrow> u64 \<Rightarrow> 's \<Rightarrow> btrit list \<Rightarrow> btrit list list
    \<Rightarrow> (mss_error + btrit list) option" where
  "mss_verify_loop S depth index i j sponge hash [] = Some (Inr hash)"
| "mss_verify_loop S depth index i j sponge hash (sibling # siblings) = do {
     d \<leftarrow> depth_minus_1 depth;
     if word_of_nat d = (word_of_nat i :: u8) then Some (Inr hash)
     else do {
       (sponge, r) \<leftarrow>
         (if index AND j \<noteq> 0 then hash_nodes S sponge sibling hash hash
          else hash_nodes S sponge hash sibling hash);
       (case r of
          Inl e \<Rightarrow> Some (Inl e)
        | Inr hash \<Rightarrow> mss_verify_loop S depth index (i + 1) (push_bit 1 j) sponge hash siblings) } }"

definition mss_verify ::
  "('s, 'e) sponge \<Rightarrow> ('sd, 'k, 'f) ots_scheme \<Rightarrow> mss_public_key \<Rightarrow> i8 list \<Rightarrow> mss_signature
    \<Rightarrow> (mss_error + bool) option" where
  "mss_verify S O' self message' signature = do {
     let n = length (msig_state signature) div 6561;
     n' \<leftarrow> (if n = 0 then None else Some (n - 1));
     ots_signature \<leftarrow> t1b1_slice (msig_state signature) 0 (n' * 6561);
     chunks \<leftarrow> t1b1_chunks (msig_state signature) 6561;
     siblings \<leftarrow> (if chunks = [] then None else Some (last chunks));
     r \<leftarrow> ots_recover O' ots_signature message';
     (case r of
        Inl _ \<Rightarrow> Some (Inl FailedUnderlyingPublicKeyRecovery)
      | Inr public_key \<Rightarrow> do {
          hash \<leftarrow> trit_buf_zeros t1b1_buf Zero 243;
          hash \<leftarrow> trits_copy_from t1b1_buf t1b1_buf hash public_key;
          siblings \<leftarrow> t1b1_chunks siblings 243;
          r \<leftarrow> mss_verify_loop S (mpub_depth self) (msig_index signature) 0 1 (sp_default S) hash siblings;
          (case r of
             Inl e \<Rightarrow> Some (Inl e)
           | Inr hash \<Rightarrow> map_option Inr (trits_eq t1b1_buf t1b1_buf hash (mpub_state self))) }) }"

section \<open>Nodes of the tree\<close>

definition node :: "btrit list \<Rightarrow> nat \<Rightarrow> btrit list" where
  "node tree i = take 243 (drop (i * 243) tree)"

lemma slice_node:
  "(i + 1) * 243 \<le> length tree \<Longrightarrow>
   t1b1_slice tree (i * 243) ((i + 1) * 243) = Some (node tree i) \<and> length (node tree i) = 243"
  by (simp add: t1b1_slice_eq node_def)

lemma copy_node:
  assumes "(i + 1) * 243 \<le> length tree" "length b = 243"
  shows "\<exists>tree'. t1b1_copy_into tree (i * 243) ((i + 1) * 243) b = Some tree' \<and> length tree' = length tree
    \<and> node tree' i = b \<and> (\<forall>j. j \<noteq> i \<longrightarrow> node tree' j = node tree j)"
proof -
  let ?tree = "take (i * 243) tree @ b @ drop ((i + 1) * 243) tree"
  have "node ?tree i = b"
    using assms by (simp add: node_def)
  moreover have "node ?tree j = node tree j" if "j \<noteq> i" for j
  proof (cases "j < i")
    case True
    then have "(j + 1) * 243 \<le> i * 243"
      by (intro mult_le_mono1) simp
    then have le: "j * 243 \<le> i * 243" "243 \<le> i * 243 - j * 243"
      using True by simp_all
    then show ?thesis
      using assms by (simp add: node_def drop_take min_def)
  next
    case False
    then have le: "(i + 1) * 243 \<le> j * 243"
      using that by (intro mult_le_mono1) simp
    have l: "length (take (i * 243) tree @ b) = (i + 1) * 243"
      using assms by simp
    have "drop (j * 243) ((take (i * 243) tree @ b) @ drop ((i + 1) * 243) tree) =
        drop (j * 243 - (i + 1) * 243 + (i + 1) * 243) tree"
      using le unfolding drop_append [of "j * 243" "take (i * 243) tree @ b"] l drop_drop
      by (simp only: drop_all l append_Nil)
    then show ?thesis
      using le by (simp only: node_def le_add_diff_inverse2 append_assoc)
  qed
  ultimately show ?thesis
    using assms by (simp add: t1b1_copy_into_eq)
qed

context sponge_law
begin

lemma hash_nodes_law:
  assumes "fresh s" "length l = 243" "length r = 243" "length buf = 243"
  shows "\<exists>s'. hash_nodes S s l r buf = Some (s', Inr (hash 1 (l @ r))) \<and> fresh s'"
  using absorb_two_hash [of s l r buf 1] assms by (auto simp: hash_nodes_def)

text \<open>One row, from its \<open>i\<close>-th node on: every node becomes the hash of its children, which the row does not touch.\<close>

lemma mss_row_loop_law:
  assumes "fresh s" "length tree = 243 * N" "4 * n \<le> Suc N" "0 < n" "i \<le> n"
  shows "\<exists>s' tree'. mss_row_loop S n [i..<n] s tree = Some (s', Inr tree') \<and> fresh s' \<and> length tree' = length tree
    \<and> (\<forall>t. n + i - 1 \<le> t \<and> t < 2 * n - 1 \<longrightarrow> node tree' t = hash 1 (node tree' (2 * t + 1) @ node tree' (2 * t + 2)))
    \<and> (\<forall>t. t < n + i - 1 \<or> 2 * n - 1 \<le> t \<longrightarrow> node tree' t = node tree t)"
  using assms
proof (induction "n - i" arbitrary: i s tree)
  case (Suc m)
  let ?x = "n + i - 1"
  have i: "i < n" "[i..<n] = i # [Suc i..<n]"
    using Suc.hyps(2) by (auto simp: upt_conv_Cons)
  have range: "(?x * 2 + 1 + 1) * 243 \<le> length tree" "(?x * 2 + 1 + 1 + 1) * 243 \<le> length tree" "(?x + 1) * 243 \<le> length tree"
    using Suc.prems i by simp_all
  let ?l = "node tree (?x * 2 + 1)" and ?r = "node tree (?x * 2 + 1 + 1)"
  obtain s1 where s1: "hash_nodes S s ?l ?r (node tree ?x) = Some (s1, Inr (hash 1 (?l @ ?r)))" "fresh s1"
    using hash_nodes_law [OF Suc.prems(1), of ?l ?r "node tree ?x"] slice_node [OF range(1)] slice_node [OF range(2)]
      slice_node [OF range(3)] by blast
  have "length (hash 1 (?l @ ?r)) = 243"
    using slice_node [OF range(1)] slice_node [OF range(2)] by simp
  then obtain tree1 where tree1: "t1b1_copy_into tree (?x * 243) ((?x + 1) * 243) (hash 1 (?l @ ?r)) = Some tree1"
    "length tree1 = length tree" "node tree1 ?x = hash 1 (?l @ ?r)" "\<forall>j. j \<noteq> ?x \<longrightarrow> node tree1 j = node tree j"
    using copy_node [OF range(3)] by blast
  have step: "mss_row_loop S n [i..<n] s tree = mss_row_loop S n [Suc i..<n] s1 tree1"
    unfolding i(2) mss_row_loop.simps Let_def
    using slice_node [OF range(1)] slice_node [OF range(2)] slice_node [OF range(3)] s1(1) tree1(1) by simp
  obtain s' tree' where IH: "mss_row_loop S n [Suc i..<n] s1 tree1 = Some (s', Inr tree')" "fresh s'" "length tree' = length tree1"
    "\<forall>t. n + Suc i - 1 \<le> t \<and> t < 2 * n - 1 \<longrightarrow> node tree' t = hash 1 (node tree' (2 * t + 1) @ node tree' (2 * t + 2))"
    "\<forall>t. t < n + Suc i - 1 \<or> 2 * n - 1 \<le> t \<longrightarrow> node tree' t = node tree1 t"
  proof -
    have "m = n - Suc i" "length tree1 = 243 * N" "Suc i \<le> n"
      using Suc.hyps(2) Suc.prems(2) tree1(2) i(1) by simp_all
    from Suc.hyps(1) [OF this(1) s1(2) this(2) Suc.prems(3,4) this(3)] show ?thesis
      using that by blast
  qed
  have kids: "node tree' (2 * ?x + 1) = ?l" "node tree' (2 * ?x + 2) = ?r"
    using IH(5) tree1(4) i(1) by (simp_all add: mult.commute)
  have "node tree' ?x = hash 1 (node tree' (2 * ?x + 1) @ node tree' (2 * ?x + 2))"
    using IH(5) tree1(3) i(1) unfolding kids by simp
  then have "\<forall>t. n + i - 1 \<le> t \<and> t < 2 * n - 1 \<longrightarrow> node tree' t = hash 1 (node tree' (2 * t + 1) @ node tree' (2 * t + 2))"
    using IH(4) by (metis One_nat_def Suc_leI Suc_pred add_Suc_right add_gr_0 Suc.prems(4) diff_Suc_1 le_eq_less_or_eq)
  moreover have "\<forall>t. t < n + i - 1 \<or> 2 * n - 1 \<le> t \<longrightarrow> node tree' t = node tree t"
    using IH(5) tree1(4) i(1) by auto
  ultimately show ?case
    using step IH(1-3) tree1(2) by auto
qed auto

end

context sponge_law
begin

text \<open>A tree whose inner nodes, the first \<open>m\<close>, are the hashes of their children.\<close>

definition merkle :: "btrit list \<Rightarrow> nat \<Rightarrow> bool" where
  "merkle tree m \<longleftrightarrow> (\<forall>t < m. node tree t = hash 1 (node tree (2 * t + 1) @ node tree (2 * t + 2)))"

lemma mss_rows_loop_law:
  assumes "fresh s" "length tree = 243 * N" "2 ^ (d + 1) \<le> Suc N"
  shows "\<exists>tree'. mss_rows_loop S (rev [0..<d]) s tree = Some (Inr tree') \<and> length tree' = length tree
    \<and> merkle tree' (2 ^ d - 1) \<and> (\<forall>t. 2 ^ d - 1 \<le> t \<longrightarrow> node tree' t = node tree t)"
  using assms
proof (induction d arbitrary: s tree)
  case (Suc d)
  obtain s1 tree1 where row: "mss_row_loop S (2 ^ d) [0..<2 ^ d] s tree = Some (s1, Inr tree1)" "fresh s1"
    "length tree1 = length tree"
    "\<forall>t. 2 ^ d + 0 - 1 \<le> t \<and> t < 2 * 2 ^ d - 1 \<longrightarrow>
      node tree1 t = hash 1 (node tree1 (2 * t + 1) @ node tree1 (2 * t + 2))"
    "\<forall>t. t < 2 ^ d + 0 - 1 \<or> 2 * 2 ^ d - 1 \<le> t \<longrightarrow> node tree1 t = node tree t"
    using mss_row_loop_law [OF Suc.prems(1,2), of "2 ^ d" 0] Suc.prems(3) by auto
  obtain tree' where up: "mss_rows_loop S (rev [0..<d]) s1 tree1 = Some (Inr tree')" "length tree' = length tree1"
    "merkle tree' (2 ^ d - 1)" "\<forall>t. 2 ^ d - 1 \<le> t \<longrightarrow> node tree' t = node tree1 t"
    using Suc.IH [OF row(2), of tree1] Suc.prems(2,3) row(3) by auto
  have "merkle tree' (2 ^ Suc d - 1)"
    unfolding merkle_def
  proof (intro allI impI)
    fix t :: nat
    assume t: "t < 2 ^ Suc d - 1"
    show "node tree' t = hash 1 (node tree' (2 * t + 1) @ node tree' (2 * t + 2))"
    proof (cases "t < 2 ^ d - 1")
      case True
      then show ?thesis
        using up(3) by (simp add: merkle_def)
    next
      case False
      then have "2 ^ d - 1 \<le> t" "2 ^ d - 1 \<le> 2 * t + 1" "2 ^ d - 1 \<le> 2 * t + 2"
        by simp_all
      then show ?thesis
        using up(4) row(4) t by (simp del: One_nat_def)
    qed
  qed
  moreover have "node tree' t = node tree t" if "2 ^ Suc d - 1 \<le> t" for t
    using that up(4) row(5) by (simp add: mult_2)
  ultimately show ?case
    using row(1,3) up(1,2) by simp
qed (simp add: merkle_def)

end

context ots_law
begin

lemma mss_leaves_loop_law:
  assumes "good_seed sd" "length tree = 243 * (2 * n - 1)" "k \<le> n" "0 < n"
  shows "\<exists>ks tree'. mss_leaves_loop O' sd n [k..<n] keys tree = Some (Inr (keys @ ks, tree'))
    \<and> length tree' = length tree \<and> length ks = n - k
    \<and> (\<forall>j < n - k. good_key (ks ! j) \<and> ots_public_key O' (ks ! j) = Some (Inr (node tree' (n + (k + j) - 1))))
    \<and> (\<forall>t < n + k - 1. node tree' t = node tree t)"
  using assms
proof (induction "n - k" arbitrary: k keys tree)
  case (Suc m)
  have k: "k < n" "[k..<n] = k # [Suc k..<n]"
    using Suc.hyps(2) by (auto simp: upt_conv_Cons)
  obtain sk pk where sk: "ots_generate O' sd (word_of_nat k) = Some (Inr sk)" "good_key sk"
    "ots_public_key O' sk = Some (Inr pk)" "length pk = 243"
    using ots_generate_law [OF Suc.prems(1)] ots_public_key_law by blast
  let ?x = "n + k - 1"
  have "(?x + 1) * 243 \<le> length tree"
    using Suc.prems k by simp
  from copy_node [OF this sk(4)] obtain tree1 where tree1:
    "t1b1_copy_into tree (?x * 243) ((?x + 1) * 243) pk = Some tree1" "length tree1 = length tree"
    "node tree1 ?x = pk" "\<forall>j. j \<noteq> ?x \<longrightarrow> node tree1 j = node tree j"
    by blast
  have step: "mss_leaves_loop O' sd n [k..<n] keys tree = mss_leaves_loop O' sd n [Suc k..<n] (keys @ [sk]) tree1"
    unfolding k(2) using sk(1,3) tree1(1) by (simp add: Let_def)
  have "m = n - Suc k" "length tree1 = 243 * (2 * n - 1)" "Suc k \<le> n"
    using Suc.hyps(2) Suc.prems(2) tree1(2) k(1) by simp_all
  from Suc.hyps(1) [OF this(1) Suc.prems(1) this(2,3) Suc.prems(4), of "keys @ [sk]"] obtain ks tree' where IH:
    "mss_leaves_loop O' sd n [Suc k..<n] (keys @ [sk]) tree1 = Some (Inr ((keys @ [sk]) @ ks, tree'))"
    "length tree' = length tree1" "length ks = n - Suc k"
    "\<forall>j < n - Suc k. good_key (ks ! j) \<and> ots_public_key O' (ks ! j) = Some (Inr (node tree' (n + (Suc k + j) - 1)))"
    "\<forall>t < n + Suc k - 1. node tree' t = node tree1 t"
    by blast
  have "node tree' ?x = pk"
    using IH(5) tree1(3) Suc.prems(4) by simp
  then have "good_key ((sk # ks) ! j) \<and> ots_public_key O' ((sk # ks) ! j) = Some (Inr (node tree' (n + (k + j) - 1)))"
    if "j < n - k" for j
    using that IH(4) sk(2,3) by (cases j) auto
  moreover have "\<forall>t < n + k - 1. node tree' t = node tree t"
    using IH(5) tree1(4) by simp
  ultimately show ?case
    using step IH(1-3) tree1(2) k(1) by (intro exI [of _ "sk # ks"] exI [of _ tree']) simp
qed auto

end

section \<open>The path to the root\<close>

fun path_siblings :: "btrit list \<Rightarrow> nat \<Rightarrow> btrit list list" where
  "path_siblings tree t =
     (if t = 0 then [] else node tree (if odd t then t + 1 else t - 1) # path_siblings tree ((t - 1) div 2))"

declare path_siblings.simps [simp del]

lemma path_siblings_0 [simp]: "path_siblings tree 0 = []"
  by (simp add: path_siblings.simps)

lemma parent_odd: "odd t \<Longrightarrow> t div 2 = (t - 1) div (2::nat)"
  by (elim oddE) simp

lemma mss_siblings_loop_law:
  assumes "length tree = 243 * (2 * n - 1)" "t < 2 * n - 1"
    and "sz + (i + length (path_siblings tree t)) * 243 \<le> length state"
  shows "mss_siblings_loop tree sz t i state =
      Some (take (sz + i * 243) state @ concat (path_siblings tree t)
        @ drop (sz + (i + length (path_siblings tree t)) * 243) state)
    \<and> list_all (\<lambda>c. length c = 243) (path_siblings tree t)"
  using assms(2,3)
proof (induction t arbitrary: i state rule: less_induct)
  case (less t)
  show ?case
  proof (cases "t = 0")
    case False
    let ?sib = "if odd t then t + 1 else t - 1" and ?up = "(t - 1) div 2"
    have path: "path_siblings tree t = node tree ?sib # path_siblings tree ?up"
      using False by (simp add: path_siblings.simps [of tree t])
    have "odd t \<Longrightarrow> t + 1 < 2 * n - 1"
      using less.prems(1) by presburger
    then have "(?sib + 1) * 243 \<le> length tree"
      using assms(1) less.prems(1) by (auto simp: Suc_le_eq)
    from slice_node [OF this] have sib: "t1b1_slice tree (?sib * 243) ((?sib + 1) * 243) = Some (node tree ?sib)"
      "length (node tree ?sib) = 243"
      by blast+
    let ?state = "take (sz + i * 243) state @ node tree ?sib @ drop (sz + (i + 1) * 243) state"
    have copy: "t1b1_copy_into state (sz + i * 243) (sz + (i + 1) * 243) (node tree ?sib) = Some ?state"
      using less.prems(2) sib(2) path by (simp add: t1b1_copy_into_eq)
    have len: "length ?state = length state"
      using less.prems(2) sib(2) path by simp
    have "mss_siblings_loop tree sz t i state = mss_siblings_loop tree sz ?up (i + 1) ?state"
      using False sib(1) copy parent_odd [of t]
      by (cases "odd t") (simp_all add: mss_siblings_loop.simps [of tree sz t] odd_iff_mod_2_eq_one even_iff_mod_2_eq_zero Let_def)
    moreover have "sz + (i + 1 + length (path_siblings tree ?up)) * 243 \<le> length ?state"
      using less.prems(2) path len by simp
    moreover have "?up < t" "?up < 2 * n - 1"
      using False less.prems(1) by simp_all
    ultimately show ?thesis
      using less.IH [of ?up "i + 1" ?state] sib(2) path less.prems(2) by (simp add: add_ac)
  qed (simp add: mss_siblings_loop.simps)
qed

text \<open>The node on the path from leaf \<open>idx\<close> of a tree with \<open>2 ^ D\<close> leaves, \<open>i\<close> steps up.\<close>

definition path_node :: "nat \<Rightarrow> nat \<Rightarrow> nat \<Rightarrow> nat" where
  "path_node D idx i = 2 ^ (D - i) - 1 + idx div 2 ^ i"

lemma path_node_up:
  assumes "i < D"
  shows "path_node D idx (Suc i) = (path_node D idx i - 1) div 2"
    and "odd (path_node D idx i) \<longleftrightarrow> even (idx div 2 ^ i)"
    and "0 < path_node D idx i"
proof -
  have p: "2 ^ (D - i) = 2 * (2::nat) ^ (D - Suc i)"
    using assms by (metis Suc_diff_Suc power_Suc)
  have one: "(1::nat) \<le> 2 ^ (D - Suc i)"
    by simp
  have q: "idx div 2 ^ Suc i = idx div 2 ^ i div 2"
    by (simp only: power_Suc2 div_mult2_eq)
  have n: "path_node D idx i = 2 * (2 ^ (D - Suc i) - 1) + 1 + idx div 2 ^ i"
    using one unfolding path_node_def p by linarith
  show "path_node D idx (Suc i) = (path_node D idx i - 1) div 2"
    unfolding n path_node_def [of D idx "Suc i"] q by simp
  show "odd (path_node D idx i) \<longleftrightarrow> even (idx div 2 ^ i)" "0 < path_node D idx i"
    unfolding n by simp_all
qed

lemma path_node_range:
  assumes "i < D" "idx < 2 ^ D"
  shows "path_node D idx i < 2 * 2 ^ D - 1"
    and "odd (path_node D idx i) \<Longrightarrow> path_node D idx i + 1 < 2 * 2 ^ D - 1"
    and "path_node D idx (Suc i) < 2 ^ D - 1"
proof -
  have below: "path_node D idx k + 2 \<le> 2 * 2 ^ (D - k)" if "k \<le> D" for k
  proof -
    have "idx < 2 ^ (D - k) * 2 ^ k"
      using assms(2) that by (simp flip: power_add)
    then have "idx div 2 ^ k < 2 ^ (D - k)"
      by (rule less_mult_imp_div_less)
    then show ?thesis
      by (simp add: path_node_def)
  qed
  have "2 * 2 ^ (D - i) \<le> 2 * (2::nat) ^ D" "2 * 2 ^ (D - Suc i) \<le> (2::nat) ^ D"
    using assms(1) power_increasing [of "D - i" D "2::nat"] power_increasing [of "Suc (D - Suc i)" D "2::nat"] by simp_all
  then have *: "path_node D idx i + 2 \<le> 2 * 2 ^ D" "path_node D idx (Suc i) + 2 \<le> 2 ^ D"
    using below [of i] below [of "Suc i"] assms(1) by linarith+
  then show "path_node D idx i < 2 * 2 ^ D - 1" "path_node D idx (Suc i) < 2 ^ D - 1"
    by linarith+
  show "path_node D idx i + 1 < 2 * 2 ^ D - 1" if "odd (path_node D idx i)"
    using that *(1) by presburger
qed

lemma path_node_root: "idx < 2 ^ D \<Longrightarrow> path_node D idx D = 0"
  by (simp add: path_node_def)

lemma length_path_siblings:
  "idx < 2 ^ D \<Longrightarrow> i \<le> D \<Longrightarrow> length (path_siblings tree (path_node D idx i)) = D - i"
proof (induction "D - i" arbitrary: i)
  case 0
  then show ?case
    by (simp add: path_node_root)
next
  case (Suc m)
  then have "i < D"
    by simp
  then show ?case
    using Suc.hyps(1) [of "Suc i"] Suc.hyps(2) Suc.prems(1) path_node_up [of i D idx]
    by (simp add: path_siblings.simps [of tree "path_node D idx i"])
qed

lemma and_bit_u64: "index AND push_bit i 1 \<noteq> 0 \<longleftrightarrow> odd (unat index div 2 ^ i)" if "i < 64" for index :: u64
proof -
  have "bit (unat index) i = bit index i"
    using that by (simp add: bit_unsigned_iff)
  then show ?thesis
    by (simp add: push_bit_of_1 and_exp_eq_0_iff_not_bit bit_iff_odd)
qed

lemma word_of_nat_u8_eq: "a < 256 \<Longrightarrow> b < 256 \<Longrightarrow> (word_of_nat a :: u8) = word_of_nat b \<longleftrightarrow> a = b"
  by (simp add: word_of_nat_eq_iff take_bit_nat_eq_self)

section \<open>What is signed verifies\<close>

text \<open>A key signs one message after the other.\<close>

fun mss_sign_all ::
  "('sd, 'k, 'e) ots_scheme \<Rightarrow> 'k mss_private_key \<Rightarrow> i8 list list \<Rightarrow> ('k mss_private_key \<times> mss_signature list) option" where
  "mss_sign_all O' sk [] = Some (sk, [])"
| "mss_sign_all O' sk (m # ms) = do {
     (sk, r) \<leftarrow> mss_sign O' sk m;
     (case r of
        Inl _ \<Rightarrow> None
      | Inr sig \<Rightarrow> do { (sk, sigs) \<leftarrow> mss_sign_all O' sk ms; Some (sk, sig # sigs) }) }"

definition mss_roundtrip ::
  "('s, 'e) sponge \<Rightarrow> ('sd, 'k, 'f) ots_scheme \<Rightarrow> u8 \<Rightarrow> 'sd \<Rightarrow> i8 list list \<Rightarrow> bool" where
  "mss_roundtrip S O' depth seed ms \<longleftrightarrow>
     (\<exists>sk pk sk' sigs. mss_generate S \<lparr>mg_depth = depth, mg_generator = O'\<rparr> seed = Some (Inr sk)
        \<and> mss_generate_public_key sk = Some pk \<and> mss_sign_all O' sk ms = Some (sk', sigs)
        \<and> list_all2 (\<lambda>m sig. mss_verify S O' pk m sig = Some (Inr True)) ms sigs)"

locale mss_law = sponge_law S inv view vabsorb vsqueeze + ots_law O' good_seed good_key good_msg
  for S :: "('s, 'e) sponge" and inv and view :: "'s \<Rightarrow> 'v" and vabsorb and vsqueeze
    and O' :: "('sd, 'k, 'f) ots_scheme" and good_seed and good_key and good_msg
begin

text \<open>A private key of a tree with \<open>2 ^ D\<close> leaves.\<close>

definition key_ok :: "nat \<Rightarrow> 'k mss_private_key \<Rightarrow> bool" where
  "key_ok D sk \<longleftrightarrow> D \<le> 19 \<and> mpk_depth sk = word_of_nat (Suc D) \<and> length (mpk_keys sk) = 2 ^ D
     \<and> length (mpk_tree sk) = 243 * (2 * 2 ^ D - 1) \<and> merkle (mpk_tree sk) (2 ^ D - 1)
     \<and> (\<forall>j < 2 ^ D. good_key (mpk_keys sk ! j)
          \<and> ots_public_key O' (mpk_keys sk ! j) = Some (Inr (node (mpk_tree sk) (2 ^ D + j - 1))))"

lemma depth_minus_1_Suc: "D \<le> 19 \<Longrightarrow> depth_minus_1 (word_of_nat (Suc D)) = Some D \<and> unat (word_of_nat (Suc D) :: u8) = Suc D"
proof -
  assume "D \<le> 19"
  then have "unat (word_of_nat (Suc D) :: u8) = Suc D"
    by (intro unat_word_of_nat_small) simp
  moreover then have "(word_of_nat (Suc D) :: u8) \<noteq> 0"
    by (metis nat.distinct(1) unat_0)
  ultimately show ?thesis
    by (simp add: depth_minus_1_def)
qed

lemma mss_generate_law:
  assumes "good_seed sd" "D \<le> 19"
  shows "\<exists>sk. mss_generate S \<lparr>mg_depth = word_of_nat (Suc D), mg_generator = O'\<rparr> sd = Some (Inr sk)
    \<and> key_ok D sk \<and> mpk_index sk = 0"
proof -
  let ?n = "2 ^ D :: nat"
  have d: "depth_minus_1 (word_of_nat (Suc D)) = Some D" "unat (word_of_nat (Suc D) :: u8) = Suc D"
    using depth_minus_1_Suc [OF assms(2)] by blast+
  let ?zeros = "replicate ((2 ^ Suc D - 1) * 243) Zero"
  have z: "length ?zeros = 243 * (2 * ?n - 1)"
    by simp
  obtain ks tree where leaves: "mss_leaves_loop O' sd ?n [0..<?n] [] ?zeros = Some (Inr (ks, tree))"
    "length tree = length ?zeros" "length ks = ?n"
    "\<forall>j < ?n. good_key (ks ! j) \<and> ots_public_key O' (ks ! j) = Some (Inr (node tree (?n + j - 1)))"
    using mss_leaves_loop_law [OF assms(1) z, of 0 "[]"] by auto
  obtain tree' where rows: "mss_rows_loop S (rev [0..<D]) (sp_default S) tree = Some (Inr tree')"
    "length tree' = length tree" "merkle tree' (?n - 1)" "\<forall>t. ?n - 1 \<le> t \<longrightarrow> node tree' t = node tree t"
    using mss_rows_loop_law [OF fresh_default, of tree "2 * ?n - 1" D] leaves(2) z by auto
  let ?sk = "\<lparr>mpk_depth = word_of_nat (Suc D), mpk_index = 0, mpk_keys = ks, mpk_tree = tree'\<rparr>"
  have "mss_generate S \<lparr>mg_depth = word_of_nat (Suc D), mg_generator = O'\<rparr> sd = Some (Inr ?sk)"
    using d leaves(1) rows(1) by (simp add: mss_generate_def t1b1_zeros)
  moreover have "key_ok D ?sk"
    using assms(2) leaves rows z by (simp add: key_ok_def)
  ultimately show ?thesis
    by (intro exI [of _ ?sk]) simp
qed

text \<open>The verification loop climbs the path: \<open>i\<close> steps up its hash is the node of the path there.\<close>

lemma mss_verify_loop_law:
  assumes "D \<le> 19" "length tree = 243 * (2 * 2 ^ D - 1)" "merkle tree (2 ^ D - 1)" "unat index < 2 ^ D"
    and "fresh s" "i \<le> D"
  shows "mss_verify_loop S (word_of_nat (Suc D)) index i (push_bit i 1) s (node tree (path_node D (unat index) i))
      (path_siblings tree (path_node D (unat index) i) @ pad) = Some (Inr (node tree 0))"
  using assms(5,6)
proof (induction "D - i" arbitrary: i s)
  case 0
  then have "i = D"
    by simp
  then show ?case
    using assms(1,4) depth_minus_1_Suc [OF assms(1)] by (cases pad) (simp_all add: path_node_root)
next
  case (Suc m)
  let ?t = "path_node D (unat index) i" and ?u = "path_node D (unat index) (Suc i)"
  have i: "i < D" "i < 64" "m = D - Suc i"
    using Suc.hyps(2) assms(1) by simp_all
  note up = path_node_up [OF i(1), of "unat index"]
  let ?sib = "node tree (if odd ?t then ?t + 1 else ?t - 1)"
  have path: "path_siblings tree ?t = ?sib # path_siblings tree ?u"
    using up(1,3) by (simp add: path_siblings.simps [of tree ?t])
  note range = path_node_range [OF i(1) assms(4)]
  have nodes: "length (node tree ?t) = 243" "length ?sib = 243"
    using slice_node [of ?t tree] slice_node [of "if odd ?t then ?t + 1 else ?t - 1" tree] range(1,2) assms(2)
    by (auto simp: Suc_le_eq)
  have u: "node tree ?u = hash 1 (if odd ?t then node tree ?t @ ?sib else ?sib @ node tree ?t)"
  proof -
    have "2 * ?u + 1 = (if odd ?t then ?t else ?t - 1)" "2 * ?u + 2 = (if odd ?t then ?t + 1 else ?t)"
      unfolding up(1) using up(3) by presburger+
    moreover have "node tree ?u = hash 1 (node tree (2 * ?u + 1) @ node tree (2 * ?u + 2))"
      using assms(3) range(3) unfolding merkle_def by blast
    ultimately show ?thesis
      by simp
  qed
  obtain s1 where s1: "(if index AND push_bit i 1 \<noteq> 0 then hash_nodes S s ?sib (node tree ?t) (node tree ?t)
      else hash_nodes S s (node tree ?t) ?sib (node tree ?t)) = Some (s1, Inr (node tree ?u))" "fresh s1"
    using hash_nodes_law [OF Suc.prems(1) nodes(2,1,1)] hash_nodes_law [OF Suc.prems(1) nodes(1,2,1)]
      and_bit_u64 [OF i(2), of index] up(2) unfolding u by (cases "odd ?t") auto
  have "depth_minus_1 (word_of_nat (Suc D)) = Some D" "(word_of_nat D :: u8) \<noteq> word_of_nat i"
    using depth_minus_1_Suc [OF assms(1)] word_of_nat_u8_eq [of D i] i(1) assms(1) by auto
  then have "mss_verify_loop S (word_of_nat (Suc D)) index i (push_bit i 1) s (node tree ?t) (path_siblings tree ?t @ pad) =
      mss_verify_loop S (word_of_nat (Suc D)) index (Suc i) (push_bit (Suc i) 1) s1 (node tree ?u) (path_siblings tree ?u @ pad)"
    unfolding path append_Cons mss_verify_loop.simps using s1(1) by (simp add: push_bit_push_bit mult.commute)
  then show ?case
    using Suc.hyps(1) [OF i(3) s1(2)] i(1) by simp
qed


lemma mss_verify_parts:
  assumes "6561 dvd length sig" "ots_recover O' sig m = Some (Inr pk)" "list_all (\<lambda>c. length c = 243) sibs"
    and "length (concat sibs @ pad) = 6561" "length pk = 243"
    and "\<And>rest. mss_verify_loop S depth index 0 1 (sp_default S) pk (sibs @ rest) = Some (Inr root)"
  shows "mss_verify S O' \<lparr>mpub_state = root, mpub_depth = depth\<rparr> m
    \<lparr>msig_state = sig @ concat sibs @ pad, msig_index = index\<rparr> = Some (Inr True)"
proof -
  let ?rest = "concat sibs @ pad"
  have "?rest \<noteq> []"
    using assms(4) by (metis list.size(3) zero_neq_numeral)
  then have "chunks_of 6561 ?rest = [?rest]"
    using assms(4) by (intro chunks_of_short) simp_all
  then have "chunks_of 6561 (sig @ ?rest) = chunks_of 6561 sig @ [?rest]"
    using chunks_of_append_dvd [OF _ assms(1), of ?rest] by simp
  then have cs: "t1b1_chunks (sig @ ?rest) 6561 = Some (chunks_of 6561 sig @ [?rest])"
    by (simp add: t1b1_chunks_eq)
  have "243 dvd length (concat sibs)"
    using length_concat_blocks [OF assms(3)] by simp
  then have "chunks_of 243 ?rest = sibs @ chunks_of 243 pad"
    using chunks_of_append_dvd [of 243 "concat sibs" pad] chunks_of_concat [OF _ assms(3)] by simp
  then have ss: "t1b1_chunks ?rest 243 = Some (sibs @ chunks_of 243 pad)"
    by (simp add: t1b1_chunks_eq)
  have n: "length (sig @ ?rest) div 6561 = Suc (length sig div 6561)" "length sig div 6561 * 6561 = length sig"
    using assms(1,4) by (simp_all del: length_concat)
  have "t1b1_slice (sig @ ?rest) 0 (length sig) = Some sig"
    by (simp add: t1b1_slice_eq)
  then show ?thesis
    unfolding mss_verify_def Let_def mss_signature.simps mss_public_key.simps n(1)
    using n(2) cs ss assms(2,5,6) by (simp add: t1b1_zeros trits_copy_from_t1b1 trits_eq_t1b1)
qed

text \<open>Signing with the next key and verifying with the public key of the tree.\<close>

lemma mss_sign_verify_law:
  assumes "key_ok D sk" "unat (mpk_index sk) < 2 ^ D" "good_msg m"
  shows "\<exists>sk' sig pk. mss_sign O' sk m = Some (sk', Inr sig) \<and> key_ok D sk' \<and> mpk_index sk' = mpk_index sk + 1
    \<and> mpk_tree sk' = mpk_tree sk \<and> msig_index sig = mpk_index sk
    \<and> mss_generate_public_key sk = Some pk \<and> mss_verify S O' pk m sig = Some (Inr True)"
proof -
  let ?idx = "unat (mpk_index sk)" and ?tree = "mpk_tree sk" and ?n = "2 ^ D :: nat"
  have ok: "D \<le> 19" "mpk_depth sk = word_of_nat (Suc D)" "length (mpk_keys sk) = ?n" "length ?tree = 243 * (2 * ?n - 1)"
    "merkle ?tree (?n - 1)"
    "\<And>j. j < ?n \<Longrightarrow> good_key (mpk_keys sk ! j) \<and> ots_public_key O' (mpk_keys sk ! j) = Some (Inr (node ?tree (?n + j - 1)))"
    using assms(1) by (auto simp: key_ok_def)
  let ?t = "path_node D ?idx 0"
  have t: "?n + ?idx - 1 = ?t"
    by (simp add: path_node_def)
  obtain k' sig where sig: "ots_sign O' (mpk_keys sk ! ?idx) m = Some (k', Inr sig)" "good_key k'"
    "ots_public_key O' k' = Some (Inr (node ?tree ?t))" "6561 dvd length sig" "ots_recover O' sig m = Some (Inr (node ?tree ?t))"
    using ots_sign_law [of "mpk_keys sk ! ?idx" m] ok(6) [OF assms(2)] assms(3) unfolding t by auto
  define sibs where "sibs = path_siblings ?tree ?t"
  define pad where "pad = replicate (6561 - D * 243) Zero"
  have len: "length sibs = D"
    unfolding sibs_def using length_path_siblings [OF assms(2)] by simp
  have tb: "?t < 2 * ?n - 1"
    using assms(2) by (simp add: path_node_def)
  have loop: "mss_siblings_loop ?tree (length sig) ?t 0 (sig @ replicate 6561 Zero) = Some (sig @ concat sibs @ pad)"
    "list_all (\<lambda>c. length c = 243) sibs"
    using mss_siblings_loop_law [OF ok(4) tb, of "length sig" 0 "sig @ replicate 6561 Zero"] ok(1)
    unfolding sibs_def [symmetric] len by (simp_all add: pad_def)
  let ?sk = "sk\<lparr>mpk_keys := (mpk_keys sk)[?idx := k'], mpk_index := mpk_index sk + 1\<rparr>"
  let ?sig = "\<lparr>msig_state = sig @ concat sibs @ pad, msig_index = mpk_index sk\<rparr>"
  let ?pk = "\<lparr>mpub_state = node ?tree 0, mpub_depth = mpk_depth sk\<rparr>"
  have "mss_sign O' sk m = Some (?sk, Inr ?sig)"
    using sig(1) loop(1) assms(2) ok(2,3) depth_minus_1_Suc [OF ok(1)] t
    by (simp add: mss_sign_def t1b1_get_eq t1b1_zeros t1b1_copy_into_eq Let_def)
  moreover have "key_ok D ?sk"
    using assms(1,2) sig(2,3) unfolding key_ok_def t [symmetric] by (auto simp: nth_list_update)
  moreover have "243 \<le> length ?tree"
    using ok(4) tb by simp
  then have "mss_generate_public_key sk = Some ?pk"
    by (simp add: mss_generate_public_key_def t1b1_slice_eq node_def)
  moreover have "mss_verify S O' ?pk m ?sig = Some (Inr True)"
  proof (rule mss_verify_parts [OF sig(4,5) loop(2)])
    show "length (concat sibs @ pad) = 6561"
      using length_concat_blocks [OF loop(2)] len ok(1) by (simp add: pad_def del: length_concat)
    show "length (node ?tree ?t) = 243"
      using slice_node [of ?t ?tree] ok(4) tb by simp
    show "mss_verify_loop S (mpk_depth sk) (mpk_index sk) 0 1 (sp_default S) (node ?tree ?t) (sibs @ rest) =
        Some (Inr (node ?tree 0))" for rest
      using mss_verify_loop_law [OF ok(1,4,5) assms(2) fresh_default, of 0 rest] by (simp add: ok(2) sibs_def)
  qed
  ultimately show ?thesis
    by auto
qed


lemma mss_sign_all_law:
  assumes "key_ok D sk" "unat (mpk_index sk) + length ms \<le> 2 ^ D" "list_all good_msg ms"
    and "mss_generate_public_key sk = Some pk"
  shows "\<exists>sk' sigs. mss_sign_all O' sk ms = Some (sk', sigs) \<and> key_ok D sk'
    \<and> unat (mpk_index sk') = unat (mpk_index sk) + length ms
    \<and> list_all2 (\<lambda>m sig. mss_verify S O' pk m sig = Some (Inr True)) ms sigs"
  using assms
proof (induction ms arbitrary: sk)
  case (Cons m ms)
  have "unat (mpk_index sk) < 2 ^ D" "good_msg m"
    using Cons.prems(2,3) by simp_all
  from mss_sign_verify_law [OF Cons.prems(1) this] obtain sk1 sig where sk1: "mss_sign O' sk m = Some (sk1, Inr sig)"
    "key_ok D sk1" "mpk_index sk1 = mpk_index sk + 1" "mpk_tree sk1 = mpk_tree sk"
    "mss_verify S O' pk m sig = Some (Inr True)"
    using Cons.prems(4) by auto
  have D: "D \<le> 19" "mpk_depth sk1 = mpk_depth sk"
    using Cons.prems(1) sk1(2) by (simp_all add: key_ok_def)
  have "(2::nat) ^ D \<le> 2 ^ 19"
    using D(1) by (intro power_increasing) simp_all
  then have "unat (mpk_index sk) + 1 < 2 ^ 64"
    using Cons.prems(2) by simp
  then have "unat (mpk_index sk1) = unat (mpk_index sk) + 1"
    unfolding sk1(3) by (simp add: unat_word_ariths)
  moreover have "mss_generate_public_key sk1 = Some pk"
    using Cons.prems(4) D(2) sk1(4) by (simp add: mss_generate_public_key_def)
  ultimately show ?case
    using Cons.IH [OF sk1(2)] Cons.prems(2,3) sk1(1,5) by auto
qed simp

lemma mss_roundtrip_law:
  assumes "good_seed sd" "D \<le> 19" "length ms \<le> 2 ^ D" "list_all good_msg ms"
  shows "mss_roundtrip S O' (word_of_nat (Suc D)) sd ms"
proof -
  obtain sk where sk: "mss_generate S \<lparr>mg_depth = word_of_nat (Suc D), mg_generator = O'\<rparr> sd = Some (Inr sk)"
    "key_ok D sk" "mpk_index sk = 0"
    using mss_generate_law [OF assms(1,2)] by blast
  have "unat (mpk_index sk) + length ms \<le> 2 ^ D"
    using sk(3) assms(3) by simp
  moreover have "(1::nat) \<le> 2 * 2 ^ D - 1"
    using one_le_power [of "2::nat" D] by linarith
  then have "243 \<le> length (mpk_tree sk)"
    using sk(2) by (auto simp: key_ok_def)
  then obtain pk where "mss_generate_public_key sk = Some pk"
    by (simp add: mss_generate_public_key_def t1b1_slice_eq)
  ultimately show ?thesis
    using mss_sign_all_law [OF sk(2) _ assms(4)] sk(1) unfolding mss_roundtrip_def by blast
qed

end

interpretation mss27: mss_law CurlP27 "curlp_inv 27" curl_state "curl_vabsorb 27" "curl_vsqueeze 27"
    "wots_scheme CurlP27 level" "\<lambda>seed. length seed = 243"
    "\<lambda>state. length state = security_level_as_usize level * 6561" "wots_message level" for level
  by (rule mss_law.intro [OF curl27.sponge_law_axioms wots27.ots_law_axioms])

interpretation mss81: mss_law CurlP81 "curlp_inv 81" curl_state "curl_vabsorb 81" "curl_vsqueeze 81"
    "wots_scheme CurlP81 level" "\<lambda>seed. length seed = 243"
    "\<lambda>state. length state = security_level_as_usize level * 6561" "wots_message level" for level
  by (rule mss_law.intro [OF curl81.sponge_law_axioms wots81.ots_law_axioms])

lemma mss_kerl_law:
  assumes "keccak_fills K"
  shows "mss_law (Kerl K) kerl_inv kerl_keccak (kerl_vabsorb K) (kerl_vsqueeze K) (wots_scheme (Kerl K) level)
    (\<lambda>seed. length seed = 243) (\<lambda>state. length state = security_level_as_usize level * 6561) (wots_message level)"
  by (rule mss_law.intro [OF kerl_sponge_law [OF assms] sponge_law.wots_scheme_law [OF kerl_sponge_law [OF assms]]])

section \<open>Properties\<close>

text \<open>
  C23. Merkle signatures over Winternitz keys verify, with each of the three sponges: for every depth from 1 to 20, every seed of 243 trits
  and every list of at most as many messages of 243 trits as the tree has leaves, signing them one
  after the other succeeds and each signature verifies with the one public key of the tree.
\<close>

theorem mss_signatures_verify:
  assumes "keccak_fills K" "length seed = 243" "1 \<le> depth" "depth \<le> 20"
    and "length msgs \<le> 2 ^ (unat depth - 1)" "list_all (\<lambda>m. length m = 243) msgs"
  shows "mss_roundtrip CurlP27 (wots_scheme CurlP27 level) depth seed (map message_of msgs)
    \<and> mss_roundtrip CurlP81 (wots_scheme CurlP81 level) depth seed (map message_of msgs)
    \<and> mss_roundtrip (Kerl K) (wots_scheme (Kerl K) level) depth seed (map message_of msgs)"
proof -
  let ?D = "unat depth - 1"
  have d: "1 \<le> unat depth" "unat depth \<le> 20"
    using assms(3,4) by (simp_all add: word_le_nat_alt)
  then have D: "?D \<le> 19" "word_of_nat (Suc ?D) = depth"
    by simp_all
  have "security_level_as_usize level \<le> 3"
    by (cases level) simp_all
  then have ms: "list_all (wots_message level) (map message_of msgs)" "length (map message_of msgs) \<le> 2 ^ ?D"
    using assms(5,6) by (fastforce simp: list_all_iff wots_message_def)+
  show ?thesis
    using mss27.mss_roundtrip_law [OF assms(2) D(1) ms(2,1)] mss81.mss_roundtrip_law [OF assms(2) D(1) ms(2,1)]
      mss_law.mss_roundtrip_law [OF mss_kerl_law [OF assms(1)] assms(2) D(1) ms(2,1)]
    unfolding D(2) by blast
qed

theorem mss_signatures_verify_witness:
  "mss_roundtrip (Kerl example_keccak) (wots_scheme (Kerl example_keccak) Low) 3 (replicate 243 PlusOne)
     (map message_of [replicate 243 Zero, replicate 243 NegOne])"
  using mss_signatures_verify [OF keccak_fills_example, of "replicate 243 PlusOne" 3 "[replicate 243 Zero, replicate 243 NegOne]"]
  by (simp del: list.map)

text \<open>
  The builder accepts the depth zero, with which the generator panics: \<open>self.depth - 1\<close> underflows.
  Larger depths than 20, a missing depth and a missing generator are reported as errors.
\<close>

theorem mss_depth_checks:
  "mss_build (mss_builder_generator (mss_depth mss_builder_default 0) g) = Inr \<lparr>mg_depth = 0, mg_generator = g\<rparr>
   \<and> mss_generate S \<lparr>mg_depth = 0, mg_generator = O'\<rparr> seed = None
   \<and> (if 20 < depth then mss_build (mss_builder_generator (mss_depth mss_builder_default depth) g) = Inl (InvalidDepth depth)
      else mss_build (mss_builder_generator (mss_depth mss_builder_default depth) g) = Inr \<lparr>mg_depth = depth, mg_generator = g\<rparr>)
   \<and> mss_build (mss_builder_generator mss_builder_default g) = Inl MissingDepth"
  by (simp add: mss_build_def mss_builder_generator_def mss_depth_def mss_builder_default_def mss_generate_def
      depth_minus_1_def t1b1_zeros not_less)

end
