(* ===== verification/Tangle.thy ===== *)
theory Tangle
  imports Transactions "HOL-Library.Finite_Map"
begin

text \<open>
  The tangle (bee-tangle: vertex.rs, tangle.rs, solidifier.rs, milestone.rs): a directed acyclic graph of
  transactions, each with its flags, the lists of approvers, the milestones and the solid entry points.
  The concurrent maps are finite maps in a record. The channel to the solidifier is a list; a sender that
  waits for room in the bounded channel is an element of its tail.

  The operations that the code runs concurrently are steps: an insertion writes the two approver lists, the
  vertex and the channel one after the other, and the solidifier does one iteration of its loop at a time.
\<close>

section \<open>Vertices (vertex.rs)\<close>

type_synonym flags = u8

definition SOLID :: flags where "SOLID = 0b0001"
definition TAIL :: flags where "TAIL = 0b0010"
definition REQUESTED :: flags where "REQUESTED = 0b0100"
definition MILESTONE :: flags where "MILESTONE = 0b1000"

definition flags_contains :: "flags \<Rightarrow> flags \<Rightarrow> bool" where
  "flags_contains self other \<longleftrightarrow> self AND other = other"

definition flags_insert :: "flags \<Rightarrow> flags \<Rightarrow> flags" where
  "flags_insert self other = self OR other"

record vertex =
  vtx_id :: hash
  vtx_inner :: transaction
  vtx_flags :: flags

definition vertex_from :: "transaction \<Rightarrow> hash \<Rightarrow> vertex" where
  "vertex_from transaction hash =
     \<lparr>vtx_id = hash, vtx_inner = transaction, vtx_flags = (if tx_is_tail transaction then TAIL else 0)\<rparr>"

definition vertex_is_solid :: "vertex \<Rightarrow> bool" where
  "vertex_is_solid self = flags_contains (vtx_flags self) SOLID"

definition vertex_set_solid :: "vertex \<Rightarrow> vertex" where
  "vertex_set_solid self = self\<lparr>vtx_flags := flags_insert (vtx_flags self) SOLID\<rparr>"

definition vertex_is_tail :: "vertex \<Rightarrow> bool" where
  "vertex_is_tail self = flags_contains (vtx_flags self) TAIL"

definition vertex_is_requested :: "vertex \<Rightarrow> bool" where
  "vertex_is_requested self = flags_contains (vtx_flags self) REQUESTED"

definition vertex_set_requested :: "vertex \<Rightarrow> vertex" where
  "vertex_set_requested self = self\<lparr>vtx_flags := flags_insert (vtx_flags self) REQUESTED\<rparr>"

definition vertex_is_milestone :: "vertex \<Rightarrow> bool" where
  "vertex_is_milestone self = flags_contains (vtx_flags self) MILESTONE"

definition vertex_set_milestone :: "vertex \<Rightarrow> vertex" where
  "vertex_set_milestone self = self\<lparr>vtx_flags := flags_insert (vtx_flags self) MILESTONE\<rparr>"

section \<open>The tangle (tangle.rs)\<close>

type_synonym milestone_index = u32

record tangle =
  vertices :: "(hash, vertex) fmap"
  approvers :: "(hash, hash list) fmap"
  milestones :: "(milestone_index, hash) fmap"
  solid_entry_points :: "hash set"
  solidifier_chan :: "hash option list"
  solid_milestone_index :: milestone_index
  snapshot_milestone_index :: milestone_index
  last_milestone_index :: milestone_index

definition tangle_new :: tangle where
  "tangle_new = \<lparr>vertices = fmempty, approvers = fmempty, milestones = fmempty, solid_entry_points = {},
     solidifier_chan = [], solid_milestone_index = 0, snapshot_milestone_index = 0, last_milestone_index = 0\<rparr>"

text \<open>An entry of the approver map: pushed when occupied, a new list when vacant.\<close>

definition push_approver :: "tangle \<Rightarrow> hash \<Rightarrow> hash \<Rightarrow> tangle" where
  "push_approver self approvee hash =
     self\<lparr>approvers := fmupd approvee
       (case fmlookup (approvers self) approvee of Some entries \<Rightarrow> entries @ [hash] | None \<Rightarrow> [hash])
       (approvers self)\<rparr>"

definition insert_approvers :: "tangle \<Rightarrow> transaction \<Rightarrow> hash \<Rightarrow> tangle" where
  "insert_approvers self transaction hash =
     (let self = push_approver self (tx_trunk transaction) hash
      in if tx_trunk transaction \<noteq> tx_branch transaction
         then push_approver self (tx_branch transaction) hash else self)"

definition insert_vertex :: "tangle \<Rightarrow> transaction \<Rightarrow> hash \<Rightarrow> tangle \<times> bool" where
  "insert_vertex self transaction hash =
     (self\<lparr>vertices := fmupd hash (vertex_from transaction hash) (vertices self)\<rparr>,
      fmlookup (vertices self) hash = None)"

definition solidifier_send :: "tangle \<Rightarrow> hash option \<Rightarrow> tangle" where
  "solidifier_send self msg = self\<lparr>solidifier_chan := solidifier_chan self @ [msg]\<rparr>"

definition insert_transaction :: "tangle \<Rightarrow> transaction \<Rightarrow> hash \<Rightarrow> tangle \<times> transaction option" where
  "insert_transaction self transaction hash =
     (let self = insert_approvers self transaction hash;
          (self, fresh) = insert_vertex self transaction hash
      in if fresh then (solidifier_send self (Some hash), Some transaction) else (self, None))"

definition tangle_shutdown :: "tangle \<Rightarrow> tangle" where
  "tangle_shutdown self = solidifier_send self None"

definition get_transaction :: "tangle \<Rightarrow> hash \<Rightarrow> transaction option" where
  "get_transaction self hash = map_option vtx_inner (fmlookup (vertices self) hash)"

definition contains_transaction :: "tangle \<Rightarrow> hash \<Rightarrow> bool" where
  "contains_transaction self hash \<longleftrightarrow> fmlookup (vertices self) hash \<noteq> None"

definition is_solid_entry_point :: "tangle \<Rightarrow> hash \<Rightarrow> bool" where
  "is_solid_entry_point self hash \<longleftrightarrow> hash \<in> solid_entry_points self"

definition is_solid_transaction :: "tangle \<Rightarrow> hash \<Rightarrow> bool" where
  "is_solid_transaction self hash =
     (if is_solid_entry_point self hash then True
      else case fmlookup (vertices self) hash of Some v \<Rightarrow> vertex_is_solid v | None \<Rightarrow> False)"

definition add_milestone :: "tangle \<Rightarrow> milestone_index \<Rightarrow> hash \<Rightarrow> tangle" where
  "add_milestone self index hash =
     (let self = self\<lparr>milestones := fmupd index hash (milestones self)\<rparr>
      in case fmlookup (vertices self) hash of
           Some v \<Rightarrow> self\<lparr>vertices := fmupd hash (vertex_set_milestone v) (vertices self)\<rparr>
         | None \<Rightarrow> self)"

definition remove_milestone :: "tangle \<Rightarrow> milestone_index \<Rightarrow> tangle" where
  "remove_milestone self index = self\<lparr>milestones := fmdrop index (milestones self)\<rparr>"

definition get_milestone_hash :: "tangle \<Rightarrow> milestone_index \<Rightarrow> hash option" where
  "get_milestone_hash self index = fmlookup (milestones self) index"

definition get_milestone :: "tangle \<Rightarrow> milestone_index \<Rightarrow> transaction option" where
  "get_milestone self index =
     (case get_milestone_hash self index of None \<Rightarrow> None | Some hash \<Rightarrow> get_transaction self hash)"

definition contains_milestone :: "tangle \<Rightarrow> milestone_index \<Rightarrow> bool" where
  "contains_milestone self index \<longleftrightarrow> fmlookup (milestones self) index \<noteq> None"

definition update_solid_milestone_index :: "tangle \<Rightarrow> milestone_index \<Rightarrow> tangle" where
  "update_solid_milestone_index self new_index = self\<lparr>solid_milestone_index := new_index\<rparr>"

definition update_snapshot_milestone_index :: "tangle \<Rightarrow> milestone_index \<Rightarrow> tangle" where
  "update_snapshot_milestone_index self new_index = self\<lparr>snapshot_milestone_index := new_index\<rparr>"

definition update_last_milestone_index :: "tangle \<Rightarrow> milestone_index \<Rightarrow> tangle" where
  "update_last_milestone_index self new_index = self\<lparr>last_milestone_index := new_index\<rparr>"

definition add_solid_entry_point :: "tangle \<Rightarrow> hash \<Rightarrow> tangle" where
  "add_solid_entry_point self hash = self\<lparr>solid_entry_points := insert hash (solid_entry_points self)\<rparr>"

definition remove_solid_entry_point :: "tangle \<Rightarrow> hash \<Rightarrow> tangle" where
  "remove_solid_entry_point self hash = self\<lparr>solid_entry_points := solid_entry_points self - {hash}\<rparr>"

definition is_synced :: "tangle \<Rightarrow> bool" where
  "is_synced self \<longleftrightarrow> solid_milestone_index self = last_milestone_index self"

definition tangle_size :: "tangle \<Rightarrow> nat" where
  "tangle_size self = fcard (fmdom (vertices self))"

section \<open>The solidifier (solidifier.rs)\<close>

definition set_vertex_solid :: "tangle \<Rightarrow> hash \<Rightarrow> tangle" where
  "set_vertex_solid T hash =
     (case fmlookup (vertices T) hash of
        Some v \<Rightarrow> T\<lparr>vertices := fmupd hash (vertex_set_solid v) (vertices T)\<rparr>
      | None \<Rightarrow> T)"

definition approver_list :: "tangle \<Rightarrow> hash \<Rightarrow> hash list" where
  "approver_list T hash = (case fmlookup (approvers T) hash of Some xs \<Rightarrow> xs | None \<Rightarrow> [])"

text \<open>One iteration of the loop of \<open>propagate\<close> for the hash popped; the head of the list is the top of the stack.\<close>

definition propagate_iter :: "tangle \<Rightarrow> hash \<Rightarrow> hash list \<Rightarrow> hash set \<Rightarrow> tangle \<times> hash list \<times> hash set" where
  "propagate_iter T hash stack already_solid =
     (if hash \<notin> already_solid
      then case fmlookup (vertices T) hash of
             Some v \<Rightarrow>
               if is_solid_transaction T (tx_trunk (vtx_inner v)) \<and> is_solid_transaction T (tx_branch (vtx_inner v))
               then let T = set_vertex_solid T hash
                    in (T, rev (approver_list T hash) @ stack, insert hash already_solid)
               else (T, stack, already_solid)
           | None \<Rightarrow> (T, stack, already_solid)
      else (T, stack, already_solid))"

lemma fmdom'_set_vertex_solid [simp]: "fmdom' (vertices (set_vertex_solid T h)) = fmdom' (vertices T)"
  by (auto simp: set_vertex_solid_def fmlookup_dom'_iff split: option.splits)

lemma propagate_iter_cases:
  assumes "propagate_iter T h stack already = (T', stack', already')"
  obtains (skip) "T' = T" "stack' = stack" "already' = already"
    "\<And>v. h \<notin> already \<Longrightarrow> fmlookup (vertices T) h = Some v \<Longrightarrow>
      \<not> (is_solid_transaction T (tx_trunk (vtx_inner v)) \<and> is_solid_transaction T (tx_branch (vtx_inner v)))"
  | (solid) v where "h \<notin> already" "fmlookup (vertices T) h = Some v"
    "is_solid_transaction T (tx_trunk (vtx_inner v))" "is_solid_transaction T (tx_branch (vtx_inner v))"
    "T' = set_vertex_solid T h" "stack' = rev (approver_list T h) @ stack" "already' = insert h already"
proof (cases "h \<in> already \<or> fmlookup (vertices T) h = None")
  case True
  then show ?thesis
    using assms by (intro skip) (auto simp: propagate_iter_def split: option.splits)
next
  case False
  then obtain v where v: "fmlookup (vertices T) h = Some v" "h \<notin> already"
    by auto
  show ?thesis
  proof (cases "is_solid_transaction T (tx_trunk (vtx_inner v)) \<and> is_solid_transaction T (tx_branch (vtx_inner v))")
    case True
    moreover have "approver_list (set_vertex_solid T h) h = approver_list T h"
      by (simp add: approver_list_def set_vertex_solid_def v)
    ultimately show ?thesis
      using assms v by (intro solid [of v]) (auto simp: propagate_iter_def Let_def)
  next
    case False
    then show ?thesis
      using assms v by (intro skip) (auto simp: propagate_iter_def)
  qed
qed

definition propagate_measure :: "((tangle \<times> hash list \<times> hash set) \<times> (tangle \<times> hash list \<times> hash set)) set" where
  "propagate_measure = measures
     [\<lambda>(T, stack, already). card (fmdom' (vertices T) - already), \<lambda>(T, stack, already). length stack]"

lemma propagate_iter_decreases:
  assumes "propagate_iter T h stack already = (T', stack', already')"
  shows "((T', stack', already'), T, h # stack, already) \<in> propagate_measure"
  using assms
proof (cases rule: propagate_iter_cases)
  case (solid v)
  have "h \<in> fmdom' (vertices T)"
    using solid(2) by (rule fmdom'I)
  then have "fmdom' (vertices T) - insert h already \<subset> fmdom' (vertices T) - already"
    using solid(1) by blast
  then have "card (fmdom' (vertices T) - insert h already) < card (fmdom' (vertices T) - already)"
    by (intro psubset_card_mono) simp_all
  then show ?thesis
    using solid by (simp add: propagate_measure_def)
qed (simp add: propagate_measure_def)

function propagate_loop :: "tangle \<Rightarrow> hash list \<Rightarrow> hash set \<Rightarrow> tangle" where
  "propagate_loop T [] already_solid = T"
| "propagate_loop T (hash # stack) already_solid =
     (case propagate_iter T hash stack already_solid of
        (T, stack, already_solid) \<Rightarrow> propagate_loop T stack already_solid)"
  by (pat_completeness) simp_all

termination
  by (relation propagate_measure) (simp add: propagate_measure_def, metis propagate_iter_decreases)

definition propagate :: "tangle \<Rightarrow> hash \<Rightarrow> tangle" where
  "propagate T hash = propagate_loop T [hash] {}"

text \<open>\<open>run\<close> over the messages that are in the channel: it ends at the shutdown signal.\<close>

fun solidifier_loop :: "tangle \<Rightarrow> hash option list \<Rightarrow> tangle" where
  "solidifier_loop T [] = T"
| "solidifier_loop T (Some hash # msgs) = solidifier_loop (propagate (T\<lparr>solidifier_chan := msgs\<rparr>) hash) msgs"
| "solidifier_loop T (None # msgs) = T\<lparr>solidifier_chan := msgs\<rparr>"

definition solidifier_run :: "tangle \<Rightarrow> tangle" where
  "solidifier_run T = solidifier_loop T (solidifier_chan T)"

end
