(* ===== verification/Solidification.thy ===== *)
theory Solidification
  imports Tangle
begin

text \<open>
  Solidification as a concurrent system. A transaction is solid when it is a solid entry point or when it
  is in the tangle and both transactions it approves are solid; this is the inductive predicate \<open>solid\<close>.
  The solidifier computes it with a flag per vertex while insertions go on. A state of the node has the
  tangle, the stack and the set of the current call of \<open>propagate\<close>, and the calls of \<open>insert_transaction\<close> that
  are on their way, each with the statement it executes next. Any transaction can be inserted at any time, also
  while it is being inserted and when it is in the tangle. As the comment of \<open>insert_transaction\<close> demands, a
  hash belongs to one transaction, given by \<open>content\<close>.

  Flags are never wrong in any reachable state. That no flag is missing holds where no transaction is
  inserted twice, since a second insertion clears the flag: the invariant \<open>node_inv\<close> says that a vertex whose flag
  is missing will still be looked at.
\<close>

section \<open>Solid transactions\<close>

inductive solid :: "tangle \<Rightarrow> hash \<Rightarrow> bool" for T where
  entry: "h \<in> solid_entry_points T \<Longrightarrow> solid T h"
| vertex: "fmlookup (vertices T) h = Some v \<Longrightarrow> solid T (tx_trunk (vtx_inner v)) \<Longrightarrow>
    solid T (tx_branch (vtx_inner v)) \<Longrightarrow> solid T h"

section \<open>The node\<close>

datatype insert_phase = PushTrunk | PushBranch | InsertVertex | SendHash

record node =
  nd_tangle :: tangle
  nd_stack :: "hash list"
  nd_already :: "hash set"
  nd_inserts :: "nat \<rightharpoonup> hash \<times> insert_phase"

definition node_start :: "hash set \<Rightarrow> node" where
  "node_start seps = \<lparr>nd_tangle = tangle_new\<lparr>solid_entry_points := seps\<rparr>, nd_stack = [], nd_already = {},
     nd_inserts = Map.empty\<rparr>"

definition branch_approver :: "tangle \<Rightarrow> transaction \<Rightarrow> hash \<Rightarrow> tangle" where
  "branch_approver T tx h = (if tx_trunk tx \<noteq> tx_branch tx then push_approver T (tx_branch tx) h else T)"

text \<open>The tasks that insert are numbered; one iteration of the loop of \<open>propagate\<close> is a step.\<close>

inductive node_step :: "(hash \<Rightarrow> transaction) \<Rightarrow> node \<Rightarrow> node \<Rightarrow> bool" for content where
  insert_begin: "nd_inserts s t = None \<Longrightarrow>
    node_step content s (s\<lparr>nd_inserts := (nd_inserts s)(t \<mapsto> (h, PushTrunk))\<rparr>)"
| insert_trunk: "nd_inserts s t = Some (h, PushTrunk) \<Longrightarrow>
    node_step content s (s\<lparr>nd_tangle := push_approver (nd_tangle s) (tx_trunk (content h)) h,
      nd_inserts := (nd_inserts s)(t \<mapsto> (h, PushBranch))\<rparr>)"
| insert_branch: "nd_inserts s t = Some (h, PushBranch) \<Longrightarrow>
    node_step content s (s\<lparr>nd_tangle := branch_approver (nd_tangle s) (content h) h,
      nd_inserts := (nd_inserts s)(t \<mapsto> (h, InsertVertex))\<rparr>)"
| insert_vertex: "nd_inserts s t = Some (h, InsertVertex) \<Longrightarrow> insert_vertex (nd_tangle s) (content h) h = (T, fresh) \<Longrightarrow>
    node_step content s (s\<lparr>nd_tangle := T,
      nd_inserts := (if fresh then (nd_inserts s)(t \<mapsto> (h, SendHash)) else (nd_inserts s)(t := None))\<rparr>)"
| insert_send: "nd_inserts s t = Some (h, SendHash) \<Longrightarrow>
    node_step content s (s\<lparr>nd_tangle := solidifier_send (nd_tangle s) (Some h), nd_inserts := (nd_inserts s)(t := None)\<rparr>)"
| solidifier_recv: "nd_stack s = [] \<Longrightarrow> solidifier_chan (nd_tangle s) = Some h # msgs \<Longrightarrow>
    node_step content s (s\<lparr>nd_tangle := (nd_tangle s)\<lparr>solidifier_chan := msgs\<rparr>, nd_stack := [h], nd_already := {}\<rparr>)"
| solidifier_iter: "nd_stack s = h # stack \<Longrightarrow>
    propagate_iter (nd_tangle s) h stack (nd_already s) = (T, stack', already') \<Longrightarrow>
    node_step content s (s\<lparr>nd_tangle := T, nd_stack := stack', nd_already := already'\<rparr>)"
| milestone: "node_step content s (s\<lparr>nd_tangle := add_milestone (nd_tangle s) i h\<rparr>)"
| milestone_removed: "node_step content s (s\<lparr>nd_tangle := remove_milestone (nd_tangle s) i\<rparr>)"
| index_update: "f \<in> {update_solid_milestone_index, update_snapshot_milestone_index, update_last_milestone_index} \<Longrightarrow>
    node_step content s (s\<lparr>nd_tangle := f (nd_tangle s) i\<rparr>)"

text \<open>The states that are reached by steps that satisfy \<open>P\<close>.\<close>

inductive node_reach :: "(node \<Rightarrow> node \<Rightarrow> bool) \<Rightarrow> (hash \<Rightarrow> transaction) \<Rightarrow> hash set \<Rightarrow> node \<Rightarrow> bool" for P content seps where
  start: "node_reach P content seps (node_start seps)"
| step: "node_reach P content seps s \<Longrightarrow> node_step content s s' \<Longrightarrow> P s s' \<Longrightarrow> node_reach P content seps s'"

definition node_reachable :: "(hash \<Rightarrow> transaction) \<Rightarrow> hash set \<Rightarrow> node \<Rightarrow> bool" where
  "node_reachable content seps s \<longleftrightarrow> node_reach (\<lambda>_ _. True) content seps s"

text \<open>Runs in which no transaction is inserted that is in the tangle or being inserted.\<close>

definition begins_fresh :: "node \<Rightarrow> node \<Rightarrow> bool" where
  "begins_fresh s s' \<longleftrightarrow> (\<forall>t h. nd_inserts s t = None \<longrightarrow> nd_inserts s' t = Some (h, PushTrunk) \<longrightarrow>
     fmlookup (vertices (nd_tangle s)) h = None \<and> (\<forall>t' p. nd_inserts s t' \<noteq> Some (h, p)))"

definition reachable_once :: "(hash \<Rightarrow> transaction) \<Rightarrow> hash set \<Rightarrow> node \<Rightarrow> bool" where
  "reachable_once content seps s \<longleftrightarrow> node_reach begins_fresh content seps s"

lemma reach_weaken: "node_reach P content seps s \<Longrightarrow> node_reachable content seps s"
  unfolding node_reachable_def by (induction rule: node_reach.induct) (auto intro: node_reach.intros)

definition quiescent :: "node \<Rightarrow> bool" where
  "quiescent s \<longleftrightarrow> solidifier_chan (nd_tangle s) = [] \<and> nd_stack s = [] \<and> nd_inserts s = Map.empty"

section \<open>The invariant\<close>

abbreviation parents_solid :: "tangle \<Rightarrow> transaction \<Rightarrow> bool" where
  "parents_solid T tx \<equiv> is_solid_transaction T (tx_trunk tx) \<and> is_solid_transaction T (tx_branch tx)"

definition flags_sound :: "tangle \<Rightarrow> bool" where
  "flags_sound T \<longleftrightarrow> (\<forall>h v. fmlookup (vertices T) h = Some v \<longrightarrow> vertex_is_solid v \<longrightarrow> solid T h)"

definition approvers_known :: "(hash \<Rightarrow> transaction) \<Rightarrow> node \<Rightarrow> bool" where
  "approvers_known content s \<longleftrightarrow>
     (\<forall>h v. fmlookup (vertices (nd_tangle s)) h = Some v \<longrightarrow>
        h \<in> set (approver_list (nd_tangle s) (tx_trunk (vtx_inner v)))
        \<and> h \<in> set (approver_list (nd_tangle s) (tx_branch (vtx_inner v))))
     \<and> (\<forall>t h. nd_inserts s t = Some (h, PushBranch) \<longrightarrow> h \<in> set (approver_list (nd_tangle s) (tx_trunk (content h))))
     \<and> (\<forall>t h. nd_inserts s t = Some (h, InsertVertex) \<longrightarrow>
        h \<in> set (approver_list (nd_tangle s) (tx_trunk (content h))) \<and> h \<in> set (approver_list (nd_tangle s) (tx_branch (content h))))"

definition inserts_fresh :: "node \<Rightarrow> bool" where
  "inserts_fresh s \<longleftrightarrow>
     (\<forall>t h p. nd_inserts s t = Some (h, p) \<longrightarrow> p \<noteq> SendHash \<longrightarrow> fmlookup (vertices (nd_tangle s)) h = None)
     \<and> (\<forall>t t' h p p'. nd_inserts s t = Some (h, p) \<longrightarrow> nd_inserts s t' = Some (h, p') \<longrightarrow> t = t')"

definition already_flagged :: "node \<Rightarrow> bool" where
  "already_flagged s \<longleftrightarrow> (\<forall>h \<in> nd_already s. \<exists>v. fmlookup (vertices (nd_tangle s)) h = Some v \<and> vertex_is_solid v)"

definition on_its_way :: "node \<Rightarrow> hash \<Rightarrow> bool" where
  "on_its_way s h \<longleftrightarrow> Some h \<in> set (solidifier_chan (nd_tangle s)) \<or> h \<in> set (nd_stack s)
     \<or> (\<exists>t. nd_inserts s t = Some (h, SendHash))"

definition nothing_forgotten :: "node \<Rightarrow> bool" where
  "nothing_forgotten s \<longleftrightarrow> (\<forall>h v. fmlookup (vertices (nd_tangle s)) h = Some v \<longrightarrow>
     parents_solid (nd_tangle s) (vtx_inner v) \<longrightarrow> vertex_is_solid v \<or> on_its_way s h)"

definition node_inv :: "(hash \<Rightarrow> transaction) \<Rightarrow> node \<Rightarrow> bool" where
  "node_inv content s \<longleftrightarrow> flags_sound (nd_tangle s) \<and> approvers_known content s \<and> inserts_fresh s \<and> already_flagged s
     \<and> nothing_forgotten s \<and> None \<notin> set (solidifier_chan (nd_tangle s))"

lemmas node_inv_defs = node_inv_def flags_sound_def approvers_known_def inserts_fresh_def already_flagged_def
  nothing_forgotten_def on_its_way_def

section \<open>Flags\<close>

lemmas flag_defs = flags_contains_def flags_insert_def SOLID_def TAIL_def REQUESTED_def MILESTONE_def

lemma vertex_from_not_solid [simp]: "\<not> vertex_is_solid (vertex_from tx h)"
  by (simp add: vertex_is_solid_def vertex_from_def flag_defs)

lemma vertex_from_inner [simp]: "vtx_inner (vertex_from tx h) = tx"
  by (simp add: vertex_from_def)

lemma set_solid_simps [simp]:
  "vertex_is_solid (vertex_set_solid v)" "vtx_inner (vertex_set_solid v) = vtx_inner v"
proof -
  have "(x OR 1) AND 1 = (1 :: u8)" for x
    by (rule bit_word_eqI) (auto simp: bit_simps)
  then show "vertex_is_solid (vertex_set_solid v)"
    by (simp add: vertex_is_solid_def vertex_set_solid_def flag_defs)
qed (simp add: vertex_set_solid_def)

lemma set_milestone_simps [simp]:
  "vertex_is_solid (vertex_set_milestone v) = vertex_is_solid v" "vtx_inner (vertex_set_milestone v) = vtx_inner v"
proof -
  have "(x OR 8) AND 1 = (x AND 1 :: u8)" for x
    by (rule bit_word_eqI) (auto simp: bit_simps)
  then show "vertex_is_solid (vertex_set_milestone v) = vertex_is_solid v"
    by (simp add: vertex_is_solid_def vertex_set_milestone_def flag_defs)
qed (simp add: vertex_set_milestone_def)

section \<open>What the operations change\<close>

lemma push_approver_simps [simp]:
  "vertices (push_approver T p h) = vertices T" "solid_entry_points (push_approver T p h) = solid_entry_points T"
  "solidifier_chan (push_approver T p h) = solidifier_chan T"
  by (simp_all add: push_approver_def)

lemma push_approver_list:
  "set (approver_list T q) \<subseteq> set (approver_list (push_approver T p h) q)"
  "h \<in> set (approver_list (push_approver T p h) p)"
  by (auto simp: push_approver_def approver_list_def split: option.splits)

lemma branch_approver_simps [simp]:
  "vertices (branch_approver T tx h) = vertices T"
  "solid_entry_points (branch_approver T tx h) = solid_entry_points T"
  "solidifier_chan (branch_approver T tx h) = solidifier_chan T"
  by (simp_all add: branch_approver_def)

lemma branch_approver_list:
  "set (approver_list T q) \<subseteq> set (approver_list (branch_approver T tx h) q)"
  "h \<in> set (approver_list T (tx_trunk tx)) \<Longrightarrow> h \<in> set (approver_list (branch_approver T tx h) (tx_branch tx))"
  using push_approver_list by (auto simp: branch_approver_def)

lemma is_solid_cong:
  "vertices T' = vertices T \<Longrightarrow> solid_entry_points T' = solid_entry_points T \<Longrightarrow>
   is_solid_transaction T' = is_solid_transaction T"
  by (simp add: fun_eq_iff is_solid_transaction_def is_solid_entry_point_def)

text \<open>Two tangles have the same graph when they differ in flags at most.\<close>

definition graph :: "tangle \<Rightarrow> hash \<Rightarrow> transaction option" where
  "graph T h = map_option vtx_inner (fmlookup (vertices T) h)"

lemma graph_Some_iff: "graph T h = Some tx \<longleftrightarrow> (\<exists>v. fmlookup (vertices T) h = Some v \<and> vtx_inner v = tx)"
  by (auto simp: graph_def)

lemma solid_mono:
  assumes "solid T h" "solid_entry_points T \<subseteq> solid_entry_points T'" "graph T \<subseteq>\<^sub>m graph T'"
  shows "solid T' h"
  using assms(1)
proof induction
  case (entry h)
  then show ?case
    using assms(2) by (auto intro: solid.entry)
next
  case (vertex h v)
  then have "graph T h = Some (vtx_inner v)"
    by (simp add: graph_def)
  then have "graph T' h = Some (vtx_inner v)"
    using assms(3) by (metis domI map_le_def)
  then show ?case
    using vertex by (auto simp: graph_Some_iff intro: solid.vertex)
qed

lemma solid_cong: "solid_entry_points T' = solid_entry_points T \<Longrightarrow> graph T' = graph T \<Longrightarrow> solid T' = solid T"
  using solid_mono [of T _ T'] solid_mono [of T' _ T] by (intro ext) auto

lemma add_milestone_simps [simp]:
  "solid_entry_points (add_milestone T i h) = solid_entry_points T"
  "solidifier_chan (add_milestone T i h) = solidifier_chan T" "approvers (add_milestone T i h) = approvers T"
  "graph (add_milestone T i h) = graph T"
  by (auto simp: add_milestone_def Let_def graph_def fun_eq_iff split: option.splits)

lemma approver_list_cong: "approvers T' = approvers T \<Longrightarrow> approver_list T' = approver_list T"
  by (simp add: fun_eq_iff approver_list_def)

lemma add_milestone_vertices:
  "fmlookup (vertices (add_milestone T i h)) k = map_option (\<lambda>v. if k = h then vertex_set_milestone v else v) (fmlookup (vertices T) k)"
  by (cases "fmlookup (vertices T) k") (auto simp: add_milestone_def Let_def split: option.splits)

lemma set_vertex_solid_simps [simp]:
  "solid_entry_points (set_vertex_solid T h) = solid_entry_points T"
  "solidifier_chan (set_vertex_solid T h) = solidifier_chan T" "approvers (set_vertex_solid T h) = approvers T"
  "graph (set_vertex_solid T h) = graph T"
  by (auto simp: set_vertex_solid_def graph_def fun_eq_iff split: option.splits)

lemma set_vertex_solid_vertices:
  "fmlookup (vertices (set_vertex_solid T h)) k = map_option (\<lambda>v. if k = h then vertex_set_solid v else v) (fmlookup (vertices T) k)"
  by (cases "fmlookup (vertices T) k") (auto simp: set_vertex_solid_def split: option.splits)

lemma is_solid_set_vertex_solid:
  "fmlookup (vertices T) h = Some v \<Longrightarrow>
   is_solid_transaction (set_vertex_solid T h) k \<longleftrightarrow> k = h \<or> is_solid_transaction T k"
  by (auto simp: is_solid_transaction_def is_solid_entry_point_def set_vertex_solid_vertices split: option.splits)

lemma is_solid_sound: "flags_sound T \<Longrightarrow> is_solid_transaction T h \<Longrightarrow> solid T h"
  by (auto simp: is_solid_transaction_def is_solid_entry_point_def flags_sound_def
      split: if_splits option.splits intro: solid.entry)

section \<open>Every step keeps the invariant\<close>

lemma inv_start: "node_inv content (node_start seps)"
  by (simp add: node_inv_defs node_start_def tangle_new_def)

text \<open>Steps that leave the vertices and the solidifier alone.\<close>

lemma inv_same_vertices:
  assumes inv: "node_inv content s"
    and T: "vertices T = vertices (nd_tangle s)" "solid_entry_points T = solid_entry_points (nd_tangle s)"
    and "\<And>q. set (approver_list (nd_tangle s) q) \<subseteq> set (approver_list T q)"
    and "None \<notin> set (solidifier_chan T)"
    and "\<And>h. on_its_way s h \<Longrightarrow> on_its_way (s\<lparr>nd_tangle := T, nd_inserts := I\<rparr>) h"
    and "\<And>t h. I t = Some (h, PushBranch) \<Longrightarrow> h \<in> set (approver_list T (tx_trunk (content h)))"
    and "\<And>t h. I t = Some (h, InsertVertex) \<Longrightarrow>
      h \<in> set (approver_list T (tx_trunk (content h))) \<and> h \<in> set (approver_list T (tx_branch (content h)))"
    and "\<And>t h p. I t = Some (h, p) \<Longrightarrow> p \<noteq> SendHash \<Longrightarrow> fmlookup (vertices (nd_tangle s)) h = None"
    and "\<And>t t' h p p'. I t = Some (h, p) \<Longrightarrow> I t' = Some (h, p') \<Longrightarrow> t = t'"
  shows "node_inv content (s\<lparr>nd_tangle := T, nd_inserts := I\<rparr>)"
proof -
  have "solid T = solid (nd_tangle s)"
    using T by (intro solid_cong) (simp_all add: graph_def fun_eq_iff)
  then have "flags_sound T"
    using inv T by (simp add: node_inv_def flags_sound_def)
  moreover have "nothing_forgotten (s\<lparr>nd_tangle := T, nd_inserts := I\<rparr>)"
    unfolding nothing_forgotten_def
  proof (intro allI impI)
    fix h v
    assume "fmlookup (vertices (nd_tangle (s\<lparr>nd_tangle := T, nd_inserts := I\<rparr>))) h = Some v"
      "parents_solid (nd_tangle (s\<lparr>nd_tangle := T, nd_inserts := I\<rparr>)) (vtx_inner v)"
    then have "vertex_is_solid v \<or> on_its_way s h"
      using inv unfolding node_inv_def nothing_forgotten_def by (simp add: T is_solid_cong [OF T])
    then show "vertex_is_solid v \<or> on_its_way (s\<lparr>nd_tangle := T, nd_inserts := I\<rparr>) h"
      using assms(6) by blast
  qed
  moreover have "already_flagged (s\<lparr>nd_tangle := T, nd_inserts := I\<rparr>)"
    using inv T by (simp add: node_inv_def already_flagged_def)
  moreover have "inserts_fresh (s\<lparr>nd_tangle := T, nd_inserts := I\<rparr>)"
    using assms(9,10) T by (auto simp: inserts_fresh_def)
  moreover have "approvers_known content (s\<lparr>nd_tangle := T, nd_inserts := I\<rparr>)"
    using inv assms(4,7,8) T unfolding node_inv_def approvers_known_def by (simp add: subset_iff)
  ultimately show ?thesis
    using assms(5) by (simp add: node_inv_def)
qed

lemma on_its_way_upd:
  assumes "on_its_way s k" "\<And>k. nd_inserts s t \<noteq> Some (k, SendHash)"
    and "set (solidifier_chan (nd_tangle s)) \<subseteq> set (solidifier_chan T)"
  shows "on_its_way (s\<lparr>nd_tangle := T, nd_inserts := (nd_inserts s)(t := x)\<rparr>) k"
proof -
  have "\<exists>t'. ((nd_inserts s)(t := x)) t' = Some (k, SendHash)" if "nd_inserts s t' = Some (k, SendHash)" for t'
    using that assms(2) by (intro exI [of _ t']) auto
  then show ?thesis
    using assms(1,3) unfolding on_its_way_def by (simp del: fun_upd_apply) blast
qed

lemma on_its_way_sent:
  assumes "on_its_way s k" "nd_inserts s t = Some (h, SendHash)"
  shows "on_its_way (s\<lparr>nd_tangle := solidifier_send (nd_tangle s) (Some h), nd_inserts := (nd_inserts s)(t := None)\<rparr>) k"
proof -
  have "k = h \<or> (\<exists>t'. ((nd_inserts s)(t := None)) t' = Some (k, SendHash))" if "nd_inserts s t' = Some (k, SendHash)" for t'
    using that assms(2) by (cases "t' = t") (auto intro: exI [of _ t'])
  then show ?thesis
    using assms(1) unfolding on_its_way_def by (simp add: solidifier_send_def del: fun_upd_apply) blast
qed

lemma inv_insert_steps:
  assumes "node_inv content s"
  shows "fmlookup (vertices (nd_tangle s)) h = None \<Longrightarrow> nd_inserts s t = None \<Longrightarrow> (\<And>t' p. nd_inserts s t' \<noteq> Some (h, p)) \<Longrightarrow>
      node_inv content (s\<lparr>nd_inserts := (nd_inserts s)(t \<mapsto> (h, PushTrunk))\<rparr>)"
    and "nd_inserts s t = Some (h, PushTrunk) \<Longrightarrow>
      node_inv content (s\<lparr>nd_tangle := push_approver (nd_tangle s) (tx_trunk (content h)) h, nd_inserts := (nd_inserts s)(t \<mapsto> (h, PushBranch))\<rparr>)"
    and "nd_inserts s t = Some (h, PushBranch) \<Longrightarrow>
      node_inv content (s\<lparr>nd_tangle := branch_approver (nd_tangle s) (content h) h, nd_inserts := (nd_inserts s)(t \<mapsto> (h, InsertVertex))\<rparr>)"
    and "nd_inserts s t = Some (h, SendHash) \<Longrightarrow>
      node_inv content (s\<lparr>nd_tangle := solidifier_send (nd_tangle s) (Some h), nd_inserts := (nd_inserts s)(t := None)\<rparr>)"
proof -
  have k: "\<And>t h. nd_inserts s t = Some (h, PushBranch) \<Longrightarrow> h \<in> set (approver_list (nd_tangle s) (tx_trunk (content h)))"
    "\<And>t h. nd_inserts s t = Some (h, InsertVertex) \<Longrightarrow> h \<in> set (approver_list (nd_tangle s) (tx_trunk (content h)))"
    "\<And>t h. nd_inserts s t = Some (h, InsertVertex) \<Longrightarrow> h \<in> set (approver_list (nd_tangle s) (tx_branch (content h)))"
    "\<And>t h p. nd_inserts s t = Some (h, p) \<Longrightarrow> p \<noteq> SendHash \<Longrightarrow> fmlookup (vertices (nd_tangle s)) h = None"
    "None \<notin> set (solidifier_chan (nd_tangle s))"
    using assms by (auto simp: node_inv_def approvers_known_def inserts_fresh_def)
  have u: "t = t'" if "nd_inserts s t = Some (h, p)" "nd_inserts s t' = Some (h, p')" for t t' h p p'
    using assms that unfolding node_inv_def inserts_fresh_def by blast
  show "node_inv content (s\<lparr>nd_inserts := (nd_inserts s)(t \<mapsto> (h, PushTrunk))\<rparr>)"
    if "fmlookup (vertices (nd_tangle s)) h = None" "nd_inserts s t = None" "\<And>t' p. nd_inserts s t' \<noteq> Some (h, p)"
  proof -
    have "node_inv content (s\<lparr>nd_tangle := nd_tangle s, nd_inserts := (nd_inserts s)(t \<mapsto> (h, PushTrunk))\<rparr>)"
      using k that(1,3) u that(2)
      by (intro inv_same_vertices [OF assms] on_its_way_upd) (auto split: if_splits)
    then show ?thesis
      by simp
  qed
  show "node_inv content (s\<lparr>nd_tangle := push_approver (nd_tangle s) (tx_trunk (content h)) h, nd_inserts := (nd_inserts s)(t \<mapsto> (h, PushBranch))\<rparr>)"
    if "nd_inserts s t = Some (h, PushTrunk)"
    using k that u push_approver_list
    by (intro inv_same_vertices [OF assms] on_its_way_upd) (auto simp: subset_iff split: if_splits)
  show "node_inv content (s\<lparr>nd_tangle := branch_approver (nd_tangle s) (content h) h, nd_inserts := (nd_inserts s)(t \<mapsto> (h, InsertVertex))\<rparr>)"
    if "nd_inserts s t = Some (h, PushBranch)"
    using k that u branch_approver_list
    by (intro inv_same_vertices [OF assms] on_its_way_upd) (auto simp: subset_iff split: if_splits)
  show "node_inv content (s\<lparr>nd_tangle := solidifier_send (nd_tangle s) (Some h), nd_inserts := (nd_inserts s)(t := None)\<rparr>)"
    if "nd_inserts s t = Some (h, SendHash)"
    using k that u
    by (intro inv_same_vertices [OF assms] on_its_way_sent)
      (auto simp: solidifier_send_def approver_list_def split: if_splits)
qed

lemma inv_insert_vertex:
  assumes inv: "node_inv content s" and h: "nd_inserts s t = Some (h, InsertVertex)"
  shows "insert_vertex (nd_tangle s) (content h) h = (T, fresh) \<Longrightarrow> fresh"
    and "insert_vertex (nd_tangle s) (content h) h = (T, fresh) \<Longrightarrow>
      node_inv content (s\<lparr>nd_tangle := T, nd_inserts := (nd_inserts s)(t \<mapsto> (h, SendHash))\<rparr>)"
proof -
  assume e: "insert_vertex (nd_tangle s) (content h) h = (T, fresh)"
  have n: "fmlookup (vertices (nd_tangle s)) h = None"
    using inv h by (auto simp: node_inv_def inserts_fresh_def)
  then show fresh
    using e by (simp add: insert_vertex_def)
  have T: "T = (nd_tangle s)\<lparr>vertices := fmupd h (vertex_from (content h) h) (vertices (nd_tangle s))\<rparr>"
    using e by (simp add: insert_vertex_def)
  have a: "approver_list T = approver_list (nd_tangle s)"
    by (rule approver_list_cong) (simp add: T)
  have g: "graph (nd_tangle s) \<subseteq>\<^sub>m graph T"
    using n by (auto simp: map_le_def graph_def T)
  have i: "is_solid_transaction T = is_solid_transaction (nd_tangle s)"
    using n by (auto simp: fun_eq_iff is_solid_transaction_def is_solid_entry_point_def T)
  let ?s = "s\<lparr>nd_tangle := T, nd_inserts := (nd_inserts s)(t \<mapsto> (h, SendHash))\<rparr>"
  have "flags_sound T"
    using inv solid_mono [OF _ _ g] unfolding node_inv_def flags_sound_def by (simp add: T)
  moreover have "approvers_known content ?s"
    using inv h by (simp add: node_inv_def approvers_known_def a) (simp add: T)
  moreover have "inserts_fresh ?s"
  proof -
    have f: "\<And>t h p. nd_inserts s t = Some (h, p) \<Longrightarrow> p \<noteq> SendHash \<Longrightarrow> fmlookup (vertices (nd_tangle s)) h = None"
      "\<And>t t' h p p'. nd_inserts s t = Some (h, p) \<Longrightarrow> nd_inserts s t' = Some (h, p') \<Longrightarrow> t = t'"
      using inv unfolding node_inv_def inserts_fresh_def by blast+
    show ?thesis
      using f h unfolding inserts_fresh_def by (auto simp: T)
  qed
  moreover have "already_flagged ?s"
    using inv n by (fastforce simp: node_inv_def already_flagged_def T)
  moreover have "nothing_forgotten ?s"
    unfolding nothing_forgotten_def
  proof (intro allI impI)
    fix k v
    assume v: "fmlookup (vertices (nd_tangle ?s)) k = Some v" "parents_solid (nd_tangle ?s) (vtx_inner v)"
    have way: "on_its_way s k \<Longrightarrow> on_its_way ?s k"
      by (erule on_its_way_upd) (simp_all add: h T)
    have here: "on_its_way ?s h"
      unfolding on_its_way_def by (auto intro: exI [of _ t])
    show "vertex_is_solid v \<or> on_its_way ?s k"
    proof (cases "k = h")
      case False
      then have "fmlookup (vertices (nd_tangle s)) k = Some v" "parents_solid (nd_tangle s) (vtx_inner v)"
        using v by (simp_all add: i) (simp add: T)
      then show ?thesis
        using inv way unfolding node_inv_def nothing_forgotten_def by blast
    qed (use here in simp)
  qed
  moreover have "None \<notin> set (solidifier_chan T)"
    using inv by (simp add: node_inv_def T)
  ultimately show "node_inv content ?s"
    by (simp add: node_inv_def)
qed

text \<open>Steps that change neither graph nor solidity nor approvers.\<close>

abbreviation vertex_view :: "tangle \<Rightarrow> hash \<Rightarrow> (transaction \<times> bool) option" where
  "vertex_view T k \<equiv> map_option (\<lambda>v. (vtx_inner v, vertex_is_solid v)) (fmlookup (vertices T) k)"

lemma inv_same_view:
  assumes inv: "node_inv content s"
    and view: "\<And>k. vertex_view (nd_tangle s') k = vertex_view (nd_tangle s) k"
    and sep: "solid_entry_points (nd_tangle s') = solid_entry_points (nd_tangle s)"
    and app: "approvers (nd_tangle s') = approvers (nd_tangle s)"
    and s': "nd_inserts s' = nd_inserts s" "nd_already s' \<subseteq> nd_already s" "None \<notin> set (solidifier_chan (nd_tangle s'))"
    and way: "\<And>h. on_its_way s h \<Longrightarrow> on_its_way s' h"
  shows "node_inv content s'"
proof -
  have l: "\<exists>w. fmlookup (vertices (nd_tangle s)) k = Some w \<and> vtx_inner w = vtx_inner v \<and> vertex_is_solid w = vertex_is_solid v"
    if "fmlookup (vertices (nd_tangle s')) k = Some v" for k v
    using view [of k] that by (cases "fmlookup (vertices (nd_tangle s)) k") auto
  have l': "\<exists>w. fmlookup (vertices (nd_tangle s')) k = Some w \<and> vtx_inner w = vtx_inner v \<and> vertex_is_solid w = vertex_is_solid v"
    if "fmlookup (vertices (nd_tangle s)) k = Some v" for k v
    using view [of k] that by (cases "fmlookup (vertices (nd_tangle s')) k") auto
  have n: "fmlookup (vertices (nd_tangle s')) k = None \<longleftrightarrow> fmlookup (vertices (nd_tangle s)) k = None" for k
    using l l' by (metis not_Some_eq)
  have "graph (nd_tangle s') k = graph (nd_tangle s) k" for k
    using l [of k] l' [of k] n [of k] unfolding graph_def
    by (cases "fmlookup (vertices (nd_tangle s')) k") (auto simp: n)
  then have so: "solid (nd_tangle s') = solid (nd_tangle s)"
    by (intro solid_cong sep ext)
  have i: "is_solid_transaction (nd_tangle s') k = is_solid_transaction (nd_tangle s) k" for k
    using l [of k] l' [of k] n [of k]
    by (cases "fmlookup (vertices (nd_tangle s')) k") (auto simp: is_solid_transaction_def is_solid_entry_point_def sep)
  note ap = approver_list_cong [OF app]
  have "flags_sound (nd_tangle s')"
    using inv l unfolding node_inv_def flags_sound_def so by metis
  moreover have "approvers_known content s'"
    using inv l unfolding node_inv_def approvers_known_def ap s'(1) by metis
  moreover have "inserts_fresh s'"
    using inv n unfolding node_inv_def inserts_fresh_def s'(1) by blast
  moreover have "already_flagged s'"
    using inv l' s'(2) unfolding node_inv_def already_flagged_def by (metis subsetD)
  moreover have "nothing_forgotten s'"
    using inv l way unfolding node_inv_def nothing_forgotten_def i by metis
  ultimately show ?thesis
    using s'(3) by (simp add: node_inv_def)
qed

lemma inv_recv:
  assumes inv: "node_inv content s" and "nd_stack s = []" "solidifier_chan (nd_tangle s) = Some h # msgs"
  shows "node_inv content (s\<lparr>nd_tangle := (nd_tangle s)\<lparr>solidifier_chan := msgs\<rparr>, nd_stack := [h], nd_already := {}\<rparr>)"
  using inv assms(2,3) by (intro inv_same_view [OF inv]) (auto simp: node_inv_def on_its_way_def)

lemma inv_milestone:
  assumes inv: "node_inv content s"
  shows "node_inv content (s\<lparr>nd_tangle := add_milestone (nd_tangle s) i h\<rparr>)"
  using inv
  by (intro inv_same_view [OF inv]) (auto simp: node_inv_def on_its_way_def add_milestone_vertices option.map_comp comp_def
      intro!: option.map_cong split: if_splits)

lemma inv_index:
  assumes inv: "node_inv content s"
    and "f \<in> {update_solid_milestone_index, update_snapshot_milestone_index, update_last_milestone_index}"
  shows "node_inv content (s\<lparr>nd_tangle := f (nd_tangle s) i\<rparr>)" "node_inv content (s\<lparr>nd_tangle := remove_milestone (nd_tangle s) i\<rparr>)"
  using assms(2) inv
  by (intro inv_same_view [OF inv]; auto simp: node_inv_def on_its_way_def remove_milestone_def
      update_solid_milestone_index_def update_snapshot_milestone_index_def update_last_milestone_index_def)+

text \<open>The solidifier: the vertices whose parents become solid are among the approvers it pushes.\<close>

lemma inv_solidify:
  assumes inv: "node_inv content s" and st: "nd_stack s = h # stack" and v: "fmlookup (vertices (nd_tangle s)) h = Some v"
    and p: "parents_solid (nd_tangle s) (vtx_inner v)"
  shows "node_inv content (s\<lparr>nd_tangle := set_vertex_solid (nd_tangle s) h,
    nd_stack := rev (approver_list (nd_tangle s) h) @ stack, nd_already := insert h (nd_already s)\<rparr>)" (is "node_inv content ?s")
proof -
  let ?T = "set_vertex_solid (nd_tangle s) h"
  have so: "solid ?T = solid (nd_tangle s)"
    by (rule solid_cong) simp_all
  note ap = approver_list_cong [of ?T "nd_tangle s", simplified]
  have "solid (nd_tangle s) h"
    using inv p v is_solid_sound [of "nd_tangle s"] unfolding node_inv_def by (blast intro: solid.vertex)
  then have "flags_sound ?T"
    using inv unfolding node_inv_def flags_sound_def so by (auto simp: set_vertex_solid_vertices split: if_splits)
  moreover have "approvers_known content ?s"
    using inv unfolding node_inv_def approvers_known_def
    by (auto simp: ap set_vertex_solid_vertices split: if_splits)
  moreover have "inserts_fresh ?s"
    using inv by (auto simp: node_inv_def inserts_fresh_def set_vertex_solid_vertices)
  moreover have "already_flagged ?s"
    unfolding already_flagged_def
  proof
    fix k
    assume "k \<in> nd_already ?s"
    then have "k = h \<or> (\<exists>w. fmlookup (vertices (nd_tangle s)) k = Some w \<and> vertex_is_solid w)"
      using inv by (auto simp: node_inv_def already_flagged_def)
    then show "\<exists>w. fmlookup (vertices (nd_tangle ?s)) k = Some w \<and> vertex_is_solid w"
      using v by (cases "k = h") (auto simp: set_vertex_solid_vertices)
  qed
  moreover have "nothing_forgotten ?s"
    unfolding nothing_forgotten_def
  proof (intro allI impI)
    fix k w
    assume "fmlookup (vertices (nd_tangle ?s)) k = Some w" and q: "parents_solid (nd_tangle ?s) (vtx_inner w)"
    then obtain u where u: "fmlookup (vertices (nd_tangle s)) k = Some u" "w = (if k = h then vertex_set_solid u else u)"
      by (auto simp: set_vertex_solid_vertices)
    show "vertex_is_solid w \<or> on_its_way ?s k"
    proof (cases "k = h \<or> tx_trunk (vtx_inner u) = h \<or> tx_branch (vtx_inner u) = h")
      case True
      then show ?thesis
        using inv u unfolding node_inv_def approvers_known_def on_its_way_def by auto
    next
      case False
      then have "parents_solid (nd_tangle s) (vtx_inner u)"
        using q u v by (auto simp: is_solid_set_vertex_solid)
      then have "vertex_is_solid u \<or> on_its_way s k"
        using inv u(1) unfolding node_inv_def nothing_forgotten_def by blast
      then show ?thesis
        using u(2) False st by (auto simp: on_its_way_def)
    qed
  qed
  ultimately show ?thesis
    using inv by (simp add: node_inv_def)
qed

lemma inv_iter:
  assumes inv: "node_inv content s" and st: "nd_stack s = h # stack"
    and e: "propagate_iter (nd_tangle s) h stack (nd_already s) = (T, stack', already')"
  shows "node_inv content (s\<lparr>nd_tangle := T, nd_stack := stack', nd_already := already'\<rparr>)"
  using e
proof (cases rule: propagate_iter_cases)
  case skip
  have "nothing_forgotten (s\<lparr>nd_stack := stack\<rparr>)"
    unfolding nothing_forgotten_def
  proof (intro allI impI)
    fix k v
    assume a: "fmlookup (vertices (nd_tangle (s\<lparr>nd_stack := stack\<rparr>))) k = Some v"
      "parents_solid (nd_tangle (s\<lparr>nd_stack := stack\<rparr>)) (vtx_inner v)"
    then have "vertex_is_solid v \<or> on_its_way s k"
      using inv by (simp add: node_inv_def nothing_forgotten_def)
    moreover have "vertex_is_solid v" if "k = h"
      using inv skip(4) [of v] a that by (cases "h \<in> nd_already s") (auto simp: node_inv_def already_flagged_def)
    ultimately show "vertex_is_solid v \<or> on_its_way (s\<lparr>nd_stack := stack\<rparr>) k"
      using st by (auto simp: on_its_way_def)
  qed
  then have "node_inv content (s\<lparr>nd_stack := stack\<rparr>)"
    using inv by (simp add: node_inv_def approvers_known_def inserts_fresh_def already_flagged_def)
  then show ?thesis
    using skip by simp
next
  case (solid v)
  then show ?thesis
    using inv_solidify [OF inv st solid(2)] by simp
qed

lemma inv_step: "node_step content s s' \<Longrightarrow> begins_fresh s s' \<Longrightarrow> node_inv content s \<Longrightarrow> node_inv content s'"
proof (induction rule: node_step.induct)
  case (insert_begin s t h)
  then have "fmlookup (vertices (nd_tangle s)) h = None" "\<And>t' p. nd_inserts s t' \<noteq> Some (h, p)"
    by (auto simp: begins_fresh_def)
  then show ?case
    using insert_begin inv_insert_steps(1) by blast
qed (auto intro: inv_insert_steps inv_recv inv_iter inv_milestone inv_index dest: inv_insert_vertex)

lemma once_inv: "reachable_once content seps s \<Longrightarrow> node_inv content s"
  unfolding reachable_once_def by (induction rule: node_reach.induct) (auto intro: inv_start inv_step)

section \<open>Insertions of known transactions\<close>

text \<open>Flags stay right under any insertions: what a vertex holds depends on its hash only, so the graph never shrinks.\<close>

definition flags_inv :: "(hash \<Rightarrow> transaction) \<Rightarrow> node \<Rightarrow> bool" where
  "flags_inv content s \<longleftrightarrow> flags_sound (nd_tangle s)
     \<and> (\<forall>h v. fmlookup (vertices (nd_tangle s)) h = Some v \<longrightarrow> vtx_inner v = content h)"

lemma flags_sound_mono:
  assumes "flags_sound T" "solid_entry_points T' = solid_entry_points T" "graph T \<subseteq>\<^sub>m graph T'"
    and "\<And>h v. fmlookup (vertices T') h = Some v \<Longrightarrow> vertex_is_solid v \<Longrightarrow> solid T h"
  shows "flags_sound T'"
  using assms solid_mono [of T _ T'] unfolding flags_sound_def by blast

lemma flags_inv_same:
  assumes "flags_inv content s" "vertices (nd_tangle s') = vertices (nd_tangle s)"
    "solid_entry_points (nd_tangle s') = solid_entry_points (nd_tangle s)"
  shows "flags_inv content s'"
proof -
  have "graph (nd_tangle s') = graph (nd_tangle s)"
    using assms(2) by (simp add: graph_def fun_eq_iff)
  then have "solid (nd_tangle s') = solid (nd_tangle s)"
    by (intro solid_cong assms(3))
  then show ?thesis
    using assms(1,2) by (simp add: flags_inv_def flags_sound_def)
qed

lemma flags_inv_vertex:
  assumes inv: "flags_inv content s" and e: "insert_vertex (nd_tangle s) (content h) h = (T, fresh)"
  shows "flags_inv content (s\<lparr>nd_tangle := T, nd_inserts := I\<rparr>)"
proof -
  have T: "T = (nd_tangle s)\<lparr>vertices := fmupd h (vertex_from (content h) h) (vertices (nd_tangle s))\<rparr>"
    using e by (simp add: insert_vertex_def)
  have c: "\<And>h v. fmlookup (vertices (nd_tangle s)) h = Some v \<Longrightarrow> vtx_inner v = content h"
    and f: "\<And>h v. fmlookup (vertices (nd_tangle s)) h = Some v \<Longrightarrow> vertex_is_solid v \<Longrightarrow> solid (nd_tangle s) h"
    using inv by (auto simp: flags_inv_def flags_sound_def)
  have "graph (nd_tangle s) \<subseteq>\<^sub>m graph T"
    using c by (auto simp: map_le_def graph_def T)
  then have "flags_sound T"
  proof (rule flags_sound_mono [rotated 2])
    show "solid (nd_tangle s) k" if "fmlookup (vertices T) k = Some v" "vertex_is_solid v" for k v
      using that f by (cases "k = h") (auto simp: T)
  qed (use inv in \<open>simp_all add: flags_inv_def T\<close>)
  then show ?thesis
    using c by (auto simp: flags_inv_def T)
qed

lemma flags_inv_iter:
  assumes inv: "flags_inv content s"
    and e: "propagate_iter (nd_tangle s) h stack already = (T, stack', already')"
  shows "flags_inv content (s\<lparr>nd_tangle := T, nd_stack := stack', nd_already := already'\<rparr>)"
  using e
proof (cases rule: propagate_iter_cases)
  case skip
  then show ?thesis
    using inv by (simp add: flags_inv_def)
next
  case (solid v)
  have so: "solid (set_vertex_solid (nd_tangle s) h) = solid (nd_tangle s)"
    by (rule solid_cong) simp_all
  have "solid (nd_tangle s) h"
    using inv solid is_solid_sound [of "nd_tangle s"] unfolding flags_inv_def by (blast intro: solid.vertex)
  then show ?thesis
    using inv solid unfolding flags_inv_def flags_sound_def
    by (auto simp: so set_vertex_solid_vertices split: if_splits)
qed

lemma flags_inv_step: "node_step content s s' \<Longrightarrow> flags_inv content s \<Longrightarrow> flags_inv content s'"
proof (induction rule: node_step.induct)
  case (insert_vertex s t h T fresh)
  then show ?case
    using flags_inv_vertex by blast
next
  case (solidifier_iter s h stack T stack' already')
  then show ?case
    using flags_inv_iter by blast
next
  case (milestone s i h)
  have "solid (add_milestone (nd_tangle s) i h) = solid (nd_tangle s)"
    by (rule solid_cong) simp_all
  moreover have "vtx_inner v = content k \<and> (vertex_is_solid v \<longrightarrow> solid (nd_tangle s) k)"
    if v: "fmlookup (vertices (add_milestone (nd_tangle s) i h)) k = Some v" for k v
  proof -
    obtain u where "fmlookup (vertices (nd_tangle s)) k = Some u" "v = (if k = h then vertex_set_milestone u else u)"
      using v by (auto simp: add_milestone_vertices)
    then show ?thesis
      using milestone by (auto simp: flags_inv_def flags_sound_def)
  qed
  ultimately show ?case
    by (simp add: flags_inv_def flags_sound_def)
qed (erule flags_inv_same; auto simp: solidifier_send_def remove_milestone_def update_solid_milestone_index_def
    update_snapshot_milestone_index_def update_last_milestone_index_def)+

lemma reachable_flags: "node_reachable content seps s \<Longrightarrow> flags_inv content s"
  unfolding node_reachable_def
proof (induction rule: node_reach.induct)
  case start
  then show ?case
    by (simp add: flags_inv_def flags_sound_def node_start_def tangle_new_def)
qed (rule flags_inv_step)

section \<open>The solidifier empties its channel\<close>

lemma propagate_iter_chan:
  "propagate_iter T h stack already = (T', stack', already') \<Longrightarrow>
   solidifier_chan T' = solidifier_chan T \<and> graph T' = graph T \<and> solid_entry_points T' = solid_entry_points T"
  by (erule propagate_iter_cases) simp_all

lemma propagate_loop_keeps:
  "solidifier_chan (propagate_loop T stack already) = solidifier_chan T \<and> graph (propagate_loop T stack already) = graph T
   \<and> solid_entry_points (propagate_loop T stack already) = solid_entry_points T"
proof (induction T stack already rule: propagate_loop.induct)
  case (2 T h stack already)
  then show ?case
    using propagate_iter_chan [of T h stack already] by (simp split: prod.split)
qed simp

text \<open>Restrictions that only concern the beginning of an insertion.\<close>

definition on_begin :: "(node \<Rightarrow> node \<Rightarrow> bool) \<Rightarrow> bool" where
  "on_begin P \<longleftrightarrow> (\<forall>s s'. dom (nd_inserts s') \<subseteq> dom (nd_inserts s) \<longrightarrow> P s s')"

lemma on_begin_simps: "on_begin (\<lambda>_ _. True)" "on_begin begins_fresh"
  by (auto simp: on_begin_def begins_fresh_def)

lemma reach_step:
  assumes "on_begin P" "node_reach P content seps s" "node_step content s s'" "dom (nd_inserts s') \<subseteq> dom (nd_inserts s)"
  shows "node_reach P content seps s'"
  using assms by (auto intro: node_reach.step simp: on_begin_def)

lemma propagate_loop_reachable:
  "on_begin P \<Longrightarrow> node_reach P content seps s \<Longrightarrow> nd_tangle s = T \<Longrightarrow> nd_stack s = stack \<Longrightarrow> nd_already s = already \<Longrightarrow>
   \<exists>A. node_reach P content seps (s\<lparr>nd_tangle := propagate_loop T stack already, nd_stack := [], nd_already := A\<rparr>)"
proof (induction T stack already arbitrary: s rule: propagate_loop.induct)
  case (1 T already)
  then have e: "s\<lparr>nd_tangle := T, nd_stack := [], nd_already := already\<rparr> = s"
    by (cases s) simp
  have "node_reach P content seps (s\<lparr>nd_tangle := T, nd_stack := [], nd_already := already\<rparr>)"
    unfolding e by (rule 1(2))
  then show ?case
    by auto
next
  case (2 T h stack already)
  obtain T' stack' already' where e: "propagate_iter T h stack already = (T', stack', already')"
    by (cases "propagate_iter T h stack already") auto
  have "node_reach P content seps (s\<lparr>nd_tangle := T', nd_stack := stack', nd_already := already'\<rparr>)"
    using 2(4-) e by (intro reach_step [OF 2(2,3)] node_step.solidifier_iter) simp_all
  from 2(1) [OF e [symmetric] refl 2(2) this] show ?case
    by (simp add: e)
qed

lemma solidifier_loop_reachable:
  "on_begin P \<Longrightarrow> node_reach P content seps s \<Longrightarrow> nd_tangle s = T \<Longrightarrow> solidifier_chan T = msgs \<Longrightarrow> None \<notin> set msgs \<Longrightarrow> nd_stack s = [] \<Longrightarrow>
   \<exists>A. node_reach P content seps (s\<lparr>nd_tangle := solidifier_loop T msgs, nd_stack := [], nd_already := A\<rparr>)
     \<and> solidifier_chan (solidifier_loop T msgs) = [] \<and> graph (solidifier_loop T msgs) = graph T
     \<and> solid_entry_points (solidifier_loop T msgs) = solid_entry_points T"
proof (induction T msgs arbitrary: s rule: solidifier_loop.induct)
  case (1 T)
  then have e: "s\<lparr>nd_tangle := T, nd_stack := [], nd_already := nd_already s\<rparr> = s"
    by (cases s) simp
  have "node_reach P content seps (s\<lparr>nd_tangle := T, nd_stack := [], nd_already := nd_already s\<rparr>)"
    unfolding e by (rule 1(2))
  then have "\<exists>A. node_reach P content seps (s\<lparr>nd_tangle := T, nd_stack := [], nd_already := A\<rparr>)"
    by (rule exI)
  then show ?case
    using 1(4) by simp
next
  case (2 T h msgs)
  let ?T = "T\<lparr>solidifier_chan := msgs\<rparr>"
  have "node_reach P content seps (s\<lparr>nd_tangle := ?T, nd_stack := [h], nd_already := {}\<rparr>)"
    using 2(4-) node_step.solidifier_recv [of s h msgs] by (intro reach_step [OF 2(2,3)]) simp_all
  then obtain A where A: "node_reach P content seps (s\<lparr>nd_tangle := propagate ?T h, nd_stack := [], nd_already := A\<rparr>)"
    using propagate_loop_reachable [OF 2(2), of content seps "s\<lparr>nd_tangle := ?T, nd_stack := [h], nd_already := {}\<rparr>" ?T "[h]" "{}"]
    by (auto simp: propagate_def)
  have k: "solidifier_chan (propagate ?T h) = msgs" "graph (propagate ?T h) = graph T"
    "solid_entry_points (propagate ?T h) = solid_entry_points T"
    using propagate_loop_keeps [of ?T "[h]" "{}"] by (simp_all add: propagate_def graph_def fun_eq_iff)
  then show ?case
    using 2(1) [OF 2(2) A] 2(6) by auto
qed simp

lemma quiescent_complete:
  assumes "node_inv content s" "quiescent s"
  shows "is_solid_transaction (nd_tangle s) h \<longleftrightarrow> solid (nd_tangle s) h"
proof
  show "is_solid_transaction (nd_tangle s) h \<Longrightarrow> solid (nd_tangle s) h"
    using assms(1) is_solid_sound by (auto simp: node_inv_def)
  show "solid (nd_tangle s) h \<Longrightarrow> is_solid_transaction (nd_tangle s) h"
  proof (induction rule: solid.induct)
    case (entry h)
    then show ?case
      by (simp add: is_solid_transaction_def is_solid_entry_point_def)
  next
    case (vertex h v)
    then have "vertex_is_solid v"
      using assms unfolding node_inv_def nothing_forgotten_def quiescent_def on_its_way_def by force
    then show ?case
      using vertex by (simp add: is_solid_transaction_def)
  qed
qed

text \<open>The function \<open>insert_transaction\<close> is the sequence of the steps of an insertion.\<close>

lemma insert_transaction_reachable:
  assumes P: "on_begin P" and r: "node_reach P content seps s" and n: "nd_inserts s = Map.empty"
    and b: "P s (s\<lparr>nd_inserts := [0 \<mapsto> (h, PushTrunk)]\<rparr>)"
  shows "node_reach P content seps (s\<lparr>nd_tangle := fst (insert_transaction (nd_tangle s) (content h) h)\<rparr>)"
proof -
  let ?tx = "content h"
  let ?T = "push_approver (nd_tangle s) (tx_trunk ?tx) h" and ?I = "\<lambda>p. [0 :: nat \<mapsto> (h, p)]"
  have "node_step content s (s\<lparr>nd_inserts := ?I PushTrunk\<rparr>)"
    using node_step.insert_begin [of s 0 content h] n by simp
  then have "node_reach P content seps (s\<lparr>nd_inserts := ?I PushTrunk\<rparr>)"
    using node_reach.step r b by blast
  from reach_step [OF P this node_step.insert_trunk, of 0 h]
  have "node_reach P content seps (s\<lparr>nd_tangle := ?T, nd_inserts := ?I PushBranch\<rparr>)"
    by simp
  from reach_step [OF P this node_step.insert_branch, of 0 h]
  have r2: "node_reach P content seps (s\<lparr>nd_tangle := branch_approver ?T ?tx h, nd_inserts := ?I InsertVertex\<rparr>)"
    by simp
  obtain T fresh where v: "insert_vertex (branch_approver ?T ?tx h) ?tx h = (T, fresh)"
    by fastforce
  have e: "s\<lparr>nd_tangle := X, nd_inserts := Map.empty\<rparr> = s\<lparr>nd_tangle := X\<rparr>" for X
    using n by (cases s) simp
  have a: "insert_approvers (nd_tangle s) ?tx h = branch_approver ?T ?tx h"
    by (simp add: insert_approvers_def branch_approver_def)
  show ?thesis
  proof (cases fresh)
    case True
    from reach_step [OF P r2 node_step.insert_vertex, of 0 h T True]
    have "node_reach P content seps (s\<lparr>nd_tangle := T, nd_inserts := ?I SendHash\<rparr>)"
      using v True by simp
    from reach_step [OF P this node_step.insert_send, of 0 h]
    have "node_reach P content seps (s\<lparr>nd_tangle := solidifier_send T (Some h), nd_inserts := Map.empty\<rparr>)"
      by simp
    then show ?thesis
      using v True by (simp add: insert_transaction_def a e)
  next
    case False
    from reach_step [OF P r2 node_step.insert_vertex, of 0 h T False]
    have "node_reach P content seps (s\<lparr>nd_tangle := T, nd_inserts := Map.empty\<rparr>)"
      using v False by simp
    then show ?thesis
      using v False by (simp add: insert_transaction_def a e)
  qed
qed

text \<open>A small tangle: an entry point, a transaction that approves it and one that approves both.\<close>

definition sample_tx :: "hash \<Rightarrow> hash \<Rightarrow> transaction" where
  "sample_tx trunk branch = (tx_of_segments zero_segments)\<lparr>tx_trunk := trunk, tx_branch := branch\<rparr>"

definition sample_content :: "hash \<Rightarrow> transaction" where
  "sample_content h = (if h = [2] then sample_tx [1] [0] else sample_tx [0] [0])"

definition sample_node :: node where
  "sample_node = (let s = node_start {[0]};
      s = s\<lparr>nd_tangle := fst (insert_transaction (nd_tangle s) (sample_tx [1] [0]) [2])\<rparr>
    in s\<lparr>nd_tangle := fst (insert_transaction (nd_tangle s) (sample_tx [0] [0]) [1])\<rparr>)"

lemma sample_node_once:
  "reachable_once sample_content {[0]} sample_node" "nd_inserts sample_node = Map.empty" "nd_stack sample_node = []"
proof -
  let ?s = "(node_start {[0]})\<lparr>nd_tangle := fst (insert_transaction (nd_tangle (node_start {[0]})) (sample_content [2]) [2])\<rparr>"
  note defs = node_start_def tangle_new_def insert_transaction_def insert_vertex_def insert_approvers_def
    push_approver_def solidifier_send_def sample_tx_def sample_content_def Let_def begins_fresh_def
  have "node_reach begins_fresh sample_content {[0]} ?s"
    by (rule insert_transaction_reachable [OF on_begin_simps(2) node_reach.start]) (simp_all add: defs)
  then have "node_reach begins_fresh sample_content {[0]} (?s\<lparr>nd_tangle := fst (insert_transaction (nd_tangle ?s) (sample_content [1]) [1])\<rparr>)"
    by (rule insert_transaction_reachable [OF on_begin_simps(2)]) (simp_all add: defs)
  then show "reachable_once sample_content {[0]} sample_node"
    by (simp add: sample_node_def Let_def reachable_once_def sample_content_def)
qed (simp_all add: sample_node_def node_start_def Let_def)

lemma sample_flags: "flags_sound (nd_tangle sample_node)"
  using once_inv [OF sample_node_once(1)] by (simp add: node_inv_def)

lemmas tangle_eval = sample_node_def node_start_def tangle_new_def insert_transaction_def insert_vertex_def
  insert_approvers_def push_approver_def solidifier_send_def sample_tx_def solidifier_run_def propagate_def
  propagate_iter_def is_solid_transaction_def is_solid_entry_point_def set_vertex_solid_def approver_list_def

section \<open>Properties\<close>

text \<open>
  C3. No flag is ever wrong. Transactions are inserted in any number of concurrent calls, which are interleaved
  with each other and with the iterations of the solidifier, and the same transaction may be inserted again at any time; only
  that a hash belongs to one transaction is assumed, as the comment of \<open>insert_transaction\<close> asks for. Then in every
  reachable state a transaction that the tangle reports as solid has its whole past: it is a solid entry
  point, or it is in the tangle and both transactions it approves are solid.
\<close>

theorem solid_flags_sound:
  assumes "node_reachable content seps s" "is_solid_transaction (nd_tangle s) h"
  shows "solid (nd_tangle s) h"
  using is_solid_sound reachable_flags [OF assms(1)] assms(2) by (simp add: flags_inv_def)

text \<open>Two transactions are inserted and solidified, and the first one is inserted again.\<close>

theorem solid_flags_sound_witness:
  "\<exists>s. node_reachable sample_content {[0]} s \<and> \<not> is_solid_transaction (nd_tangle s) [1]
    \<and> is_solid_transaction (nd_tangle s) [2] \<and> solid (nd_tangle s) [2]"
proof -
  have "node_reach (\<lambda>_ _. True) sample_content {[0]} sample_node"
    using reach_weaken sample_node_once(1) unfolding reachable_once_def node_reachable_def by blast
  moreover have "None \<notin> set (solidifier_chan (nd_tangle sample_node))"
    using once_inv [OF sample_node_once(1)] by (simp add: node_inv_def)
  ultimately obtain A where A: "node_reach (\<lambda>_ _. True) sample_content {[0]}
      (sample_node\<lparr>nd_tangle := solidifier_run (nd_tangle sample_node), nd_stack := [], nd_already := A\<rparr>)" (is "node_reach _ _ _ ?s")
    using solidifier_loop_reachable [OF on_begin_simps(1) _ refl refl _ sample_node_once(3)] unfolding solidifier_run_def by blast
  let ?s' = "?s\<lparr>nd_tangle := fst (insert_transaction (nd_tangle ?s) (sample_content [1]) [1])\<rparr>"
  have r: "node_reachable sample_content {[0]} ?s'"
    unfolding node_reachable_def
    by (rule insert_transaction_reachable [OF on_begin_simps(1) A]) (simp_all add: sample_node_once(2))
  have "is_solid_transaction (nd_tangle ?s') [2]" "\<not> is_solid_transaction (nd_tangle ?s') [1]"
    by (simp_all add: tangle_eval sample_content_def Let_def)
  then show ?thesis
    using solid_flags_sound [OF r, of "[2]"] r by blast
qed

text \<open>
  C4. Where no transaction is inserted that is in the tangle or being inserted, solidification is complete. From every
  state that such insertions, interleaved with the solidifier, can reach, with no insertion under way and the
  solidifier between two messages, working off the channel ends. It keeps the transactions and the entry points, and
  the tangle then reports as solid exactly the transactions that have their whole past. (A second insertion of
  a transaction clears its flag and the solidifier is not told, \<open>reinsertion_loses_solidity\<close>.)
\<close>

theorem solidifier_completes:
  assumes "reachable_once content seps s" "nd_inserts s = Map.empty" "nd_stack s = []"
  shows "let T = solidifier_run (nd_tangle s)
    in solidifier_chan T = [] \<and> graph T = graph (nd_tangle s) \<and> solid_entry_points T = solid_entry_points (nd_tangle s)
      \<and> (\<forall>h. is_solid_transaction T h \<longleftrightarrow> solid (nd_tangle s) h)"
proof -
  have "None \<notin> set (solidifier_chan (nd_tangle s))"
    using once_inv [OF assms(1)] by (simp add: node_inv_def)
  then obtain A where A: "reachable_once content seps (s\<lparr>nd_tangle := solidifier_run (nd_tangle s), nd_stack := [], nd_already := A\<rparr>)"
    and k: "solidifier_chan (solidifier_run (nd_tangle s)) = []" "graph (solidifier_run (nd_tangle s)) = graph (nd_tangle s)"
      "solid_entry_points (solidifier_run (nd_tangle s)) = solid_entry_points (nd_tangle s)"
    using solidifier_loop_reachable [OF on_begin_simps(2) assms(1) [unfolded reachable_once_def] refl refl _ assms(3)]
    unfolding solidifier_run_def reachable_once_def by blast
  have "solid (solidifier_run (nd_tangle s)) = solid (nd_tangle s)"
    by (rule solid_cong [OF k(3,2)])
  then show ?thesis
    using quiescent_complete [OF once_inv [OF A]] assms(2) k by (simp add: Let_def quiescent_def)
qed

theorem solidifier_completes_witness:
  "let T = solidifier_run (nd_tangle sample_node)
   in solidifier_chan T = [] \<and> is_solid_transaction T [2] \<and> (\<forall>h. is_solid_transaction T h \<longleftrightarrow> solid (nd_tangle sample_node) h)"
proof -
  have "is_solid_transaction (solidifier_run (nd_tangle sample_node)) [2]"
    by (simp add: tangle_eval Let_def)
  then show ?thesis
    using solidifier_completes [OF sample_node_once] by (simp add: Let_def)
qed

text \<open>
  The flag does not survive a second insertion. When a transaction that is in the tangle is inserted again,
  the new vertex replaces the old one with its flags cleared, the approver lists get a second entry, and
  nothing is sent to the solidifier: the transaction is no longer solid, and the solidifier, if it has
  nothing else to do, does not make it solid again.
\<close>

theorem reinsertion_loses_solidity:
  assumes "fmlookup (vertices T) h = Some v" "\<not> is_solid_entry_point T h" "solidifier_chan T = []"
  shows "case insert_transaction T tx h of (T', r) \<Rightarrow>
    r = None \<and> solidifier_chan T' = [] \<and> length (approver_list T' (tx_trunk tx)) = Suc (length (approver_list T (tx_trunk tx)))
    \<and> \<not> is_solid_transaction T' h \<and> \<not> is_solid_transaction (solidifier_run T') h"
proof -
  let ?T = "(insert_approvers T tx h)\<lparr>vertices := fmupd h (vertex_from tx h) (vertices T)\<rparr>"
  have a: "vertices (insert_approvers T tx h) = vertices T" "solidifier_chan (insert_approvers T tx h) = []"
    "solid_entry_points (insert_approvers T tx h) = solid_entry_points T"
    using assms(3) by (simp_all add: insert_approvers_def Let_def)
  then have e: "insert_transaction T tx h = (?T, None)"
    using assms(1) by (simp add: insert_transaction_def insert_vertex_def)
  have "length (approver_list ?T (tx_trunk tx)) = Suc (length (approver_list T (tx_trunk tx)))"
    by (simp add: insert_approvers_def push_approver_def approver_list_def Let_def split: option.splits)
  moreover have "\<not> is_solid_transaction ?T h" "solidifier_run ?T = ?T"
    using assms(2) a by (simp_all add: is_solid_transaction_def is_solid_entry_point_def solidifier_run_def)
  ultimately show ?thesis
    using a by (simp add: e)
qed

theorem reinsertion_loses_solidity_witness:
  "let T = solidifier_run (nd_tangle sample_node) in is_solid_transaction T [1]
   \<and> (case insert_transaction T (sample_tx [0] [0]) [1] of (T', r) \<Rightarrow> \<not> is_solid_transaction (solidifier_run T') [1])"
proof -
  let ?T = "solidifier_run (nd_tangle sample_node)"
  have s: "is_solid_transaction ?T [1]" "\<exists>v. fmlookup (vertices ?T) [1] = Some v" "\<not> is_solid_entry_point ?T [1]"
    "solidifier_chan ?T = []"
    by (simp_all add: tangle_eval Let_def)
  from s(2) obtain v where "fmlookup (vertices ?T) [1] = Some v" ..
  from reinsertion_loses_solidity [OF this s(3,4), of "sample_tx [0] [0]"] s(1) show ?thesis
    by (simp add: Let_def split: prod.splits)
qed

end
