(* ===== verification/Tangle_Walks.thy ===== *)
theory Tangle_Walks
  imports Solidification
begin

text \<open>
  The walks over the tangle (tangle.rs). The closures a walk calls are recorded as a list of events in the
  order of the calls. The depth first walk keeps the set of analysed hashes and ends on every tangle. The
  other walks follow references without such a set, or only leave a vertex when its parents are analysed:
  on a graph with a cycle of references they do not return, so they are partial functions, and their
  theorems show that they return when references have no cycle.
\<close>

datatype walk_event = Mapped hash transaction | Missing hash

section \<open>Depth first\<close>

lemma unvisited_decreases:
  "h \<in> fmdom' m \<Longrightarrow> h \<notin> A \<Longrightarrow> card (fmdom' m - insert h A) < card (fmdom' m - A)"
  by (rule psubset_card_mono) auto

lemma unvisited_absent: "h \<notin> fmdom' m \<Longrightarrow> fmdom' m - insert h A = fmdom' m - A"
  by blast

text \<open>The loop of \<open>walk_approvees_depth_first\<close>: the calls it makes and the hashes analysed in the end.\<close>

function walk_loop :: "tangle \<Rightarrow> (vertex \<Rightarrow> bool) \<Rightarrow> hash list \<Rightarrow> hash set \<Rightarrow> walk_event list \<times> hash set" where
  "walk_loop T should_follow [] analyzed = ([], analyzed)"
| "walk_loop T should_follow (hash # stack) analyzed =
     (if hash \<notin> analyzed
      then case fmlookup (vertices T) hash of
             Some v \<Rightarrow>
               let (events, analyzed) = walk_loop T should_follow
                 (if should_follow v then tx_trunk (vtx_inner v) # tx_branch (vtx_inner v) # stack else stack)
                 (insert hash analyzed)
               in (Mapped hash (vtx_inner v) # events, analyzed)
           | None \<Rightarrow>
               let (events, analyzed) = walk_loop T should_follow stack (insert hash analyzed)
               in (if \<not> is_solid_entry_point T hash then Missing hash # events else events, analyzed)
      else walk_loop T should_follow stack analyzed)"
  by pat_completeness simp_all
termination
  by (relation "measures [\<lambda>(T, _, _, A). card (fmdom' (vertices T) - A), \<lambda>(_, _, stack, _). length stack]")
    (simp_all add: unvisited_decreases unvisited_absent fmdom'I fmdom'_notI del: card_Diff_insert)

definition walk_approvees_depth_first :: "tangle \<Rightarrow> hash \<Rightarrow> (vertex \<Rightarrow> bool) \<Rightarrow> walk_event list" where
  "walk_approvees_depth_first T root should_follow = fst (walk_loop T should_follow [root] {})"

section \<open>Post order\<close>

partial_function (option) post_order_loop :: "tangle \<Rightarrow> hash list \<Rightarrow> hash set \<Rightarrow> walk_event list \<Rightarrow> walk_event list option" where
  "post_order_loop T stack analyzed log =
     (case stack of
        [] \<Rightarrow> Some log
      | hash # rest \<Rightarrow>
          (case fmlookup (vertices T) hash of
             Some v \<Rightarrow>
               if tx_trunk (vtx_inner v) \<in> analyzed \<and> tx_branch (vtx_inner v) \<in> analyzed
               then post_order_loop T rest (insert hash analyzed) (log @ [Mapped hash (vtx_inner v)])
               else if tx_trunk (vtx_inner v) \<notin> analyzed
               then post_order_loop T (tx_trunk (vtx_inner v) # stack) analyzed log
               else if tx_branch (vtx_inner v) \<notin> analyzed
               then post_order_loop T (tx_branch (vtx_inner v) # stack) analyzed log
               else post_order_loop T stack analyzed log
           | None \<Rightarrow>
               post_order_loop T rest (insert hash analyzed)
                 (if \<not> is_solid_entry_point T hash then log @ [Missing hash] else log)))"

definition walk_approvers_post_order_dfs :: "tangle \<Rightarrow> hash \<Rightarrow> walk_event list option" where
  "walk_approvers_post_order_dfs T root = post_order_loop T [root] {} []"

section \<open>Along the trunk\<close>

text \<open>The approver the walk goes on with: the first one in the tangle that references by trunk and passes the filter.\<close>

fun next_approver :: "tangle \<Rightarrow> (transaction \<Rightarrow> bool) \<Rightarrow> hash \<Rightarrow> hash list \<Rightarrow> (hash \<times> vertex) option" where
  "next_approver T f approvee [] = None"
| "next_approver T f approvee (approver # rest) =
     (case fmlookup (vertices T) approver of
        Some v \<Rightarrow> if tx_trunk (vtx_inner v) = approvee \<and> f (vtx_inner v) then Some (approver, v)
                  else next_approver T f approvee rest
      | None \<Rightarrow> next_approver T f approvee rest)"

partial_function (option) approvers_loop ::
  "tangle \<Rightarrow> (transaction \<Rightarrow> bool) \<Rightarrow> hash list \<Rightarrow> (transaction \<times> hash) list \<Rightarrow> (transaction \<times> hash) list option" where
  "approvers_loop T f approvees collected =
     (case approvees of
        [] \<Rightarrow> Some collected
      | approvee # rest \<Rightarrow>
          (case next_approver T f approvee (approver_list T approvee) of
             Some (h, v) \<Rightarrow> approvers_loop T f (h # rest) (collected @ [(vtx_inner v, vtx_id v)])
           | None \<Rightarrow> approvers_loop T f rest collected))"

definition trunk_walk_approvers :: "tangle \<Rightarrow> hash \<Rightarrow> (transaction \<Rightarrow> bool) \<Rightarrow> (transaction \<times> hash) list option" where
  "trunk_walk_approvers T start f =
     (case fmlookup (vertices T) start of
        Some v \<Rightarrow> if f (vtx_inner v) then approvers_loop T f [start] [(vtx_inner v, vtx_id v)] else Some []
      | None \<Rightarrow> Some [])"

partial_function (option) approvees_loop ::
  "tangle \<Rightarrow> (transaction \<Rightarrow> bool) \<Rightarrow> hash list \<Rightarrow> (transaction \<times> hash) list \<Rightarrow> (transaction \<times> hash) list option" where
  "approvees_loop T f approver_hashes collected =
     (case approver_hashes of
        [] \<Rightarrow> Some collected
      | h # rest \<Rightarrow>
          (case fmlookup (vertices T) h of
             Some v \<Rightarrow>
               if \<not> f (vtx_inner v) then Some collected
               else approvees_loop T f (tx_trunk (vtx_inner v) # rest) (collected @ [(vtx_inner v, vtx_id v)])
           | None \<Rightarrow> approvees_loop T f rest collected))"

definition trunk_walk_approvees :: "tangle \<Rightarrow> hash \<Rightarrow> (transaction \<Rightarrow> bool) \<Rightarrow> (transaction \<times> hash) list option" where
  "trunk_walk_approvees T start f = approvees_loop T f [start] []"

section \<open>What the depth first walk visits\<close>

inductive walk_reach :: "tangle \<Rightarrow> (vertex \<Rightarrow> bool) \<Rightarrow> hash set \<Rightarrow> hash \<Rightarrow> bool" for T follow R where
  root: "h \<in> R \<Longrightarrow> walk_reach T follow R h"
| trunk: "walk_reach T follow R h \<Longrightarrow> fmlookup (vertices T) h = Some v \<Longrightarrow> follow v \<Longrightarrow>
    walk_reach T follow R (tx_trunk (vtx_inner v))"
| branch: "walk_reach T follow R h \<Longrightarrow> fmlookup (vertices T) h = Some v \<Longrightarrow> follow v \<Longrightarrow>
    walk_reach T follow R (tx_branch (vtx_inner v))"

text \<open>The events of a walk that analysed the hashes \<open>V\<close>.\<close>

definition walk_events :: "tangle \<Rightarrow> hash set \<Rightarrow> walk_event set" where
  "walk_events T V = {Mapped h (vtx_inner v) | h v. h \<in> V \<and> fmlookup (vertices T) h = Some v}
     \<union> {Missing h | h. h \<in> V \<and> fmlookup (vertices T) h = None \<and> \<not> is_solid_entry_point T h}"

definition walk_closed :: "tangle \<Rightarrow> (vertex \<Rightarrow> bool) \<Rightarrow> hash set \<Rightarrow> hash set \<Rightarrow> bool" where
  "walk_closed T follow A S \<longleftrightarrow> (\<forall>h v. h \<in> A \<longrightarrow> fmlookup (vertices T) h = Some v \<longrightarrow> follow v \<longrightarrow>
     tx_trunk (vtx_inner v) \<in> A \<union> S \<and> tx_branch (vtx_inner v) \<in> A \<union> S)"

lemma walk_reach_mono: "walk_reach T f R h \<Longrightarrow> (\<And>k. k \<in> R \<Longrightarrow> walk_reach T f S k) \<Longrightarrow> walk_reach T f S h"
  by (induction rule: walk_reach.induct) (auto intro: walk_reach.intros)

lemma walk_reach_closed: "walk_reach T f R h \<Longrightarrow> R \<subseteq> A \<Longrightarrow> walk_closed T f A {} \<Longrightarrow> h \<in> A"
  by (induction rule: walk_reach.induct) (auto simp: walk_closed_def)

lemma walk_events_insert:
  "fmlookup (vertices T) h = Some v \<Longrightarrow> walk_events T (insert h V) = insert (Mapped h (vtx_inner v)) (walk_events T V)"
  "fmlookup (vertices T) h = None \<Longrightarrow> walk_events T (insert h V) =
     (if is_solid_entry_point T h then walk_events T V else insert (Missing h) (walk_events T V))"
  by (auto simp: walk_events_def)

lemma walk_events_member:
  "Mapped h tx \<in> walk_events T V \<Longrightarrow> h \<in> V" "Missing h \<in> walk_events T V \<Longrightarrow> h \<in> V"
  by (auto simp: walk_events_def)

definition walk_spec :: "tangle \<Rightarrow> (vertex \<Rightarrow> bool) \<Rightarrow> hash list \<Rightarrow> hash set \<Rightarrow> walk_event list \<Rightarrow> hash set \<Rightarrow> bool" where
  "walk_spec T f stack A ev A' \<longleftrightarrow> A \<union> set stack \<subseteq> A' \<and> distinct ev \<and> set ev = walk_events T (A' - A)
     \<and> (\<forall>h \<in> A' - A. walk_reach T f (set stack) h) \<and> (walk_closed T f A (set stack) \<longrightarrow> walk_closed T f A' {})"

lemma walk_spec_skip: "h \<in> A \<Longrightarrow> walk_spec T f stack A ev A' \<Longrightarrow> walk_spec T f (h # stack) A ev A'"
  unfolding walk_spec_def by (auto simp: walk_closed_def insert_absorb intro: walk_reach_mono walk_reach.root)

lemma walk_spec_missing:
  assumes "h \<notin> A" "fmlookup (vertices T) h = None" "walk_spec T f stack (insert h A) ev A'"
  shows "walk_spec T f (h # stack) A (if \<not> is_solid_entry_point T h then Missing h # ev else ev) A'"
proof -
  have "A' - A = insert h (A' - insert h A)" and h: "h \<notin> A' - insert h A"
    using assms by (auto simp: walk_spec_def)
  then show ?thesis
    using assms walk_events_member(2) [of h T "A' - insert h A"] unfolding walk_spec_def
    by (auto simp: walk_events_insert walk_closed_def intro: walk_reach_mono walk_reach.root)
qed

lemma walk_spec_present:
  assumes "h \<notin> A" and v: "fmlookup (vertices T) h = Some v"
    and w: "walk_spec T f (if f v then tx_trunk (vtx_inner v) # tx_branch (vtx_inner v) # stack else stack) (insert h A) ev A'"
  shows "walk_spec T f (h # stack) A (Mapped h (vtx_inner v) # ev) A'"
proof -
  let ?stack = "if f v then tx_trunk (vtx_inner v) # tx_branch (vtx_inner v) # stack else stack"
  have e: "A' - A = insert h (A' - insert h A)" and h: "h \<notin> A' - insert h A"
    using assms by (auto simp: walk_spec_def)
  have r: "walk_reach T f (set (h # stack)) k" if "k \<in> set ?stack" for k
    using that walk_reach.trunk [OF walk_reach.root v, of "set (h # stack)" f]
      walk_reach.branch [OF walk_reach.root v, of "set (h # stack)" f]
    by (auto split: if_splits intro: walk_reach.root)
  have "\<forall>k \<in> A' - A. walk_reach T f (set (h # stack)) k"
    unfolding e using w r unfolding walk_spec_def by (auto intro: walk_reach_mono walk_reach.root)
  moreover have "walk_closed T f (insert h A) (set ?stack)" if "walk_closed T f A (set (h # stack))"
    using that v by (auto simp: walk_closed_def)
  ultimately show ?thesis
    using w h walk_events_member(1) [of h "vtx_inner v" T "A' - insert h A"] unfolding walk_spec_def e walk_events_insert(1) [OF v]
    by auto
qed

lemma walk_loop_law: "walk_loop T f stack A = (ev, A') \<Longrightarrow> walk_spec T f stack A ev A'"
proof (induction T f stack A arbitrary: ev A' rule: walk_loop.induct)
  case (1 T f A)
  then show ?case
    by (simp add: walk_spec_def walk_events_def)
next
  case (2 T f h stack A)
  consider "h \<in> A" | "h \<notin> A" "fmlookup (vertices T) h = None" | v where "h \<notin> A" "fmlookup (vertices T) h = Some v"
    by (cases "fmlookup (vertices T) h") auto
  then show ?case
  proof cases
    case 1
    then show ?thesis
      using 2(3,4) by (simp add: walk_spec_skip)
  next
    case 2
    then show ?thesis
      using "2.IH" "2.prems" by (auto simp: Let_def split: prod.splits intro!: walk_spec_missing [OF 2])
  next
    case (3 v)
    then show ?thesis
      using "2.IH" "2.prems" by (auto simp: Let_def split: prod.splits intro!: walk_spec_present [OF 3])
  qed
qed

lemma walk_depth_first_law:
  "let events = walk_approvees_depth_first T root should_follow
   in distinct events \<and> set events = walk_events T {h. walk_reach T should_follow {root} h}"
proof -
  obtain ev A where e: "walk_loop T should_follow [root] {} = (ev, A)"
    by (cases "walk_loop T should_follow [root] {}")
  have w: "walk_spec T should_follow [root] {} ev A"
    by (rule walk_loop_law [OF e])
  then have "A = {h. walk_reach T should_follow {root} h}"
    using walk_reach_closed [of T should_follow "{root}"] unfolding walk_spec_def
    by (auto simp: walk_closed_def)
  then show ?thesis
    using w unfolding walk_approvees_depth_first_def e walk_spec_def by (simp add: Let_def)
qed

text \<open>
  C19. The depth first walk ends on every tangle, also with cycles of references. It calls the mapping once for
  every transaction in the tangle that can be reached through followed vertices, reports once every
  reachable hash that is missing and no solid entry point, and makes no other call.
\<close>

theorem walk_depth_first_visits:
  "let events = walk_approvees_depth_first T root should_follow
   in distinct events \<and> set events = walk_events T {h. walk_reach T should_follow {root} h}"
  by (rule walk_depth_first_law)

section \<open>The post order walk\<close>

definition references :: "tangle \<Rightarrow> (hash \<times> hash) set" where
  "references T = {(p, h). \<exists>v. fmlookup (vertices T) h = Some v \<and> p \<in> {tx_trunk (vtx_inner v), tx_branch (vtx_inner v)}}"

lemma finite_references: "finite (references T)"
proof -
  let ?D = "fmdom' (vertices T)" and ?tx = "\<lambda>h. vtx_inner (the (fmlookup (vertices T) h))"
  have "e \<in> (\<lambda>h. (tx_trunk (?tx h), h)) ` ?D \<union> (\<lambda>h. (tx_branch (?tx h), h)) ` ?D" if e: "e \<in> references T" for e
  proof -
    obtain p h v where "e = (p, h)" and v: "fmlookup (vertices T) h = Some v"
      "p = tx_trunk (vtx_inner v) \<or> p = tx_branch (vtx_inner v)"
      using e by (auto simp: references_def)
    moreover have "h \<in> ?D"
      using v(1) by (rule fmdom'I)
    ultimately show ?thesis
      by (auto simp: image_iff)
  qed
  then have "references T \<subseteq> (\<lambda>h. (tx_trunk (?tx h), h)) ` ?D \<union> (\<lambda>h. (tx_branch (?tx h), h)) ` ?D"
    by (rule subsetI)
  then show ?thesis
    by (rule finite_subset) simp
qed

text \<open>Every transaction is mapped after those it references.\<close>

definition mapped_after_parents :: "tangle \<Rightarrow> hash set \<Rightarrow> walk_event list \<Rightarrow> bool" where
  "mapped_after_parents T A ev \<longleftrightarrow> (\<forall>i < length ev. \<forall>h tx p v. ev ! i = Mapped h tx \<longrightarrow> p \<in> {tx_trunk tx, tx_branch tx} \<longrightarrow>
     fmlookup (vertices T) p = Some v \<longrightarrow> p \<in> A \<or> Mapped p (vtx_inner v) \<in> set (take i ev))"

lemma mapped_after_parentsD:
  "mapped_after_parents T A ev \<Longrightarrow> i < length ev \<Longrightarrow> ev ! i = Mapped h tx \<Longrightarrow> p \<in> {tx_trunk tx, tx_branch tx} \<Longrightarrow>
   fmlookup (vertices T) p = Some v \<Longrightarrow> p \<in> A \<or> Mapped p (vtx_inner v) \<in> set (take i ev)"
  unfolding mapped_after_parents_def by blast

definition post_extends :: "tangle \<Rightarrow> hash set \<Rightarrow> hash set \<Rightarrow> walk_event list \<Rightarrow> hash set \<Rightarrow> bool" where
  "post_extends T R A ev A' \<longleftrightarrow> A \<subseteq> A' \<and> A' - A \<subseteq> R \<and> distinct ev \<and> set ev = walk_events T (A' - A)
     \<and> (walk_closed T (\<lambda>_. True) A {} \<longrightarrow> walk_closed T (\<lambda>_. True) A' {}) \<and> mapped_after_parents T A ev"

lemma post_extends_refl: "post_extends T R A [] A"
  by (simp add: post_extends_def walk_events_def mapped_after_parents_def)

lemma post_extends_mono: "post_extends T R A ev A' \<Longrightarrow> R \<subseteq> S \<Longrightarrow> post_extends T S A ev A'"
  by (auto simp: post_extends_def)

lemma walk_events_Un: "walk_events T (V \<union> W) = walk_events T V \<union> walk_events T W"
  by (auto simp: walk_events_def)

lemma walk_events_disjoint: "V \<inter> W = {} \<Longrightarrow> walk_events T V \<inter> walk_events T W = {}"
  by (auto simp: walk_events_def)

lemma mapped_after_parents_append:
  assumes "mapped_after_parents T A ev" "mapped_after_parents T A' ev'" "set ev = walk_events T (A' - A)"
  shows "mapped_after_parents T A (ev @ ev')"
  unfolding mapped_after_parents_def
proof (intro allI impI)
  fix i h tx p v
  assume i: "i < length (ev @ ev')" "(ev @ ev') ! i = Mapped h tx" "p \<in> {tx_trunk tx, tx_branch tx}"
    and v: "fmlookup (vertices T) p = Some v"
  show "p \<in> A \<or> Mapped p (vtx_inner v) \<in> set (take i (ev @ ev'))"
  proof (cases "i < length ev")
    case True
    then show ?thesis
      using mapped_after_parentsD [OF assms(1) True _ i(3) v, of h] i(2) by (simp add: nth_append)
  next
    case False
    then have "p \<in> A' \<or> Mapped p (vtx_inner v) \<in> set (take (i - length ev) ev')"
      using mapped_after_parentsD [OF assms(2) _ _ i(3) v, of "i - length ev" h] i(1,2) by (simp add: nth_append)
    moreover have "Mapped p (vtx_inner v) \<in> set ev" if "p \<in> A'" "p \<notin> A"
      using that v unfolding assms(3) by (auto simp: walk_events_def)
    ultimately show ?thesis
      using False by auto
  qed
qed

lemma post_extends_trans:
  assumes a: "post_extends T R A ev A'" and b: "post_extends T R A' ev' A''"
  shows "post_extends T R A (ev @ ev') A''"
proof -
  have u: "A'' - A = (A' - A) \<union> (A'' - A')" and d: "(A' - A) \<inter> (A'' - A') = {}"
    using a b by (auto simp: post_extends_def)
  then have "set (ev @ ev') = walk_events T (A'' - A)" "distinct (ev @ ev')"
    using a b walk_events_disjoint [OF d, of T] unfolding post_extends_def u walk_events_Un by auto
  moreover have "mapped_after_parents T A (ev @ ev')"
    using a b by (auto simp: post_extends_def intro: mapped_after_parents_append)
  ultimately show ?thesis
    using a b unfolding post_extends_def by blast
qed

lemma post_extends_missing:
  assumes "h \<notin> A" "fmlookup (vertices T) h = None" "h \<in> R"
  shows "post_extends T R A (if \<not> is_solid_entry_point T h then [Missing h] else []) (insert h A)"
  using assms by (auto simp: post_extends_def walk_events_def mapped_after_parents_def walk_closed_def)

lemma post_extends_mapped:
  assumes "h \<notin> A" "fmlookup (vertices T) h = Some v" "h \<in> R" "tx_trunk (vtx_inner v) \<in> A" "tx_branch (vtx_inner v) \<in> A"
  shows "post_extends T R A [Mapped h (vtx_inner v)] (insert h A)"
  using assms by (auto simp: post_extends_def walk_events_def mapped_after_parents_def walk_closed_def)

text \<open>Working off the top of the stack.\<close>

definition post_runs :: "tangle \<Rightarrow> hash set \<Rightarrow> hash list \<Rightarrow> hash set \<Rightarrow> walk_event list \<Rightarrow> hash list \<Rightarrow> hash set \<Rightarrow> bool" where
  "post_runs T R stack A ev stack' A' \<longleftrightarrow> post_extends T R A ev A'
     \<and> (\<forall>rest log. post_order_loop T (stack @ rest) A log = post_order_loop T (stack' @ rest) A' (log @ ev))"

lemma post_runs_trans:
  "post_runs T R stack A ev stack' A' \<Longrightarrow> post_runs T R stack' A' ev' stack'' A'' \<Longrightarrow>
   post_runs T R stack A (ev @ ev') stack'' A''"
  unfolding post_runs_def by (auto intro: post_extends_trans)

lemma post_runs_parent:
  assumes h: "fmlookup (vertices T) h = Some v" and p: "p \<in> {tx_trunk (vtx_inner v), tx_branch (vtx_inner v)}"
    and pq: "p = tx_trunk (vtx_inner v) \<or> tx_trunk (vtx_inner v) \<in> A"
    and IH: "\<And>B. p \<notin> B \<Longrightarrow> \<exists>ev B'. post_runs T {k. (k, p) \<in> (references T)\<^sup>*} [p] B ev [] B' \<and> p \<in> B'"
  shows "\<exists>ev A'. post_runs T {k. (k, h) \<in> (references T)\<^sup>+} [h] A ev [h] A' \<and> p \<in> A'"
proof (cases "p \<in> A")
  case True
  then show ?thesis
    by (intro exI [of _ "[]"] exI [of _ A]) (simp add: post_runs_def post_extends_refl)
next
  case False
  obtain ev A' where r: "post_runs T {k. (k, p) \<in> (references T)\<^sup>*} [p] A ev [] A'" "p \<in> A'"
    using IH [OF False] by blast
  have "(p, h) \<in> references T"
    using h p by (auto simp: references_def)
  then have "{k. (k, p) \<in> (references T)\<^sup>*} \<subseteq> {k. (k, h) \<in> (references T)\<^sup>+}"
    by auto
  then have x: "post_extends T {k. (k, h) \<in> (references T)\<^sup>+} A ev A'"
    using r(1) post_extends_mono unfolding post_runs_def by blast
  have "post_order_loop T (h # rest) A log = post_order_loop T (p # h # rest) A log" for rest log
    using h p pq False by (subst post_order_loop.simps) auto
  moreover have "post_order_loop T (p # h # rest) A log = post_order_loop T (h # rest) A' (log @ ev)" for rest log
    using r(1) by (auto simp: post_runs_def)
  ultimately show ?thesis
    using x r(2) by (auto simp: post_runs_def)
qed

lemma post_runs_hash:
  assumes "acyclic (references T)" "h \<notin> A"
  shows "\<exists>ev A'. post_runs T {k. (k, h) \<in> (references T)\<^sup>*} [h] A ev [] A' \<and> h \<in> A'"
  using finite_acyclic_wf [OF finite_references assms(1)] assms(2)
proof (induction h arbitrary: A)
  case (less h)
  let ?R = "{k. (k, h) \<in> (references T)\<^sup>*}" and ?P = "{k. (k, h) \<in> (references T)\<^sup>+}"
  show ?case
  proof (cases "fmlookup (vertices T) h")
    case None
    then have "post_order_loop T (h # rest) A log = post_order_loop T rest (insert h A)
        (log @ (if \<not> is_solid_entry_point T h then [Missing h] else []))" for rest log
      by (subst post_order_loop.simps) simp
    then have "post_runs T ?R [h] A (if \<not> is_solid_entry_point T h then [Missing h] else []) [] (insert h A)"
      using post_extends_missing [OF less.prems None, of ?R] by (simp add: post_runs_def)
    then show ?thesis
      by blast
  next
    case (Some v)
    let ?p = "tx_trunk (vtx_inner v)" and ?q = "tx_branch (vtx_inner v)"
    have e: "(?p, h) \<in> references T" "(?q, h) \<in> references T"
      using Some by (auto simp: references_def)
    obtain ev1 A1 where 1: "post_runs T ?P [h] A ev1 [h] A1" "?p \<in> A1"
      using post_runs_parent [OF Some _ _ less.IH [OF e(1)], of A] by auto
    obtain ev2 A2 where 2: "post_runs T ?P [h] A1 ev2 [h] A2" "?q \<in> A2"
      using post_runs_parent [OF Some _ _ less.IH [OF e(2)], of A1] 1(2) by auto
    have 3: "post_runs T ?P [h] A (ev1 @ ev2) [h] A2"
      using 1(1) 2(1) by (rule post_runs_trans)
    have "?p \<in> A2"
      using 1(2) 2(1) by (auto simp: post_runs_def post_extends_def)
    have "h \<notin> ?P"
      using assms(1) by (auto simp: acyclic_def)
    then have h: "h \<notin> A2"
      using 3 less.prems unfolding post_runs_def post_extends_def by blast
    have "post_order_loop T (h # rest) A2 log = post_order_loop T rest (insert h A2) (log @ [Mapped h (vtx_inner v)])" for rest log
      using Some \<open>?p \<in> A2\<close> 2(2) by (subst post_order_loop.simps) simp
    then have "post_runs T ?R [h] A2 [Mapped h (vtx_inner v)] [] (insert h A2)"
      using post_extends_mapped [OF h Some _ \<open>?p \<in> A2\<close> 2(2), of ?R] by (simp add: post_runs_def)
    moreover have "post_runs T ?R [h] A (ev1 @ ev2) [h] A2"
    proof -
      have "?P \<subseteq> ?R"
        by auto
      then show ?thesis
        using 3 post_extends_mono unfolding post_runs_def by blast
    qed
    ultimately show ?thesis
      using post_runs_trans by blast
  qed
qed

text \<open>
  C20. When references have no cycle, the post order walk returns. It maps once every transaction that can be
  reached from the root, each after the transactions it references, and reports once every reachable hash
  that is missing and no solid entry point.
\<close>

theorem post_order_walk_visits:
  assumes "acyclic (references T)"
  shows "\<exists>events. walk_approvers_post_order_dfs T root = Some events \<and> distinct events
    \<and> set events = walk_events T {h. walk_reach T (\<lambda>_. True) {root} h} \<and> mapped_after_parents T {} events"
proof -
  obtain ev A where r: "post_runs T {k. (k, root) \<in> (references T)\<^sup>*} [root] {} ev [] A" "root \<in> A"
    using post_runs_hash [OF assms, of root "{}"] by blast
  have "(k, root) \<in> (references T)\<^sup>* \<Longrightarrow> walk_reach T (\<lambda>_. True) {root} k" for k
    by (induction rule: converse_rtrancl_induct) (auto simp: references_def intro: walk_reach.intros)
  then have "A = {h. walk_reach T (\<lambda>_. True) {root} h}"
    using r walk_reach_closed [of T "\<lambda>_. True" "{root}" _ A]
    by (auto simp: post_runs_def post_extends_def walk_closed_def)
  moreover have "walk_approvers_post_order_dfs T root = Some ev"
    using r(1) post_order_loop.simps [of T "[]"] by (simp add: post_runs_def walk_approvers_post_order_dfs_def)
  ultimately show ?thesis
    using r(1) by (auto simp: post_runs_def post_extends_def)
qed

lemma sample_acyclic: "acyclic (references (nd_tangle sample_node))"
  by (rule acyclicI_order [of _ "\<lambda>h. - hd h"]) (auto simp: references_def tangle_eval Let_def split: if_splits)

theorem post_order_walk_visits_witness:
  "acyclic (references (nd_tangle sample_node))
   \<and> (\<exists>events. walk_approvers_post_order_dfs (nd_tangle sample_node) [2] = Some events \<and> distinct events
     \<and> set events = walk_events (nd_tangle sample_node) {h. walk_reach (nd_tangle sample_node) (\<lambda>_. True) {[2]} h})"
  using post_order_walk_visits [of "nd_tangle sample_node" "[2]"] sample_acyclic by blast

section \<open>The walks along the trunk\<close>

definition vertex_pair :: "tangle \<Rightarrow> hash \<Rightarrow> transaction \<times> hash" where
  "vertex_pair T h = (case fmlookup (vertices T) h of Some v \<Rightarrow> (vtx_inner v, vtx_id v))"

text \<open>The longest chain of trunk references from \<open>h\<close> on through vertices that pass the filter.\<close>

fun trunk_chain :: "tangle \<Rightarrow> (transaction \<Rightarrow> bool) \<Rightarrow> hash \<Rightarrow> hash list \<Rightarrow> bool" where
  "trunk_chain T f h [] \<longleftrightarrow> (case fmlookup (vertices T) h of Some v \<Rightarrow> \<not> f (vtx_inner v) | None \<Rightarrow> True)"
| "trunk_chain T f h (k # ks) \<longleftrightarrow> k = h \<and>
     (case fmlookup (vertices T) h of Some v \<Rightarrow> f (vtx_inner v) \<and> trunk_chain T f (tx_trunk (vtx_inner v)) ks | None \<Rightarrow> False)"

text \<open>A chain of approvers by trunk that cannot be extended.\<close>

fun approver_chain :: "tangle \<Rightarrow> (transaction \<Rightarrow> bool) \<Rightarrow> hash \<Rightarrow> hash list \<Rightarrow> bool" where
  "approver_chain T f h [] \<longleftrightarrow> (\<forall>a v. a \<in> set (approver_list T h) \<longrightarrow> fmlookup (vertices T) a = Some v \<longrightarrow>
     \<not> (tx_trunk (vtx_inner v) = h \<and> f (vtx_inner v)))"
| "approver_chain T f h (k # ks) \<longleftrightarrow> k \<in> set (approver_list T h)
     \<and> (\<exists>v. fmlookup (vertices T) k = Some v \<and> tx_trunk (vtx_inner v) = h \<and> f (vtx_inner v)) \<and> approver_chain T f k ks"

lemma next_approver_None:
  "next_approver T f h as = None \<longleftrightarrow> (\<forall>a v. a \<in> set as \<longrightarrow> fmlookup (vertices T) a = Some v \<longrightarrow>
     \<not> (tx_trunk (vtx_inner v) = h \<and> f (vtx_inner v)))"
  by (induction as) (auto split: option.splits)

lemma next_approver_Some:
  "next_approver T f h as = Some (k, v) \<Longrightarrow>
   k \<in> set as \<and> fmlookup (vertices T) k = Some v \<and> tx_trunk (vtx_inner v) = h \<and> f (vtx_inner v)"
  by (induction as) (auto split: option.splits if_splits)

lemma approvees_loop_law:
  assumes "acyclic (references T)"
  shows "\<exists>hs. approvees_loop T f [h] log = Some (log @ map (vertex_pair T) hs) \<and> trunk_chain T f h hs"
  using finite_acyclic_wf [OF finite_references assms]
proof (induction h arbitrary: log)
  case (less h)
  show ?case
  proof (cases "fmlookup (vertices T) h")
    case None
    then show ?thesis
      using approvees_loop.simps [of T f "[h]"] approvees_loop.simps [of T f "[]"] by (intro exI [of _ "[]"]) simp
  next
    case (Some v)
    then have e: "(tx_trunk (vtx_inner v), h) \<in> references T"
      by (auto simp: references_def)
    show ?thesis
    proof (cases "f (vtx_inner v)")
      case True
      obtain hs where "approvees_loop T f [tx_trunk (vtx_inner v)] (log @ [vertex_pair T h])
          = Some ((log @ [vertex_pair T h]) @ map (vertex_pair T) hs)" "trunk_chain T f (tx_trunk (vtx_inner v)) hs"
        using less.IH [OF e] by blast
      then show ?thesis
        using Some True approvees_loop.simps [of T f "[h]"] by (intro exI [of _ "h # hs"]) (simp add: vertex_pair_def)
    next
      case False
      then show ?thesis
        using Some approvees_loop.simps [of T f "[h]"] by (intro exI [of _ "[]"]) simp
    qed
  qed
qed

lemma approvers_loop_law:
  assumes "acyclic (references T)"
  shows "\<exists>hs. approvers_loop T f [h] log = Some (log @ map (vertex_pair T) hs) \<and> approver_chain T f h hs"
  using finite_acyclic_wf_converse [OF finite_references assms]
proof (induction h arbitrary: log)
  case (less h)
  show ?case
  proof (cases "next_approver T f h (approver_list T h)")
    case None
    then have "approvers_loop T f [h] log = Some log"
      using approvers_loop.simps [of T f "[h]"] approvers_loop.simps [of T f "[]"] by simp
    moreover have "approver_chain T f h []"
      using None by (simp add: next_approver_None)
    ultimately show ?thesis
      by (intro exI [of _ "[]"]) simp
  next
    case (Some r)
    obtain k v where r: "r = (k, v)"
      by (cases r)
    then have k: "k \<in> set (approver_list T h)" "fmlookup (vertices T) k = Some v" "tx_trunk (vtx_inner v) = h" "f (vtx_inner v)"
      using next_approver_Some Some by blast+
    then have e: "(k, h) \<in> (references T)\<inverse>"
      by (auto simp: references_def)
    obtain hs where "approvers_loop T f [k] (log @ [vertex_pair T k]) = Some ((log @ [vertex_pair T k]) @ map (vertex_pair T) hs)"
        "approver_chain T f k hs"
      using less.IH [OF e] by blast
    then show ?thesis
      using Some r k approvers_loop.simps [of T f "[h]"] by (intro exI [of _ "k # hs"]) (simp add: vertex_pair_def)
  qed
qed

text \<open>
  When references have no cycle, both walks along the trunk return. Towards the approvees the walk collects
  the longest chain of trunk references through transactions that pass the filter; towards the approvers it
  collects the start, if it passes, and a chain of approvers by trunk that no approver in the tangle extends.
\<close>

theorem trunk_walks_return_chains:
  assumes "acyclic (references T)"
  shows "(\<exists>hs. trunk_walk_approvees T start f = Some (map (vertex_pair T) hs) \<and> trunk_chain T f start hs)
    \<and> (\<exists>hs. trunk_walk_approvers T start f = Some (map (vertex_pair T) hs)
      \<and> (case hs of [] \<Rightarrow> (case fmlookup (vertices T) start of Some v \<Rightarrow> \<not> f (vtx_inner v) | None \<Rightarrow> True)
         | h # ks \<Rightarrow> h = start \<and> approver_chain T f start ks))"
proof
  show "\<exists>hs. trunk_walk_approvees T start f = Some (map (vertex_pair T) hs) \<and> trunk_chain T f start hs"
    using approvees_loop_law [OF assms, of f start "[]"] by (simp add: trunk_walk_approvees_def)
  consider "fmlookup (vertices T) start = None" | v where "fmlookup (vertices T) start = Some v" "\<not> f (vtx_inner v)"
    | v where "fmlookup (vertices T) start = Some v" "f (vtx_inner v)"
    by (cases "fmlookup (vertices T) start") auto
  then show "\<exists>hs. trunk_walk_approvers T start f = Some (map (vertex_pair T) hs)
      \<and> (case hs of [] \<Rightarrow> (case fmlookup (vertices T) start of Some v \<Rightarrow> \<not> f (vtx_inner v) | None \<Rightarrow> True)
         | h # ks \<Rightarrow> h = start \<and> approver_chain T f start ks)"
  proof cases
    case (3 v)
    then obtain hs where "approvers_loop T f [start] [vertex_pair T start] = Some ([vertex_pair T start] @ map (vertex_pair T) hs)"
        "approver_chain T f start hs"
      using approvers_loop_law [OF assms] by blast
    then show ?thesis
      using 3 by (intro exI [of _ "start # hs"]) (simp add: trunk_walk_approvers_def vertex_pair_def)
  qed (auto simp: trunk_walk_approvers_def intro!: exI [of _ "[]"])
qed

theorem trunk_walks_return_chains_witness:
  "\<exists>hs. trunk_walk_approvees (nd_tangle sample_node) [2] (\<lambda>_. True) = Some (map (vertex_pair (nd_tangle sample_node)) hs)
    \<and> trunk_chain (nd_tangle sample_node) (\<lambda>_. True) [2] hs"
  using trunk_walks_return_chains sample_acyclic by blast

end
