(* ===== verification/Milestones.thy ===== *)
theory Milestones
  imports Mss Normalize Tangle_Walks
begin

text \<open>
  Milestones (src/bee-protocol/src/milestone and src/bee-protocol/src/worker/milestone_validator.rs): the
  builder that checks the Merkle signature of a milestone bundle, and the worker that collects the bundle
  from the tangle, validates it and registers the milestone.

  The result: a bundle in the tangle that carries a Merkle signature of its head's hash is accepted with the
  index of its tag, whatever key made the signature, and the worker then registers it. Nothing else changes
  the milestones or the last index.
\<close>

section \<open>The builder (milestone/builder.rs)\<close>

record milestone =
  ms_hash :: hash
  ms_index :: milestone_index

datatype milestone_builder_error =
    EmptyMilestone
  | InvalidMilestoneSignature
  | SignatureError mss_error
  | InvalidMilestoneIndex trits_i64_conversion_error

record milestone_builder =
  msb_hash :: hash
  msb_index :: milestone_index
  msb_depth :: "u8 option"
  msb_transactions :: "transaction list"

definition msb_new :: "hash \<Rightarrow> milestone_builder" where
  "msb_new h = \<lparr>msb_hash = h, msb_index = 0, msb_depth = None, msb_transactions = []\<rparr>"

definition msb_push :: "milestone_builder \<Rightarrow> transaction \<Rightarrow> milestone_builder" where
  "msb_push self tx = self\<lparr>msb_transactions := msb_transactions self @ [tx]\<rparr>"

definition msb_with_depth :: "milestone_builder \<Rightarrow> u8 \<Rightarrow> milestone_builder" where
  "msb_with_depth self depth = self\<lparr>msb_depth := Some depth\<rparr>"

text \<open>The loop that copies the payload of each transaction, from \<open>index\<close> on, into the signature.\<close>

fun signature_loop :: "btrit list \<Rightarrow> nat \<Rightarrow> transaction list \<Rightarrow> btrit list option" where
  "signature_loop buf index [] = Some buf"
| "signature_loop buf index (tx # txs) = do {
     buf \<leftarrow> t1b1_copy_into buf (index * PAYLOAD_TRIT_LEN) ((index + 1) * PAYLOAD_TRIT_LEN) (tx_payload tx);
     signature_loop buf (index + 1) txs }"

text \<open>
  The public key is the address of the first transaction. The signed hash is the trunk of the last but one
  transaction; \<open>len() - 2\<close> panics for a single transaction, the missing depth when it is unwrapped.
\<close>

definition msb_validate_signatures ::
  "('s, 'e) sponge \<Rightarrow> ('sd, 'k, 'f) ots_scheme \<Rightarrow> milestone_builder \<Rightarrow> (milestone_builder_error + unit) option" where
  "msb_validate_signatures S O' self = do {
     signature_buf \<leftarrow> trit_buf_zeros t1b1_buf Zero (length (msb_transactions self) * PAYLOAD_TRIT_LEN);
     signature_buf \<leftarrow> signature_loop signature_buf 0 (msb_transactions self);
     tail' \<leftarrow> (case msb_transactions self of [] \<Rightarrow> None | tx # _ \<Rightarrow> Some tx);
     depth \<leftarrow> msb_depth self;
     let public_key = \<lparr>mpub_state = tx_address tail', mpub_depth = depth\<rparr>;
     let signature = \<lparr>msig_state = signature_buf, msig_index = ucast (msb_index self)\<rparr>;
     before_last \<leftarrow> (if length (msb_transactions self) < 2 then None
                    else Some (msb_transactions self ! (length (msb_transactions self) - 2)));
     hash \<leftarrow> hash_as_trits (tx_trunk before_last);
     normalized \<leftarrow> normalize_hash hash;
     r \<leftarrow> mss_verify S O' public_key (message_of normalized) signature;
     Some (case r of
       Inr valid \<Rightarrow> if valid then Inr () else Inl InvalidMilestoneSignature
     | Inl e \<Rightarrow> Inl (SignatureError e)) }"

text \<open>The index is the value of the obsolete tag, cast to a \<open>u32\<close>.\<close>

definition msb_validate ::
  "('s, 'e) sponge \<Rightarrow> ('sd, 'k, 'f) ots_scheme \<Rightarrow> milestone_builder \<Rightarrow> (milestone_builder_error + milestone_builder) option" where
  "msb_validate S O' self =
     (case msb_transactions self of
        [] \<Rightarrow> Some (Inl EmptyMilestone)
      | tx # _ \<Rightarrow> do {
          r \<leftarrow> i64_try_from_trits (tx_obsolete_tag tx);
          (case r of
             Inl e \<Rightarrow> Some (Inl (InvalidMilestoneIndex e))
           | Inr index \<Rightarrow>
               (let self = self\<lparr>msb_index := word_of_int index\<rparr>
                in res_try (msb_validate_signatures S O' self) (\<lambda>_. Some (Inr self)))) })"

definition msb_build :: "milestone_builder \<Rightarrow> milestone" where
  "msb_build self = \<lparr>ms_hash = msb_hash self, ms_index = msb_index self\<rparr>"

section \<open>The validator (worker/milestone_validator.rs)\<close>

datatype milestone_validator_error =
    UnknownTail
  | NotATail
  | IncompleteBundle
  | InvalidMilestone milestone_builder_error

record coordinator_config =
  coo_depth :: u8
  coo_security_level :: u8

text \<open>The loop that follows the trunk for as many transactions as the security level says.\<close>

fun collect_loop :: "tangle \<Rightarrow> milestone_builder \<Rightarrow> transaction \<Rightarrow> nat \<Rightarrow> milestone_validator_error + milestone_builder" where
  "collect_loop T builder tx 0 = Inr builder"
| "collect_loop T builder tx (Suc n) =
     (case get_transaction T (tx_trunk tx) of
        None \<Rightarrow> Inl IncompleteBundle
      | Some tx \<Rightarrow> collect_loop T (msb_push builder tx) tx n)"

definition validate_milestone ::
  "('s, 'e) sponge \<Rightarrow> ('sd, 'k, 'f) ots_scheme \<Rightarrow> coordinator_config \<Rightarrow> tangle \<Rightarrow> hash
    \<Rightarrow> (milestone_validator_error + milestone) option" where
  "validate_milestone S O' cfg T tail_hash =
     (case get_transaction T tail_hash of
        None \<Rightarrow> Some (Inl UnknownTail)
      | Some tx \<Rightarrow>
          if \<not> tx_is_tail tx then Some (Inl NotATail)
          else
            (case collect_loop T (msb_push (msb_new tail_hash) tx) tx (unat (coo_security_level cfg)) of
               Inl e \<Rightarrow> Some (Inl e)
             | Inr builder \<Rightarrow>
                 map_option (\<lambda>r. case r of Inl e \<Rightarrow> Inl (InvalidMilestone e) | Inr builder \<Rightarrow> Inr (msb_build builder))
                   (msb_validate S O' (msb_with_depth builder (coo_depth cfg)))))"

text \<open>What the worker does with one tail: the body of \<open>run\<close>.\<close>

definition milestone_validator_step ::
  "('s, 'e) sponge \<Rightarrow> ('sd, 'k, 'f) ots_scheme \<Rightarrow> coordinator_config \<Rightarrow> tangle \<Rightarrow> hash \<Rightarrow> tangle option" where
  "milestone_validator_step S O' cfg T tail_hash = do {
     r \<leftarrow> validate_milestone S O' cfg T tail_hash;
     Some (case r of
       Inl _ \<Rightarrow> T
     | Inr milestone \<Rightarrow>
         (let T = add_milestone T (ms_index milestone) (ms_hash milestone)
          in if ms_index milestone > last_milestone_index T
             then update_last_milestone_index T (ms_index milestone) else T)) }"

fun milestone_validator_run ::
  "('s, 'e) sponge \<Rightarrow> ('sd, 'k, 'f) ots_scheme \<Rightarrow> coordinator_config \<Rightarrow> tangle \<Rightarrow> hash list \<Rightarrow> tangle option" where
  "milestone_validator_run S O' cfg T [] = Some T"
| "milestone_validator_run S O' cfg T (tail_hash # hashes) = do {
     T \<leftarrow> milestone_validator_step S O' cfg T tail_hash;
     milestone_validator_run S O' cfg T hashes }"

section \<open>Milestones in the tangle\<close>

text \<open>The transactions found from a hash on by following the trunk.\<close>

fun trunk_path :: "tangle \<Rightarrow> hash \<Rightarrow> transaction list \<Rightarrow> bool" where
  "trunk_path T h [] \<longleftrightarrow> True"
| "trunk_path T h (tx # txs) \<longleftrightarrow> get_transaction T h = Some tx \<and> trunk_path T (tx_trunk tx) txs"

text \<open>
  A bundle that a Merkle private key has signed: the address of its tail is the public key, the payloads
  hold the signature of the normalised hash of the head, and the tag holds the index of the key.
\<close>

definition milestone_bundle :: "('sd, 'k, 'f) ots_scheme \<Rightarrow> 'k mss_private_key \<Rightarrow> transaction list \<Rightarrow> bool" where
  "milestone_bundle O' sk txs \<longleftrightarrow>
     2 \<le> length txs \<and> list_all (\<lambda>tx. length (tx_payload tx) = PAYLOAD_TRIT_LEN) txs
     \<and> tx_obsolete_tag (hd txs) \<noteq> [] \<and> bal_val (tx_obsolete_tag (hd txs)) = uint (mpk_index sk)
     \<and> hash_wf (tx_trunk (txs ! (length txs - 2)))
     \<and> (\<exists>pk msg sk' sig. mss_generate_public_key sk = Some pk \<and> tx_address (hd txs) = mpub_state pk
          \<and> normalize_hash (hash_trits (tx_trunk (txs ! (length txs - 2)))) = Some msg
          \<and> mss_sign O' sk (message_of msg) = Some (sk', Inr sig) \<and> concat (map tx_payload txs) = msig_state sig)"

lemma signature_loop_law:
  assumes "list_all (\<lambda>tx. length (tx_payload tx) = PAYLOAD_TRIT_LEN) txs" "length pre = index * PAYLOAD_TRIT_LEN"
  shows "signature_loop (pre @ replicate (length txs * PAYLOAD_TRIT_LEN) Zero) index txs =
    Some (pre @ concat (map tx_payload txs))"
  using assms
proof (induction txs arbitrary: pre index)
  case Nil
  then show ?case
    by simp
next
  case (Cons tx txs)
  have "t1b1_copy_into (pre @ replicate (length (tx # txs) * PAYLOAD_TRIT_LEN) Zero) (index * PAYLOAD_TRIT_LEN)
      ((index + 1) * PAYLOAD_TRIT_LEN) (tx_payload tx) =
      Some ((pre @ tx_payload tx) @ replicate (length txs * PAYLOAD_TRIT_LEN) Zero)"
    using Cons.prems by (simp add: t1b1_copy_into_eq)
  then show ?case
    using Cons.IH [of "pre @ tx_payload tx" "index + 1"] Cons.prems by simp
qed

lemma collect_loop_law:
  "trunk_path T (tx_trunk tx) txs \<Longrightarrow>
   collect_loop T builder tx (length txs) = Inr (builder\<lparr>msb_transactions := msb_transactions builder @ txs\<rparr>)"
  by (induction txs arbitrary: tx builder) (simp_all add: msb_push_def)

lemma index_casts:
  assumes "unat (index :: u64) < 2 ^ 32"
  shows "ucast (word_of_int (uint index) :: u32) = index" "(word_of_int (uint index) :: u32) = ucast index"
    and "uint index < 2 ^ 32"
proof -
  show u: "(word_of_int (uint index) :: u32) = ucast index"
    by simp
  have "int (unat index) < int (2 ^ 32)"
    using assms by (simp only: of_nat_less_iff)
  then show "uint index < 2 ^ 32"
    by simp
  then show "ucast (word_of_int (uint index) :: u32) = index"
    unfolding u by (intro word_uint_eqI) (simp add: unsigned_ucast_eq unsigned_take_bit_eq take_bit_int_eq_self)
qed

context mss_law
begin

lemma validate_milestone_law:
  assumes "key_ok D sk" "unat (mpk_index sk) < 2 ^ D" "milestone_bundle O' sk txs"
    and good: "\<And>ts. length ts = 243 \<Longrightarrow> good_msg (message_of ts)"
    and "trunk_path T tail_hash txs" "tx_is_tail (hd txs)" "length txs = Suc (unat (coo_security_level cfg))"
    and "coo_depth cfg = mpk_depth sk"
  shows "validate_milestone S O' cfg T tail_hash = Some (Inr \<lparr>ms_hash = tail_hash, ms_index = ucast (mpk_index sk)\<rparr>)"
proof -
  obtain tx txs' where txs: "txs = tx # txs'"
    using assms(3) by (cases txs) (auto simp: milestone_bundle_def)
  obtain pk msg sk' sig where b: "2 \<le> length txs" "list_all (\<lambda>tx. length (tx_payload tx) = PAYLOAD_TRIT_LEN) txs"
    "tx_obsolete_tag tx \<noteq> []" "bal_val (tx_obsolete_tag tx) = uint (mpk_index sk)"
    "hash_wf (tx_trunk (txs ! (length txs - 2)))"
    "mss_generate_public_key sk = Some pk" "tx_address tx = mpub_state pk"
    "normalize_hash (hash_trits (tx_trunk (txs ! (length txs - 2)))) = Some msg"
    "mss_sign O' sk (message_of msg) = Some (sk', Inr sig)" "concat (map tx_payload txs) = msig_state sig"
    using assms(3) txs by (auto simp: milestone_bundle_def)
  have "length msg = 243"
    using normalize_hash_law [OF hash_as_trits_wf(2) [OF b(5)]] b(8) by auto
  from mss_sign_verify_law [OF assms(1,2) good [OF this]] have v: "mss_verify S O' pk (message_of msg) sig = Some (Inr True)"
    "msig_index sig = mpk_index sk"
    using b(6,9) by auto
  have "(2::nat) ^ D \<le> 2 ^ 19"
    using assms(1) by (intro power_increasing) (simp_all add: key_ok_def)
  then have "unat (mpk_index sk) < 2 ^ 32"
    using assms(2) by simp
  note casts = index_casts(1,2) [OF this] and index_bound = index_casts(3) [OF this]
  let ?b = "\<lparr>msb_hash = tail_hash, msb_index = ucast (mpk_index sk), msb_depth = Some (mpk_depth sk), msb_transactions = txs\<rparr>"
  have "msb_validate_signatures S O' ?b = Some (Inr ())"
  proof -
    have "signature_loop (replicate (length txs * PAYLOAD_TRIT_LEN) Zero) 0 txs = Some (msig_state sig)"
      using signature_loop_law [OF b(2), of "[]" 0] b(10) by simp
    moreover have "(case txs of [] \<Rightarrow> None | tx # _ \<Rightarrow> Some tx) = Some tx"
      using txs by simp
    moreover have "mss_verify S O' \<lparr>mpub_state = tx_address tx, mpub_depth = mpk_depth sk\<rparr> (message_of msg)
        \<lparr>msig_state = msig_state sig, msig_index = ucast (ucast (mpk_index sk) :: u32)\<rparr> = Some (Inr True)"
    proof -
      have "pk = \<lparr>mpub_state = tx_address tx, mpub_depth = mpk_depth sk\<rparr>"
        using b(6,7) by (auto simp: mss_generate_public_key_def split: bind_splits)
      moreover have "sig = \<lparr>msig_state = msig_state sig, msig_index = ucast (ucast (mpk_index sk) :: u32)\<rparr>"
        using v(2) casts by simp
      ultimately show ?thesis
        using v(1) by metis
    qed
    ultimately show ?thesis
      using b(1,8) hash_as_trits_wf(1) [OF b(5)]
      by (simp add: msb_validate_signatures_def t1b1_zeros Let_def)
  qed
  moreover have "i64_MIN \<le> uint (mpk_index sk)" "uint (mpk_index sk) \<le> i64_MAX"
    using index_bound order_trans [OF _ uint_ge_0, of "i64_MIN" "mpk_index sk"] by (simp_all add: i64_MIN_def i64_MAX_def)
  ultimately have "msb_validate S O' (?b\<lparr>msb_index := 0\<rparr>) = Some (Inr ?b)"
    using b(3,4) txs casts(2) by (simp add: msb_validate_def i64_try_from_trits_eq)
  moreover have "collect_loop T (msb_push (msb_new tail_hash) tx) tx (unat (coo_security_level cfg)) =
      Inr \<lparr>msb_hash = tail_hash, msb_index = 0, msb_depth = None, msb_transactions = txs\<rparr>"
    using collect_loop_law [of T tx txs' "msb_push (msb_new tail_hash) tx"] assms(5,7) txs
    by (simp add: msb_push_def msb_new_def)
  ultimately show ?thesis
    using assms(5,6,8) txs by (simp add: validate_milestone_def msb_with_depth_def msb_build_def)
qed

lemma seed_milestone_law:
  assumes "good_seed seed" "D \<le> 19" "unat index < 2 ^ D" "\<And>ts. length ts = 243 \<Longrightarrow> good_msg (message_of ts)"
    and "trunk_path T tail_hash txs" "tx_is_tail (hd txs)" "length txs = Suc (unat (coo_security_level cfg))"
    and "coo_depth cfg = word_of_nat (Suc D)"
  shows "\<exists>sk. mss_generate S \<lparr>mg_depth = word_of_nat (Suc D), mg_generator = O'\<rparr> seed = Some (Inr sk)
    \<and> (milestone_bundle O' (sk\<lparr>mpk_index := index\<rparr>) txs \<longrightarrow>
      validate_milestone S O' cfg T tail_hash = Some (Inr \<lparr>ms_hash = tail_hash, ms_index = ucast index\<rparr>))"
proof -
  obtain sk where sk: "mss_generate S \<lparr>mg_depth = word_of_nat (Suc D), mg_generator = O'\<rparr> seed = Some (Inr sk)" "key_ok D sk"
    using mss_generate_law [OF assms(1,2)] by blast
  then have "key_ok D (sk\<lparr>mpk_index := index\<rparr>)" "coo_depth cfg = mpk_depth (sk\<lparr>mpk_index := index\<rparr>)"
    using assms(8) by (simp_all add: key_ok_def)
  from validate_milestone_law [OF this(1) _ _ assms(4-7) this(2)] show ?thesis
    using sk(1) assms(3) by simp
qed

end

lemma validator_step_registers:
  assumes "validate_milestone S O' cfg T tail_hash = Some (Inr m)"
  shows "\<exists>T'. milestone_validator_step S O' cfg T tail_hash = Some T' \<and> milestones T' = fmupd (ms_index m) (ms_hash m) (milestones T)
    \<and> last_milestone_index T' = max (last_milestone_index T) (ms_index m)
    \<and> (\<forall>h. get_transaction T' h = get_transaction T h)"
  using assms
  by (auto simp: milestone_validator_step_def Let_def add_milestone_def update_last_milestone_index_def get_transaction_def
      vertex_set_milestone_def max_def split: option.splits)

text \<open>
  A bundle in the tangle from \<open>tail_hash\<close> on that is signed with the key of the seed at an index, is accepted. The
  key exists for every seed.
\<close>

definition accepts_signed ::
  "('s, 'e) sponge \<Rightarrow> wots_security_level \<Rightarrow> u8 \<Rightarrow> btrit list \<Rightarrow> u64 \<Rightarrow> transaction list \<Rightarrow> coordinator_config \<Rightarrow> tangle \<Rightarrow> hash \<Rightarrow> bool" where
  "accepts_signed S level depth seed index txs cfg T tail_hash \<longleftrightarrow>
     (\<exists>sk. mss_generate S \<lparr>mg_depth = depth, mg_generator = wots_scheme S level\<rparr> seed = Some (Inr sk)
       \<and> (milestone_bundle (wots_scheme S level) (sk\<lparr>mpk_index := index\<rparr>) txs \<longrightarrow>
          validate_milestone S (wots_scheme S level) cfg T tail_hash = Some (Inr \<lparr>ms_hash = tail_hash, ms_index = ucast index\<rparr>)
          \<and> (\<exists>T'. milestone_validator_step S (wots_scheme S level) cfg T tail_hash = Some T'
            \<and> get_milestone_hash T' (ucast index) = Some tail_hash
            \<and> last_milestone_index T' = max (last_milestone_index T) (ucast index))))"

lemma accepts_signed_law:
  assumes "mss_law S ok view vabsorb vsqueeze (wots_scheme S level) (\<lambda>seed. length seed = 243)
      (\<lambda>state. length state = security_level_as_usize level * 6561) (wots_message level)"
    and "length seed = 243" "1 \<le> depth" "depth \<le> 20" "unat index < 2 ^ (unat depth - 1)"
    and "trunk_path T tail_hash txs" "tx_is_tail (hd txs)" "length txs = Suc (unat (coo_security_level cfg))"
    and "coo_depth cfg = depth"
  shows "accepts_signed S level depth seed index txs cfg T tail_hash"
proof -
  have d: "unat depth - 1 \<le> 19" "word_of_nat (Suc (unat depth - 1)) = depth"
    using assms(3,4) by (simp_all add: word_le_nat_alt)
  have "security_level_as_usize level \<le> 3"
    by (cases level) simp_all
  then have m: "wots_message level (message_of ts)" if "length ts = 243" for ts
    using that by (fastforce simp: wots_message_def)
  show ?thesis
    using mss_law.seed_milestone_law [OF assms(1,2) d(1) assms(5) m assms(6-8)] validator_step_registers assms(9)
    unfolding accepts_signed_def get_milestone_hash_def d(2) by fastforce
qed

text \<open>
  C15. A milestone of the coordinator, or of anyone else, with each of the three sponges that the validator is
  started with. Take the Merkle key of any seed of 243 trits, of the configured depth (1 to 20), and an index
  below its number of leaves. A bundle signed with that key and index (\<open>milestone_bundle\<close>: full payloads that hold the
  signature, the index in the obsolete tag, the public key as the address), whose tail, trunk chain and number of
  transactions (one more than the configured security level) are as the validator expects and which is in the
  tangle, is accepted as the milestone with that index, and the worker registers it under that index. The
  coordinator's address is no part of the configuration that is read: a key made up by a peer does as well.
\<close>

theorem milestone_accepted:
  assumes "keccak_fills K" "length seed = 243" "1 \<le> depth" "depth \<le> 20" "unat index < 2 ^ (unat depth - 1)"
    and "trunk_path T tail_hash txs" "tx_is_tail (hd txs)" "length txs = Suc (unat (coo_security_level cfg))"
    and "coo_depth cfg = depth"
  shows "accepts_signed CurlP27 level depth seed index txs cfg T tail_hash
    \<and> accepts_signed CurlP81 level depth seed index txs cfg T tail_hash
    \<and> accepts_signed (Kerl K) level depth seed index txs cfg T tail_hash"
  using accepts_signed_law [OF mss27.mss_law_axioms assms(2-)] accepts_signed_law [OF mss81.mss_law_axioms assms(2-)]
    accepts_signed_law [OF mss_kerl_law [OF assms(1)] assms(2-)] by blast

lemma example_milestone_signature:
  "\<exists>sk pk msg sk' sig. mss_generate CurlP27 \<lparr>mg_depth = 1, mg_generator = wots_scheme CurlP27 Low\<rparr> (replicate 243 Zero) = Some (Inr sk)
    \<and> mpk_index sk = 0 \<and> mss_generate_public_key sk = Some pk \<and> normalize_hash (hash_trits (replicate 243 1)) = Some msg
    \<and> mss_sign (wots_scheme CurlP27 Low) sk (message_of msg) = Some (sk', Inr sig) \<and> length (msig_state sig) = 13122"
proof -
  have "hash_wf (replicate 243 1)"
    by (simp add: hash_wf_def list_all_iff)
  then obtain msg where msg: "normalize_hash (hash_trits (replicate 243 1)) = Some msg" "length msg = 243"
    using normalize_hash_law [OF hash_as_trits_wf(2)] by blast
  obtain sk where sk: "mss_generate CurlP27 \<lparr>mg_depth = 1, mg_generator = wots_scheme CurlP27 Low\<rparr> (replicate 243 Zero) = Some (Inr sk)"
    "mss27.key_ok Low 0 sk" "mpk_index sk = 0"
    using mss27.mss_generate_law [of "replicate 243 Zero" 0 Low] by auto
  have keys: "length (mpk_keys sk) = 1" "mpk_depth sk = 1" "length (mpk_keys sk ! 0) = 6561"
    using sk(2) unfolding mss27.key_ok_def by simp_all
  obtain sig where sig: "wots_sign CurlP27 (mpk_keys sk ! 0) (message_of msg) = Some (Inr sig)" "length sig = 6561"
    using curl27.sign_recover_law [of "mpk_keys sk ! 0" msg] keys(3) msg(2) by auto
  have "\<exists>sk'. mss_sign (wots_scheme CurlP27 Low) sk (message_of msg) =
      Some (sk', Inr \<lparr>msig_state = sig @ replicate 6561 Zero, msig_index = 0\<rparr>)"
    using sk(3) keys(1,2) sig
    by (simp add: mss_sign_def wots_scheme_def t1b1_get_eq t1b1_zeros t1b1_copy_into_eq depth_minus_1_def Let_def
        mss_siblings_loop.simps)
  moreover have "243 \<le> length (mpk_tree sk)"
    using sk(2) unfolding mss27.key_ok_def by simp
  then have "\<exists>pk. mss_generate_public_key sk = Some pk"
    by (simp add: mss_generate_public_key_def t1b1_slice_eq)
  ultimately show ?thesis
    using sk(1,3) msg(1) sig(2) by fastforce
qed

definition signed_bundle :: "btrit list \<Rightarrow> btrit list \<Rightarrow> transaction list" where
  "signed_bundle key sig =
     [(tx_of_segments zero_segments)\<lparr>tx_payload := take 6561 sig, tx_address := key, tx_trunk := replicate 243 1\<rparr>,
      (tx_of_segments zero_segments)\<lparr>tx_payload := drop 6561 sig\<rparr>]"

definition bundle_tangle :: "transaction list \<Rightarrow> tangle" where
  "bundle_tangle txs = tangle_new\<lparr>vertices :=
     fmupd (replicate 243 0) (vertex_from (txs ! 0) (replicate 243 0))
      (fmupd (replicate 243 1) (vertex_from (txs ! 1) (replicate 243 1)) fmempty)\<rparr>"

lemma example_signed_bundle:
  "\<exists>sk key sig. mss_generate CurlP27 \<lparr>mg_depth = 1, mg_generator = wots_scheme CurlP27 Low\<rparr> (replicate 243 Zero) = Some (Inr sk)
    \<and> milestone_bundle (wots_scheme CurlP27 Low) (sk\<lparr>mpk_index := 0\<rparr>) (signed_bundle key sig)"
proof -
  obtain sk pk msg sk' sig where e:
    "mss_generate CurlP27 \<lparr>mg_depth = 1, mg_generator = wots_scheme CurlP27 Low\<rparr> (replicate 243 Zero) = Some (Inr sk)"
    "mpk_index sk = 0" "mss_generate_public_key sk = Some pk" "normalize_hash (hash_trits (replicate 243 1)) = Some msg"
    "mss_sign (wots_scheme CurlP27 Low) sk (message_of msg) = Some (sk', Inr sig)" "length (msig_state sig) = 13122"
    using example_milestone_signature by blast
  let ?txs = "signed_bundle (mpub_state pk) (msig_state sig)"
  have tag: "tx_obsolete_tag (hd ?txs) = replicate 81 Zero"
    by (simp add: signed_bundle_def tx_of_segments_def zero_segments_nth tx_len_values)
  have "hash_wf (replicate 243 1)"
    by (simp add: hash_wf_def list_all_iff)
  then have "milestone_bundle (wots_scheme CurlP27 Low) sk ?txs"
    using e tag by (simp add: milestone_bundle_def signed_bundle_def PAYLOAD_TRIT_LEN_def)
  moreover have "sk = sk\<lparr>mpk_index := 0\<rparr>"
    using e(2) by simp
  ultimately show ?thesis
    using e(1) by metis
qed

lemma signed_bundle_path:
  "trunk_path (bundle_tangle (signed_bundle key sig)) (replicate 243 0) (signed_bundle key sig)"
  "length (signed_bundle key sig) = 2" "tx_is_tail (hd (signed_bundle key sig))"
  by (simp_all add: signed_bundle_def bundle_tangle_def get_transaction_def vertex_from_def tx_of_segments_def zero_segments_nth
      tx_len_values tx_is_tail_def)

theorem milestone_accepted_witness:
  "\<exists>key sig T'. milestone_validator_step CurlP27 (wots_scheme CurlP27 Low) \<lparr>coo_depth = 1, coo_security_level = 1\<rparr>
      (bundle_tangle (signed_bundle key sig)) (replicate 243 0) = Some T'
    \<and> get_milestone_hash T' 0 = Some (replicate 243 0)"
proof -
  obtain sk key sig where e:
    "mss_generate CurlP27 \<lparr>mg_depth = 1, mg_generator = wots_scheme CurlP27 Low\<rparr> (replicate 243 Zero) = Some (Inr sk)"
    "milestone_bundle (wots_scheme CurlP27 Low) (sk\<lparr>mpk_index := 0\<rparr>) (signed_bundle key sig)"
    using example_signed_bundle by blast
  have "\<exists>T'. milestone_validator_step CurlP27 (wots_scheme CurlP27 Low) \<lparr>coo_depth = 1, coo_security_level = 1\<rparr>
      (bundle_tangle (signed_bundle key sig)) (replicate 243 0) = Some T' \<and> get_milestone_hash T' 0 = Some (replicate 243 0)"
    using milestone_accepted [OF keccak_fills_example, of "replicate 243 Zero" 1 0 "bundle_tangle (signed_bundle key sig)" "replicate 243 0"
        "signed_bundle key sig" "\<lparr>coo_depth = 1, coo_security_level = 1\<rparr>" Low] signed_bundle_path [of key sig] e
    by (auto simp: accepts_signed_def)
  then show ?thesis
    by blast
qed

text \<open>Every registered milestone is a tail of the tangle, with an index up to the last one.\<close>

definition milestone_inv :: "tangle \<Rightarrow> bool" where
  "milestone_inv T \<longleftrightarrow>
     (\<forall>i h. get_milestone_hash T i = Some h \<longrightarrow>
        i \<le> last_milestone_index T \<and> (\<exists>tx. get_transaction T h = Some tx \<and> tx_is_tail tx))"

lemma validate_milestone_tail:
  assumes "validate_milestone S O' cfg T tail_hash = Some (Inr m)"
  shows "ms_hash m = tail_hash \<and> (\<exists>tx. get_transaction T tail_hash = Some tx \<and> tx_is_tail tx)"
proof -
  obtain tx where tx: "get_transaction T tail_hash = Some tx" "tx_is_tail tx"
    using assms by (auto simp: validate_milestone_def split: option.splits if_splits)
  have c: "msb_hash b' = msb_hash b" if "collect_loop T b tx n = Inr b'" for b b' tx n
    using that by (induction n arbitrary: b tx) (auto simp: msb_push_def split: option.splits)
  have v: "msb_hash b' = msb_hash b" if "msb_validate S O' b = Some (Inr b')" for b b'
    using that by (auto simp: msb_validate_def res_try_Inr_iff Let_def split: list.splits bind_splits sum.splits)
  obtain b b' where "collect_loop T (msb_push (msb_new tail_hash) tx) tx (unat (coo_security_level cfg)) = Inr b"
    "msb_validate S O' (msb_with_depth b (coo_depth cfg)) = Some (Inr b')" "m = msb_build b'"
    using assms tx by (auto simp: validate_milestone_def map_option_case split: sum.split_asm option.split_asm)
  then show ?thesis
    using tx c v by (auto simp: msb_build_def msb_with_depth_def msb_push_def msb_new_def)
qed

lemma validator_step_inv:
  assumes "milestone_inv T" "milestone_validator_step S O' cfg T tail_hash = Some T'"
  shows "milestone_inv T' \<and> last_milestone_index T \<le> last_milestone_index T'"
proof -
  obtain r where r: "validate_milestone S O' cfg T tail_hash = Some r"
    using assms(2) by (auto simp: milestone_validator_step_def split: bind_splits)
  show ?thesis
  proof (cases r)
    case (Inl e)
    then show ?thesis
      using assms r by (simp add: milestone_validator_step_def)
  next
    case (Inr m)
    then have T': "milestones T' = fmupd (ms_index m) (ms_hash m) (milestones T)"
      "last_milestone_index T' = max (last_milestone_index T) (ms_index m)" "\<And>h. get_transaction T' h = get_transaction T h"
      using validator_step_registers [of S O' cfg T tail_hash m] r assms(2) by auto
    then show ?thesis
      using assms(1) validate_milestone_tail [of S O' cfg T tail_hash m] r Inr
      unfolding milestone_inv_def get_milestone_hash_def by (auto simp: le_max_iff_disj)
  qed
qed

text \<open>
  C28. Whatever tails the validator is sent, every registered milestone stays a tail transaction of the tangle,
  no index is above the last milestone index, and that index never goes back.
\<close>

theorem milestone_registry_invariant:
  assumes "milestone_inv T" "milestone_validator_run S O' cfg T hashes = Some T'"
  shows "milestone_inv T' \<and> last_milestone_index T \<le> last_milestone_index T'"
  using assms
proof (induction hashes arbitrary: T)
  case Nil
  then show ?case
    by simp
next
  case (Cons h hashes)
  then obtain T1 where "milestone_validator_step S O' cfg T h = Some T1" "milestone_validator_run S O' cfg T1 hashes = Some T'"
    by (auto split: bind_splits)
  then show ?case
    using Cons.IH [of T1] validator_step_inv [OF Cons.prems(1), of S O' cfg h T1] by auto
qed

text \<open>An accepted milestone and the hash of a transaction that is not there.\<close>

theorem milestone_registry_invariant_witness:
  "\<exists>key sig T'. milestone_validator_run CurlP27 (wots_scheme CurlP27 Low) \<lparr>coo_depth = 1, coo_security_level = 1\<rparr>
      (bundle_tangle (signed_bundle key sig)) [replicate 243 0, replicate 243 (- 1)] = Some T'
    \<and> get_milestone_hash T' 0 = Some (replicate 243 0) \<and> milestone_inv T'"
proof -
  let ?cfg = "\<lparr>coo_depth = 1, coo_security_level = 1\<rparr>" and ?O = "wots_scheme CurlP27 Low"
  obtain sk key sig where e:
    "mss_generate CurlP27 \<lparr>mg_depth = 1, mg_generator = ?O\<rparr> (replicate 243 Zero) = Some (Inr sk)"
    "milestone_bundle ?O (sk\<lparr>mpk_index := 0\<rparr>) (signed_bundle key sig)"
    using example_signed_bundle by blast
  let ?T = "bundle_tangle (signed_bundle key sig)"
  have v: "validate_milestone CurlP27 ?O ?cfg ?T (replicate 243 0) = Some (Inr \<lparr>ms_hash = replicate 243 0, ms_index = 0\<rparr>)"
    using accepts_signed_law [OF mss27.mss_law_axioms, of "replicate 243 Zero" 1 0 ?T "replicate 243 0"
        "signed_bundle key sig" ?cfg Low] signed_bundle_path [of key sig] e
    by (auto simp: accepts_signed_def)
  obtain T' where T': "milestone_validator_step CurlP27 ?O ?cfg ?T (replicate 243 0) = Some T'"
    "milestones T' = fmupd 0 (replicate 243 0) (milestones ?T)" "\<And>h. get_transaction T' h = get_transaction ?T h"
    using validator_step_registers [OF v] by auto
  have "milestone_validator_step CurlP27 ?O ?cfg T' (replicate 243 (- 1)) = Some T'"
    unfolding milestone_validator_step_def validate_milestone_def T'(3)
    by (simp add: bundle_tangle_def tangle_new_def get_transaction_def)
  then have r: "milestone_validator_run CurlP27 ?O ?cfg ?T [replicate 243 0, replicate 243 (- 1)] = Some T'"
    using T'(1) by simp
  have "milestone_inv ?T"
    by (simp add: milestone_inv_def bundle_tangle_def tangle_new_def get_milestone_hash_def)
  from milestone_registry_invariant [OF this r] show ?thesis
    using r T'(2) unfolding get_milestone_hash_def by (intro exI [of _ key] exI [of _ sig] exI [of _ T']) simp
qed

end
