(* ===== verification/Peer_Worker.thy ===== *)
theory Peer_Worker
  imports Messages "HOL-Library.AList"
begin

text \<open>
  The two workers that read the byte stream of a peer (bee-protocol/src/worker/peer/handshaker.rs and
  peer.rs), with the metrics they count (protocol/metrics.rs) and the peer manager they update
  (peer/manager.rs). Both workers cut the stream into messages with the same state machine, written
  once over the function that processes a message. A channel is a flag that its receiver is alive and
  the list of what was sent; atomic counters are words, whose \<open>fetch_add\<close> wraps around. The clock,
  the configuration and the ids of endpoints are arguments.

  The results: cutting the stream does not depend on how it arrives in chunks, every encoded message
  is processed exactly once and in order, and the validation of a handshake on every branch. The hand
  over from the first worker to the second drops the bytes that were read but not yet processed.
\<close>

section \<open>Metrics (protocol/metrics.rs)\<close>

record protocol_metrics =
  invalid_transactions_received :: u64
  stale_transactions_received :: u64
  random_transactions_received :: u64
  new_transactions_received :: u64
  known_transactions_received :: u64
  invalid_messages_received :: u64
  milestone_request_received :: u64
  transaction_broadcast_received :: u64
  transaction_request_received :: u64
  heartbeat_received :: u64
  milestone_request_sent :: u64
  transaction_broadcast_sent :: u64
  transaction_request_sent :: u64
  heartbeat_sent :: u64

definition metrics_new :: protocol_metrics where
  "metrics_new = \<lparr>invalid_transactions_received = 0, stale_transactions_received = 0,
     random_transactions_received = 0, new_transactions_received = 0,
     known_transactions_received = 0, invalid_messages_received = 0,
     milestone_request_received = 0, transaction_broadcast_received = 0,
     transaction_request_received = 0, heartbeat_received = 0,
     milestone_request_sent = 0, transaction_broadcast_sent = 0,
     transaction_request_sent = 0, heartbeat_sent = 0\<rparr>"

definition invalid_transactions_received_inc :: "protocol_metrics \<Rightarrow> protocol_metrics" where
  "invalid_transactions_received_inc m = m\<lparr>invalid_transactions_received := invalid_transactions_received m + 1\<rparr>"

definition stale_transactions_received_inc :: "protocol_metrics \<Rightarrow> protocol_metrics" where
  "stale_transactions_received_inc m = m\<lparr>stale_transactions_received := stale_transactions_received m + 1\<rparr>"

definition random_transactions_received_inc :: "protocol_metrics \<Rightarrow> protocol_metrics" where
  "random_transactions_received_inc m = m\<lparr>random_transactions_received := random_transactions_received m + 1\<rparr>"

definition new_transactions_received_inc :: "protocol_metrics \<Rightarrow> protocol_metrics" where
  "new_transactions_received_inc m = m\<lparr>new_transactions_received := new_transactions_received m + 1\<rparr>"

definition known_transactions_received_inc :: "protocol_metrics \<Rightarrow> protocol_metrics" where
  "known_transactions_received_inc m = m\<lparr>known_transactions_received := known_transactions_received m + 1\<rparr>"

definition invalid_messages_received_inc :: "protocol_metrics \<Rightarrow> protocol_metrics" where
  "invalid_messages_received_inc m = m\<lparr>invalid_messages_received := invalid_messages_received m + 1\<rparr>"

definition milestone_request_received_inc :: "protocol_metrics \<Rightarrow> protocol_metrics" where
  "milestone_request_received_inc m = m\<lparr>milestone_request_received := milestone_request_received m + 1\<rparr>"

definition transaction_broadcast_received_inc :: "protocol_metrics \<Rightarrow> protocol_metrics" where
  "transaction_broadcast_received_inc m = m\<lparr>transaction_broadcast_received := transaction_broadcast_received m + 1\<rparr>"

definition transaction_request_received_inc :: "protocol_metrics \<Rightarrow> protocol_metrics" where
  "transaction_request_received_inc m = m\<lparr>transaction_request_received := transaction_request_received m + 1\<rparr>"

definition heartbeat_received_inc :: "protocol_metrics \<Rightarrow> protocol_metrics" where
  "heartbeat_received_inc m = m\<lparr>heartbeat_received := heartbeat_received m + 1\<rparr>"

definition milestone_request_sent_inc :: "protocol_metrics \<Rightarrow> protocol_metrics" where
  "milestone_request_sent_inc m = m\<lparr>milestone_request_sent := milestone_request_sent m + 1\<rparr>"

definition transaction_broadcast_sent_inc :: "protocol_metrics \<Rightarrow> protocol_metrics" where
  "transaction_broadcast_sent_inc m = m\<lparr>transaction_broadcast_sent := transaction_broadcast_sent m + 1\<rparr>"

definition transaction_request_sent_inc :: "protocol_metrics \<Rightarrow> protocol_metrics" where
  "transaction_request_sent_inc m = m\<lparr>transaction_request_sent := transaction_request_sent m + 1\<rparr>"

definition heartbeat_sent_inc :: "protocol_metrics \<Rightarrow> protocol_metrics" where
  "heartbeat_sent_inc m = m\<lparr>heartbeat_sent := heartbeat_sent m + 1\<rparr>"

section \<open>Channels\<close>

record 'a chan =
  chan_open :: bool
  chan_queue :: "'a list"

text \<open>\<open>send\<close> fails when the receiver is gone; waiting for room in a bounded channel is not observable here.\<close>

definition chan_send :: "'a \<Rightarrow> 'a chan \<Rightarrow> 'a chan option" where
  "chan_send x c = (if chan_open c then Some (c\<lparr>chan_queue := chan_queue c @ [x]\<rparr>) else None)"

section \<open>Cutting the stream into messages (\<open>message_handler\<close> of both workers)\<close>

datatype peer_read_state = ReadHeader | ReadPayload header

record peer_read_context =
  read_state :: peer_read_state
  read_buffer :: bytes

definition read_context_new :: peer_read_context where
  "read_context_new = \<lparr>read_state = ReadHeader, read_buffer = []\<rparr>"

text \<open>
  The \<open>while\<close> loop over the state and the offset into the buffer. An error of \<open>process\<close> is only
  logged; \<open>None\<close> is a panic.
\<close>

function handler_loop ::
  "('s \<Rightarrow> header \<Rightarrow> bytes \<Rightarrow> ('s \<times> 'r) option) \<Rightarrow> 's \<Rightarrow> peer_read_state \<Rightarrow> bytes \<Rightarrow> nat
    \<Rightarrow> ('s \<times> peer_read_state \<times> nat) option" where
  "handler_loop process s ReadHeader buffer offset =
     (if offset + 3 \<le> length buffer
      then (case header_from_bytes (take 3 (drop offset buffer)) of
              None \<Rightarrow> None
            | Some header \<Rightarrow> handler_loop process s (ReadPayload header) buffer (offset + 3))
      else Some (s, ReadHeader, offset))"
| "handler_loop process s (ReadPayload header) buffer offset =
     (if offset + unat (message_length header) \<le> length buffer
      then (case process s header (take (unat (message_length header)) (drop offset buffer)) of
              None \<Rightarrow> None
            | Some (s, _) \<Rightarrow>
                handler_loop process s ReadHeader buffer (offset + unat (message_length header)))
      else Some (s, ReadPayload header, offset))"
  by pat_completeness auto
termination
  by (relation "measure (\<lambda>(_, _, st, buffer, offset).
      2 * (length buffer - offset) + (case st of ReadHeader \<Rightarrow> 0 | ReadPayload _ \<Rightarrow> 1))") auto

declare handler_loop.simps [simp del]

definition message_handler ::
  "('s \<Rightarrow> header \<Rightarrow> bytes \<Rightarrow> ('s \<times> 'r) option) \<Rightarrow> 's \<Rightarrow> peer_read_context \<Rightarrow> bytes
    \<Rightarrow> ('s \<times> peer_read_context) option" where
  "message_handler process s context' bs =
     (let buffer = (if read_buffer context' = [] then bs else read_buffer context' @ bs)
      in map_option (\<lambda>(s, st, offset). (s, \<lparr>read_state = st, read_buffer = drop offset buffer\<rparr>))
           (handler_loop process s (read_state context') buffer 0))"

section \<open>The peer worker (worker/peer/peer.rs)\<close>

type_synonym endpoint_id = nat

datatype peer_worker_error = FailedSend

record peer_worker =
  pw_epid :: endpoint_id
  pw_metrics :: protocol_metrics
  pw_protocol_metrics :: protocol_metrics
  pw_solid_milestone_index :: u32
  pw_snapshot_milestone_index :: u32
  pw_transaction_worker :: "(endpoint_id \<times> transaction_broadcast) chan"
  pw_transaction_responder_worker :: "(endpoint_id \<times> transaction_request) chan"
  pw_milestone_responder_worker :: "(endpoint_id \<times> milestone_request) chan"

text \<open>The same counter of the peer's and of the protocol's metrics is incremented.\<close>

definition count_both :: "(protocol_metrics \<Rightarrow> protocol_metrics) \<Rightarrow> peer_worker \<Rightarrow> peer_worker" where
  "count_both inc s =
     s\<lparr>pw_metrics := inc (pw_metrics s), pw_protocol_metrics := inc (pw_protocol_metrics s)\<rparr>"

definition process_message ::
  "peer_worker \<Rightarrow> header \<Rightarrow> bytes \<Rightarrow> (peer_worker \<times> (peer_worker_error + unit)) option" where
  "process_message s header bs =
     (if message_type header = msg_ID MilestoneRequest then
        (case tlv_from_bytes MilestoneRequest header bs of
           None \<Rightarrow> None
         | Some (Inr m) \<Rightarrow>
             (case chan_send (pw_epid s, m) (pw_milestone_responder_worker s) of
                None \<Rightarrow> Some (s, Inl FailedSend)
              | Some c \<Rightarrow>
                  Some (count_both milestone_request_received_inc (s\<lparr>pw_milestone_responder_worker := c\<rparr>), Inr ()))
         | Some (Inl e) \<Rightarrow> Some (count_both invalid_messages_received_inc s, Inr ()))
      else if message_type header = msg_ID TransactionBroadcast then
        (case tlv_from_bytes TransactionBroadcast header bs of
           None \<Rightarrow> None
         | Some (Inr m) \<Rightarrow>
             (case chan_send (pw_epid s, m) (pw_transaction_worker s) of
                None \<Rightarrow> Some (s, Inl FailedSend)
              | Some c \<Rightarrow>
                  Some (count_both transaction_broadcast_received_inc (s\<lparr>pw_transaction_worker := c\<rparr>), Inr ()))
         | Some (Inl e) \<Rightarrow> Some (count_both invalid_messages_received_inc s, Inr ()))
      else if message_type header = msg_ID TransactionRequest then
        (case tlv_from_bytes TransactionRequest header bs of
           None \<Rightarrow> None
         | Some (Inr m) \<Rightarrow>
             (case chan_send (pw_epid s, m) (pw_transaction_responder_worker s) of
                None \<Rightarrow> Some (s, Inl FailedSend)
              | Some c \<Rightarrow>
                  Some (count_both transaction_request_received_inc (s\<lparr>pw_transaction_responder_worker := c\<rparr>), Inr ()))
         | Some (Inl e) \<Rightarrow> Some (count_both invalid_messages_received_inc s, Inr ()))
      else if message_type header = msg_ID Heartbeat then
        (case tlv_from_bytes Heartbeat header bs of
           None \<Rightarrow> None
         | Some (Inr m) \<Rightarrow>
             Some (count_both heartbeat_received_inc
               (s\<lparr>pw_solid_milestone_index := solid_milestone_index m,
                  pw_snapshot_milestone_index := snapshot_milestone_index m\<rparr>), Inr ())
         | Some (Inl e) \<Rightarrow> Some (count_both invalid_messages_received_inc s, Inr ()))
      else Some (count_both invalid_messages_received_inc s, Inr ()))"

text \<open>
  \<open>PeerWorker::new\<close> on a peer that \<open>HandshakedPeer::new\<close> has just built: its metrics and indexes are
  zero. The channels and the metrics of the protocol are shared with the other workers.
\<close>

record protocol_channels =
  pc_transaction_worker :: "(endpoint_id \<times> transaction_broadcast) chan"
  pc_transaction_responder_worker :: "(endpoint_id \<times> transaction_request) chan"
  pc_milestone_responder_worker :: "(endpoint_id \<times> milestone_request) chan"

definition peer_worker_new :: "endpoint_id \<Rightarrow> protocol_metrics \<Rightarrow> protocol_channels \<Rightarrow> peer_worker" where
  "peer_worker_new epid metrics chans =
     \<lparr>pw_epid = epid, pw_metrics = metrics_new, pw_protocol_metrics = metrics,
      pw_solid_milestone_index = 0, pw_snapshot_milestone_index = 0,
      pw_transaction_worker = pc_transaction_worker chans,
      pw_transaction_responder_worker = pc_transaction_responder_worker chans,
      pw_milestone_responder_worker = pc_milestone_responder_worker chans\<rparr>"

text \<open>
  The \<open>run\<close> loop on the sequence of chunks received before the shutdown signal.
\<close>

fun peer_worker_loop :: "peer_worker \<Rightarrow> peer_read_context \<Rightarrow> bytes list \<Rightarrow> (peer_worker \<times> peer_read_context) option" where
  "peer_worker_loop s context' [] = Some (s, context')"
| "peer_worker_loop s context' (event # events) = do {
     (s, context') \<leftarrow> message_handler process_message s context' event;
     peer_worker_loop s context' events }"


section \<open>Peers and the peer manager (peer/manager.rs)\<close>

datatype origin = Inbound | Outbound | Unbound

text \<open>A socket address: the ip, of which only equality matters, and the port.\<close>

record address =
  addr_ip :: nat
  addr_port :: u16

record peer =
  peer_epid :: endpoint_id
  peer_address :: address
  peer_origin :: origin

text \<open>
  The two concurrent maps as association lists; of a handshaked peer its address is kept. The log
  records the sender workers that are spawned and the shutdown signal sent to one of them.
\<close>

datatype sender_kind = MilestoneRequestSender | TransactionBroadcastSender | TransactionRequestSender | HeartbeatSender

datatype sender_event = Spawned endpoint_id sender_kind | ShutDown endpoint_id sender_kind

record peer_manager =
  pm_peers :: "(endpoint_id \<times> peer) list"
  pm_handshaked :: "(endpoint_id \<times> address) list"
  pm_senders :: "sender_event list"

definition pm_new :: peer_manager where
  "pm_new = \<lparr>pm_peers = [], pm_handshaked = [], pm_senders = []\<rparr>"

definition pm_add :: "peer_manager \<Rightarrow> peer \<Rightarrow> peer_manager" where
  "pm_add self p = self\<lparr>pm_peers := AList.update (peer_epid p) p (pm_peers self)\<rparr>"

definition pm_handshake :: "peer_manager \<Rightarrow> endpoint_id \<Rightarrow> address \<Rightarrow> peer_manager" where
  "pm_handshake self epid address' =
     (case map_of (pm_peers self) epid of
        None \<Rightarrow> self
      | Some _ \<Rightarrow>
          self\<lparr>pm_peers := AList.delete epid (pm_peers self),
            pm_handshaked := AList.update epid address' (pm_handshaked self),
            pm_senders := pm_senders self @
              [Spawned epid MilestoneRequestSender, Spawned epid TransactionBroadcastSender,
               Spawned epid TransactionRequestSender, Spawned epid HeartbeatSender]\<rparr>)"

text \<open>Only the sender of milestone requests is shut down.\<close>

definition pm_remove :: "peer_manager \<Rightarrow> endpoint_id \<Rightarrow> peer_manager" where
  "pm_remove self epid =
     (let self = self\<lparr>pm_peers := AList.delete epid (pm_peers self)\<rparr>
      in case map_of (pm_handshaked self) epid of
           None \<Rightarrow> self
         | Some _ \<Rightarrow>
             self\<lparr>pm_handshaked := AList.delete epid (pm_handshaked self),
               pm_senders := pm_senders self @ [ShutDown epid MilestoneRequestSender]\<rparr>)"

text \<open>The whole \<open>run\<close> of the peer worker, which ends by removing the peer.\<close>

definition peer_worker_run :: "peer_worker \<Rightarrow> peer_manager \<Rightarrow> bytes list \<Rightarrow> (peer_worker \<times> peer_manager) option" where
  "peer_worker_run s manager events = do {
     (s, _) \<leftarrow> peer_worker_loop s read_context_new events;
     Some (s, pm_remove manager (pw_epid s)) }"

section \<open>The handshaker (worker/peer/handshaker.rs)\<close>

datatype handshake_error =
    InvalidTimestampDiff int
  | CoordinatorMismatch
  | MwmMismatch u8 u8
  | UnsupportedVersion u8
  | PortMismatch u16 u16
  | UnboundPeer
  | AlreadyHandshaked

datatype handshake_status = Awaiting | Done | Duplicate

text \<open>The calls into the network and into the other workers, in the order they are made.\<close>

datatype handshake_action =
    SendMessage endpoint_id bytes
  | Disconnect endpoint_id
  | SendHeartbeat endpoint_id u32 u32
  | RequestMilestone u32 "endpoint_id option"
  | TriggerMilestoneSolidification

text \<open>What is read of the configuration and of the tangle.\<close>

record protocol_config =
  cfg_public_key_bytes :: bytes
  cfg_mwm :: u8
  tangle_solid_milestone_index :: u32
  tangle_snapshot_milestone_index :: u32

record handshaker =
  hs_peer :: peer
  hs_status :: handshake_status
  hs_manager :: peer_manager
  hs_metrics :: protocol_metrics
  hs_actions :: "handshake_action list"

text \<open>
  \<open>((timestamp - handshake.timestamp) as i64).abs()\<close>: the difference of two \<open>u64\<close> panics when the
  clock of the peer is ahead, and \<open>abs\<close> when the difference is the least \<open>i64\<close>.
\<close>

definition timestamp_diff :: "u64 \<Rightarrow> u64 \<Rightarrow> int option" where
  "timestamp_diff now t =
     (if now < t then None
      else let d = signed_of 64 (unat (now - t)) in if d = - (2 ^ 63) then None else Some \<bar>d\<bar>)"

definition validate_handshake ::
  "u64 \<Rightarrow> protocol_config \<Rightarrow> handshaker \<Rightarrow> handshake \<Rightarrow> (handshaker \<times> (handshake_error + address)) option" where
  "validate_handshake now cfg self hs = do {
     diff \<leftarrow> timestamp_diff now (timestamp hs);
     if diff > 5000 then Some (self, Inl (InvalidTimestampDiff diff))
     else if cfg_public_key_bytes cfg \<noteq> coordinator hs then Some (self, Inl CoordinatorMismatch)
     else if cfg_mwm cfg \<noteq> minimum_weight_magnitude hs
     then Some (self, Inl (MwmMismatch (cfg_mwm cfg) (minimum_weight_magnitude hs)))
     else do {
       r \<leftarrow> messages_supported_version (supported_versions hs);
       (case r of
          Inl version \<Rightarrow> Some (self, Inl (UnsupportedVersion version))
        | Inr _ \<Rightarrow>
            (let address_result =
               (case peer_origin (hs_peer self) of
                  Outbound \<Rightarrow>
                    if addr_port (peer_address (hs_peer self)) \<noteq> port hs
                    then Inl (PortMismatch (addr_port (peer_address (hs_peer self))) (port hs))
                    else Inr (peer_address (hs_peer self))
                | Inbound \<Rightarrow> Inr \<lparr>addr_ip = addr_ip (peer_address (hs_peer self)), addr_port = port hs\<rparr>
                | Unbound \<Rightarrow> Inl UnboundPeer)
             in (case address_result of
                   Inl e \<Rightarrow> Some (self, Inl e)
                 | Inr address' \<Rightarrow>
                     if list_ex (\<lambda>(_, a). a = address') (pm_handshaked (hs_manager self))
                     then Some (self\<lparr>hs_status := Duplicate\<rparr>, Inl AlreadyHandshaked)
                     else Some (self, Inr address')))) } }"

definition hs_process_message ::
  "u64 \<Rightarrow> protocol_config \<Rightarrow> handshaker \<Rightarrow> header \<Rightarrow> bytes \<Rightarrow> (handshaker \<times> unit) option" where
  "hs_process_message now cfg self header bs =
     (if message_type header = msg_ID Handshake then
        (case tlv_from_bytes Handshake header bs of
           None \<Rightarrow> None
         | Some (Inr hs) \<Rightarrow>
             (case validate_handshake now cfg self hs of
                None \<Rightarrow> None
              | Some (self, Inr address') \<Rightarrow>
                  Some (self\<lparr>hs_manager := pm_handshake (hs_manager self) (peer_epid (hs_peer self)) address',
                      hs_actions := hs_actions self @
                        [SendHeartbeat (peer_epid (hs_peer self))
                           (tangle_solid_milestone_index cfg) (tangle_snapshot_milestone_index cfg),
                         RequestMilestone 0 (Some (peer_epid (hs_peer self))),
                         TriggerMilestoneSolidification],
                      hs_status := Done\<rparr>, ())
              | Some (self, Inl e) \<Rightarrow> Some (self, ()))
         | Some (Inl e) \<Rightarrow>
             Some (self\<lparr>hs_metrics := invalid_messages_received_inc (hs_metrics self)\<rparr>, ()))
      else Some (self\<lparr>hs_metrics := invalid_messages_received_inc (hs_metrics self)\<rparr>, ()))"

text \<open>
  The \<open>run\<close> loop on the chunks, each with the time of the clock when it is handled: after each chunk
  the status decides whether to go on. What is left of the chunks when the loop stops stays in the
  receiver, which the peer worker then takes over.
\<close>

fun handshaker_loop ::
  "protocol_config \<Rightarrow> handshaker \<Rightarrow> peer_read_context \<Rightarrow> (u64 \<times> bytes) list
    \<Rightarrow> (handshaker \<times> peer_read_context \<times> (u64 \<times> bytes) list) option" where
  "handshaker_loop cfg s context' [] = Some (s, context', [])"
| "handshaker_loop cfg s context' ((now, event) # events) = do {
     (s, context') \<leftarrow> message_handler (hs_process_message now cfg) s context' event;
     (case hs_status s of
        Awaiting \<Rightarrow> handshaker_loop cfg s context' events
      | _ \<Rightarrow> Some (s, context', events)) }"

definition handshaker_new :: "peer \<Rightarrow> peer_manager \<Rightarrow> protocol_metrics \<Rightarrow> handshaker" where
  "handshaker_new p manager metrics =
     \<lparr>hs_peer = p, hs_status = Awaiting, hs_manager = manager, hs_metrics = metrics, hs_actions = []\<rparr>"

text \<open>
  The whole \<open>run\<close> of the handshaker: it sends its own handshake, reads, and, when the handshake is
  done, starts the peer worker on the same receiver with a new read context. The entry of the peer is
  unwrapped there. A duplicate connection is closed.
\<close>

definition handshaker_run ::
  "u64 \<Rightarrow> protocol_config \<Rightarrow> handshaker \<Rightarrow> protocol_channels \<Rightarrow> (u64 \<times> bytes) list
    \<Rightarrow> (handshaker \<times> peer_worker option) option" where
  "handshaker_run now cfg self chans events = do {
     own \<leftarrow> handshake_new now 1337 (cfg_public_key_bytes cfg) (cfg_mwm cfg) MESSAGES_VERSIONS;
     bs \<leftarrow> tlv_into_bytes Handshake own;
     let self = self\<lparr>hs_actions := hs_actions self @ [SendMessage (peer_epid (hs_peer self)) bs]\<rparr>;
     (self, _, events) \<leftarrow> handshaker_loop cfg self read_context_new events;
     (case hs_status self of
        Done \<Rightarrow> do {
          _ \<leftarrow> map_of (pm_handshaked (hs_manager self)) (peer_epid (hs_peer self));
          (worker, manager) \<leftarrow>
            peer_worker_run (peer_worker_new (peer_epid (hs_peer self)) (hs_metrics self) chans)
              (hs_manager self) (map snd events);
          Some (self\<lparr>hs_manager := manager\<rparr>, Some worker) }
      | Duplicate \<Rightarrow>
          Some (self\<lparr>hs_actions := hs_actions self @ [Disconnect (peer_epid (hs_peer self))]\<rparr>, None)
      | Awaiting \<Rightarrow> Some (self, None)) }"

section \<open>The cut does not depend on the chunks\<close>

text \<open>The loop as a function of the bytes not yet consumed.\<close>

function consume ::
  "('s \<Rightarrow> header \<Rightarrow> bytes \<Rightarrow> ('s \<times> 'r) option) \<Rightarrow> 's \<Rightarrow> peer_read_state \<Rightarrow> bytes
    \<Rightarrow> ('s \<times> peer_read_state \<times> bytes) option" where
  "consume process s ReadHeader bs =
     (if 3 \<le> length bs
      then (case header_from_bytes (take 3 bs) of
              None \<Rightarrow> None
            | Some header \<Rightarrow> consume process s (ReadPayload header) (drop 3 bs))
      else Some (s, ReadHeader, bs))"
| "consume process s (ReadPayload header) bs =
     (if unat (message_length header) \<le> length bs
      then (case process s header (take (unat (message_length header)) bs) of
              None \<Rightarrow> None
            | Some (s, _) \<Rightarrow> consume process s ReadHeader (drop (unat (message_length header)) bs))
      else Some (s, ReadPayload header, bs))"
  by pat_completeness auto
termination
  by (relation "measure (\<lambda>(_, _, st, bs).
      2 * length bs + (case st of ReadHeader \<Rightarrow> 0 | ReadPayload _ \<Rightarrow> 1))") auto

declare consume.simps [simp del]

lemma handler_loop_consume:
  "offset \<le> length buffer \<Longrightarrow>
   map_option (\<lambda>(s, st, off). (s, st, drop off buffer)) (handler_loop process s st buffer offset) =
   consume process s st (drop offset buffer)"
proof (induction process s st buffer offset rule: handler_loop.induct)
  case (1 process s buffer offset)
  then show ?case
    by (cases "header_from_bytes (take 3 (drop offset buffer))")
      (simp_all add: handler_loop.simps(1) consume.simps(1) add.commute le_diff_conv2)
next
  case (2 process s header buffer offset)
  let ?n = "unat (message_length header)"
  show ?case
  proof (cases "offset + ?n \<le> length buffer")
    case True
    show ?thesis
    proof (cases "process s header (take ?n (drop offset buffer))")
      case None
      then show ?thesis
        using True by (simp add: handler_loop.simps(2) consume.simps(2))
    next
      case (Some r)
      obtain s' x where r: "r = (s', x)"
        by (cases r)
      have "?n \<le> length buffer - offset"
        using True by simp
      then show ?thesis
        using True Some r "2.IH" [OF True, of "(s', x)" s' x] by (simp add: handler_loop.simps(2) consume.simps(2) add.commute)
    qed
  next
    case False
    then have "\<not> ?n \<le> length buffer - offset"
      using "2.prems" by linarith
    then show ?thesis
      using False by (simp add: handler_loop.simps(2) consume.simps(2))
  qed
qed

lemma message_handler_consume:
  "message_handler process s c bs =
   map_option (\<lambda>(s, st, rest). (s, \<lparr>read_state = st, read_buffer = rest\<rparr>))
     (consume process s (read_state c) (read_buffer c @ bs))"
proof -
  have "(if read_buffer c = [] then bs else read_buffer c @ bs) = read_buffer c @ bs"
    by simp
  then show ?thesis
    using handler_loop_consume [of 0 "read_buffer c @ bs" process s "read_state c", symmetric]
    unfolding message_handler_def Let_def
    by (simp add: option.map_comp comp_def case_prod_unfold)
qed

lemma consume_append:
  "consume process s st (as @ bs) =
   do { (s, st, rest) \<leftarrow> consume process s st as; consume process s st (rest @ bs) }"
proof (induction process s st as rule: consume.induct)
  case (1 process s as)
  show ?case
  proof (cases "3 \<le> length as")
    case True
    then show ?thesis
      using 1 by (simp add: consume.simps(1) [of _ _ as] consume.simps(1) [of _ _ "as @ bs"] split: option.split)
  qed (simp add: consume.simps(1) [of _ _ as])
next
  case (2 process s header as)
  show ?case
  proof (cases "unat (message_length header) \<le> length as")
    case True
    then show ?thesis
      using 2 by (simp add: consume.simps(2) [of _ _ _ as] consume.simps(2) [of _ _ _ "as @ bs"] split: option.split)
  qed (simp add: consume.simps(2) [of _ _ _ as])
qed

text \<open>A frame is a header and a payload of the length it announces; the loop processes it and goes on.\<close>

lemma consume_frame:
  assumes "unat (message_length h) = length payload"
  shows "consume process s ReadHeader (message_type h # to_be_bytes 2 (message_length h) @ payload @ bs) =
    (case process s h payload of None \<Rightarrow> None | Some (s, _) \<Rightarrow> consume process s ReadHeader bs)"
proof -
  let ?f = "message_type h # to_be_bytes 2 (message_length h)"
  have len: "length ?f = 3"
    by simp
  have f: "take 3 (?f @ payload @ bs) = ?f" "drop 3 (?f @ payload @ bs) = payload @ bs"
    unfolding len [symmetric] by simp_all
  have l: "3 \<le> length (?f @ payload @ bs)"
    by simp
  have h: "header_from_bytes ?f = Some h"
    using header_roundtrip [of h] by simp
  have "consume process s ReadHeader (?f @ payload @ bs) = consume process s (ReadPayload h) (payload @ bs)"
    by (simp only: consume.simps(1) [of _ _ "?f @ payload @ bs"] l f h if_True option.case)
  also have "\<dots> = (case process s h payload of None \<Rightarrow> None | Some (s, _) \<Rightarrow> consume process s ReadHeader bs)"
    using assms by (simp add: consume.simps(2) split: option.split)
  finally show ?thesis
    by simp
qed

lemma consume_Nil [simp]: "consume process s ReadHeader [] = Some (s, ReadHeader, [])"
  by (simp add: consume.simps(1))

lemma header_from_bytes_total: "3 \<le> length bs \<Longrightarrow> \<exists>h. header_from_bytes (take 3 bs) = Some h"
  using from_be_bytes_Some [of "take 2 (drop 1 bs)" 2]
  by (auto simp: header_from_bytes_def HEADER_SIZE_def HEADER_TYPE_SIZE_def HEADER_LENGTH_SIZE_def take_drop)

lemma consume_total:
  assumes "\<And>s h bs. process s h bs \<noteq> None"
  shows "consume process s st bs \<noteq> None"
  using assms
proof (induction process s st bs rule: consume.induct)
  case (1 process s bs)
  show ?case
  proof (cases "3 \<le> length bs")
    case True
    then obtain h where "header_from_bytes (take 3 bs) = Some h"
      using header_from_bytes_total by blast
    then show ?thesis
      using 1 True by (simp add: consume.simps(1) [of _ _ bs])
  qed (simp add: consume.simps(1) [of _ _ bs])
next
  case (2 process s header bs)
  obtain s' r where "process s header (take (unat (message_length header)) bs) = Some (s', r)"
    using "2.prems" [of s header "take (unat (message_length header)) bs"] by auto
  then show ?case
    using 2 by (simp add: consume.simps(2) [of _ _ _ bs])
qed

context message
begin

lemma consume_encoded:
  assumes "sendable m" "tlv_into_bytes M m = Some bs"
    and "\<And>h payload. message_type h = msg_ID M \<Longrightarrow> tlv_from_bytes M h payload = Some (Inr m) \<Longrightarrow> process s h payload = r"
  shows "consume process s ReadHeader (bs @ rest) =
    (case r of None \<Rightarrow> None | Some (s, _) \<Rightarrow> consume process s ReadHeader rest)"
proof -
  let ?h = "\<lparr>message_type = msg_ID M, message_length = word_of_nat (msg_size M m)\<rparr>"
  obtain payload where p: "bs = msg_ID M # to_be_bytes 2 (message_length ?h) @ payload"
    "unat (message_length ?h) = length payload" "tlv_from_bytes M ?h payload = Some (Inr m)"
    using tlv_roundtrip [OF assms(1)] assms(2) by auto
  have "process s ?h payload = r"
    using assms(3) [of ?h payload] p(3) by simp
  then show ?thesis
    using consume_frame [OF p(2), of process s rest] by (simp add: p(1))
qed

end

section \<open>The run over chunks\<close>

text \<open>The \<open>run\<close> loop of a worker is one call of the handler on all the bytes, however they are cut.\<close>

lemma peer_worker_loop_concat:
  "peer_worker_loop s c chunks =
     (if chunks = [] then Some (s, c) else message_handler process_message s c (concat chunks))"
proof (induction chunks arbitrary: s c)
  case (Cons a chunks)
  show ?case
  proof (cases "consume process_message s (read_state c) (read_buffer c @ a)")
    case None
    then show ?thesis
      by (simp add: message_handler_consume consume_append [of _ _ _ "read_buffer c @ a", simplified])
  next
    case (Some r)
    obtain s' st rest where r: "r = (s', st, rest)"
      by (cases r)
    have "consume process_message s (read_state c) (read_buffer c @ a @ concat chunks) =
        consume process_message s' st (rest @ concat chunks)"
      using consume_append [of process_message s "read_state c" "read_buffer c @ a" "concat chunks"] Some r by simp
    moreover have "consume process_message s (read_state c) (read_buffer c @ a @ []) = Some (s', st, rest)"
      using Some r by simp
    ultimately show ?thesis
      using Some r Cons.IH [of s' "\<lparr>read_state = st, read_buffer = rest\<rparr>"]
      by (cases "chunks = []") (simp_all add: message_handler_consume)
  qed
qed simp

lemma peer_worker_loop_new:
  "peer_worker_loop s read_context_new chunks = message_handler process_message s read_context_new (concat chunks)"
  by (simp add: peer_worker_loop_concat message_handler_consume read_context_new_def)

lemma process_message_total: "process_message s h bs \<noteq> None"
proof -
  obtain a b c d where "tlv_from_bytes MilestoneRequest h bs = Some a"
    "tlv_from_bytes TransactionBroadcast h bs = Some b"
    "tlv_from_bytes TransactionRequest h bs = Some c" "tlv_from_bytes Heartbeat h bs = Some d"
    using milestone_request.decode_total [of h bs] transaction_broadcast.decode_total [of h bs]
      transaction_request.decode_total [of h bs] heartbeat.decode_total [of h bs] by blast
  then show ?thesis
    by (simp add: process_message_def split: sum.split option.split)
qed

text \<open>
  The specification of the worker: what it does with a list of messages, its channels being open.
\<close>

datatype gossip =
    Milestone_Request milestone_request
  | Transaction_Broadcast transaction_broadcast
  | Transaction_Request transaction_request
  | Heart_Beat heartbeat

definition gossip_bytes :: "gossip \<Rightarrow> bytes option" where
  "gossip_bytes g = (case g of
     Milestone_Request m \<Rightarrow> tlv_into_bytes MilestoneRequest m
   | Transaction_Broadcast m \<Rightarrow> tlv_into_bytes TransactionBroadcast m
   | Transaction_Request m \<Rightarrow> tlv_into_bytes TransactionRequest m
   | Heart_Beat m \<Rightarrow> tlv_into_bytes Heartbeat m)"

definition gossip_ok :: "gossip \<Rightarrow> bool" where
  "gossip_ok g = (case g of
     Transaction_Broadcast m \<Rightarrow> 292 \<le> length (tb_transaction m) \<and> length (tb_transaction m) \<le> 1604
   | Transaction_Request m \<Rightarrow> length (tr_hash m) = 49
   | _ \<Rightarrow> True)"

definition enqueue :: "'a \<Rightarrow> 'a chan \<Rightarrow> 'a chan" where
  "enqueue x c = c\<lparr>chan_queue := chan_queue c @ [x]\<rparr>"

definition deliver :: "gossip \<Rightarrow> peer_worker \<Rightarrow> peer_worker" where
  "deliver g s = (case g of
     Milestone_Request m \<Rightarrow> count_both milestone_request_received_inc
       (s\<lparr>pw_milestone_responder_worker := enqueue (pw_epid s, m) (pw_milestone_responder_worker s)\<rparr>)
   | Transaction_Broadcast m \<Rightarrow> count_both transaction_broadcast_received_inc
       (s\<lparr>pw_transaction_worker := enqueue (pw_epid s, m) (pw_transaction_worker s)\<rparr>)
   | Transaction_Request m \<Rightarrow> count_both transaction_request_received_inc
       (s\<lparr>pw_transaction_responder_worker := enqueue (pw_epid s, m) (pw_transaction_responder_worker s)\<rparr>)
   | Heart_Beat m \<Rightarrow> count_both heartbeat_received_inc
       (s\<lparr>pw_solid_milestone_index := solid_milestone_index m, pw_snapshot_milestone_index := snapshot_milestone_index m\<rparr>))"

definition channels_open :: "peer_worker \<Rightarrow> bool" where
  "channels_open s \<longleftrightarrow> chan_open (pw_transaction_worker s) \<and> chan_open (pw_transaction_responder_worker s)
     \<and> chan_open (pw_milestone_responder_worker s)"

lemma channels_open_deliver [simp]: "channels_open (deliver g s) = channels_open s"
  by (cases g) (simp_all add: deliver_def channels_open_def count_both_def enqueue_def)

lemma pw_epid_deliver [simp]: "pw_epid (deliver g s) = pw_epid s"
  by (cases g) (simp_all add: deliver_def count_both_def)

lemma msg_IDs [simp]:
  "msg_ID Handshake = 1" "msg_ID MilestoneRequest = 3" "msg_ID TransactionBroadcast = 4"
  "msg_ID TransactionRequest = 5" "msg_ID Heartbeat = 6"
  by (simp_all add: Handshake_def MilestoneRequest_def TransactionBroadcast_def TransactionRequest_def Heartbeat_def)

lemma gossip_sendable:
  "milestone_request.sendable mr" "heartbeat.sendable hb"
  "gossip_ok (Transaction_Broadcast tb) \<Longrightarrow> transaction_broadcast.sendable tb"
  "gossip_ok (Transaction_Request tr) \<Longrightarrow> transaction_request.sendable tr"
  unfolding milestone_request.sendable_def heartbeat.sendable_def transaction_broadcast.sendable_def
    transaction_request.sendable_def
  by (simp_all add: gossip_ok_def transaction_request_valid_def MilestoneRequest_def TransactionBroadcast_def
      TransactionRequest_def Heartbeat_def range_contains_def HASH_SIZE_def)

lemma chan_send_open: "chan_open c \<Longrightarrow> chan_send x c = Some (enqueue x c)"
  by (simp add: chan_send_def enqueue_def)

lemma gossip_bytes_total: "gossip_ok g \<Longrightarrow> \<exists>bs. gossip_bytes g = Some bs"
  using gossip_sendable milestone_request.tlv_roundtrip transaction_broadcast.tlv_roundtrip
    transaction_request.tlv_roundtrip heartbeat.tlv_roundtrip
  by (cases g) (fastforce simp: gossip_bytes_def)+

lemma consume_gossip:
  assumes "gossip_ok g" "gossip_bytes g = Some bs" "channels_open s"
  shows "consume process_message s ReadHeader (bs @ rest) = consume process_message (deliver g s) ReadHeader rest"
proof (cases g)
  case (Milestone_Request m)
  then show ?thesis
    using milestone_request.consume_encoded [of m bs process_message s "Some (deliver g s, Inr ())" rest]
      gossip_sendable(1) [of m] assms(2,3)
    by (simp add: gossip_bytes_def process_message_def deliver_def channels_open_def chan_send_open)
next
  case (Transaction_Broadcast m)
  then show ?thesis
    using transaction_broadcast.consume_encoded [of m bs process_message s "Some (deliver g s, Inr ())" rest]
      gossip_sendable(3) [of m] assms
    by (simp add: gossip_bytes_def process_message_def deliver_def channels_open_def chan_send_open)
next
  case (Transaction_Request m)
  then show ?thesis
    using transaction_request.consume_encoded [of m bs process_message s "Some (deliver g s, Inr ())" rest]
      gossip_sendable(4) [of m] assms
    by (simp add: gossip_bytes_def process_message_def deliver_def channels_open_def chan_send_open)
next
  case (Heart_Beat m)
  then show ?thesis
    using heartbeat.consume_encoded [of m bs process_message s "Some (deliver g s, Inr ())" rest]
      gossip_sendable(2) [of m] assms(2,3)
    by (simp add: gossip_bytes_def process_message_def deliver_def)
qed

lemma consume_gossips:
  assumes "list_all gossip_ok gs" "channels_open s"
  shows "consume process_message s ReadHeader (concat (map (\<lambda>g. the (gossip_bytes g)) gs)) =
    Some (fold deliver gs s, ReadHeader, [])"
  using assms
proof (induction gs arbitrary: s)
  case (Cons g gs)
  obtain bs where "gossip_bytes g = Some bs"
    using gossip_bytes_total Cons.prems(1) by auto
  then show ?case
    using Cons consume_gossip [of g bs s] by simp
qed simp

section \<open>Properties of the peer worker\<close>

text \<open>
  C2. How the network cuts the byte stream does not matter: a worker that handles the chunks of a
  stream one after the other ends in the same state, with the same bytes left over, as one that gets
  all bytes at once, and the handler itself can be cut anywhere.
\<close>

theorem stream_chunk_invariance:
  "peer_worker_loop s read_context_new chunks = message_handler process_message s read_context_new (concat chunks)
   \<and> message_handler process w c (as @ bs) = do {
       (w1, c1) \<leftarrow> message_handler process w c as;
       message_handler process w1 c1 bs }"
proof
  show "peer_worker_loop s read_context_new chunks = message_handler process_message s read_context_new (concat chunks)"
    by (rule peer_worker_loop_new)
  show "message_handler process w c (as @ bs) = do {
       (w1, c1) \<leftarrow> message_handler process w c as;
       message_handler process w1 c1 bs }"
    using consume_append [of process w "read_state c" "read_buffer c @ as" bs]
    by (cases "consume process w (read_state c) (read_buffer c @ as)")
      (auto simp: message_handler_consume)
qed

text \<open>The messages of one type in a list.\<close>

definition broadcasts :: "gossip list \<Rightarrow> transaction_broadcast list" where
  "broadcasts gs = [m. Transaction_Broadcast m \<leftarrow> gs]"

definition transaction_requests :: "gossip list \<Rightarrow> transaction_request list" where
  "transaction_requests gs = [m. Transaction_Request m \<leftarrow> gs]"

definition milestone_requests :: "gossip list \<Rightarrow> milestone_request list" where
  "milestone_requests gs = [m. Milestone_Request m \<leftarrow> gs]"

lemmas gossip_lists = broadcasts_def transaction_requests_def milestone_requests_def

lemma fold_deliver:
  "pw_epid (fold deliver gs s) = pw_epid s"
  "chan_queue (pw_transaction_worker (fold deliver gs s)) =
     chan_queue (pw_transaction_worker s) @ map (Pair (pw_epid s)) (broadcasts gs)"
  "chan_queue (pw_transaction_responder_worker (fold deliver gs s)) =
     chan_queue (pw_transaction_responder_worker s) @ map (Pair (pw_epid s)) (transaction_requests gs)"
  "chan_queue (pw_milestone_responder_worker (fold deliver gs s)) =
     chan_queue (pw_milestone_responder_worker s) @ map (Pair (pw_epid s)) (milestone_requests gs)"
  "invalid_messages_received (pw_metrics (fold deliver gs s)) = invalid_messages_received (pw_metrics s)"
proof (induction gs arbitrary: s)
  case (Cons g gs)
  { case 1 show ?case using Cons by simp
  next case 2 show ?case using Cons
      by (cases g) (simp_all add: deliver_def count_both_def enqueue_def gossip_lists)
  next case 3 show ?case using Cons
      by (cases g) (simp_all add: deliver_def count_both_def enqueue_def gossip_lists)
  next case 4 show ?case using Cons
      by (cases g) (simp_all add: deliver_def count_both_def enqueue_def gossip_lists)
  next case 5 show ?case using Cons
      by (cases g) (simp_all add: deliver_def count_both_def milestone_request_received_inc_def
          transaction_broadcast_received_inc_def transaction_request_received_inc_def heartbeat_received_inc_def) }
qed (simp_all add: gossip_lists)

text \<open>
  C1. End-to-end delivery: when a peer sends a list of well-formed messages, encoded one after the
  other, and the network delivers these bytes in any chunks, the worker puts every message into the
  channel of its type exactly once and in order, counts none as invalid, and ends between two
  messages with an empty buffer.
\<close>

theorem gossip_delivered:
  assumes "list_all gossip_ok gs" "channels_open s"
    and "concat chunks = concat (map (\<lambda>g. the (gossip_bytes g)) gs)"
  shows "list_all (\<lambda>g. gossip_bytes g \<noteq> None) gs
    \<and> (\<exists>s'. peer_worker_loop s read_context_new chunks = Some (s', read_context_new)
        \<and> chan_queue (pw_transaction_worker s') =
            chan_queue (pw_transaction_worker s) @ map (Pair (pw_epid s)) (broadcasts gs)
        \<and> chan_queue (pw_transaction_responder_worker s') =
            chan_queue (pw_transaction_responder_worker s) @ map (Pair (pw_epid s)) (transaction_requests gs)
        \<and> chan_queue (pw_milestone_responder_worker s') =
            chan_queue (pw_milestone_responder_worker s) @ map (Pair (pw_epid s)) (milestone_requests gs)
        \<and> invalid_messages_received (pw_metrics s') = invalid_messages_received (pw_metrics s))"
proof
  show "list_all (\<lambda>g. gossip_bytes g \<noteq> None) gs"
    using assms(1) gossip_bytes_total by (fastforce simp: list_all_iff)
  have "peer_worker_loop s read_context_new chunks = Some (fold deliver gs s, read_context_new)"
    using consume_gossips [OF assms(1,2)] unfolding peer_worker_loop_new assms(3)
    by (simp add: message_handler_consume read_context_new_def)
  then show "\<exists>s'. peer_worker_loop s read_context_new chunks = Some (s', read_context_new)
        \<and> chan_queue (pw_transaction_worker s') =
            chan_queue (pw_transaction_worker s) @ map (Pair (pw_epid s)) (broadcasts gs)
        \<and> chan_queue (pw_transaction_responder_worker s') =
            chan_queue (pw_transaction_responder_worker s) @ map (Pair (pw_epid s)) (transaction_requests gs)
        \<and> chan_queue (pw_milestone_responder_worker s') =
            chan_queue (pw_milestone_responder_worker s) @ map (Pair (pw_epid s)) (milestone_requests gs)
        \<and> invalid_messages_received (pw_metrics s') = invalid_messages_received (pw_metrics s)"
    using fold_deliver [of gs s] by (intro exI [of _ "fold deliver gs s"] conjI)
qed

text \<open>A worker with open and empty channels.\<close>

definition example_channels :: protocol_channels where
  "example_channels = \<lparr>pc_transaction_worker = \<lparr>chan_open = True, chan_queue = []\<rparr>,
     pc_transaction_responder_worker = \<lparr>chan_open = True, chan_queue = []\<rparr>,
     pc_milestone_responder_worker = \<lparr>chan_open = True, chan_queue = []\<rparr>\<rparr>"

definition example_gossip :: "gossip list" where
  "example_gossip = [Milestone_Request \<lparr>mr_index = 5\<rparr>,
     Heart_Beat \<lparr>solid_milestone_index = 2, snapshot_milestone_index = 1\<rparr>, Milestone_Request \<lparr>mr_index = 6\<rparr>]"

lemma example_gossip_bytes:
  "concat (map (\<lambda>g. the (gossip_bytes g)) example_gossip) =
   [3, 0, 4, 0, 0, 0, 5] @ [6, 0, 8, 0, 0, 0, 2, 0, 0, 0, 1] @ [3, 0, 4, 0, 0, 0, 6]"
  by code_simp

theorem gossip_delivered_witness:
  "\<exists>s'. peer_worker_loop (peer_worker_new 9 metrics_new example_channels) read_context_new
      [[3, 0], [4, 0, 0, 0, 5, 6, 0, 8, 0], [0, 0, 2, 0, 0, 0, 1, 3, 0, 4, 0, 0], [], [0, 6]] =
      Some (s', read_context_new)
    \<and> chan_queue (pw_milestone_responder_worker s') = [(9, \<lparr>mr_index = 5\<rparr>), (9, \<lparr>mr_index = 6\<rparr>)]"
proof -
  have "list_all gossip_ok example_gossip"
    by (simp add: example_gossip_def gossip_ok_def)
  moreover have "channels_open (peer_worker_new 9 metrics_new example_channels)"
    by (simp add: channels_open_def peer_worker_new_def example_channels_def)
  moreover have "concat [[3, 0], [4, 0, 0, 0, 5, 6, 0, 8, 0], [0, 0, 2, 0, 0, 0, 1, 3, 0, 4, 0, 0], [], [0, 6]] =
      concat (map (\<lambda>g. the (gossip_bytes g)) example_gossip)"
    unfolding example_gossip_bytes by simp
  ultimately have "\<exists>s'. peer_worker_loop (peer_worker_new 9 metrics_new example_channels) read_context_new
      [[3, 0], [4, 0, 0, 0, 5, 6, 0, 8, 0], [0, 0, 2, 0, 0, 0, 1, 3, 0, 4, 0, 0], [], [0, 6]] =
      Some (s', read_context_new)
    \<and> chan_queue (pw_milestone_responder_worker s') =
        chan_queue (pw_milestone_responder_worker (peer_worker_new 9 metrics_new example_channels))
        @ map (Pair (pw_epid (peer_worker_new 9 metrics_new example_channels))) (milestone_requests example_gossip)"
    using gossip_delivered by blast
  moreover have "chan_queue (pw_milestone_responder_worker (peer_worker_new 9 metrics_new example_channels))
        @ map (Pair (pw_epid (peer_worker_new 9 metrics_new example_channels))) (milestone_requests example_gossip) =
      [(9, \<lparr>mr_index = 5\<rparr>), (9, \<lparr>mr_index = 6\<rparr>)]"
    by (simp add: milestone_requests_def example_gossip_def peer_worker_new_def example_channels_def)
  ultimately show ?thesis
    by (simp only:)
qed

text \<open>
  C26. No sequence of bytes from a peer makes the peer worker panic, whatever state its channels are in.
\<close>

theorem peer_worker_never_panics: "peer_worker_loop s c chunks \<noteq> None"
  using consume_total [of process_message, OF process_message_total]
  by (simp add: peer_worker_loop_concat message_handler_consume)

text \<open>What a worker counts of what it receives.\<close>

definition received_total :: "protocol_metrics \<Rightarrow> u64" where
  "received_total m = invalid_messages_received m + milestone_request_received m
     + transaction_broadcast_received m + transaction_request_received m + heartbeat_received m"

lemma received_total_inc [simp]:
  "received_total (invalid_messages_received_inc m) = received_total m + 1"
  "received_total (milestone_request_received_inc m) = received_total m + 1"
  "received_total (transaction_broadcast_received_inc m) = received_total m + 1"
  "received_total (transaction_request_received_inc m) = received_total m + 1"
  "received_total (heartbeat_received_inc m) = received_total m + 1"
  by (simp_all add: received_total_def invalid_messages_received_inc_def milestone_request_received_inc_def
      transaction_broadcast_received_inc_def transaction_request_received_inc_def heartbeat_received_inc_def)

lemma chan_send_None: "chan_send x c = None \<longleftrightarrow> \<not> chan_open c"
  by (simp add: chan_send_def)

text \<open>
  Every frame is accounted for: processing one, whatever its type and payload, counts it exactly
  once in the metrics of the peer and in those of the protocol. The exception is a message whose
  channel is closed: it changes nothing and is reported as an error.
\<close>

theorem process_message_accounting:
  "case process_message s h bs of
     None \<Rightarrow> False
   | Some (s', Inl _) \<Rightarrow> s' = s \<and> \<not> channels_open s
   | Some (s', Inr _) \<Rightarrow>
       received_total (pw_metrics s') = received_total (pw_metrics s) + 1
       \<and> received_total (pw_protocol_metrics s') = received_total (pw_protocol_metrics s) + 1"
proof -
  obtain a b c d where decoded: "tlv_from_bytes MilestoneRequest h bs = Some a"
    "tlv_from_bytes TransactionBroadcast h bs = Some b"
    "tlv_from_bytes TransactionRequest h bs = Some c" "tlv_from_bytes Heartbeat h bs = Some d"
    using milestone_request.decode_total [of h bs] transaction_broadcast.decode_total [of h bs]
      transaction_request.decode_total [of h bs] heartbeat.decode_total [of h bs] by blast
  show ?thesis
    unfolding process_message_def decoded
    by (cases a; cases b; cases c; cases d)
      (simp_all add: count_both_def channels_open_def chan_send_def)
qed

section \<open>Properties of the handshaker and of the peer manager\<close>

lemma timestamp_diff_eq:
  assumes "unat now < 2 ^ 63"
  shows "timestamp_diff now t = (if now < t then None else Some (int (unat now - unat t)))"
proof (cases "now < t")
  case False
  then have "unat (now - t) = unat now - unat t"
    by (simp add: unat_sub not_less)
  then show ?thesis
    using False assms by (simp add: timestamp_diff_def signed_of_def)
qed (simp add: timestamp_diff_def)

text \<open>The address under which a peer is registered.\<close>

definition handshake_address :: "peer \<Rightarrow> u16 \<Rightarrow> address option" where
  "handshake_address p port' = (case peer_origin p of
     Outbound \<Rightarrow> if addr_port (peer_address p) = port' then Some (peer_address p) else None
   | Inbound \<Rightarrow> Some \<lparr>addr_ip = addr_ip (peer_address p), addr_port = port'\<rparr>
   | Unbound \<Rightarrow> None)"

lemma validate_handshake_iff:
  assumes "unat now < 2 ^ 63" "supported_versions hs \<noteq> []" "length (supported_versions hs) \<le> 32"
  shows "validate_handshake now cfg self hs = Some (self', Inr a) \<longleftrightarrow>
    self' = self
    \<and> timestamp hs \<le> now \<and> unat now \<le> unat (timestamp hs) + 5000
    \<and> coordinator hs = cfg_public_key_bytes cfg
    \<and> minimum_weight_magnitude hs = cfg_mwm cfg
    \<and> bit (hd (supported_versions hs)) 1
    \<and> handshake_address (hs_peer self) (port hs) = Some a
    \<and> a \<notin> snd ` set (pm_handshaked (hs_manager self))"
proof -
  have e: "list_ex (\<lambda>(_, x). x = y) xs \<longleftrightarrow> y \<in> snd ` set xs" for y :: address and xs :: "(endpoint_id \<times> address) list"
    by (force simp: list_ex_iff)
  show ?thesis
    by (cases "peer_origin (hs_peer self)")
      (auto simp: validate_handshake_def timestamp_diff_eq [OF assms(1)] e handshake_address_def
        messages_supported_version_eq [OF assms(2,3)] not_less)
qed

text \<open>
  A handshake is accepted exactly when the clock of the peer is at most five seconds behind, the
  coordinator key and the minimum weight magnitude are the configured ones, the second version is
  supported, the port fits an outbound connection, and no handshaked peer has the resulting address.
\<close>

theorem validate_handshake_accepts:
  assumes "unat now < 2 ^ 63" "supported_versions hs \<noteq> []" "length (supported_versions hs) \<le> 32"
  shows "validate_handshake now cfg self hs = Some (self', Inr a) \<longleftrightarrow>
    self' = self
    \<and> timestamp hs \<le> now \<and> unat now \<le> unat (timestamp hs) + 5000
    \<and> coordinator hs = cfg_public_key_bytes cfg
    \<and> minimum_weight_magnitude hs = cfg_mwm cfg
    \<and> bit (hd (supported_versions hs)) 1
    \<and> handshake_address (hs_peer self) (port hs) = Some a
    \<and> a \<notin> snd ` set (pm_handshaked (hs_manager self))"
  by (rule validate_handshake_iff [OF assms])

text \<open>A configuration, a peer that the manager knows, and a handshake that it accepts.\<close>

definition example_config :: protocol_config where
  "example_config = \<lparr>cfg_public_key_bytes = replicate 49 7, cfg_mwm = 14, tangle_solid_milestone_index = 0,
     tangle_snapshot_milestone_index = 0\<rparr>"

definition example_peer :: peer where
  "example_peer = \<lparr>peer_epid = 9, peer_address = \<lparr>addr_ip = 1, addr_port = 15600\<rparr>, peer_origin = Outbound\<rparr>"

definition example_handshake :: handshake where
  "example_handshake = \<lparr>port = 15600, timestamp = 1000, coordinator = replicate 49 7,
     minimum_weight_magnitude = 14, supported_versions = [2]\<rparr>"

definition example_handshaker :: handshaker where
  "example_handshaker = handshaker_new example_peer (pm_add pm_new example_peer) metrics_new"

lemmas example_defs = example_config_def example_peer_def example_handshake_def example_handshaker_def
  handshaker_new_def pm_add_def pm_new_def

theorem validate_handshake_accepts_witness:
  "validate_handshake 1200 example_config example_handshaker example_handshake =
     Some (example_handshaker, Inr \<lparr>addr_ip = 1, addr_port = 15600\<rparr>)"
  using validate_handshake_accepts [of 1200 example_handshake example_config example_handshaker
      example_handshaker "\<lparr>addr_ip = 1, addr_port = 15600\<rparr>"]
  by (simp add: example_defs handshake_address_def)

lemma handshake_sendable:
  assumes "length (coordinator hs) = 49" "1 \<le> length (supported_versions hs)" "length (supported_versions hs) \<le> 32"
  shows "handshake.sendable hs" "\<exists>bs. tlv_into_bytes Handshake hs = Some bs"
proof -
  show "handshake.sendable hs"
    using assms unfolding handshake.sendable_def
    by (simp add: handshake_valid_def COORDINATOR_SIZE_def Handshake_def range_contains_def
        handshake_size_def handshake_CONSTANT_SIZE_def)
  then show "\<exists>bs. tlv_into_bytes Handshake hs = Some bs"
    using handshake.tlv_roundtrip by blast
qed

lemma handshaker_loop_first:
  "handshaker_loop cfg s read_context_new ((now, bs) # events) =
   (case consume (hs_process_message now cfg) s ReadHeader bs of
      None \<Rightarrow> None
    | Some (s, st, rest) \<Rightarrow>
        (case hs_status s of
           Awaiting \<Rightarrow> handshaker_loop cfg s \<lparr>read_state = st, read_buffer = rest\<rparr> events
         | _ \<Rightarrow> Some (s, \<lparr>read_state = st, read_buffer = rest\<rparr>, events)))"
  by (cases "consume (hs_process_message now cfg) s ReadHeader bs")
    (auto simp: message_handler_consume read_context_new_def)

text \<open>
  A peer whose clock is ahead makes the handshaker panic: a well-formed handshake with a
  timestamp in the future is not answered with the error for an invalid timestamp difference, the
  subtraction of the two \<open>u64\<close> overflows.
\<close>

theorem handshake_clock_ahead_panics:
  assumes "length (coordinator hs) = 49" "1 \<le> length (supported_versions hs)" "length (supported_versions hs) \<le> 32"
    and "now < timestamp hs"
  shows "\<exists>bs. tlv_into_bytes Handshake hs = Some bs
    \<and> handshaker_loop cfg self read_context_new ((now, bs @ rest) # events) = None"
proof -
  obtain bs where bs: "tlv_into_bytes Handshake hs = Some bs"
    using handshake_sendable(2) [OF assms(1-3)] by blast
  have "consume (hs_process_message now cfg) self ReadHeader (bs @ rest) = None"
    using handshake.consume_encoded [OF handshake_sendable(1) [OF assms(1-3)] bs,
        of "hs_process_message now cfg" self None rest] assms(4)
    by (simp add: hs_process_message_def validate_handshake_def timestamp_diff_def)
  then show ?thesis
    using bs by (simp only: handshaker_loop_first) simp
qed

theorem handshake_clock_ahead_panics_witness:
  "\<exists>bs. tlv_into_bytes Handshake
      \<lparr>port = 15600, timestamp = 1001, coordinator = replicate 49 7, minimum_weight_magnitude = 14,
       supported_versions = [2]\<rparr> = Some bs
    \<and> handshaker_loop
        \<lparr>cfg_public_key_bytes = replicate 49 7, cfg_mwm = 14, tangle_solid_milestone_index = 0,
         tangle_snapshot_milestone_index = 0\<rparr>
        (handshaker_new \<lparr>peer_epid = 9, peer_address = \<lparr>addr_ip = 1, addr_port = 15600\<rparr>, peer_origin = Outbound\<rparr>
          pm_new metrics_new) read_context_new [(1000, bs)] = None"
  using handshake_clock_ahead_panics [of "\<lparr>port = 15600, timestamp = 1001, coordinator = replicate 49 7,
      minimum_weight_magnitude = 14, supported_versions = [2]\<rparr>" 1000 _ _ "[]" "[]"] by simp

lemma validate_handshake_actions:
  "validate_handshake now cfg self hs = Some (self', Inr a) \<Longrightarrow>
   validate_handshake now cfg (self\<lparr>hs_actions := as\<rparr>) hs = Some (self\<lparr>hs_actions := as\<rparr>, Inr a)"
  by (cases "peer_origin (hs_peer self)")
    (auto simp: validate_handshake_def bind_eq_Some_conv split: if_splits sum.splits)

lemma validate_handshake_key:
  "validate_handshake now cfg self hs = Some (self', Inr a) \<Longrightarrow> coordinator hs = cfg_public_key_bytes cfg"
  by (auto simp: validate_handshake_def bind_eq_Some_conv split: if_splits)

lemma map_of_AList_update [simp]: "map_of (AList.update k v xs) = (map_of xs)(k \<mapsto> v)"
  by (rule AList.update_conv')

lemma map_of_AList_delete [simp]: "map_of (AList.delete k xs) = (map_of xs)(k := None)"
  by (rule AList.delete_conv')

text \<open>The state of the handshaker after it has accepted a handshake.\<close>

definition handshaked :: "protocol_config \<Rightarrow> address \<Rightarrow> handshaker \<Rightarrow> handshaker" where
  "handshaked cfg a self =
     self\<lparr>hs_manager := pm_handshake (hs_manager self) (peer_epid (hs_peer self)) a,
       hs_actions := hs_actions self @
         [SendHeartbeat (peer_epid (hs_peer self)) (tangle_solid_milestone_index cfg) (tangle_snapshot_milestone_index cfg),
          RequestMilestone 0 (Some (peer_epid (hs_peer self))), TriggerMilestoneSolidification],
       hs_status := Done\<rparr>"

lemma consume_handshake:
  assumes "handshake.sendable hs" "tlv_into_bytes Handshake hs = Some bs"
    and "validate_handshake now cfg self hs = Some (self', Inr a)"
  shows "consume (hs_process_message now cfg) (self\<lparr>hs_actions := as\<rparr>) ReadHeader (bs @ rest) =
    consume (hs_process_message now cfg) (handshaked cfg a (self\<lparr>hs_actions := as\<rparr>)) ReadHeader rest"
  using handshake.consume_encoded [OF assms(1,2), of "hs_process_message now cfg" "self\<lparr>hs_actions := as\<rparr>"
      "Some (handshaked cfg a (self\<lparr>hs_actions := as\<rparr>), ())" rest]
    validate_handshake_actions [OF assms(3), of as]
  by (simp add: hs_process_message_def handshaked_def)

lemma consume_broadcast_as_handshaker:
  assumes "transaction_broadcast.sendable m" "tlv_into_bytes TransactionBroadcast m = Some bs"
  shows "consume (hs_process_message now cfg) self ReadHeader (bs @ rest) =
    consume (hs_process_message now cfg)
      (self\<lparr>hs_metrics := invalid_messages_received_inc (hs_metrics self)\<rparr>) ReadHeader rest"
  using transaction_broadcast.consume_encoded [OF assms, of "hs_process_message now cfg" self
      "Some (self\<lparr>hs_metrics := invalid_messages_received_inc (hs_metrics self)\<rparr>, ())" rest]
  by (simp add: hs_process_message_def)

lemma own_handshake:
  assumes "length (cfg_public_key_bytes cfg) = 49"
  shows "\<exists>own bs. handshake_new t0 1337 (cfg_public_key_bytes cfg) (cfg_mwm cfg) MESSAGES_VERSIONS = Some own
    \<and> tlv_into_bytes Handshake own = Some bs"
proof -
  have "handshake_new t0 1337 (cfg_public_key_bytes cfg) (cfg_mwm cfg) MESSAGES_VERSIONS =
    Some \<lparr>port = 1337, timestamp = t0, coordinator = cfg_public_key_bytes cfg,
       minimum_weight_magnitude = cfg_mwm cfg, supported_versions = MESSAGES_VERSIONS\<rparr>"
    using assms by (simp add: handshake_new_def COORDINATOR_SIZE_def)
  then show ?thesis
    using handshake_sendable(2) assms by (simp add: MESSAGES_VERSIONS_def)
qed

text \<open>A run whose first chunk completes the handshake is a run of the peer worker on the later chunks.\<close>

lemma handshaker_run_done:
  assumes "length (cfg_public_key_bytes cfg) = 49"
    and "\<And>as. \<exists>as' st rest. consume (hs_process_message now cfg) (self\<lparr>hs_actions := as\<rparr>) ReadHeader bs =
      Some (self'\<lparr>hs_actions := as'\<rparr>, st, rest)"
    and "hs_status self' = Done"
    and "map_of (pm_handshaked (hs_manager self')) (peer_epid (hs_peer self')) \<noteq> None"
  shows "map_option snd (handshaker_run t0 cfg self chans ((now, bs) # events)) =
    map_option (\<lambda>(w, _). Some w)
      (peer_worker_loop (peer_worker_new (peer_epid (hs_peer self')) (hs_metrics self') chans)
         read_context_new (map snd events))"
proof -
  obtain own out where own: "handshake_new t0 1337 (cfg_public_key_bytes cfg) (cfg_mwm cfg) MESSAGES_VERSIONS = Some own"
    "tlv_into_bytes Handshake own = Some out"
    using own_handshake [OF assms(1)] by blast
  let ?as = "hs_actions self @ [SendMessage (peer_epid (hs_peer self)) out]"
  obtain as' st rest where c: "consume (hs_process_message now cfg) (self\<lparr>hs_actions := ?as\<rparr>) ReadHeader bs =
      Some (self'\<lparr>hs_actions := as'\<rparr>, st, rest)"
    using assms(2) by blast
  have "handshaker_loop cfg (self\<lparr>hs_actions := ?as\<rparr>) read_context_new ((now, bs) # events) =
      Some (self'\<lparr>hs_actions := as'\<rparr>, \<lparr>read_state = st, read_buffer = rest\<rparr>, events)"
    using assms(3) by (simp only: handshaker_loop_first c) simp
  then show ?thesis
    using own assms(3,4)
    by (cases "peer_worker_loop (peer_worker_new (peer_epid (hs_peer self')) (hs_metrics self') chans)
         read_context_new (map snd events)")
      (auto simp: handshaker_run_def peer_worker_run_def simp del: handshaker_loop.simps)
qed

text \<open>
  The hand-over from the handshaker to the peer worker depends on how the network cuts the
  stream. When a broadcast arrives in a chunk of its own after the handshake, it reaches the
  transaction worker; when it arrives in the same chunk as the handshake, it is counted as an invalid
  message and never delivered.
\<close>

theorem handover_drops_messages:
  assumes "length (cfg_public_key_bytes cfg) = 49"
    and "1 \<le> length (supported_versions hs)" "length (supported_versions hs) \<le> 32"
    and "validate_handshake now cfg self hs = Some (self, Inr a)"
    and "map_of (pm_peers (hs_manager self)) (peer_epid (hs_peer self)) \<noteq> None"
    and "292 \<le> length (tb_transaction m)" "length (tb_transaction m) \<le> 1604"
    and "chan_open (pc_transaction_worker chans)"
  shows "\<exists>bs x. tlv_into_bytes Handshake hs = Some bs \<and> tlv_into_bytes TransactionBroadcast m = Some x
    \<and> (\<exists>s w. handshaker_run t0 cfg self chans [(now, bs), (t1, x)] = Some (s, Some w)
         \<and> chan_queue (pw_transaction_worker w) =
             chan_queue (pc_transaction_worker chans) @ [(peer_epid (hs_peer self), m)])
    \<and> (\<exists>s w. handshaker_run t0 cfg self chans [(now, bs @ x)] = Some (s, Some w)
         \<and> chan_queue (pw_transaction_worker w) = chan_queue (pc_transaction_worker chans)
         \<and> invalid_messages_received (pw_protocol_metrics w) = invalid_messages_received (hs_metrics self) + 1)"
proof -
  let ?e = "peer_epid (hs_peer self)"
  have key: "coordinator hs = cfg_public_key_bytes cfg"
    by (rule validate_handshake_key [OF assms(4)])
  have sh: "handshake.sendable hs"
    using handshake_sendable(1) assms(1-3) key by simp
  obtain bs where bs: "tlv_into_bytes Handshake hs = Some bs"
    using handshake_sendable(2) [of hs] assms(1-3) key by auto
  have sb: "transaction_broadcast.sendable m"
    using gossip_sendable(3) [of m] assms(6,7) by (simp add: gossip_ok_def)
  obtain x where x: "tlv_into_bytes TransactionBroadcast m = Some x"
    using transaction_broadcast.tlv_roundtrip [OF sb] by blast
  let ?fin = "handshaked cfg a self"
  have fin: "hs_status ?fin = Done" "map_of (pm_handshaked (hs_manager ?fin)) (peer_epid (hs_peer ?fin)) \<noteq> None"
    using assms(5) by (auto simp: handshaked_def pm_handshake_def)
  have acc: "handshaked cfg a (self\<lparr>hs_actions := as\<rparr>) = ?fin\<lparr>hs_actions := hs_actions (handshaked cfg a (self\<lparr>hs_actions := as\<rparr>))\<rparr>" for as
    by (simp add: handshaked_def)
  have c1: "\<exists>as' st rest. consume (hs_process_message now cfg) (self\<lparr>hs_actions := as\<rparr>) ReadHeader bs =
      Some (?fin\<lparr>hs_actions := as'\<rparr>, st, rest)" for as
    using consume_handshake [OF sh bs assms(4), of as "[]"] acc [of as] by auto
  let ?inv = "?fin\<lparr>hs_metrics := invalid_messages_received_inc (hs_metrics self)\<rparr>"
  have c2: "\<exists>as' st rest. consume (hs_process_message now cfg) (self\<lparr>hs_actions := as\<rparr>) ReadHeader (bs @ x) =
      Some (?inv\<lparr>hs_actions := as'\<rparr>, st, rest)" for as
    using consume_handshake [OF sh bs assms(4), of as x] acc [of as]
      consume_broadcast_as_handshaker [OF sb x, of now cfg "handshaked cfg a (self\<lparr>hs_actions := as\<rparr>)" "[]"]
    by (intro exI [of _ "hs_actions (handshaked cfg a (self\<lparr>hs_actions := as\<rparr>))"] exI) (simp add: handshaked_def)
  let ?w = "peer_worker_new ?e (hs_metrics self) chans"
  have "consume process_message ?w ReadHeader (x @ []) =
      Some (deliver (Transaction_Broadcast m) ?w, ReadHeader, [])"
    using transaction_broadcast.consume_encoded [OF sb x, of process_message ?w
        "Some (deliver (Transaction_Broadcast m) ?w, Inr ())" "[]"] assms(8)
    by (simp add: process_message_def deliver_def chan_send_open peer_worker_new_def)
  then have "peer_worker_loop ?w read_context_new [x] = Some (deliver (Transaction_Broadcast m) ?w, read_context_new)"
    unfolding peer_worker_loop_new by (simp add: message_handler_consume read_context_new_def)
  then have "map_option snd (handshaker_run t0 cfg self chans [(now, bs), (t1, x)]) =
      Some (Some (deliver (Transaction_Broadcast m) ?w))"
    using handshaker_run_done [OF assms(1) c1 fin, of t0 chans "[(t1, x)]"] by (simp add: handshaked_def)
  moreover have "map_option snd (handshaker_run t0 cfg self chans [(now, bs @ x)]) =
      Some (Some (peer_worker_new ?e (invalid_messages_received_inc (hs_metrics self)) chans))"
    using handshaker_run_done [OF assms(1) c2, of t0 chans "[]"] fin by (simp add: handshaked_def)
  ultimately show ?thesis
    using bs x
    by (auto simp: deliver_def count_both_def enqueue_def peer_worker_new_def invalid_messages_received_inc_def)
qed

lemma example_handshake_accepted:
  "validate_handshake 1200 example_config example_handshaker example_handshake =
     Some (example_handshaker, Inr \<lparr>addr_ip = 1, addr_port = 15600\<rparr>)"
  by (subst validate_handshake_iff) (simp_all add: example_defs handshake_address_def)

theorem handover_drops_messages_witness:
  "\<exists>bs x. tlv_into_bytes Handshake example_handshake = Some bs
    \<and> tlv_into_bytes TransactionBroadcast \<lparr>tb_transaction = replicate 292 1\<rparr> = Some x
    \<and> (\<exists>s w. handshaker_run 900 example_config example_handshaker example_channels [(1200, bs @ x)] = Some (s, Some w)
         \<and> chan_queue (pw_transaction_worker w) = [])"
proof -
  have "length (cfg_public_key_bytes example_config) = 49" "length (supported_versions example_handshake) = 1"
    "map_of (pm_peers (hs_manager example_handshaker)) (peer_epid (hs_peer example_handshaker)) \<noteq> None"
    "chan_open (pc_transaction_worker example_channels)" "chan_queue (pc_transaction_worker example_channels) = []"
    by (simp_all add: example_defs example_channels_def)
  then show ?thesis
    using handover_drops_messages [OF _ _ _ example_handshake_accepted, of "\<lparr>tb_transaction = replicate 292 1\<rparr>"
        example_channels 900 0] by auto
qed

text \<open>
  The peer manager: handshaking a known peer moves it from the first map to the second and starts
  its four senders; an unknown one changes nothing. Removing a peer takes it out of both maps. Of the
  four senders of a peer that was handshaked and removed only the one for milestone requests is told
  to stop.
\<close>

theorem peer_manager_lifecycle:
  "map_of (pm_peers (pm_add m p)) = (map_of (pm_peers m))(peer_epid p \<mapsto> p)
   \<and> (if map_of (pm_peers m) e = None then pm_handshake m e a = m
      else map_of (pm_peers (pm_handshake m e a)) = (map_of (pm_peers m))(e := None)
        \<and> map_of (pm_handshaked (pm_handshake m e a)) = (map_of (pm_handshaked m))(e \<mapsto> a)
        \<and> pm_senders (pm_remove (pm_handshake m e a) e) = pm_senders m @
            [Spawned e MilestoneRequestSender, Spawned e TransactionBroadcastSender,
             Spawned e TransactionRequestSender, Spawned e HeartbeatSender, ShutDown e MilestoneRequestSender])
   \<and> map_of (pm_peers (pm_remove m e)) = (map_of (pm_peers m))(e := None)
   \<and> map_of (pm_handshaked (pm_remove m e)) = (map_of (pm_handshaked m))(e := None)"
proof (intro conjI)
  show "map_of (pm_handshaked (pm_remove m e)) = (map_of (pm_handshaked m))(e := None)"
    by (cases "map_of (pm_handshaked m) e") (auto simp: pm_remove_def)
  show "map_of (pm_peers (pm_remove m e)) = (map_of (pm_peers m))(e := None)"
    by (cases "map_of (pm_handshaked m) e") (auto simp: pm_remove_def)
qed (auto simp: pm_add_def pm_handshake_def pm_remove_def)

end
