(* ===== verification/Protocol_Workers.thy ===== *)
theory Protocol_Workers
  imports Wire_Trits Milestones Peer_Worker
begin

text \<open>
  The workers of the protocol around the tangle (src/bee-protocol/src/worker and src/bee-protocol/src/protocol):
  the request queues, the senders of messages to peers, the broadcaster, the requesters, the responders and
  the solidifiers. They share one state, the fields of \<open>Protocol\<close> that they use and the tangle. Each worker
  is the function of one event of its \<open>run\<close> loop.

  A channel whose receiver is gone refuses a message; the workers only log that. The random choice of a
  peer by the requesters (crate \<open>rand\<close>) is an argument of the request.
\<close>

section \<open>The priority queue of the requesters (util/wait_priority_queue.rs)\<close>

text \<open>
  A \<open>BinaryHeap\<close> as the list of its entries, ordered by a key: \<open>pop\<close> takes an entry with the largest key.
  The wakers of waiting tasks carry no data and are left out.
\<close>

definition queue_is_empty :: "'a list \<Rightarrow> bool" where
  "queue_is_empty q \<longleftrightarrow> q = []"

definition queue_insert_entry :: "'a list \<Rightarrow> 'a \<Rightarrow> 'a list" where
  "queue_insert_entry q entry = q @ [entry]"

fun queue_pop :: "('a \<Rightarrow> 'k::linorder) \<Rightarrow> 'a list \<Rightarrow> ('a \<times> 'a list) option" where
  "queue_pop key [] = None"
| "queue_pop key (x # q) =
     (case queue_pop key q of
        None \<Rightarrow> Some (x, [])
      | Some (y, rest) \<Rightarrow> if key y \<le> key x then Some (x, q) else Some (y, x # rest))"

section \<open>The shared state\<close>

record worker_config =
  wc_mwm :: u8
  wc_public_key :: Transactions.address
  wc_null_address :: Transactions.address
  wc_coordinator :: coordinator_config

datatype sender_message =
    MilestoneRequestMessage milestone_request
  | TransactionBroadcastMessage transaction_broadcast
  | TransactionRequestMessage transaction_request
  | HeartbeatMessage heartbeat

text \<open>What has been given to the senders of the peers is kept in the order it was given.\<close>

record protocol =
  pr_tangle :: tangle
  pr_handshaked :: "(endpoint_id \<times> Peer_Worker.address) list"
  pr_requested :: "(hash, milestone_index) fmap"
  pr_transaction_requester :: "(hash \<times> milestone_index) list"
  pr_milestone_requester :: "(milestone_index \<times> endpoint_id option) list"
  pr_milestone_validator :: "hash chan"
  pr_transaction_solidifier :: "(hash \<times> milestone_index) chan"
  pr_milestone_solidifier :: "unit chan"
  pr_broadcaster :: "(endpoint_id option \<times> transaction_broadcast) chan"
  pr_sent :: "(endpoint_id \<times> sender_message) list"

definition send_or_log :: "'a \<Rightarrow> 'a chan \<Rightarrow> 'a chan" where
  "send_or_log x c = (case chan_send x c of Some c' \<Rightarrow> c' | None \<Rightarrow> c)"

section \<open>Helpers (protocol/helpers.rs)\<close>

text \<open>\<open>SenderWorker::send\<close> (worker/sender.rs): only to a peer that has completed its handshake.\<close>

definition sender_send :: "protocol \<Rightarrow> endpoint_id \<Rightarrow> sender_message \<Rightarrow> protocol" where
  "sender_send P epid m =
     (if map_of (pr_handshaked P) epid \<noteq> None then P\<lparr>pr_sent := pr_sent P @ [(epid, m)]\<rparr> else P)"

definition request_milestone :: "protocol \<Rightarrow> milestone_index \<Rightarrow> endpoint_id option \<Rightarrow> protocol" where
  "request_milestone P index to = P\<lparr>pr_milestone_requester := queue_insert_entry (pr_milestone_requester P) (index, to)\<rparr>"

definition request_last_milestone :: "protocol \<Rightarrow> endpoint_id option \<Rightarrow> protocol" where
  "request_last_milestone P to = request_milestone P 0 to"

definition milestone_requester_is_empty :: "protocol \<Rightarrow> bool" where
  "milestone_requester_is_empty P = queue_is_empty (pr_milestone_requester P)"

definition send_transaction :: "protocol \<Rightarrow> endpoint_id \<Rightarrow> bytes \<Rightarrow> protocol" where
  "send_transaction P to tx = sender_send P to (TransactionBroadcastMessage \<lparr>tb_transaction = tx\<rparr>)"

definition broadcast_transaction_message :: "protocol \<Rightarrow> endpoint_id option \<Rightarrow> transaction_broadcast \<Rightarrow> protocol" where
  "broadcast_transaction_message P from' tb = P\<lparr>pr_broadcaster := send_or_log (from', tb) (pr_broadcaster P)\<rparr>"

definition broadcast_transaction :: "protocol \<Rightarrow> endpoint_id option \<Rightarrow> bytes \<Rightarrow> protocol" where
  "broadcast_transaction P from' tx = broadcast_transaction_message P from' \<lparr>tb_transaction = tx\<rparr>"

definition request_transaction :: "protocol \<Rightarrow> hash \<Rightarrow> milestone_index \<Rightarrow> protocol" where
  "request_transaction P h index = P\<lparr>pr_transaction_requester := queue_insert_entry (pr_transaction_requester P) (h, index)\<rparr>"

definition transaction_requester_is_empty :: "protocol \<Rightarrow> bool" where
  "transaction_requester_is_empty P = queue_is_empty (pr_transaction_requester P)"

definition send_heartbeat :: "protocol \<Rightarrow> endpoint_id \<Rightarrow> milestone_index \<Rightarrow> milestone_index \<Rightarrow> protocol" where
  "send_heartbeat P to solid_index snapshot =
     sender_send P to (HeartbeatMessage (heartbeat.make solid_index snapshot))"

definition broadcast_heartbeat :: "protocol \<Rightarrow> milestone_index \<Rightarrow> milestone_index \<Rightarrow> protocol" where
  "broadcast_heartbeat P solid_index snapshot =
     fold (\<lambda>(epid, _) P. send_heartbeat P epid solid_index snapshot) (pr_handshaked P) P"

definition trigger_transaction_solidification :: "protocol \<Rightarrow> hash \<Rightarrow> milestone_index \<Rightarrow> protocol" where
  "trigger_transaction_solidification P h index =
     P\<lparr>pr_transaction_solidifier := send_or_log (h, index) (pr_transaction_solidifier P)\<rparr>"

definition trigger_milestone_solidification :: "protocol \<Rightarrow> protocol" where
  "trigger_milestone_solidification P =
     P\<lparr>pr_milestone_solidifier := send_or_log () (pr_milestone_solidifier P)\<rparr>"

section \<open>Senders and the broadcaster (worker/sender.rs, worker/broadcaster.rs)\<close>

text \<open>
  The network is the channel of its commands; here only \<open>SendMessage\<close> with the peer and the bytes. One
  sender worker exists per peer and message type; it writes the message and counts it in the peer's and in
  the protocol's metrics.
\<close>

type_synonym network = "(endpoint_id \<times> bytes) chan"

definition sender_step ::
  "'m message_impl \<Rightarrow> (protocol_metrics \<Rightarrow> protocol_metrics) \<Rightarrow> endpoint_id
    \<Rightarrow> network \<times> protocol_metrics \<times> protocol_metrics \<Rightarrow> 'm \<Rightarrow> (network \<times> protocol_metrics \<times> protocol_metrics) option" where
  "sender_step I inc epid st m = (case st of (network, peer_metrics, metrics) \<Rightarrow> do {
     bs \<leftarrow> tlv_into_bytes I m;
     Some (case chan_send (epid, bs) network of
       Some network \<Rightarrow> (network, inc peer_metrics, inc metrics)
     | None \<Rightarrow> st) })"

definition broadcast :: "(endpoint_id \<times> Peer_Worker.address) list \<Rightarrow> network \<Rightarrow> endpoint_id option \<Rightarrow> bytes \<Rightarrow> network" where
  "broadcast peers network from' bs =
     fold (\<lambda>(epid, _) network.
       if (case from' of Some from' \<Rightarrow> from' \<noteq> epid | None \<Rightarrow> True) then send_or_log (epid, bs) network else network)
       peers network"

definition broadcaster_step ::
  "protocol \<Rightarrow> network \<Rightarrow> endpoint_id option \<times> transaction_broadcast \<Rightarrow> network option" where
  "broadcaster_step P network event = (case event of (from', tb) \<Rightarrow> do {
     bs \<leftarrow> tlv_into_bytes TransactionBroadcast tb;
     Some (broadcast (pr_handshaked P) network from' bs) })"

section \<open>Requesters (worker/requester)\<close>

text \<open>
  The entries are ordered by the milestone index. A peer is chosen with \<open>gen_range(0, len)\<close>; the number
  drawn is the argument \<open>rnd\<close>, below the number of peers.
\<close>

definition process_transaction_request :: "nat \<Rightarrow> protocol \<Rightarrow> hash \<Rightarrow> milestone_index \<Rightarrow> protocol option" where
  "process_transaction_request rnd P h index =
     (if pr_handshaked P = [] then Some P
      else
        (let P = P\<lparr>pr_requested := fmupd h index (pr_requested P)\<rparr>
         in if rnd < length (pr_handshaked P)
            then do {
              trits \<leftarrow> hash_as_trits h;
              bs \<leftarrow> t5b1_bytes trits;
              request \<leftarrow> transaction_request_new bs;
              Some (sender_send P (fst (pr_handshaked P ! rnd)) (TransactionRequestMessage request)) }
            else Some P))"

text \<open>One turn of the \<open>run\<close> loop; with an empty queue it waits.\<close>

definition transaction_requester_step :: "nat \<Rightarrow> protocol \<Rightarrow> protocol option" where
  "transaction_requester_step rnd P =
     (case queue_pop snd (pr_transaction_requester P) of
        None \<Rightarrow> Some P
      | Some ((h, index), rest) \<Rightarrow>
          (let P = P\<lparr>pr_transaction_requester := rest\<rparr>
           in if \<not> is_solid_entry_point (pr_tangle P) h \<and> \<not> contains_transaction (pr_tangle P) h
              then process_transaction_request rnd P h index else Some P))"

definition process_milestone_request :: "nat \<Rightarrow> protocol \<Rightarrow> milestone_index \<Rightarrow> endpoint_id option \<Rightarrow> protocol" where
  "process_milestone_request rnd P index epid =
     (if pr_handshaked P = [] then P
      else
        (case (case epid of
                 Some epid \<Rightarrow> Some epid
               | None \<Rightarrow> if rnd < length (pr_handshaked P) then Some (fst (pr_handshaked P ! rnd)) else None) of
           None \<Rightarrow> P
         | Some epid \<Rightarrow> sender_send P epid (MilestoneRequestMessage \<lparr>mr_index = index\<rparr>)))"

definition milestone_requester_step :: "nat \<Rightarrow> protocol \<Rightarrow> protocol" where
  "milestone_requester_step rnd P =
     (case queue_pop fst (pr_milestone_requester P) of
        None \<Rightarrow> P
      | Some ((index, epid), rest) \<Rightarrow>
          (let P = P\<lparr>pr_milestone_requester := rest\<rparr>
           in if \<not> contains_milestone (pr_tangle P) index then process_milestone_request rnd P index epid else P))"

section \<open>Responders (worker/responder)\<close>

text \<open>The compressed T5B1 bytes of a transaction, as a broadcast message.\<close>

definition transaction_message :: "transaction \<Rightarrow> transaction_broadcast option" where
  "transaction_message tx = do {
     trits \<leftarrow> trit_buf_zeros t1b1_buf Zero TRANSACTION_TRIT_LEN;
     trits \<leftarrow> into_trits_allocated tx trits;
     bs \<leftarrow> t5b1_bytes trits;
     compressed \<leftarrow> compress_transaction_bytes bs;
     Some \<lparr>tb_transaction = compressed\<rparr> }"

definition transaction_responder_step :: "protocol \<Rightarrow> endpoint_id \<Rightarrow> transaction_request \<Rightarrow> protocol option" where
  "transaction_responder_step P epid request = do {
     r \<leftarrow> raw_try_from_raw t5b1 (cast_i8 (tr_hash request)) HASH_TRIT_LEN;
     (case r of
        Inl _ \<Rightarrow> Some P
      | Inr s \<Rightarrow> do {
          trits \<leftarrow> slice_to_buf t1b1_buf (cast_i8 (tr_hash request)) s;
          h \<leftarrow> hash_from_inner_unchecked trits;
          (case get_transaction (pr_tangle P) h of
             None \<Rightarrow> Some P
           | Some tx \<Rightarrow> do {
               m \<leftarrow> transaction_message tx;
               Some (sender_send P epid (TransactionBroadcastMessage m)) }) }) }"

definition milestone_responder_step :: "protocol \<Rightarrow> endpoint_id \<Rightarrow> milestone_request \<Rightarrow> protocol option" where
  "milestone_responder_step P epid request =
     (let index = (if mr_index request = 0 then last_milestone_index (pr_tangle P) else mr_index request)
      in (case get_milestone (pr_tangle P) index of
            None \<Rightarrow> Some P
          | Some tx \<Rightarrow> do {
              m \<leftarrow> transaction_message tx;
              Some (sender_send P epid (TransactionBroadcastMessage m)) }))"

section \<open>Solidifiers (worker/solidifier)\<close>

text \<open>The hashes a walk reports as missing; they are collected in a hash set, whose order is not specified.\<close>

definition missing_hashes :: "walk_event list \<Rightarrow> hash list" where
  "missing_hashes events = remdups (concat (map (\<lambda>e. case e of Missing h \<Rightarrow> [h] | Mapped _ _ \<Rightarrow> []) events))"

definition transaction_solidifier_step :: "protocol \<Rightarrow> hash \<Rightarrow> milestone_index \<Rightarrow> protocol \<times> bool" where
  "transaction_solidifier_step P h index =
     (let missing = missing_hashes (walk_approvees_depth_first (pr_tangle P) h (\<lambda>v. \<not> vertex_is_solid v))
      in if missing = [] then (P, True)
         else (fold (\<lambda>m P. request_transaction P m index) missing P, False))"

definition MILESTONE_REQUEST_RANGE :: nat where "MILESTONE_REQUEST_RANGE = 50"

text \<open>The end of the range and the target index are sums of \<open>u32\<close> that panic when they overflow.\<close>

definition checked_add_u32 :: "u32 \<Rightarrow> nat \<Rightarrow> u32 option" where
  "checked_add_u32 i n = (if unat i + n < 2 ^ 32 then Some (i + word_of_nat n) else None)"

definition request_milestones :: "protocol \<Rightarrow> protocol option" where
  "request_milestones P = do {
     let solid_index = tangle.solid_milestone_index (pr_tangle P);
     end' \<leftarrow> checked_add_u32 solid_index MILESTONE_REQUEST_RANGE;
     Some (fold (\<lambda>i P. if \<not> contains_milestone (pr_tangle P) (word_of_nat i)
                       then request_milestone P (word_of_nat i) None else P)
       [unat solid_index..<unat end'] P) }"

definition solidify_milestone :: "protocol \<Rightarrow> protocol option" where
  "solidify_milestone P = do {
     target_index \<leftarrow> checked_add_u32 (tangle.solid_milestone_index (pr_tangle P)) 1;
     Some (case get_milestone_hash (pr_tangle P) target_index of
       None \<Rightarrow> P
     | Some target_hash \<Rightarrow>
         if is_solid_transaction (pr_tangle P) target_hash
         then
           (let P = P\<lparr>pr_tangle := update_solid_milestone_index (pr_tangle P) target_index\<rparr>
            in broadcast_heartbeat P (tangle.solid_milestone_index (pr_tangle P)) (tangle.snapshot_milestone_index (pr_tangle P)))
         else trigger_transaction_solidification P target_hash target_index) }"

definition milestone_solidifier_step :: "protocol \<Rightarrow> protocol option" where
  "milestone_solidifier_step P = do {
     P \<leftarrow> request_milestones P;
     solidify_milestone P }"

end
