(* ===== verification/Tiny_Hash_Cache.thy ===== *)
theory Tiny_Hash_Cache
  imports Messages
begin

text \<open>
  The cache of recently seen transaction hashes
  (bee-protocol/src/worker/transaction/tiny_hash_cache.rs). XxHash64 comes from the crate
  \<open>twox_hash\<close> and is a parameter, a function from bytes to \<open>u64\<close>. The hash set is a set of words and
  the deque a list, oldest first. The results: the two stay the same collection, bounded by the
  capacity; insertion refines a bounded queue of the most recent distinct hashes; a cache of capacity
  zero panics on its first insertion.
\<close>

record tiny_hash_cache =
  max_capacity :: nat
  cache :: "u64 set"
  elem_order :: "u64 list"

definition cache_new :: "nat \<Rightarrow> tiny_hash_cache" where
  "cache_new max_capacity' = \<lparr>max_capacity = max_capacity', cache = {}, elem_order = []\<rparr>"

definition cache_contains :: "tiny_hash_cache \<Rightarrow> u64 \<Rightarrow> bool" where
  "cache_contains self hash = (hash \<in> cache self)"

definition cache_len :: "tiny_hash_cache \<Rightarrow> nat" where
  "cache_len self = card (cache self)"

definition cache_insert :: "(bytes \<Rightarrow> u64) \<Rightarrow> tiny_hash_cache \<Rightarrow> bytes \<Rightarrow> (tiny_hash_cache \<times> bool) option" where
  "cache_insert xx_hash self bs =
     (let hash = xx_hash bs
      in if cache_contains self hash then Some (self, False)
         else do {
           self \<leftarrow>
             (if card (cache self) \<ge> max_capacity self
              then (case elem_order self of
                      [] \<Rightarrow> None
                    | first # rest \<Rightarrow>
                        Some (self\<lparr>elem_order := rest, cache := cache self - {first}\<rparr>))
              else Some self);
           Some (self\<lparr>cache := insert hash (cache self), elem_order := elem_order self @ [hash]\<rparr>, True) })"

text \<open>A sequence of insertions.\<close>

fun cache_inserts :: "(bytes \<Rightarrow> u64) \<Rightarrow> tiny_hash_cache \<Rightarrow> bytes list \<Rightarrow> (tiny_hash_cache \<times> bool list) option" where
  "cache_inserts xx_hash self [] = Some (self, [])"
| "cache_inserts xx_hash self (bs # bss) = do {
     (self, b) \<leftarrow> cache_insert xx_hash self bs;
     (self, bools) \<leftarrow> cache_inserts xx_hash self bss;
     Some (self, b # bools) }"

section \<open>Invariant\<close>

definition cache_inv :: "tiny_hash_cache \<Rightarrow> bool" where
  "cache_inv self \<longleftrightarrow> distinct (elem_order self) \<and> cache self = set (elem_order self)
     \<and> length (elem_order self) \<le> max_capacity self"

text \<open>The specification: a queue of at most \<open>cap\<close> distinct hashes, oldest first.\<close>

definition queue_insert :: "nat \<Rightarrow> u64 list \<Rightarrow> u64 \<Rightarrow> u64 list" where
  "queue_insert cap q h = (if h \<in> set q then q else (if length q \<ge> cap then tl q else q) @ [h])"

lemma cache_inv_new: "cache_inv (cache_new n)"
  by (simp add: cache_inv_def cache_new_def)

lemma cache_insert_law:
  assumes "cache_inv self" "0 < max_capacity self"
  shows "\<exists>self'. cache_insert xx self bs = Some (self', xx bs \<notin> set (elem_order self)) \<and> cache_inv self'
    \<and> max_capacity self' = max_capacity self
    \<and> elem_order self' = queue_insert (max_capacity self) (elem_order self) (xx bs)"
proof (cases "xx bs \<in> set (elem_order self)")
  case True
  then show ?thesis
    using assms(1) by (simp add: cache_insert_def cache_contains_def cache_inv_def queue_insert_def)
next
  case new: False
  have card: "card (cache self) = length (elem_order self)"
    using assms(1) by (simp add: cache_inv_def distinct_card)
  show ?thesis
  proof (cases "max_capacity self \<le> length (elem_order self)")
    case True
    then obtain f r where "elem_order self = f # r"
      using assms(2) by (cases "elem_order self") auto
    then show ?thesis
      using assms new True card
      by (auto simp: cache_insert_def cache_contains_def cache_inv_def queue_insert_def Let_def)
  next
    case False
    then show ?thesis
      using assms new card
      by (auto simp: cache_insert_def cache_contains_def cache_inv_def queue_insert_def Let_def)
  qed
qed

lemma cache_inserts_law:
  assumes "cache_inv self" "0 < max_capacity self"
  shows "\<exists>self' bools. cache_inserts xx self bss = Some (self', bools) \<and> cache_inv self'
    \<and> max_capacity self' = max_capacity self
    \<and> elem_order self' = fold (\<lambda>bs q. queue_insert (max_capacity self) q (xx bs)) bss (elem_order self)"
  using assms
proof (induction bss arbitrary: self)
  case (Cons bs bss)
  obtain self1 where 1: "cache_insert xx self bs = Some (self1, xx bs \<notin> set (elem_order self))" "cache_inv self1"
    "max_capacity self1 = max_capacity self"
    "elem_order self1 = queue_insert (max_capacity self) (elem_order self) (xx bs)"
    using cache_insert_law [OF Cons.prems] by blast
  then show ?case
    using Cons.IH [of self1] Cons.prems by auto
qed simp

lemma queue_distinct:
  "distinct (map f bss @ q) \<Longrightarrow> length q \<le> cap \<Longrightarrow> 0 < cap \<Longrightarrow>
   fold (\<lambda>bs q. queue_insert cap q (f bs)) bss q = drop (length q + length bss - cap) (q @ map f bss)"
proof (induction bss arbitrary: q)
  case (Cons bs bss)
  define q' where "q' = (if length q \<ge> cap then tl q else q) @ [f bs]"
  have q': "queue_insert cap q (f bs) = q'" "length q' \<le> cap"
    using Cons.prems by (auto simp: queue_insert_def q'_def)
  have "distinct (map f bss @ q')"
    using Cons.prems by (cases q) (auto simp: q'_def)
  then have "fold (\<lambda>bs q. queue_insert cap q (f bs)) bss q' = drop (length q' + length bss - cap) (q' @ map f bss)"
    using Cons.IH q'(2) Cons.prems(3) by blast
  also have "\<dots> = drop (length q + length (bs # bss) - cap) (q @ map f (bs # bss))"
    using Cons.prems(2,3) by (cases q) (auto simp: q'_def drop_Cons' not_less)
  finally show ?case
    by (simp add: q'(1))
qed simp

section \<open>Properties\<close>

text \<open>
  On a cache with positive capacity insertion never panics, keeps the invariant, reports whether
  the hash was absent, and is exactly insertion into a bounded queue of distinct hashes that drops the
  oldest one when full.
\<close>

theorem cache_insert_refines_queue:
  assumes "cache_inv self" "0 < max_capacity self"
  shows "\<exists>self'. cache_insert xx_hash self bs = Some (self', xx_hash bs \<notin> cache self) \<and> cache_inv self'
    \<and> max_capacity self' = max_capacity self \<and> cache_len self' \<le> max_capacity self
    \<and> elem_order self' = queue_insert (max_capacity self) (elem_order self) (xx_hash bs)"
proof -
  obtain self' where s: "cache_insert xx_hash self bs = Some (self', xx_hash bs \<notin> set (elem_order self))" "cache_inv self'"
    "max_capacity self' = max_capacity self"
    "elem_order self' = queue_insert (max_capacity self) (elem_order self) (xx_hash bs)"
    using cache_insert_law [OF assms] by blast
  moreover have "cache_len self' \<le> max_capacity self"
    using s(2,3) by (simp add: cache_inv_def cache_len_def distinct_card)
  moreover have "cache self = set (elem_order self)"
    using assms(1) by (simp add: cache_inv_def)
  ultimately show ?thesis
    by simp
qed

theorem cache_insert_refines_queue_witness:
  "\<exists>self'. cache_insert (\<lambda>bs. word_of_nat (length bs))
      \<lparr>max_capacity = 1, cache = {3}, elem_order = [3]\<rparr> [1, 2] = Some (self', True)
    \<and> elem_order self' = [2]"
  using cache_insert_refines_queue [of "\<lparr>max_capacity = 1, cache = {3}, elem_order = [3]\<rparr>"
      "\<lambda>bs. word_of_nat (length bs)" "[1, 2]"]
  by (auto simp: cache_inv_def queue_insert_def)

text \<open>
  After inserting byte strings with pairwise different hashes into a new cache, it holds exactly
  the hashes of the last \<open>capacity\<close> of them, in order.
\<close>

theorem cache_holds_last:
  assumes "0 < n" "distinct (map xx_hash bss)"
  shows "\<exists>self' bools. cache_inserts xx_hash (cache_new n) bss = Some (self', bools)
    \<and> elem_order self' = drop (length bss - n) (map xx_hash bss)
    \<and> cache self' = set (drop (length bss - n) (map xx_hash bss))"
proof -
  obtain self' bools where s: "cache_inserts xx_hash (cache_new n) bss = Some (self', bools)" "cache_inv self'"
    "elem_order self' = fold (\<lambda>bs q. queue_insert n q (xx_hash bs)) bss []"
    using cache_inserts_law [OF cache_inv_new, of n xx_hash bss] assms(1) by (auto simp: cache_new_def)
  moreover have "elem_order self' = drop (length bss - n) (map xx_hash bss)"
    using queue_distinct [of xx_hash bss "[]" n] assms s(3) by simp
  ultimately show ?thesis
    by (simp add: cache_inv_def)
qed

theorem cache_holds_last_witness:
  "\<exists>self' bools. cache_inserts (\<lambda>bs. word_of_nat (length bs)) (cache_new 2) [[], [0], [0, 0]] = Some (self', bools)
    \<and> elem_order self' = [1, 2]"
  using cache_holds_last [of 2 "\<lambda>bs. word_of_nat (length bs)" "[[], [0], [0, 0]]"] by auto

text \<open>A cache created with capacity zero panics on its first insertion.\<close>

theorem cache_capacity_zero_panics: "cache_insert xx_hash (cache_new 0) bs = None"
  by (simp add: cache_insert_def cache_new_def cache_contains_def)

end
