(* ===== verification/Transaction_Worker.thy ===== *)
theory Transaction_Worker
  imports Protocol_Workers Tiny_Hash_Cache
begin

text \<open>
  The transaction worker (src/bee-protocol/src/worker/transaction/transaction.rs): it takes the broadcasts
  the peer workers receive, drops the ones it has seen, decodes, hashes and checks the transaction, stores it
  in the tangle and tells the other workers. The XxHash function of its cache is a parameter.

  The main result composes the workers of two nodes: a transaction that a node asks a peer for is found,
  sent, received and stored unchanged under the requested hash.
\<close>

section \<open>The worker\<close>

record transaction_worker =
  tw_cache :: tiny_hash_cache
  tw_curl :: curlp

definition transaction_worker_new :: "nat \<Rightarrow> transaction_worker" where
  "transaction_worker_new cache_size = \<lparr>tw_cache = cache_new cache_size, tw_curl = sp_default CurlP81\<rparr>"

text \<open>The T1B1 trits of a received transaction; \<open>len() * 5 - 1\<close> panics on an empty buffer.\<close>

definition decode_broadcast :: "bytes \<Rightarrow> (ternary_error + btrit list) option" where
  "decode_broadcast received = do {
     u8_t5b1_buf \<leftarrow> uncompress_transaction_bytes received;
     let i8_t5b1_slice = cast_i8 u8_t5b1_buf;
     num_trits \<leftarrow> (if length i8_t5b1_slice * 5 = 0 then None else Some (length i8_t5b1_slice * 5 - 1));
     r \<leftarrow> raw_try_from_raw t5b1 i8_t5b1_slice num_trits;
     (case r of
        Inl e \<Rightarrow> Some (Inl e)
      | Inr t5b1_trits \<Rightarrow> do {
          t5b1_trit_buf \<leftarrow> slice_to_buf t5b1_buf i8_t5b1_slice t5b1_trits;
          map_option Inr (trits_encode t5b1_buf t1b1_buf t5b1_trit_buf) }) }"

text \<open>
  The tail of the bundle of a transaction: itself, or the last approver found along the trunk within the
  bundle, if that is a tail. \<open>None\<close> when the walk does not return.
\<close>

definition find_tail :: "tangle \<Rightarrow> transaction \<Rightarrow> hash \<Rightarrow> hash option option" where
  "find_tail T tx h =
     (if tx_is_tail tx then Some (Some h)
      else do {
        chain \<leftarrow> trunk_walk_approvers T h (\<lambda>tx_ref. hash_eq (tx_bundle tx_ref) (tx_bundle tx));
        Some (if chain = [] then None
              else case last chain of (tx_ref, h) \<Rightarrow> if tx_is_tail tx_ref then Some h else None) })"

text \<open>What follows when the tangle has stored a new transaction.\<close>

definition announce_transaction ::
  "worker_config \<Rightarrow> protocol \<Rightarrow> endpoint_id \<Rightarrow> transaction_broadcast \<Rightarrow> transaction \<Rightarrow> hash \<Rightarrow> protocol option" where
  "announce_transaction cfg P from' tb tx h = do {
     let P = (if \<not> is_synced (pr_tangle P) \<and> pr_requested P = fmempty then trigger_milestone_solidification P else P);
     let P = (case fmlookup (pr_requested P) h of
         Some index \<Rightarrow> trigger_transaction_solidification (P\<lparr>pr_requested := fmdrop h (pr_requested P)\<rparr>) h index
       | None \<Rightarrow> broadcast_transaction_message P (Some from') tb);
     if tx_address tx = wc_public_key cfg \<or> tx_address tx = wc_null_address cfg
     then do {
       tail' \<leftarrow> find_tail (pr_tangle P) tx h;
       Some (case tail' of
         Some tail' \<Rightarrow> P\<lparr>pr_milestone_validator := send_or_log tail' (pr_milestone_validator P)\<rparr>
       | None \<Rightarrow> P) }
     else Some P }"

definition process_transaction_broadcast ::
  "(bytes \<Rightarrow> u64) \<Rightarrow> worker_config \<Rightarrow> transaction_worker \<Rightarrow> protocol \<Rightarrow> endpoint_id \<Rightarrow> transaction_broadcast
    \<Rightarrow> (transaction_worker \<times> protocol) option" where
  "process_transaction_broadcast xx_hash cfg self P from' tb = do {
     (cache, inserted) \<leftarrow> cache_insert xx_hash (tw_cache self) (tb_transaction tb);
     let self = self\<lparr>tw_cache := cache\<rparr>;
     if \<not> inserted then Some (self, P)
     else do {
       r \<leftarrow> decode_broadcast (tb_transaction tb);
       (case r of
          Inl _ \<Rightarrow> Some (self, P)
        | Inr transaction_buf \<Rightarrow> do {
            r \<leftarrow> transaction_from_trits t1b1_buf transaction_buf;
            (case r of
               Inl _ \<Rightarrow> Some (self, P)
             | Inr tx \<Rightarrow> do {
                 (curl, r) \<leftarrow> sp_digest CurlP81 (tw_curl self) transaction_buf;
                 let self = self\<lparr>tw_curl := curl\<rparr>;
                 digest \<leftarrow> (case r of Inl _ \<Rightarrow> None | Inr digest \<Rightarrow> Some digest);
                 h \<leftarrow> hash_from_inner_unchecked digest;
                 weight \<leftarrow> hash_weight h;
                 if weight < unat (wc_mwm cfg) then Some (self, P)
                 else
                   (let (T, stored) = insert_transaction (pr_tangle P) tx h;
                        P = P\<lparr>pr_tangle := T\<rparr>
                    in (case stored of
                          Some tx \<Rightarrow> do { P \<leftarrow> announce_transaction cfg P from' tb tx h; Some (self, P) }
                        | None \<Rightarrow> Some (self, P))) }) }) } }"

fun transaction_worker_run ::
  "(bytes \<Rightarrow> u64) \<Rightarrow> worker_config \<Rightarrow> transaction_worker \<Rightarrow> protocol \<Rightarrow> (endpoint_id \<times> transaction_broadcast) list
    \<Rightarrow> (transaction_worker \<times> protocol) option" where
  "transaction_worker_run xx_hash cfg self P [] = Some (self, P)"
| "transaction_worker_run xx_hash cfg self P ((from', tb) # events) = do {
     (self, P) \<leftarrow> process_transaction_broadcast xx_hash cfg self P from' tb;
     transaction_worker_run xx_hash cfg self P events }"

section \<open>Decoding\<close>

lemma decode_broadcast_law:
  assumes "uncompress_transaction_bytes received = Some bs" "length bs = 1604"
  shows "decode_broadcast received =
    (if list_all (is_valid t5b1) (cast_i8 bs) then Some (Inr (map (trit_at t5b1 (cast_i8 bs)) [0..<8019]))
     else Some (Inl InvalidRepr))"
proof (cases "list_all (is_valid t5b1) (cast_i8 bs)")
  case True
  have l: "length (cast_i8 bs) = 1604"
    using assms(2) by (simp add: cast_i8_def)
  let ?ts = "map (trit_at t5b1 (cast_i8 bs)) [0..<8019]"
  obtain s where s: "raw_try_from_raw t5b1 (cast_i8 bs) 8019 = Some (Inr s)" "wf_slice t5b1 (cast_i8 bs) s"
    "slice_trits t5b1 (cast_i8 bs) s = ?ts"
    using t5b1.try_from_raw_law [OF True, of 8019] l by (auto simp: packed_cap_def t5b1_def)
  have "length ?ts \<le> packed_cap t5b1"
    by (simp add: packed_cap_def t5b1_def)
  then obtain b where b: "trits_encode t1b1_buf t5b1_buf ?ts = Some b" "trits_encode t5b1_buf t1b1_buf b = Some ?ts"
    using t5b1.t1b1_roundtrip unfolding t5b1_buf_def by blast
  then have "trit_buf_from_iter t5b1_buf ?ts = Some b"
    by (simp add: trits_encode_def trits_iter_t1b1)
  then have "slice_to_buf t5b1_buf (cast_i8 bs) s = Some b"
    unfolding slice_to_buf_law [OF s(2)] s(3) .
  moreover have "cast_i8 bs \<noteq> []"
    using l by auto
  ultimately show ?thesis
    using True assms(1) l s(1) b(2) by (simp add: decode_broadcast_def Let_def)
next
  case False
  then show ?thesis
    using assms by (simp add: decode_broadcast_def raw_try_from_raw_def Let_def) (auto simp: cast_i8_def)
qed

text \<open>The message a responder sends for trits, decoded by the receiver.\<close>

lemma wire_roundtrip:
  assumes "length ts = 8019"
  shows "\<exists>bs cs. t5b1_bytes ts = Some bs \<and> compress_transaction_bytes bs = Some cs \<and> 292 \<le> length cs \<and> length cs \<le> 1604
    \<and> decode_broadcast cs = Some (Inr ts)"
proof -
  have cap: "length ts \<le> packed_cap t5b1"
    using assms by (simp add: packed_cap_def t5b1_def)
  obtain bs s where bs: "t5b1_bytes ts = Some bs" "length bs = 1604"
    "raw_try_from_raw t5b1 (cast_i8 bs) 8019 = Some (Inr s)" "slice_trits t5b1 (cast_i8 bs) s = ts"
    using t5b1_bytes_law [OF cap] assms by auto
  obtain cs where cs: "compress_transaction_bytes bs = Some cs" "292 \<le> length cs" "length cs \<le> 1604"
    "uncompress_transaction_bytes cs = Some bs"
    using compress_roundtrip_law [OF bs(2)] by blast
  have valid: "list_all (is_valid t5b1) (cast_i8 bs)"
    using bs(3) by (auto simp: raw_try_from_raw_def split: if_splits)
  then have "slice_trits t5b1 (cast_i8 bs) s = map (trit_at t5b1 (cast_i8 bs)) [0..<8019]"
    using t5b1.try_from_raw_law [OF valid, of 8019] bs(2,3) by (auto simp: packed_cap_def t5b1_def cast_i8_def)
  then have "decode_broadcast cs = Some (Inr ts)"
    unfolding decode_broadcast_law [OF cs(4) bs(2)] using valid bs(4) by simp
  then show ?thesis
    using bs(1) cs(1-3) by blast
qed

lemma transaction_message_law:
  assumes "tx_wf tx"
  shows "\<exists>m ts. transaction_message tx = Some m \<and> into_trits_allocated tx (replicate 8019 Zero) = Some ts \<and> length ts = 8019
    \<and> 292 \<le> length (tb_transaction m) \<and> length (tb_transaction m) \<le> 1604 \<and> decode_broadcast (tb_transaction m) = Some (Inr ts)"
proof -
  obtain ts where ts: "into_trits_allocated tx (replicate 8019 Zero) = Some ts" "length ts = 8019"
    using trits_inverse_law(2) [OF length_replicate assms] by blast
  obtain bs cs where "t5b1_bytes ts = Some bs" "compress_transaction_bytes bs = Some cs" "292 \<le> length cs" "length cs \<le> 1604"
    "decode_broadcast cs = Some (Inr ts)"
    using wire_roundtrip [OF ts(2)] by blast
  then show ?thesis
    using ts by (simp add: transaction_message_def t1b1_zeros TRANSACTION_TRIT_LEN_def)
qed

section \<open>What is stored\<close>

text \<open>The hash of a transaction, as a node computes it.\<close>

definition hash_of :: "transaction \<Rightarrow> hash option" where
  "hash_of tx = do {
     ts \<leftarrow> into_trits_allocated tx (replicate TRANSACTION_TRIT_LEN Zero);
     (_, r) \<leftarrow> sp_digest CurlP81 (sp_default CurlP81) ts;
     (case r of Inl _ \<Rightarrow> None | Inr digest \<Rightarrow> hash_from_inner_unchecked digest) }"

definition worker_ok :: "transaction_worker \<Rightarrow> bool" where
  "worker_ok w \<longleftrightarrow> cache_inv (tw_cache w) \<and> 0 < max_capacity (tw_cache w) \<and> curl81.fresh (tw_curl w)"

lemma worker_ok_new: "0 < n \<Longrightarrow> worker_ok (transaction_worker_new n)"
  using curl81.fresh_default by (simp add: worker_ok_def transaction_worker_new_def cache_inv_def cache_new_def)

lemma digest_transaction:
  assumes "curl81.fresh s" "length ts = 8019" "into_trits_allocated tx (replicate 8019 Zero) = Some ts"
  shows "\<exists>s' d h. sp_digest CurlP81 s ts = Some (s', Inr d) \<and> curl81.fresh s' \<and> hash_from_inner_unchecked d = Some h
    \<and> hash_of tx = Some h \<and> length h = 243"
proof -
  have d: "243 dvd length ts"
    using assms(2) by simp
  obtain s1 where s1: "sp_digest CurlP81 s ts = Some (s1, Inr (curl81.hash 1 ts))" "curl81.fresh s1"
    using curl81.digest_hash [OF assms(1) d] by blast
  obtain s2 where s2: "sp_digest CurlP81 (sp_default CurlP81) ts = Some (s2, Inr (curl81.hash 1 ts))"
    using curl81.digest_hash [OF curl81.fresh_default d] by blast
  have "length (curl81.hash 1 ts) = 243"
    using d by simp
  then show ?thesis
    using s1 s2 assms(3) by (simp add: hash_of_def TRANSACTION_TRIT_LEN_def hash_from_inner_unchecked_def message_of_def)
qed

lemma decode_broadcast_length:
  assumes "decode_broadcast received = Some (Inr ts)"
  shows "length ts = 8019"
proof -
  obtain bs where bs: "uncompress_transaction_bytes received = Some bs"
    using assms by (auto simp: decode_broadcast_def split: bind_splits)
  then have "length bs = 1604"
    by (auto simp: uncompress_transaction_bytes_def Let_def copy_from_slice_iff Messages.TRANSACTION_BYTE_LEN_def
        MAX_PAYLOAD_SIZE_def NON_PAYLOAD_SIZE_def split: if_splits bind_splits)
  then show ?thesis
    using assms decode_broadcast_law [OF bs] by (auto split: if_splits)
qed

lemma hash_weight_total:
  assumes "length h = 243"
  shows "\<exists>n. hash_weight h = Some n"
proof -
  have "\<exists>n. weight_loop h is w = Some n" if "w + length is < 256" for "is" w
    using that by (induction "is" arbitrary: w) auto
  then show ?thesis
    using assms by (simp add: hash_weight_def)
qed

lemma process_seen:
  assumes "worker_ok w" "cache_contains (tw_cache w) (xx_hash (tb_transaction tb))"
  shows "\<exists>w'. process_transaction_broadcast xx_hash cfg w P from' tb = Some (w', P) \<and> worker_ok w'"
  using assms cache_insert_law [of "tw_cache w" xx_hash "tb_transaction tb"]
  by (auto simp: worker_ok_def process_transaction_broadcast_def cache_contains_def cache_inv_def)

lemma process_unseen:
  assumes "worker_ok w" "\<not> cache_contains (tw_cache w) (xx_hash (tb_transaction tb))"
  shows "\<exists>c. cache_insert xx_hash (tw_cache w) (tb_transaction tb) = Some (c, True) \<and> worker_ok (w\<lparr>tw_cache := c\<rparr>)"
  using assms cache_insert_law [of "tw_cache w" xx_hash "tb_transaction tb"]
  by (auto simp: worker_ok_def cache_contains_def cache_inv_def)

text \<open>A new transaction that decodes: what is computed, and that the hash is the hash of the transaction.\<close>

lemma process_new:
  assumes "worker_ok w" "\<not> cache_contains (tw_cache w) (xx_hash (tb_transaction tb))"
    and "decode_broadcast (tb_transaction tb) = Some (Inr ts)" "transaction_from_trits t1b1_buf ts = Some (Inr tx)"
  shows "\<exists>w' h n. worker_ok w' \<and> tx_wf tx \<and> hash_of tx = Some h \<and> hash_weight h = Some n \<and>
    process_transaction_broadcast xx_hash cfg w P from' tb =
      (if n < unat (wc_mwm cfg) then Some (w', P)
       else if contains_transaction (pr_tangle P) h
       then Some (w', P\<lparr>pr_tangle := fst (insert_transaction (pr_tangle P) tx h)\<rparr>)
       else map_option (Pair w')
         (announce_transaction cfg (P\<lparr>pr_tangle := fst (insert_transaction (pr_tangle P) tx h)\<rparr>) from' tb tx h))"
proof -
  obtain c where c: "cache_insert xx_hash (tw_cache w) (tb_transaction tb) = Some (c, True)" "worker_ok (w\<lparr>tw_cache := c\<rparr>)"
    using process_unseen [of w xx_hash tb] assms(1,2) by blast
  have len: "length ts = 8019"
    using assms(3) by (rule decode_broadcast_length)
  have tx: "tx_wf tx" "into_trits_allocated tx (replicate 8019 Zero) = Some ts"
    using trits_inverse_law(1) [OF len, of tx] assms(4) by simp_all
  have "curl81.fresh (tw_curl w)"
    using assms(1) by (simp add: worker_ok_def)
  from digest_transaction [OF this len tx(2)] obtain s' d h where d: "sp_digest CurlP81 (tw_curl w) ts = Some (s', Inr d)"
    "curl81.fresh s'" "hash_from_inner_unchecked d = Some h" "hash_of tx = Some h" "length h = 243"
    by blast
  obtain n where n: "hash_weight h = Some n"
    using hash_weight_total [OF d(5)] by blast
  let ?w = "w\<lparr>tw_cache := c, tw_curl := s'\<rparr>"
  have "worker_ok ?w"
    using c(2) d(2) by (simp add: worker_ok_def)
  moreover have "snd (insert_transaction (pr_tangle P) tx h) = (if contains_transaction (pr_tangle P) h then None else Some tx)"
    by (simp add: insert_transaction_def insert_approvers_def push_approver_def insert_vertex_def contains_transaction_def Let_def)
  then have "process_transaction_broadcast xx_hash cfg w P from' tb =
      (if n < unat (wc_mwm cfg) then Some (?w, P)
       else if contains_transaction (pr_tangle P) h
       then Some (?w, P\<lparr>pr_tangle := fst (insert_transaction (pr_tangle P) tx h)\<rparr>)
       else map_option (Pair ?w)
         (announce_transaction cfg (P\<lparr>pr_tangle := fst (insert_transaction (pr_tangle P) tx h)\<rparr>) from' tb tx h))"
    unfolding process_transaction_broadcast_def
    using c(1) assms(3,4) d(1,3) n by (simp add: Let_def case_prod_beta map_conv_bind_option comp_def)
  ultimately show ?thesis
    using tx(1) d(4) n by blast
qed

lemma get_transaction_insert [simp]:
  "get_transaction (fst (insert_transaction T tx h)) k = (if k = h then Some tx else get_transaction T k)"
  by (simp add: insert_transaction_def insert_approvers_def push_approver_def insert_vertex_def solidifier_send_def
      get_transaction_def vertex_from_def Let_def)

lemmas trigger_defs = trigger_milestone_solidification_def trigger_transaction_solidification_def
  broadcast_transaction_message_def

lemma announce_tangle:
  assumes "announce_transaction cfg P from' tb tx h = Some P'"
  shows "pr_tangle P' = pr_tangle P"
  using assms
  by (auto simp: announce_transaction_def trigger_defs Let_def split: if_splits option.splits bind_splits)

text \<open>Every transaction of the tangle is well formed, stored under its own hash, and has enough weight.\<close>

definition tangle_authentic :: "worker_config \<Rightarrow> tangle \<Rightarrow> bool" where
  "tangle_authentic cfg T \<longleftrightarrow>
     (\<forall>h tx. get_transaction T h = Some tx \<longrightarrow>
        tx_wf tx \<and> hash_of tx = Some h \<and> (\<exists>n. hash_weight h = Some n \<and> unat (wc_mwm cfg) \<le> n))"

lemma process_authentic:
  assumes "worker_ok w" "tangle_authentic cfg (pr_tangle P)"
    and "process_transaction_broadcast xx_hash cfg w P from' tb = Some (w', P')"
  shows "worker_ok w' \<and> tangle_authentic cfg (pr_tangle P')"
proof (cases "cache_contains (tw_cache w) (xx_hash (tb_transaction tb))")
  case True
  then show ?thesis
    using process_seen [of w xx_hash tb cfg P from'] assms by auto
next
  case False
  then obtain c where c: "cache_insert xx_hash (tw_cache w) (tb_transaction tb) = Some (c, True)" "worker_ok (w\<lparr>tw_cache := c\<rparr>)"
    using process_unseen [of w xx_hash tb] assms(1) by blast
  obtain r where r: "decode_broadcast (tb_transaction tb) = Some r"
    using assms(3) c(1)
    by (cases "decode_broadcast (tb_transaction tb)") (simp_all add: process_transaction_broadcast_def Let_def)
  consider e where "r = Inl e" | ts e where "r = Inr ts" "transaction_from_trits t1b1_buf ts = Some (Inl e)"
    | ts tx where "r = Inr ts" "transaction_from_trits t1b1_buf ts = Some (Inr tx)"
  proof (cases r)
    case (Inr ts)
    then have "transaction_from_trits t1b1_buf ts \<noteq> None"
      using assms(3) c(1) r
      by (cases "transaction_from_trits t1b1_buf ts") (simp_all add: process_transaction_broadcast_def Let_def)
    then obtain r' where "transaction_from_trits t1b1_buf ts = Some r'"
      by blast
    then show ?thesis
      using that(2,3) Inr by (cases r') blast+
  qed (rule that(1))
  then show ?thesis
  proof cases
    case 1
    then show ?thesis
      using assms(2,3) c r by (simp add: process_transaction_broadcast_def)
  next
    case 2
    then show ?thesis
      using assms(2,3) c r by (simp add: process_transaction_broadcast_def)
  next
    case (3 ts tx)
    obtain w1 h n where e: "worker_ok w1" "tx_wf tx" "hash_of tx = Some h" "hash_weight h = Some n"
      "process_transaction_broadcast xx_hash cfg w P from' tb =
      (if n < unat (wc_mwm cfg) then Some (w1, P)
       else if contains_transaction (pr_tangle P) h
       then Some (w1, P\<lparr>pr_tangle := fst (insert_transaction (pr_tangle P) tx h)\<rparr>)
       else map_option (Pair w1)
         (announce_transaction cfg (P\<lparr>pr_tangle := fst (insert_transaction (pr_tangle P) tx h)\<rparr>) from' tb tx h))"
      using process_new [of w xx_hash tb ts tx cfg P from'] assms(1) False r 3 by blast
    have "w' = w1 \<and> (pr_tangle P' = pr_tangle P \<or>
        \<not> n < unat (wc_mwm cfg) \<and> pr_tangle P' = fst (insert_transaction (pr_tangle P) tx h))"
      using assms(3) announce_tangle unfolding e(5) by (auto split: if_splits)
    then show ?thesis
      using e(1-4) assms(2) unfolding tangle_authentic_def by (auto simp: not_less split: if_splits)
  qed
qed

text \<open>
  C6. What peers send cannot corrupt the tangle: whatever broadcasts the worker processes, every transaction of
  the tangle is well formed, is stored under the Curl hash of its own trits, and that hash has at least the
  minimum weight.
\<close>

theorem stored_transactions_authentic:
  assumes "worker_ok w" "tangle_authentic cfg (pr_tangle P)"
    and "transaction_worker_run xx_hash cfg w P events = Some (w', P')"
  shows "worker_ok w' \<and> tangle_authentic cfg (pr_tangle P')"
  using assms
proof (induction events arbitrary: w P)
  case Nil
  then show ?case
    by simp
next
  case (Cons e events)
  obtain from' tb where e: "e = (from', tb)"
    by (cases e)
  obtain w1 P1 where s: "process_transaction_broadcast xx_hash cfg w P from' tb = Some (w1, P1)"
    "transaction_worker_run xx_hash cfg w1 P1 events = Some (w', P')"
    using Cons.prems(3) e by (auto split: bind_splits)
  then show ?case
    using Cons.IH [of w1 P1] process_authentic [OF Cons.prems(1,2) s(1)] by blast
qed

section \<open>Request and answer\<close>

lemma hash_of_wf:
  assumes "hash_of tx = Some h"
  shows "hash_wf h"
proof -
  obtain d where "hash_from_inner_unchecked d = Some h"
    using assms by (auto simp: hash_of_def split: bind_splits sum.split_asm)
  then show ?thesis
    using message_of_wf [of d] by (auto simp: hash_from_inner_unchecked_def split: if_splits)
qed

text \<open>The request for a hash, and the hash the responder reads from it.\<close>

lemma request_roundtrip:
  assumes "hash_wf h"
  shows "\<exists>bs. hash_as_trits h = Some (hash_trits h) \<and> t5b1_bytes (hash_trits h) = Some bs
    \<and> transaction_request_new bs = Some \<lparr>tr_hash = bs\<rparr>
    \<and> transaction_responder_step P epid \<lparr>tr_hash = bs\<rparr> =
      (case get_transaction (pr_tangle P) h of
         None \<Rightarrow> Some P
       | Some tx \<Rightarrow> do { m \<leftarrow> transaction_message tx; Some (sender_send P epid (TransactionBroadcastMessage m)) })"
proof -
  note t = hash_as_trits_wf [OF assms]
  have "length (hash_trits h) \<le> packed_cap t5b1"
    using t(2) by (simp add: packed_cap_def t5b1_def)
  from t5b1_bytes_law [OF this] obtain bs s where bs: "t5b1_bytes (hash_trits h) = Some bs" "length bs = 49"
    "raw_try_from_raw t5b1 (cast_i8 bs) 243 = Some (Inr s)" "wf_slice t5b1 (cast_i8 bs) s"
    "slice_trits t5b1 (cast_i8 bs) s = hash_trits h"
    using t(2) by auto
  have "slice_to_buf t1b1_buf (cast_i8 bs) s = Some (hash_trits h)"
    unfolding slice_to_buf_law [OF bs(4)] bs(5) by (rule from_iter_t1b1)
  then show ?thesis
    using bs(1-3) t
    by (simp add: transaction_request_new_def transaction_responder_step_def HASH_TRIT_LEN_def HASH_SIZE_def
        hash_from_inner_unchecked_def copy_from_slice_def)
qed

text \<open>The search for the tail returns where the references have no cycle.\<close>

lemma find_tail_returns:
  assumes "acyclic (references T)"
  shows "\<exists>r. find_tail T tx h = Some r \<and> (tx_is_tail tx \<longrightarrow> r = Some h)"
proof (cases "tx_is_tail tx")
  case False
  obtain hs where "trunk_walk_approvers T h (\<lambda>tx_ref. hash_eq (tx_bundle tx_ref) (tx_bundle tx)) = Some (map (vertex_pair T) hs)"
    using trunk_walks_return_chains [OF assms] by blast
  then show ?thesis
    using False by (simp add: find_tail_def)
qed (simp add: find_tail_def)

lemma announce_requested:
  assumes "fmlookup (pr_requested P) h = Some index"
    and "tx_address tx \<in> {wc_public_key cfg, wc_null_address cfg} \<Longrightarrow> acyclic (references (pr_tangle P))"
  shows "\<exists>P'. announce_transaction cfg P from' tb tx h = Some P' \<and> fmlookup (pr_requested P') h = None
    \<and> (chan_open (pr_transaction_solidifier P) \<longrightarrow> (h, index) \<in> set (chan_queue (pr_transaction_solidifier P')))
    \<and> (tx_address tx \<in> {wc_public_key cfg, wc_null_address cfg} \<and> tx_is_tail tx \<and> chan_open (pr_milestone_validator P) \<longrightarrow>
        h \<in> set (chan_queue (pr_milestone_validator P')))"
proof -
  have "pr_requested P \<noteq> fmempty"
    using assms(1) by auto
  moreover have "\<exists>r. find_tail (pr_tangle P) tx h = Some r \<and> (tx_is_tail tx \<longrightarrow> r = Some h)" if "tx_address tx \<in> {wc_public_key cfg, wc_null_address cfg}"
    using find_tail_returns assms(2) that by blast
  ultimately show ?thesis
    using assms(1)
    by (auto simp: announce_transaction_def trigger_defs send_or_log_def chan_send_def Let_def split: option.splits)
qed

text \<open>
  C5. A requested transaction arrives. Node B, which has a handshaked peer and not the transaction, asks a
  peer, node A, for its hash. If A has the transaction of that hash, well formed and of the minimum weight, and B is
  among its handshaked peers, A answers with a broadcast message of a size every node accepts. When B
  processes the message, with a worker in a state that its runs keep (\<open>worker_ok\<close>) and a cache that does not take
  the message for one already seen, the very transaction that A has
  is stored in B's tangle under the requested hash, the request is no longer open, and its
  solidification is triggered with the index it was requested for, if the channel of that worker is open. A
  transaction with the coordinator's key or the null address as its address makes B look for the tail of its
  bundle; for these the references in B's tangle must be acyclic, since the search may not return otherwise, and a
  transaction that is itself a tail is then handed to the milestone validator if its channel is open.
\<close>

theorem requested_transaction_arrives:
  assumes A: "get_transaction (pr_tangle PA) h = Some tx" "tangle_authentic cfg (pr_tangle PA)" "map_of (pr_handshaked PA) b \<noteq> None"
    and B: "worker_ok w" "rnd < length (pr_handshaked PB)" "\<not> contains_transaction (pr_tangle PB) h"
    and C: "tx_address tx \<in> {wc_public_key cfg, wc_null_address cfg} \<Longrightarrow>
      acyclic (references (fst (insert_transaction (pr_tangle PB) tx h)))"
  shows "\<exists>PB1 request PA1 m. process_transaction_request rnd PB h index = Some PB1
    \<and> pr_sent PB1 = pr_sent PB @ [(fst (pr_handshaked PB ! rnd), TransactionRequestMessage request)]
    \<and> transaction_responder_step PA b request = Some PA1
    \<and> pr_sent PA1 = pr_sent PA @ [(b, TransactionBroadcastMessage m)]
    \<and> 292 \<le> length (tb_transaction m) \<and> length (tb_transaction m) \<le> 1604
    \<and> (\<not> cache_contains (tw_cache w) (xx_hash (tb_transaction m)) \<longrightarrow>
        (\<exists>w' PB2. process_transaction_broadcast xx_hash cfg w PB1 a m = Some (w', PB2)
          \<and> get_transaction (pr_tangle PB2) h = Some tx \<and> fmlookup (pr_requested PB2) h = None
          \<and> (chan_open (pr_transaction_solidifier PB) \<longrightarrow> (h, index) \<in> set (chan_queue (pr_transaction_solidifier PB2)))
          \<and> (tx_address tx \<in> {wc_public_key cfg, wc_null_address cfg} \<and> tx_is_tail tx \<and> chan_open (pr_milestone_validator PB) \<longrightarrow>
              h \<in> set (chan_queue (pr_milestone_validator PB2)))))"
proof -
  obtain n where tx: "tx_wf tx" "hash_of tx = Some h" "hash_weight h = Some n" "unat (wc_mwm cfg) \<le> n"
    using A(1,2) unfolding tangle_authentic_def by blast
  have wf: "hash_wf h"
    using tx(2) by (rule hash_of_wf)
  obtain m ts where m: "transaction_message tx = Some m" "into_trits_allocated tx (replicate 8019 Zero) = Some ts" "length ts = 8019"
    "292 \<le> length (tb_transaction m)" "length (tb_transaction m) \<le> 1604" "decode_broadcast (tb_transaction m) = Some (Inr ts)"
    using transaction_message_law [OF tx(1)] by blast
  obtain bs where bs: "hash_as_trits h = Some (hash_trits h)" "t5b1_bytes (hash_trits h) = Some bs"
    "transaction_request_new bs = Some \<lparr>tr_hash = bs\<rparr>"
    "transaction_responder_step PA b \<lparr>tr_hash = bs\<rparr> = Some (sender_send PA b (TransactionBroadcastMessage m))"
    using request_roundtrip [OF wf, of PA b] A(1) m(1) by auto
  let ?a = "fst (pr_handshaked PB ! rnd)" and ?P = "PB\<lparr>pr_requested := fmupd h index (pr_requested PB)\<rparr>"
  let ?PB1 = "sender_send ?P ?a (TransactionRequestMessage \<lparr>tr_hash = bs\<rparr>)"
  have "map_of (pr_handshaked PB) ?a \<noteq> None"
    using B(2) by (simp add: map_of_eq_None_iff)
  then have s: "pr_sent ?PB1 = pr_sent PB @ [(?a, TransactionRequestMessage \<lparr>tr_hash = bs\<rparr>)]" "pr_tangle ?PB1 = pr_tangle PB"
    "pr_requested ?PB1 = fmupd h index (pr_requested PB)" "pr_transaction_solidifier ?PB1 = pr_transaction_solidifier PB"
    "pr_milestone_validator ?PB1 = pr_milestone_validator PB"
    by (simp_all add: sender_send_def)
  have "process_transaction_request rnd PB h index = Some ?PB1"
    using B(2) bs by (auto simp: process_transaction_request_def Let_def)
  moreover have "\<exists>w' PB2. process_transaction_broadcast xx_hash cfg w ?PB1 a m = Some (w', PB2)
      \<and> get_transaction (pr_tangle PB2) h = Some tx \<and> fmlookup (pr_requested PB2) h = None
      \<and> (chan_open (pr_transaction_solidifier PB) \<longrightarrow> (h, index) \<in> set (chan_queue (pr_transaction_solidifier PB2)))
      \<and> (tx_address tx \<in> {wc_public_key cfg, wc_null_address cfg} \<and> tx_is_tail tx \<and> chan_open (pr_milestone_validator PB) \<longrightarrow>
          h \<in> set (chan_queue (pr_milestone_validator PB2)))"
    if "\<not> cache_contains (tw_cache w) (xx_hash (tb_transaction m))"
  proof -
    have "transaction_from_trits t1b1_buf ts = Some (Inr tx)"
      using trits_inverse_law(1) [OF m(3), of tx] tx(1) m(2) by blast
    from process_new [where xx_hash = xx_hash, OF B(1) that m(6) this, of cfg ?PB1 a] obtain w' where
      e: "process_transaction_broadcast xx_hash cfg w ?PB1 a m =
        map_option (Pair w') (announce_transaction cfg (?PB1\<lparr>pr_tangle := fst (insert_transaction (pr_tangle PB) tx h)\<rparr>) a m tx h)"
      using tx(2-4) B(3) s(2) by auto
    obtain PB2 where PB2: "announce_transaction cfg (?PB1\<lparr>pr_tangle := fst (insert_transaction (pr_tangle PB) tx h)\<rparr>) a m tx h = Some PB2"
      "fmlookup (pr_requested PB2) h = None"
      "chan_open (pr_transaction_solidifier PB) \<longrightarrow> (h, index) \<in> set (chan_queue (pr_transaction_solidifier PB2))"
      "tx_address tx \<in> {wc_public_key cfg, wc_null_address cfg} \<and> tx_is_tail tx \<and> chan_open (pr_milestone_validator PB) \<longrightarrow>
          h \<in> set (chan_queue (pr_milestone_validator PB2))"
      using announce_requested [of "?PB1\<lparr>pr_tangle := fst (insert_transaction (pr_tangle PB) tx h)\<rparr>" h index tx cfg a m] C s(3-5) by auto
    then show ?thesis
      using e announce_tangle [OF PB2(1)] by auto
  qed
  moreover have "pr_sent (sender_send PA b (TransactionBroadcastMessage m)) = pr_sent PA @ [(b, TransactionBroadcastMessage m)]"
    using A(3) by (simp add: sender_send_def)
  ultimately show ?thesis
    using bs(4) s(1) m(4,5) by blast
qed

text \<open>Two nodes for the witnesses: a protocol state with one peer and open channels around a tangle.\<close>

definition example_protocol :: "tangle \<Rightarrow> protocol" where
  "example_protocol T = \<lparr>pr_tangle = T, pr_handshaked = [(1, \<lparr>addr_ip = 0, addr_port = 15600\<rparr>)], pr_requested = fmempty,
     pr_transaction_requester = [], pr_milestone_requester = [],
     pr_milestone_validator = \<lparr>chan_open = True, chan_queue = []\<rparr>,
     pr_transaction_solidifier = \<lparr>chan_open = True, chan_queue = []\<rparr>,
     pr_milestone_solidifier = \<lparr>chan_open = True, chan_queue = []\<rparr>,
     pr_broadcaster = \<lparr>chan_open = True, chan_queue = []\<rparr>, pr_sent = []\<rparr>"

definition example_worker_config :: worker_config where
  "example_worker_config = \<lparr>wc_mwm = 0, wc_public_key = [], wc_null_address = [],
     wc_coordinator = \<lparr>coo_depth = 1, coo_security_level = 1\<rparr>\<rparr>"

abbreviation zero_transaction :: transaction where
  "zero_transaction \<equiv> tx_of_segments zero_segments"

lemma zero_transaction_law:
  "tx_wf zero_transaction" "tx_address zero_transaction \<noteq> []"
  "\<exists>h n. hash_of zero_transaction = Some h \<and> hash_weight h = Some n"
proof -
  have "bal_val (zero_segments ! 2) = 0"
    by (simp add: zero_segments_nth)
  then show wf: "tx_wf zero_transaction"
    using segments_of_read [OF zero_segments_law(1)] by (simp add: IOTA_SUPPLY_def)
  show "tx_address zero_transaction \<noteq> []"
    by (simp add: tx_of_segments_def zero_segments_nth tx_len_values)
  obtain ts where "into_trits_allocated zero_transaction (replicate 8019 Zero) = Some ts" "length ts = 8019"
    using trits_inverse_law(2) [OF length_replicate wf] by blast
  then show "\<exists>h n. hash_of zero_transaction = Some h \<and> hash_weight h = Some n"
    using digest_transaction [OF curl81.fresh_default] hash_weight_total by meson
qed

lemma empty_tangle [simp]: "get_transaction tangle_new k = None" "\<not> contains_transaction tangle_new k"
  by (simp_all add: get_transaction_def contains_transaction_def tangle_new_def)

lemma new_worker_cache [simp]: "\<not> cache_contains (tw_cache (transaction_worker_new n)) x"
  by (simp add: transaction_worker_new_def cache_contains_def cache_new_def)

lemma announce_plain:
  assumes "tx_address tx \<noteq> wc_public_key cfg" "tx_address tx \<noteq> wc_null_address cfg"
  shows "\<exists>P'. announce_transaction cfg P from' tb tx h = Some P'"
  using assms by (simp add: announce_transaction_def Let_def)

lemma example_protocol_simps [simp]:
  "pr_tangle (example_protocol T) = T" "pr_handshaked (example_protocol T) = [(1, \<lparr>addr_ip = 0, addr_port = 15600\<rparr>)]"
  "pr_sent (example_protocol T) = []" "chan_open (pr_transaction_solidifier (example_protocol T))"
  by (simp_all add: example_protocol_def)

lemma example_config_simps [simp]:
  "wc_mwm example_worker_config = 0" "wc_public_key example_worker_config = []" "wc_null_address example_worker_config = []"
  by (simp_all add: example_worker_config_def)

theorem requested_transaction_arrives_witness:
  "\<exists>h PA PB1 request PA1 m w' PB2. process_transaction_request 0 (example_protocol tangle_new) h 7 = Some PB1
    \<and> pr_sent PB1 = [(1, TransactionRequestMessage request)]
    \<and> transaction_responder_step PA 1 request = Some PA1 \<and> pr_sent PA1 = [(1, TransactionBroadcastMessage m)]
    \<and> process_transaction_broadcast (\<lambda>_. 0) example_worker_config (transaction_worker_new 10) PB1 1 m = Some (w', PB2)
    \<and> get_transaction (pr_tangle PB2) h = Some zero_transaction"
proof -
  obtain h n where h: "hash_of zero_transaction = Some h" "hash_weight h = Some n"
    using zero_transaction_law(3) by blast
  let ?PA = "example_protocol (fst (insert_transaction tangle_new zero_transaction h))"
  have A: "get_transaction (pr_tangle ?PA) h = Some zero_transaction" "tangle_authentic example_worker_config (pr_tangle ?PA)"
    "map_of (pr_handshaked ?PA) 1 \<noteq> None"
    using h zero_transaction_law(1)
    by (auto simp: tangle_authentic_def split: if_splits)
  have B: "worker_ok (transaction_worker_new 10)" "0 < length (pr_handshaked (example_protocol tangle_new))"
    "\<not> contains_transaction (pr_tangle (example_protocol tangle_new)) h"
    by (simp_all add: worker_ok_new)
  show ?thesis
    using requested_transaction_arrives [OF A B, where index = 7 and a = 1 and xx_hash = "\<lambda>_. 0"] zero_transaction_law(2)
    by simp metis
qed

theorem stored_transactions_authentic_witness:
  "\<exists>m w' P'. transaction_message zero_transaction = Some m
    \<and> transaction_worker_run (\<lambda>_. 0) example_worker_config (transaction_worker_new 10) (example_protocol tangle_new) [(1, m)] = Some (w', P')
    \<and> tangle_authentic example_worker_config (pr_tangle P')"
proof -
  obtain m ts where m: "transaction_message zero_transaction = Some m" "length ts = 8019"
    "into_trits_allocated zero_transaction (replicate 8019 Zero) = Some ts" "decode_broadcast (tb_transaction m) = Some (Inr ts)"
    using transaction_message_law [OF zero_transaction_law(1)] by blast
  have "transaction_from_trits t1b1_buf ts = Some (Inr zero_transaction)"
    using trits_inverse_law(1) [OF m(2)] zero_transaction_law(1) m(3) by blast
  then obtain w' P' where "process_transaction_broadcast (\<lambda>_. 0) example_worker_config (transaction_worker_new 10)
      (example_protocol tangle_new) 1 m = Some (w', P')"
    using process_new [of "transaction_worker_new 10" "\<lambda>_. 0" m ts zero_transaction example_worker_config "example_protocol tangle_new" 1]
      m(4) zero_transaction_law(2) announce_plain [of zero_transaction example_worker_config] worker_ok_new [of 10]
    by fastforce
  then have "transaction_worker_run (\<lambda>_. 0) example_worker_config (transaction_worker_new 10) (example_protocol tangle_new) [(1, m)] = Some (w', P')"
    by simp
  moreover have "tangle_authentic example_worker_config (pr_tangle (example_protocol tangle_new))"
    by (simp add: tangle_authentic_def)
  ultimately show ?thesis
    using stored_transactions_authentic [OF worker_ok_new [of 10]] m(1) by (metis zero_less_numeral)
qed

section \<open>A message that stops the worker\<close>

text \<open>
  There is a broadcast of a size every node accepts, holding a transaction of value \<open>i64::MIN\<close>, on which
  every transaction worker panics that has not seen it before: the absolute value overflows.
\<close>

theorem min_value_broadcast_panics:
  "\<exists>m. 292 \<le> length (tb_transaction m) \<and> length (tb_transaction m) \<le> 1604 \<and>
    (\<forall>xx_hash cfg w P from'. worker_ok w \<and> \<not> cache_contains (tw_cache w) (xx_hash (tb_transaction m)) \<longrightarrow>
      process_transaction_broadcast xx_hash cfg w P from' m = None)"
proof -
  let ?segs = "zero_segments[2 := field_trits 81 i64_MIN]"
  have b: "\<bar>i64_MIN\<bar> \<le> int (half_range 81)" "i64_MIN \<le> i64_MAX"
    by (simp_all add: i64_MIN_def i64_MAX_def half_range_def)
  note v = field_trits_law [OF order_refl b(2,1), simplified]
  have segs: "tx_segments ?segs"
    using zero_segments_law(1) v(1) by (intro tx_segments_update) (simp_all add: tx_len_values)
  then have len: "length (concat ?segs) = 8019"
    by (rule length_segments)
  obtain bs cs where cs: "292 \<le> length cs" "length cs \<le> 1604" "decode_broadcast cs = Some (Inr (concat ?segs))"
    using wire_roundtrip [OF len] by blast
  have "bal_val (?segs ! 2) = i64_MIN"
    using v(2) tx_segments_length [OF zero_segments_law(1)] by simp
  then have "transaction_from_trits t1b1_buf (concat ?segs) = None"
    using from_trits_law [OF trits_encode_t1b1 segs] by simp
  then have "process_transaction_broadcast xx_hash cfg w P from' \<lparr>tb_transaction = cs\<rparr> = None"
    if "worker_ok w" "\<not> cache_contains (tw_cache w) (xx_hash cs)" for xx_hash cfg w P from'
    using process_unseen [of w xx_hash "\<lparr>tb_transaction = cs\<rparr>"] that cs(3)
    by (auto simp: process_transaction_broadcast_def Let_def)
  then show ?thesis
    using cs(1,2) by (intro exI [of _ "\<lparr>tb_transaction = cs\<rparr>"]) simp
qed

theorem min_value_broadcast_panics_witness:
  "\<exists>m. process_transaction_broadcast (\<lambda>_. 0) example_worker_config (transaction_worker_new 10) (example_protocol tangle_new) 1 m = None"
  using min_value_broadcast_panics worker_ok_new [of 10] new_worker_cache by (metis zero_less_numeral)

end
