(* ===== verification/Worker_Properties.thy ===== *)
theory Worker_Properties
  imports Transaction_Worker "HOL-Library.Multiset"
begin

text \<open>
  What the workers around the transaction worker do: the requesters take the request with the largest
  index first, the broadcaster reaches every peer but the one a transaction came from, the transaction
  solidifier asks for exactly what is missing and finds nothing missing only for a transaction whose past is
  complete, and the milestone solidifier moves the solid index to the next milestone only when that is solid.
\<close>

section \<open>The request queue\<close>

lemma queue_pop_empty [simp]: "queue_pop key q = None \<longleftrightarrow> q = []"
  by (cases q) (auto split: option.splits)

lemma queue_pop_law:
  "queue_pop key q = Some (x, rest) \<Longrightarrow> mset q = add_mset x (mset rest) \<and> (\<forall>y \<in> set q. key y \<le> key x)"
proof (induction q arbitrary: x rest)
  case (Cons z q)
  then show ?case
    by (cases "queue_pop key q") (fastforce split: if_splits)+
qed simp

section \<open>The transaction solidifier\<close>

lemma set_missing_hashes: "set (missing_hashes events) = {h. Missing h \<in> set events}"
  by (auto simp: missing_hashes_def split: walk_event.splits)

lemma fold_request_transaction:
  "fold (\<lambda>m P. request_transaction P m index) ms P =
    P\<lparr>pr_transaction_requester := pr_transaction_requester P @ map (\<lambda>m. (m, index)) ms\<rparr>"
  by (induction ms arbitrary: P) (simp_all add: request_transaction_def queue_insert_entry_def)

text \<open>The hashes that are missing on the way from a hash through transactions that are not solid.\<close>

definition missing_past :: "tangle \<Rightarrow> hash \<Rightarrow> hash set" where
  "missing_past T h = {m. walk_reach T (\<lambda>v. \<not> vertex_is_solid v) {h} m \<and> fmlookup (vertices T) m = None
     \<and> \<not> is_solid_entry_point T m}"

lemma missing_hashes_walk:
  "set (missing_hashes (walk_approvees_depth_first T h (\<lambda>v. \<not> vertex_is_solid v))) = missing_past T h"
  using walk_depth_first_law [of T h "\<lambda>v. \<not> vertex_is_solid v"]
  by (auto simp: set_missing_hashes Let_def walk_events_def missing_past_def)

lemma complete_past_solid:
  assumes "flags_sound T" "acyclic (references T)" "missing_past T h = {}"
  shows "solid T h"
proof -
  have "walk_reach T (\<lambda>v. \<not> vertex_is_solid v) {h} k \<Longrightarrow> solid T k" for k
    using finite_acyclic_wf [OF finite_references assms(2)]
  proof (induction k rule: wf_induct_rule)
    case (less k)
    show ?case
    proof (cases "is_solid_entry_point T k")
      case True
      then show ?thesis
        by (auto simp: is_solid_entry_point_def intro: solid.entry)
    next
      case False
      then obtain v where v: "fmlookup (vertices T) k = Some v"
        using assms(3) less.prems by (auto simp: missing_past_def)
      show ?thesis
      proof (cases "vertex_is_solid v")
        case True
        then show ?thesis
          using assms(1) v by (auto simp: flags_sound_def)
      next
        case n: False
        have "(tx_trunk (vtx_inner v), k) \<in> references T" "(tx_branch (vtx_inner v), k) \<in> references T"
          using v by (auto simp: references_def)
        then show ?thesis
          using less.IH walk_reach.trunk [OF less.prems v] walk_reach.branch [OF less.prems v] n v
          by (blast intro: solid.vertex)
      qed
    qed
  qed
  then show ?thesis
    by (simp add: walk_reach.root)
qed

text \<open>
  C18. The transaction solidifier requests, each once and with the given index, exactly the hashes missing in the
  past of the transaction, as far as the past is not already flagged as solid, in any tangle. It reports success
  exactly if there is none. Where the flags in the tangle are right and the references have no cycle, it
  then reports success only for a transaction that is solid; in a cycle, a transaction that references itself for
  example, nothing is missing although the cycle is not solid.
\<close>

theorem solidifier_requests_missing:
  "\<exists>ms complete. transaction_solidifier_step P h index =
      (P\<lparr>pr_transaction_requester := pr_transaction_requester P @ map (\<lambda>m. (m, index)) ms\<rparr>, complete)
    \<and> distinct ms \<and> set ms = missing_past (pr_tangle P) h \<and> (complete \<longleftrightarrow> ms = [])
    \<and> (flags_sound (pr_tangle P) \<and> acyclic (references (pr_tangle P)) \<and> complete \<longrightarrow> solid (pr_tangle P) h)"
proof -
  let ?ms = "missing_hashes (walk_approvees_depth_first (pr_tangle P) h (\<lambda>v. \<not> vertex_is_solid v))"
  have "transaction_solidifier_step P h index =
      (P\<lparr>pr_transaction_requester := pr_transaction_requester P @ map (\<lambda>m. (m, index)) ?ms\<rparr>, ?ms = [])"
    by (simp add: transaction_solidifier_step_def Let_def fold_request_transaction)
  moreover have "distinct ?ms"
    by (simp add: missing_hashes_def)
  moreover have "solid (pr_tangle P) h" if "flags_sound (pr_tangle P)" "acyclic (references (pr_tangle P))" "?ms = []"
    using complete_past_solid [OF that(1,2)] missing_hashes_walk [of "pr_tangle P" h] that(3) by simp
  ultimately show ?thesis
    using missing_hashes_walk by blast
qed

theorem solidifier_requests_missing_witness:
  "\<exists>ms. transaction_solidifier_step (example_protocol (nd_tangle sample_node)) [9] 5 =
      ((example_protocol (nd_tangle sample_node))\<lparr>pr_transaction_requester := map (\<lambda>m. (m, 5)) ms\<rparr>, False)
    \<and> set ms = missing_past (nd_tangle sample_node) [9] \<and> [9] \<in> set ms
    \<and> snd (transaction_solidifier_step (example_protocol (nd_tangle sample_node)) [0] 5) \<and> solid (nd_tangle sample_node) [0]"
proof -
  let ?P = "example_protocol (nd_tangle sample_node)"
  have r: "pr_transaction_requester ?P = []"
    by (simp add: example_protocol_def)
  have m: "[9] \<in> missing_past (nd_tangle sample_node) [9]"
    by (simp add: missing_past_def walk_reach.root tangle_eval Let_def)
  have n: "fmlookup (vertices (nd_tangle sample_node)) [0] = None" "is_solid_entry_point (nd_tangle sample_node) [0]"
    by (simp_all add: tangle_eval Let_def)
  have "k = [0]" if "walk_reach (nd_tangle sample_node) (\<lambda>v. \<not> vertex_is_solid v) {[0]} k" for k
    using that by induction (use n(1) in auto)
  then have "missing_past (nd_tangle sample_node) [0] = {}"
    using n(2) by (auto simp: missing_past_def)
  then have "snd (transaction_solidifier_step ?P [0] 5) \<and> solid (nd_tangle sample_node) [0]"
    using solidifier_requests_missing [of ?P "[0]" 5] sample_acyclic sample_flags by auto
  moreover obtain ms where ms: "transaction_solidifier_step ?P [9] 5 = (?P\<lparr>pr_transaction_requester := map (\<lambda>m. (m, 5)) ms\<rparr>, ms = [])"
    "set ms = missing_past (nd_tangle sample_node) [9]"
    using solidifier_requests_missing [of ?P "[9]" 5] r by auto
  moreover have "[9] \<in> set ms" "(ms = []) = False"
    using m ms(2) by auto
  ultimately show ?thesis
    by auto
qed

section \<open>The milestone solidifier\<close>

lemma fold_request_milestone:
  "fold (\<lambda>i P. if \<not> contains_milestone (pr_tangle P) (word_of_nat i) then request_milestone P (word_of_nat i) None else P) is P =
    P\<lparr>pr_milestone_requester := pr_milestone_requester P @
      map (\<lambda>i. (word_of_nat i, None)) (filter (\<lambda>i. \<not> contains_milestone (pr_tangle P) (word_of_nat i)) is)\<rparr>"
  by (induction "is" arbitrary: P) (simp_all add: request_milestone_def queue_insert_entry_def)

lemma broadcast_heartbeat_eq:
  "broadcast_heartbeat P s n =
    P\<lparr>pr_sent := pr_sent P @ map (\<lambda>(epid, _). (epid, HeartbeatMessage (heartbeat.make s n))) (pr_handshaked P)\<rparr>"
proof -
  have "fold (\<lambda>(epid, _) P. send_heartbeat P epid s n) peers P =
      P\<lparr>pr_sent := pr_sent P @ map (\<lambda>(epid, _). (epid, HeartbeatMessage (heartbeat.make s n))) peers\<rparr>"
    if "set peers \<subseteq> set (pr_handshaked P)" for peers
    using that
  proof (induction peers arbitrary: P)
    case (Cons p peers)
    have "map_of (pr_handshaked P) (fst p) \<noteq> None"
      using Cons.prems by (auto simp: map_of_eq_None_iff)
    then show ?case
      using Cons.IH Cons.prems by (cases p) (auto simp: send_heartbeat_def sender_send_def)
  qed simp
  then show ?thesis
    by (simp add: broadcast_heartbeat_def)
qed

text \<open>
  A turn of the milestone solidifier with the solid index \<open>s\<close>. Unless \<open>s + 50\<close> overflows, which panics, it
  requests every unknown milestone from \<open>s\<close> up to \<open>s + 49\<close>. The solid index becomes \<open>s + 1\<close> exactly when
  the milestone with that index is known and solid, and then every peer is sent a heartbeat with it; a known
  milestone that is not solid yet is given to the transaction solidifier instead.
\<close>

theorem milestone_solidifier_correct:
  "let s = tangle.solid_milestone_index (pr_tangle P); T = pr_tangle P in
   if 2 ^ 32 \<le> unat s + 50 then milestone_solidifier_step P = None
   else \<exists>P'. milestone_solidifier_step P = Some P'
     \<and> pr_milestone_requester P' = pr_milestone_requester P @
         map (\<lambda>i. (word_of_nat i, None)) (filter (\<lambda>i. \<not> contains_milestone T (word_of_nat i)) [unat s..<unat s + 50])
     \<and> (if \<exists>h. get_milestone_hash T (s + 1) = Some h \<and> is_solid_transaction T h
        then pr_tangle P' = update_solid_milestone_index T (s + 1)
          \<and> pr_sent P' = pr_sent P @
              map (\<lambda>(epid, _). (epid, HeartbeatMessage (heartbeat.make (s + 1) (tangle.snapshot_milestone_index T)))) (pr_handshaked P)
        else pr_tangle P' = T \<and> pr_sent P' = pr_sent P
          \<and> pr_transaction_solidifier P' =
              (case get_milestone_hash T (s + 1) of
                 Some h \<Rightarrow> send_or_log (h, s + 1) (pr_transaction_solidifier P)
               | None \<Rightarrow> pr_transaction_solidifier P))"
proof -
  let ?s = "tangle.solid_milestone_index (pr_tangle P)"
  have u: "unat (?s + 50) = unat ?s + 50" if "unat ?s + 50 < 2 ^ 32"
    using that by (simp add: unat_word_ariths)
  show ?thesis
    by (auto simp: milestone_solidifier_step_def request_milestones_def solidify_milestone_def checked_add_u32_def Let_def
        MILESTONE_REQUEST_RANGE_def fold_request_milestone broadcast_heartbeat_eq u update_solid_milestone_index_def
        trigger_transaction_solidification_def split: option.splits)
qed

section \<open>The broadcaster\<close>

lemma fold_broadcast:
  "chan_open network \<Longrightarrow> broadcast peers network from' bs =
    network\<lparr>chan_queue := chan_queue network @ map (\<lambda>(epid, _). (epid, bs)) (filter (\<lambda>(epid, _). from' \<noteq> Some epid) peers)\<rparr>"
  by (induction peers arbitrary: network) (auto simp: broadcast_def send_or_log_def chan_send_def split: option.splits)

text \<open>
  A transaction is passed on to every peer with a completed handshake except the one it came from, in one
  message each, and the bytes decode to the transaction again.
\<close>

theorem broadcast_reaches_peers:
  assumes "chan_open network" "292 \<le> length (tb_transaction tb)" "length (tb_transaction tb) \<le> 1604"
  shows "\<exists>bs. broadcaster_step P network (from', tb) =
      Some (network\<lparr>chan_queue := chan_queue network @
        map (\<lambda>(epid, _). (epid, bs)) (filter (\<lambda>(epid, _). from' \<noteq> Some epid) (pr_handshaked P))\<rparr>)
    \<and> decodes_to TransactionBroadcast bs tb"
proof -
  have "range_contains (msg_size_range TransactionBroadcast) (msg_size TransactionBroadcast tb)"
    using assms(2,3) by (simp add: TransactionBroadcast_def range_contains_def)
  then obtain bs where "tlv_into_bytes TransactionBroadcast tb = Some bs" "decodes_to TransactionBroadcast bs tb"
    using transaction_broadcast.encode_decodes [of tb] by blast
  then show ?thesis
    using fold_broadcast [OF assms(1)] by (intro exI [of _ bs]) (simp add: broadcaster_step_def)
qed

theorem broadcast_reaches_peers_witness:
  "\<exists>bs. broadcaster_step (example_protocol tangle_new) \<lparr>chan_open = True, chan_queue = []\<rparr> (Some 2, \<lparr>tb_transaction = replicate 292 0\<rparr>) =
      Some \<lparr>chan_open = True, chan_queue = [(1, bs)]\<rparr> \<and> decodes_to TransactionBroadcast bs \<lparr>tb_transaction = replicate 292 0\<rparr>"
  using broadcast_reaches_peers [of "\<lparr>chan_open = True, chan_queue = []\<rparr>" "\<lparr>tb_transaction = replicate 292 0\<rparr>"
      "example_protocol tangle_new" "Some 2"] by simp

end
