(* ===== verification/Protocol_Config.thy ===== *)
theory Protocol_Config
  imports Protocol_Workers
begin

text \<open>
  The configuration of the protocol (src/bee-protocol/src/config/config.rs): the builder with optional
  values, its setters, and \<open>finish\<close>, which fills in the defaults and decodes the public key of the
  coordinator. Deserialisation of the builder is left out. The results: \<open>finish\<close> never panics, the key always
  has 243 trits and the bytes of a handshake are its T5B1 encoding; one setter writes the wrong field.
\<close>

section \<open>Defaults\<close>

definition DEFAULT_MWM :: u8 where "DEFAULT_MWM = 14"
definition DEFAULT_COO_DEPTH :: u8 where "DEFAULT_COO_DEPTH = 24"
definition DEFAULT_COO_PUBLIC_KEY :: "nat list" where
  "DEFAULT_COO_PUBLIC_KEY =
     map of_char ''EQSAUZXULTTYZCLNJNTXQTQHOMOFZERHTCGTXOLTVAHKSA9OGAZDEKECURBRIXIJWNPFCQIOVFVVXJVD9''"
definition DEFAULT_COO_SECURITY :: u8 where "DEFAULT_COO_SECURITY = 2"
definition DEFAULT_COO_SPONGE_TYPE :: string where "DEFAULT_COO_SPONGE_TYPE = ''kerl''"
definition DEFAULT_MILESTONE_REQUEST_SEND_WORKER_BOUND :: nat where "DEFAULT_MILESTONE_REQUEST_SEND_WORKER_BOUND = 1000"
definition DEFAULT_TRANSACTION_BROADCAST_SEND_WORKER_BOUND :: nat where "DEFAULT_TRANSACTION_BROADCAST_SEND_WORKER_BOUND = 1000"
definition DEFAULT_TRANSACTION_REQUEST_SEND_WORKER_BOUND :: nat where "DEFAULT_TRANSACTION_REQUEST_SEND_WORKER_BOUND = 1000"
definition DEFAULT_HEARTBEAT_SEND_WORKER_BOUND :: nat where "DEFAULT_HEARTBEAT_SEND_WORKER_BOUND = 1000"
definition DEFAULT_MILESTONE_VALIDATOR_WORKER_BOUND :: nat where "DEFAULT_MILESTONE_VALIDATOR_WORKER_BOUND = 1000"
definition DEFAULT_TRANSACTION_SOLIDIFIER_WORKER_BOUND :: nat where "DEFAULT_TRANSACTION_SOLIDIFIER_WORKER_BOUND = 1000"
definition DEFAULT_MILESTONE_SOLIDIFIER_WORKER_BOUND :: nat where "DEFAULT_MILESTONE_SOLIDIFIER_WORKER_BOUND = 1000"
definition DEFAULT_TRANSACTION_WORKER_BOUND :: nat where "DEFAULT_TRANSACTION_WORKER_BOUND = 1000"
definition DEFAULT_TRANSACTION_WORKER_CACHE :: nat where "DEFAULT_TRANSACTION_WORKER_CACHE = 10000"
definition DEFAULT_TRANSACTION_RESPONDER_WORKER_BOUND :: nat where "DEFAULT_TRANSACTION_RESPONDER_WORKER_BOUND = 1000"
definition DEFAULT_MILESTONE_RESPONDER_WORKER_BOUND :: nat where "DEFAULT_MILESTONE_RESPONDER_WORKER_BOUND = 1000"
definition DEFAULT_TRANSACTION_REQUESTER_WORKER_BOUND :: nat where "DEFAULT_TRANSACTION_REQUESTER_WORKER_BOUND = 1000"
definition DEFAULT_MILESTONE_REQUESTER_WORKER_BOUND :: nat where "DEFAULT_MILESTONE_REQUESTER_WORKER_BOUND = 1000"
definition DEFAULT_RECEIVER_WORKER_BOUND :: nat where "DEFAULT_RECEIVER_WORKER_BOUND = 1000"
definition DEFAULT_BROADCASTER_WORKER_BOUND :: nat where "DEFAULT_BROADCASTER_WORKER_BOUND = 1000"

section \<open>The builder\<close>

record coordinator_config_builder =
  cb_depth :: "u8 option"
  cb_public_key :: "nat list option"
  cb_security_level :: "u8 option"
  cb_sponge_type :: "string option"

record workers_config_builder =
  wb_milestone_request_send_worker_bound :: "nat option"
  wb_transaction_broadcast_send_worker_bound :: "nat option"
  wb_transaction_request_send_worker_bound :: "nat option"
  wb_heartbeat_send_worker_bound :: "nat option"
  wb_milestone_validator_worker_bound :: "nat option"
  wb_transaction_solidifier_worker_bound :: "nat option"
  wb_milestone_solidifier_worker_bound :: "nat option"
  wb_transaction_worker_bound :: "nat option"
  wb_transaction_worker_cache :: "nat option"
  wb_transaction_responder_worker_bound :: "nat option"
  wb_milestone_responder_worker_bound :: "nat option"
  wb_transaction_requester_worker_bound :: "nat option"
  wb_milestone_requester_worker_bound :: "nat option"
  wb_receiver_worker_bound :: "nat option"
  wb_broadcaster_worker_bound :: "nat option"

record protocol_config_builder =
  pb_mwm :: "u8 option"
  pb_coordinator :: coordinator_config_builder
  pb_workers :: workers_config_builder

definition config_builder_new :: protocol_config_builder where
  "config_builder_new =
     \<lparr>pb_mwm = None,
      pb_coordinator = \<lparr>cb_depth = None, cb_public_key = None, cb_security_level = None, cb_sponge_type = None\<rparr>,
      pb_workers = \<lparr>wb_milestone_request_send_worker_bound = None,
        wb_transaction_broadcast_send_worker_bound = None,
        wb_transaction_request_send_worker_bound = None,
        wb_heartbeat_send_worker_bound = None,
        wb_milestone_validator_worker_bound = None,
        wb_transaction_solidifier_worker_bound = None,
        wb_milestone_solidifier_worker_bound = None,
        wb_transaction_worker_bound = None,
        wb_transaction_worker_cache = None,
        wb_transaction_responder_worker_bound = None,
        wb_milestone_responder_worker_bound = None,
        wb_transaction_requester_worker_bound = None,
        wb_milestone_requester_worker_bound = None,
        wb_receiver_worker_bound = None,
        wb_broadcaster_worker_bound = None\<rparr>\<rparr>"

definition set_mwm :: "u8 \<Rightarrow> protocol_config_builder \<Rightarrow> protocol_config_builder" where
  "set_mwm mwm self = self\<lparr>pb_mwm := Some mwm\<rparr>"

definition set_coo_depth :: "u8 \<Rightarrow> protocol_config_builder \<Rightarrow> protocol_config_builder" where
  "set_coo_depth v self = self\<lparr>pb_coordinator := (pb_coordinator self)\<lparr>cb_depth := Some v\<rparr>\<rparr>"

definition set_coo_public_key :: "nat list \<Rightarrow> protocol_config_builder \<Rightarrow> protocol_config_builder" where
  "set_coo_public_key v self = self\<lparr>pb_coordinator := (pb_coordinator self)\<lparr>cb_public_key := Some v\<rparr>\<rparr>"

definition set_coo_security_level :: "u8 \<Rightarrow> protocol_config_builder \<Rightarrow> protocol_config_builder" where
  "set_coo_security_level v self = self\<lparr>pb_coordinator := (pb_coordinator self)\<lparr>cb_security_level := Some v\<rparr>\<rparr>"

definition set_coo_sponge_type :: "string \<Rightarrow> protocol_config_builder \<Rightarrow> protocol_config_builder" where
  "set_coo_sponge_type v self = self\<lparr>pb_coordinator := (pb_coordinator self)\<lparr>cb_sponge_type := Some v\<rparr>\<rparr>"

text \<open>The setter of the bound for milestone requests writes the bound for transaction broadcasts.\<close>

definition set_milestone_request_send_worker_bound :: "nat \<Rightarrow> protocol_config_builder \<Rightarrow> protocol_config_builder" where
  "set_milestone_request_send_worker_bound v self =
     self\<lparr>pb_workers := (pb_workers self)\<lparr>wb_transaction_broadcast_send_worker_bound := Some v\<rparr>\<rparr>"

definition set_transaction_broadcast_send_worker_bound :: "nat \<Rightarrow> protocol_config_builder \<Rightarrow> protocol_config_builder" where
  "set_transaction_broadcast_send_worker_bound v self =
     self\<lparr>pb_workers := (pb_workers self)\<lparr>wb_transaction_broadcast_send_worker_bound := Some v\<rparr>\<rparr>"

definition set_transaction_request_send_worker_bound :: "nat \<Rightarrow> protocol_config_builder \<Rightarrow> protocol_config_builder" where
  "set_transaction_request_send_worker_bound v self =
     self\<lparr>pb_workers := (pb_workers self)\<lparr>wb_transaction_request_send_worker_bound := Some v\<rparr>\<rparr>"

definition set_heartbeat_send_worker_bound :: "nat \<Rightarrow> protocol_config_builder \<Rightarrow> protocol_config_builder" where
  "set_heartbeat_send_worker_bound v self =
     self\<lparr>pb_workers := (pb_workers self)\<lparr>wb_heartbeat_send_worker_bound := Some v\<rparr>\<rparr>"

definition set_milestone_validator_worker_bound :: "nat \<Rightarrow> protocol_config_builder \<Rightarrow> protocol_config_builder" where
  "set_milestone_validator_worker_bound v self =
     self\<lparr>pb_workers := (pb_workers self)\<lparr>wb_milestone_validator_worker_bound := Some v\<rparr>\<rparr>"

definition set_transaction_solidifier_worker_bound :: "nat \<Rightarrow> protocol_config_builder \<Rightarrow> protocol_config_builder" where
  "set_transaction_solidifier_worker_bound v self =
     self\<lparr>pb_workers := (pb_workers self)\<lparr>wb_transaction_solidifier_worker_bound := Some v\<rparr>\<rparr>"

definition set_milestone_solidifier_worker_bound :: "nat \<Rightarrow> protocol_config_builder \<Rightarrow> protocol_config_builder" where
  "set_milestone_solidifier_worker_bound v self =
     self\<lparr>pb_workers := (pb_workers self)\<lparr>wb_milestone_solidifier_worker_bound := Some v\<rparr>\<rparr>"

definition set_transaction_worker_bound :: "nat \<Rightarrow> protocol_config_builder \<Rightarrow> protocol_config_builder" where
  "set_transaction_worker_bound v self =
     self\<lparr>pb_workers := (pb_workers self)\<lparr>wb_transaction_worker_bound := Some v\<rparr>\<rparr>"

definition set_transaction_worker_cache :: "nat \<Rightarrow> protocol_config_builder \<Rightarrow> protocol_config_builder" where
  "set_transaction_worker_cache v self =
     self\<lparr>pb_workers := (pb_workers self)\<lparr>wb_transaction_worker_cache := Some v\<rparr>\<rparr>"

definition set_transaction_responder_worker_bound :: "nat \<Rightarrow> protocol_config_builder \<Rightarrow> protocol_config_builder" where
  "set_transaction_responder_worker_bound v self =
     self\<lparr>pb_workers := (pb_workers self)\<lparr>wb_transaction_responder_worker_bound := Some v\<rparr>\<rparr>"

definition set_milestone_responder_worker_bound :: "nat \<Rightarrow> protocol_config_builder \<Rightarrow> protocol_config_builder" where
  "set_milestone_responder_worker_bound v self =
     self\<lparr>pb_workers := (pb_workers self)\<lparr>wb_milestone_responder_worker_bound := Some v\<rparr>\<rparr>"

definition set_transaction_requester_worker_bound :: "nat \<Rightarrow> protocol_config_builder \<Rightarrow> protocol_config_builder" where
  "set_transaction_requester_worker_bound v self =
     self\<lparr>pb_workers := (pb_workers self)\<lparr>wb_transaction_requester_worker_bound := Some v\<rparr>\<rparr>"

definition set_milestone_requester_worker_bound :: "nat \<Rightarrow> protocol_config_builder \<Rightarrow> protocol_config_builder" where
  "set_milestone_requester_worker_bound v self =
     self\<lparr>pb_workers := (pb_workers self)\<lparr>wb_milestone_requester_worker_bound := Some v\<rparr>\<rparr>"

definition set_receiver_worker_bound :: "nat \<Rightarrow> protocol_config_builder \<Rightarrow> protocol_config_builder" where
  "set_receiver_worker_bound v self =
     self\<lparr>pb_workers := (pb_workers self)\<lparr>wb_receiver_worker_bound := Some v\<rparr>\<rparr>"

definition set_broadcaster_worker_bound :: "nat \<Rightarrow> protocol_config_builder \<Rightarrow> protocol_config_builder" where
  "set_broadcaster_worker_bound v self =
     self\<lparr>pb_workers := (pb_workers self)\<lparr>wb_broadcaster_worker_bound := Some v\<rparr>\<rparr>"

section \<open>The configuration\<close>

record protocol_coordinator_config =
  cc_depth :: u8
  cc_public_key :: Transactions.address
  cc_public_key_bytes :: bytes
  cc_security_level :: u8
  cc_sponge_type :: sponge_type

record protocol_workers_config =
  wk_null_address :: Transactions.address
  wk_milestone_request_send_worker_bound :: nat
  wk_transaction_broadcast_send_worker_bound :: nat
  wk_transaction_request_send_worker_bound :: nat
  wk_heartbeat_send_worker_bound :: nat
  wk_milestone_validator_worker_bound :: nat
  wk_transaction_solidifier_worker_bound :: nat
  wk_milestone_solidifier_worker_bound :: nat
  wk_transaction_worker_bound :: nat
  wk_transaction_worker_cache :: nat
  wk_transaction_responder_worker_bound :: nat
  wk_milestone_responder_worker_bound :: nat
  wk_transaction_requester_worker_bound :: nat
  wk_milestone_requester_worker_bound :: nat
  wk_receiver_worker_bound :: nat
  wk_broadcaster_worker_bound :: nat

record full_config =
  fc_mwm :: u8
  fc_coordinator :: protocol_coordinator_config
  fc_workers :: protocol_workers_config

definition unwrap_or :: "'a option \<Rightarrow> 'a \<Rightarrow> 'a" where
  "unwrap_or v d = (case v of Some x \<Rightarrow> x | None \<Rightarrow> d)"

definition sponge_type_from_str :: "string \<Rightarrow> sponge_type" where
  "sponge_type_from_str s =
     (if s = ''kerl'' then SpongeKerl else if s = ''curl27'' then SpongeCurlP27
      else if s = ''curl81'' then SpongeCurlP81 else SpongeKerl)"

text \<open>\<open>trytes.as_trits().encode::<T1B1Buf>()\<close>: the bytes of the trytes seen as T3B1 trits.\<close>

definition tryte_buf_encode :: "tryte_buf \<Rightarrow> btrit list option" where
  "tryte_buf_encode trytes = do {
     let raw = map tryte_as_i8 trytes;
     let s = raw_make t3b1 0 0 (length trytes * 3);
     ts \<leftarrow> those (map (raw_get_unchecked t3b1 raw s) [0..<raw_len t3b1 s]);
     trit_buf_from_iter t1b1_buf ts }"

definition coo_public_key_default :: "btrit list option" where
  "coo_public_key_default = do {
     r \<leftarrow> tryte_buf_try_from_str DEFAULT_COO_PUBLIC_KEY;
     (case r of Inl _ \<Rightarrow> None | Inr trytes \<Rightarrow> tryte_buf_encode trytes) }"

definition finish_public_key :: "nat list option \<Rightarrow> btrit list option" where
  "finish_public_key public_key = do {
     default \<leftarrow> coo_public_key_default;
     r \<leftarrow> tryte_buf_try_from_str (unwrap_or public_key DEFAULT_COO_PUBLIC_KEY);
     (case r of
        Inl _ \<Rightarrow> Some default
      | Inr trytes \<Rightarrow> do {
          trits \<leftarrow> tryte_buf_encode trytes;
          Some (case field_try_from_inner ADDRESS_TRIT_LEN trits of Inr key \<Rightarrow> key | Inl _ \<Rightarrow> default) }) }"

definition config_finish :: "protocol_config_builder \<Rightarrow> full_config option" where
  "config_finish self = do {
     key \<leftarrow> finish_public_key (cb_public_key (pb_coordinator self));
     bs \<leftarrow> t5b1_bytes key;
     key_bytes \<leftarrow> copy_from_slice (replicate 49 0) bs;
     null_address \<leftarrow> trit_buf_zeros t1b1_buf Zero ADDRESS_TRIT_LEN;
     Some \<lparr>fc_mwm = unwrap_or (pb_mwm self) DEFAULT_MWM,
       fc_coordinator =
         \<lparr>cc_depth = unwrap_or (cb_depth (pb_coordinator self)) DEFAULT_COO_DEPTH, cc_public_key = key,
          cc_public_key_bytes = key_bytes,
          cc_security_level = unwrap_or (cb_security_level (pb_coordinator self)) DEFAULT_COO_SECURITY,
          cc_sponge_type = sponge_type_from_str (unwrap_or (cb_sponge_type (pb_coordinator self)) DEFAULT_COO_SPONGE_TYPE)\<rparr>,
       fc_workers =
         \<lparr>wk_null_address = null_address,
          wk_milestone_request_send_worker_bound = unwrap_or (wb_milestone_request_send_worker_bound (pb_workers self)) DEFAULT_MILESTONE_REQUEST_SEND_WORKER_BOUND,
          wk_transaction_broadcast_send_worker_bound = unwrap_or (wb_transaction_broadcast_send_worker_bound (pb_workers self)) DEFAULT_TRANSACTION_BROADCAST_SEND_WORKER_BOUND,
          wk_transaction_request_send_worker_bound = unwrap_or (wb_transaction_request_send_worker_bound (pb_workers self)) DEFAULT_TRANSACTION_REQUEST_SEND_WORKER_BOUND,
          wk_heartbeat_send_worker_bound = unwrap_or (wb_heartbeat_send_worker_bound (pb_workers self)) DEFAULT_HEARTBEAT_SEND_WORKER_BOUND,
          wk_milestone_validator_worker_bound = unwrap_or (wb_milestone_validator_worker_bound (pb_workers self)) DEFAULT_MILESTONE_VALIDATOR_WORKER_BOUND,
          wk_transaction_solidifier_worker_bound = unwrap_or (wb_transaction_solidifier_worker_bound (pb_workers self)) DEFAULT_TRANSACTION_SOLIDIFIER_WORKER_BOUND,
          wk_milestone_solidifier_worker_bound = unwrap_or (wb_milestone_solidifier_worker_bound (pb_workers self)) DEFAULT_MILESTONE_SOLIDIFIER_WORKER_BOUND,
          wk_transaction_worker_bound = unwrap_or (wb_transaction_worker_bound (pb_workers self)) DEFAULT_TRANSACTION_WORKER_BOUND,
          wk_transaction_worker_cache = unwrap_or (wb_transaction_worker_cache (pb_workers self)) DEFAULT_TRANSACTION_WORKER_CACHE,
          wk_transaction_responder_worker_bound = unwrap_or (wb_transaction_responder_worker_bound (pb_workers self)) DEFAULT_TRANSACTION_RESPONDER_WORKER_BOUND,
          wk_milestone_responder_worker_bound = unwrap_or (wb_milestone_responder_worker_bound (pb_workers self)) DEFAULT_MILESTONE_RESPONDER_WORKER_BOUND,
          wk_transaction_requester_worker_bound = unwrap_or (wb_transaction_requester_worker_bound (pb_workers self)) DEFAULT_TRANSACTION_REQUESTER_WORKER_BOUND,
          wk_milestone_requester_worker_bound = unwrap_or (wb_milestone_requester_worker_bound (pb_workers self)) DEFAULT_MILESTONE_REQUESTER_WORKER_BOUND,
          wk_receiver_worker_bound = unwrap_or (wb_receiver_worker_bound (pb_workers self)) DEFAULT_RECEIVER_WORKER_BOUND,
          wk_broadcaster_worker_bound = unwrap_or (wb_broadcaster_worker_bound (pb_workers self)) DEFAULT_BROADCASTER_WORKER_BOUND\<rparr>\<rparr> }"

text \<open>What the workers read of it.\<close>

definition worker_config_of :: "full_config \<Rightarrow> worker_config" where
  "worker_config_of cfg =
     \<lparr>wc_mwm = fc_mwm cfg, wc_public_key = cc_public_key (fc_coordinator cfg),
      wc_null_address = wk_null_address (fc_workers cfg),
      wc_coordinator = \<lparr>coo_depth = cc_depth (fc_coordinator cfg), coo_security_level = cc_security_level (fc_coordinator cfg)\<rparr>\<rparr>"

text \<open>\<open>slice_eq\<close>, with which a handshake compares the keys.\<close>

definition slice_eq :: "bytes \<Rightarrow> bytes \<Rightarrow> bool" where
  "slice_eq a b = (if length a \<noteq> length b then False else list_all (\<lambda>i. a ! i = b ! i) [0..<length a])"

section \<open>Properties\<close>

lemma tryte_buf_try_from_str_total:
  "\<exists>r. tryte_buf_try_from_str s = Some r \<and> (\<forall>trytes. r = Inr trytes \<longrightarrow> length trytes = length s)"
proof (induction s)
  case (Cons c s)
  then show ?case
    using tryte_try_from_char_total [of c] by (fastforce split: sum.splits)
qed simp

text \<open>The trits of a buffer of trytes: three trits with the value of each tryte.\<close>

lemma tryte_buf_encode_law:
  assumes "length trytes * 3 \<le> packed_cap t3b1"
  obtains ts where "tryte_buf_encode trytes = Some ts" "length ts = length trytes * 3"
    "\<And>j. j < length trytes \<Longrightarrow> tryte_at ts j = tryte_as_i8 (trytes ! j)"
proof -
  let ?raw = "map tryte_as_i8 trytes" and ?s = "raw_make t3b1 0 0 (length trytes * 3)"
  let ?ts = "map (trit_at t3b1 ?raw) [0..<length ?raw * 3]"
  have vs: "tryte_values ?raw"
    using tryte_as_i8_range by (simp add: tryte_values_def list_all_iff)
  then have valid: "list_all (is_valid t3b1) ?raw"
    by (auto simp: tryte_values_def t3b1_def t3b1_is_valid_def list_all_iff)
  have s: "wf_slice t3b1 ?raw ?s" "slice_trits t3b1 ?raw ?s = ?ts"
    using t3b1.try_from_raw_law [OF valid _ assms] valid
    by (auto simp: raw_try_from_raw_def raw_from_raw_unchecked_def t3b1_def)
  have "map (raw_get_unchecked t3b1 ?raw ?s) [0..<raw_len t3b1 ?s] = map Some ?ts"
    using t3b1.raw_get_law [OF s(1)] length_slice_trits [of t3b1 ?raw ?s]
    unfolding s(2) by (intro nth_equalityI) simp_all
  moreover have "those (map Some ?ts) = Some ?ts"
    using map_Some_those [of "\<lambda>x. x" ?ts] by simp
  ultimately have "tryte_buf_encode trytes = Some ?ts"
    by (simp add: tryte_buf_encode_def Let_def from_iter_t1b1 del: map_map)
  then show ?thesis
    using that [of ?ts] tryte_at_t3b1 [OF vs] by simp
qed

text \<open>The trytes of the key that a configuration asks for: the given ones when they are 81 trytes.\<close>

definition coordinator_trytes :: "nat list option \<Rightarrow> tryte_buf" where
  "coordinator_trytes key =
     (let parse = (\<lambda>s. case tryte_buf_try_from_str s of Some (Inr trytes) \<Rightarrow> trytes | _ \<Rightarrow> []);
          given = parse (unwrap_or key [])
      in if length given = 81 then given else parse DEFAULT_COO_PUBLIC_KEY)"

lemma default_key_trytes:
  obtains trytes where "tryte_buf_try_from_str DEFAULT_COO_PUBLIC_KEY = Some (Inr trytes)" "length trytes = 81"
proof -
  have "(case tryte_buf_try_from_str DEFAULT_COO_PUBLIC_KEY of Some (Inr trytes) \<Rightarrow> length trytes = 81 | _ \<Rightarrow> False)"
    by code_simp
  then show ?thesis
    using that by (auto split: option.splits sum.splits)
qed

lemma cap_243: "243 \<le> packed_cap t3b1" "243 \<le> packed_cap t5b1"
  by (simp_all add: packed_cap_def t3b1_def t5b1_def)

lemma finish_public_key_law:
  assumes "length (unwrap_or key []) * 3 \<le> packed_cap t3b1"
  shows "\<exists>ts. finish_public_key key = Some ts \<and> length ts = 243
    \<and> (\<forall>j < 81. tryte_at ts j = tryte_as_i8 (coordinator_trytes key ! j))"
proof -
  obtain d where d: "tryte_buf_try_from_str DEFAULT_COO_PUBLIC_KEY = Some (Inr d)" "length d = 81"
    by (rule default_key_trytes)
  obtain dt where dt: "tryte_buf_encode d = Some dt" "length dt = 243" "\<And>j. j < 81 \<Longrightarrow> tryte_at dt j = tryte_as_i8 (d ! j)"
    using tryte_buf_encode_law [of d] cap_243 d(2) by auto
  have default: "coo_public_key_default = Some dt"
    using d(1) dt(1) by (simp add: coo_public_key_default_def)
  show ?thesis
  proof (cases key)
    case None
    then show ?thesis
      by (simp add: d dt default finish_public_key_def unwrap_or_def field_try_from_inner_def ADDRESS_TRIT_LEN_def coordinator_trytes_def)
  next
    case (Some s)
    obtain r where r: "tryte_buf_try_from_str s = Some r" "\<And>trytes. r = Inr trytes \<Longrightarrow> length trytes = length s"
      using tryte_buf_try_from_str_total [of s] by auto
    show ?thesis
    proof (cases r)
      case (Inl e)
      then show ?thesis
        by (simp add: Some r(1) d dt default finish_public_key_def unwrap_or_def coordinator_trytes_def)
    next
      case (Inr trytes)
      obtain ts where ts: "tryte_buf_encode trytes = Some ts" "length ts = length trytes * 3"
        "\<And>j. j < length trytes \<Longrightarrow> tryte_at ts j = tryte_as_i8 (trytes ! j)"
        using tryte_buf_encode_law [of trytes] assms Some r(2) Inr by (auto simp: unwrap_or_def)
      then show ?thesis
        by (simp add: Some Inr r(1) d dt default finish_public_key_def unwrap_or_def coordinator_trytes_def field_try_from_inner_def ADDRESS_TRIT_LEN_def)
    qed
  qed
qed

text \<open>
  \<open>finish\<close> never panics. The key of the coordinator always has 243 trits: those of the given string
  when it is 81 valid trytes, and of the default otherwise. The 49 bytes sent in handshakes are a valid T5B1
  encoding which decodes to the key.
\<close>

theorem config_finish_correct:
  assumes "length (unwrap_or (cb_public_key (pb_coordinator self)) []) * 3 \<le> packed_cap t3b1"
  shows "\<exists>cfg coo. config_finish self = Some cfg \<and> coo = fc_coordinator cfg \<and> length (cc_public_key coo) = 243
    \<and> (\<forall>j < 81. tryte_at (cc_public_key coo) j
          = tryte_as_i8 (coordinator_trytes (cb_public_key (pb_coordinator self)) ! j))
    \<and> length (cc_public_key_bytes coo) = 49
    \<and> (\<exists>s. raw_try_from_raw t5b1 (cast_i8 (cc_public_key_bytes coo)) 243 = Some (Inr s)
          \<and> slice_trits t5b1 (cast_i8 (cc_public_key_bytes coo)) s = cc_public_key coo)
    \<and> wk_null_address (fc_workers cfg) = replicate 243 Zero"
proof -
  obtain ts where ts: "finish_public_key (cb_public_key (pb_coordinator self)) = Some ts" "length ts = 243"
    "\<forall>j < 81. tryte_at ts j = tryte_as_i8 (coordinator_trytes (cb_public_key (pb_coordinator self)) ! j)"
    using finish_public_key_law [OF assms] by blast
  obtain bs s where "t5b1_bytes ts = Some bs" "length bs = 49"
    "raw_try_from_raw t5b1 (cast_i8 bs) 243 = Some (Inr s)" "slice_trits t5b1 (cast_i8 bs) s = ts"
    using t5b1_bytes_law [of ts] cap_243 ts(2) by auto
  moreover have "trit_buf_zeros t1b1_buf Zero ADDRESS_TRIT_LEN = Some (replicate 243 Zero)"
    by (simp add: trit_buf_zeros_def ADDRESS_TRIT_LEN_def)
  ultimately show ?thesis
    using ts by (simp add: config_finish_def)
qed

text \<open>A configuration with a key of one tryte, which falls back to the default.\<close>

theorem config_finish_correct_witness:
  "\<exists>cfg. config_finish (set_coo_public_key [57] config_builder_new) = Some cfg
    \<and> tryte_at (cc_public_key (fc_coordinator cfg)) 0 = 5"
proof -
  let ?self = "set_coo_public_key [57] config_builder_new"
  have key: "cb_public_key (pb_coordinator ?self) = Some [57]"
    by (simp add: set_coo_public_key_def)
  have "coordinator_trytes (Some [57]) ! 0 = T_E"
    by code_simp
  then show ?thesis
    using config_finish_correct [of ?self] cap_243(1) unfolding key by (auto simp: unwrap_or_def)
qed

text \<open>
  The setters write what \<open>finish\<close> reads, with one exception: the setter for the bound of the milestone
  request sender leaves that bound at what it was and overwrites the bound of the transaction broadcast
  sender.
\<close>

theorem milestone_request_bound_misdirected:
  assumes "config_finish self = Some cfg"
  shows "config_finish (set_milestone_request_send_worker_bound n self)
      = Some (cfg\<lparr>fc_workers := (fc_workers cfg)\<lparr>wk_transaction_broadcast_send_worker_bound := n\<rparr>\<rparr>)
    \<and> config_finish (set_transaction_broadcast_send_worker_bound n self)
      = config_finish (set_milestone_request_send_worker_bound n self)
    \<and> config_finish (set_transaction_request_send_worker_bound n self)
      = Some (cfg\<lparr>fc_workers := (fc_workers cfg)\<lparr>wk_transaction_request_send_worker_bound := n\<rparr>\<rparr>)"
proof -
  obtain key bs key_bytes null_address where
    "finish_public_key (cb_public_key (pb_coordinator self)) = Some key" "t5b1_bytes key = Some bs"
    "copy_from_slice (replicate 49 0) bs = Some key_bytes" "trit_buf_zeros t1b1_buf Zero ADDRESS_TRIT_LEN = Some null_address"
    using assms by (auto simp: config_finish_def bind_eq_Some_conv)
  then show ?thesis
    using assms
    by (auto simp: config_finish_def set_milestone_request_send_worker_bound_def unwrap_or_def
        set_transaction_broadcast_send_worker_bound_def set_transaction_request_send_worker_bound_def)
qed

theorem milestone_request_bound_misdirected_witness:
  "\<exists>cfg. config_finish (set_milestone_request_send_worker_bound 7 config_builder_new) = Some cfg
    \<and> wk_transaction_broadcast_send_worker_bound (fc_workers cfg) = 7
    \<and> wk_milestone_request_send_worker_bound (fc_workers cfg) = 1000"
proof -
  obtain ts where ts: "finish_public_key None = Some ts" "length ts = 243"
    using finish_public_key_law [of None] by (auto simp: unwrap_or_def)
  obtain bs where "t5b1_bytes ts = Some bs" "length bs = 49"
    using t5b1_bytes_law [of ts] cap_243 ts(2) by auto
  then obtain cfg where cfg: "config_finish config_builder_new = Some cfg"
      "wk_milestone_request_send_worker_bound (fc_workers cfg) = 1000"
    using ts(1) by (auto simp: config_finish_def config_builder_new_def trit_buf_zeros_def ADDRESS_TRIT_LEN_def
        unwrap_or_def DEFAULT_MILESTONE_REQUEST_SEND_WORKER_BOUND_def)
  show ?thesis
    using milestone_request_bound_misdirected [OF cfg(1), of 7] cfg(2) by simp
qed

end
