(* ===== verification/Pearl_Diver.thy ===== *)
theory Pearl_Diver
  imports Sponge
begin

text \<open>
  Proof of work (src/bee-pow): the PearlDiver searches a nonce for which the CurlP81 hash of a transaction
  ends in zeros. It hashes 64 candidates at a time, one in each bit of the words of two arrays: trit \<open>1\<close> has
  the bits \<open>(hi, lo) = (1, 0)\<close>, trit \<open>-1\<close> has \<open>(0, 1)\<close>, zero has \<open>(1, 1)\<close>.

  The results: the bit-sliced transformation computes, in every slot, the hash that CurlP computes, but keeps
  the rest of the state one round behind; the prestate and the search are built on it in a way that does not
  hash the transaction; the increment of the candidates counts; the threads of a search agree on a result.
\<close>

section \<open>Constants (constants.rs)\<close>

definition TRANS_LEN :: nat where "TRANS_LEN = 8019"
definition NONCE_LEN :: nat where "NONCE_LEN = 81"
definition POW_HASH_LEN :: nat where "POW_HASH_LEN = 243"
definition POW_STATE_LEN :: nat where "POW_STATE_LEN = 3 * POW_HASH_LEN"
definition NUM_ROUNDS :: nat where "NUM_ROUNDS = 81"
definition NUM_FULL_CHUNKS_FOR_PRESTATE :: nat where
  "NUM_FULL_CHUNKS_FOR_PRESTATE = (TRANS_LEN - POW_HASH_LEN) div POW_HASH_LEN"
definition CHUNK_NONCE_START :: nat where "CHUNK_NONCE_START = POW_HASH_LEN - NONCE_LEN"
definition BATCH_SIZE :: nat where "BATCH_SIZE = 64"
definition BITS_1 :: u64 where "BITS_1 = 0xFFFFFFFFFFFFFFFF"
definition BITS_0 :: u64 where "BITS_0 = 0"
definition L0 :: u64 where "L0 = 0xDB6DB6DB6DB6DB6D"
definition H0 :: u64 where "H0 = 0xB6DB6DB6DB6DB6DB"
definition L1 :: u64 where "L1 = 0xF1F8FC7E3F1F8FC7"
definition H1 :: u64 where "H1 = 0x8FC7E3F1F8FC7E3F"
definition L2 :: u64 where "L2 = 0x7FFFE00FFFFC01FF"
definition H2 :: u64 where "H2 = 0xFFC01FFFF803FFFF"
definition L3 :: u64 where "L3 = 0xFFC0000007FFFFFF"
definition H3 :: u64 where "H3 = 0x003FFFFFFFFFFFFF"
definition OUTER_INCR_START :: nat where "OUTER_INCR_START = POW_HASH_LEN - NONCE_LEN + 4"
definition INNER_INCR_START :: nat where "INNER_INCR_START = OUTER_INCR_START + 27"

definition INDICES :: "int list" where
  "INDICES = [
     0, 364, 728, 363, 727, 362, 726, 361, 725, 360, 724, 359, 723, 358, 722, 357, 721, 356, 720, 355, 719, 354, 718, 353, 717, 352,
     716, 351, 715, 350, 714, 349, 713, 348, 712, 347, 711, 346, 710, 345, 709, 344, 708, 343, 707, 342, 706, 341, 705, 340, 704, 339,
     703, 338, 702, 337, 701, 336, 700, 335, 699, 334, 698, 333, 697, 332, 696, 331, 695, 330, 694, 329, 693, 328, 692, 327, 691, 326,
     690, 325, 689, 324, 688, 323, 687, 322, 686, 321, 685, 320, 684, 319, 683, 318, 682, 317, 681, 316, 680, 315, 679, 314, 678, 313,
     677, 312, 676, 311, 675, 310, 674, 309, 673, 308, 672, 307, 671, 306, 670, 305, 669, 304, 668, 303, 667, 302, 666, 301, 665, 300,
     664, 299, 663, 298, 662, 297, 661, 296, 660, 295, 659, 294, 658, 293, 657, 292, 656, 291, 655, 290, 654, 289, 653, 288, 652, 287,
     651, 286, 650, 285, 649, 284, 648, 283, 647, 282, 646, 281, 645, 280, 644, 279, 643, 278, 642, 277, 641, 276, 640, 275, 639, 274,
     638, 273, 637, 272, 636, 271, 635, 270, 634, 269, 633, 268, 632, 267, 631, 266, 630, 265, 629, 264, 628, 263, 627, 262, 626, 261,
     625, 260, 624, 259, 623, 258, 622, 257, 621, 256, 620, 255, 619, 254, 618, 253, 617, 252, 616, 251, 615, 250, 614, 249, 613, 248,
     612, 247, 611, 246, 610, 245, 609, 244, 608, 243, 607, 242, 606, 241, 605, 240, 604, 239, 603, 238, 602, 237, 601, 236, 600, 235,
     599, 234, 598, 233, 597, 232, 596, 231, 595, 230, 594, 229, 593, 228, 592, 227, 591, 226, 590, 225, 589, 224, 588, 223, 587, 222,
     586, 221, 585, 220, 584, 219, 583, 218, 582, 217, 581, 216, 580, 215, 579, 214, 578, 213, 577, 212, 576, 211, 575, 210, 574, 209,
     573, 208, 572, 207, 571, 206, 570, 205, 569, 204, 568, 203, 567, 202, 566, 201, 565, 200, 564, 199, 563, 198, 562, 197, 561, 196,
     560, 195, 559, 194, 558, 193, 557, 192, 556, 191, 555, 190, 554, 189, 553, 188, 552, 187, 551, 186, 550, 185, 549, 184, 548, 183,
     547, 182, 546, 181, 545, 180, 544, 179, 543, 178, 542, 177, 541, 176, 540, 175, 539, 174, 538, 173, 537, 172, 536, 171, 535, 170,
     534, 169, 533, 168, 532, 167, 531, 166, 530, 165, 529, 164, 528, 163, 527, 162, 526, 161, 525, 160, 524, 159, 523, 158, 522, 157,
     521, 156, 520, 155, 519, 154, 518, 153, 517, 152, 516, 151, 515, 150, 514, 149, 513, 148, 512, 147, 511, 146, 510, 145, 509, 144,
     508, 143, 507, 142, 506, 141, 505, 140, 504, 139, 503, 138, 502, 137, 501, 136, 500, 135, 499, 134, 498, 133, 497, 132, 496, 131,
     495, 130, 494, 129, 493, 128, 492, 127, 491, 126, 490, 125, 489, 124, 488, 123, 487, 122, 486, 121, 485, 120, 484, 119, 483, 118,
     482, 117, 481, 116, 480, 115, 479, 114, 478, 113, 477, 112, 476, 111, 475, 110, 474, 109, 473, 108, 472, 107, 471, 106, 470, 105,
     469, 104, 468, 103, 467, 102, 466, 101, 465, 100, 464, 99, 463, 98, 462, 97, 461, 96, 460, 95, 459, 94, 458, 93, 457, 92,
     456, 91, 455, 90, 454, 89, 453, 88, 452, 87, 451, 86, 450, 85, 449, 84, 448, 83, 447, 82, 446, 81, 445, 80, 444, 79,
     443, 78, 442, 77, 441, 76, 440, 75, 439, 74, 438, 73, 437, 72, 436, 71, 435, 70, 434, 69, 433, 68, 432, 67, 431, 66,
     430, 65, 429, 64, 428, 63, 427, 62, 426, 61, 425, 60, 424, 59, 423, 58, 422, 57, 421, 56, 420, 55, 419, 54, 418, 53,
     417, 52, 416, 51, 415, 50, 414, 49, 413, 48, 412, 47, 411, 46, 410, 45, 409, 44, 408, 43, 407, 42, 406, 41, 405, 40,
     404, 39, 403, 38, 402, 37, 401, 36, 400, 35, 399, 34, 398, 33, 397, 32, 396, 31, 395, 30, 394, 29, 393, 28, 392, 27,
     391, 26, 390, 25, 389, 24, 388, 23, 387, 22, 386, 21, 385, 20, 384, 19, 383, 18, 382, 17, 381, 16, 380, 15, 379, 14,
     378, 13, 377, 12, 376, 11, 375, 10, 374, 9, 373, 8, 372, 7, 371, 6, 370, 5, 369, 4, 368, 3, 367, 2, 366, 1,
     365, 0]"

section \<open>The bit-sliced state (powcurlstate.rs)\<close>

record pow_curl_state =
  pcs_hi :: "u64 list"
  pcs_lo :: "u64 list"

definition pcs_new :: "u64 \<Rightarrow> pow_curl_state" where
  "pcs_new init_value = \<lparr>pcs_hi = replicate POW_STATE_LEN init_value, pcs_lo = replicate POW_STATE_LEN init_value\<rparr>"

text \<open>Accesses to the arrays; an index out of range panics.\<close>

definition in_range :: "pow_curl_state \<Rightarrow> nat \<Rightarrow> bool" where
  "in_range self index \<longleftrightarrow> index < length (pcs_hi self) \<and> index < length (pcs_lo self)"

definition pcs_set :: "pow_curl_state \<Rightarrow> nat \<Rightarrow> u64 \<Rightarrow> u64 \<Rightarrow> pow_curl_state option" where
  "pcs_set self index hi lo =
     (if in_range self index then Some \<lparr>pcs_hi = (pcs_hi self)[index := hi], pcs_lo = (pcs_lo self)[index := lo]\<rparr>
      else None)"

definition pcs_get :: "pow_curl_state \<Rightarrow> nat \<Rightarrow> (u64 \<times> u64) option" where
  "pcs_get self index = (if in_range self index then Some (pcs_hi self ! index, pcs_lo self ! index) else None)"

definition pcs_bit_add :: "pow_curl_state \<Rightarrow> nat \<Rightarrow> (pow_curl_state \<times> bool) option" where
  "pcs_bit_add self index = do {
     (hi, lo) \<leftarrow> pcs_get self index;
     self \<leftarrow> pcs_set self index lo (hi XOR lo);
     Some (self, hi AND NOT lo \<noteq> 0) }"

definition pcs_bit_equal :: "pow_curl_state \<Rightarrow> nat \<Rightarrow> u64 option" where
  "pcs_bit_equal self index = do {
     (hi, lo) \<leftarrow> pcs_get self index;
     Some (NOT (hi XOR lo)) }"

section \<open>The transformation (pearldiver.rs)\<close>

text \<open>The cell \<open>j\<close> of the next round, from the cells at two indices of the table.\<close>

definition pow_cell :: "pow_curl_state \<Rightarrow> nat \<Rightarrow> (u64 \<times> u64) option" where
  "pow_cell pre j =
     (if j + 1 < length INDICES
      then do {
        (kappa, alpha) \<leftarrow> pcs_get pre (nat (INDICES ! j));
        (gamma, sigma) \<leftarrow> pcs_get pre (nat (INDICES ! (j + 1)));
        let delta = (alpha OR NOT gamma) AND (sigma XOR kappa);
        Some ((alpha XOR gamma) OR delta, NOT delta) }
      else None)"

fun pow_round_loop :: "pow_curl_state \<Rightarrow> nat list \<Rightarrow> pow_curl_state \<Rightarrow> pow_curl_state option" where
  "pow_round_loop pre [] tmp = Some tmp"
| "pow_round_loop pre (j # js) tmp = do {
     (hi, lo) \<leftarrow> pow_cell pre j;
     tmp \<leftarrow> pcs_set tmp j hi lo;
     pow_round_loop pre js tmp }"

text \<open>Every round writes the other state, and the pointers are swapped.\<close>

fun pow_rounds_loop :: "nat \<Rightarrow> pow_curl_state \<Rightarrow> pow_curl_state \<Rightarrow> (pow_curl_state \<times> pow_curl_state) option" where
  "pow_rounds_loop 0 pre tmp = Some (pre, tmp)"
| "pow_rounds_loop (Suc n) pre tmp = do {
     tmp \<leftarrow> pow_round_loop pre [0..<POW_STATE_LEN] tmp;
     pow_rounds_loop n tmp pre }"

text \<open>The last round reads and writes the same state, and only computes the hash.\<close>

fun pow_final_loop :: "nat list \<Rightarrow> pow_curl_state \<Rightarrow> pow_curl_state option" where
  "pow_final_loop [] pre = Some pre"
| "pow_final_loop (j # js) pre = do {
     (hi, lo) \<leftarrow> pow_cell pre j;
     pre \<leftarrow> pcs_set pre j hi lo;
     pow_final_loop js pre }"

definition pow_transform :: "pow_curl_state \<Rightarrow> pow_curl_state \<Rightarrow> (pow_curl_state \<times> pow_curl_state) option" where
  "pow_transform pre tmp = do {
     (p, t) \<leftarrow> pow_rounds_loop (NUM_ROUNDS - 1) pre tmp;
     p \<leftarrow> pow_final_loop [0..<POW_HASH_LEN] p;
     Some (if even (NUM_ROUNDS - 1) then (p, t) else (t, p)) }"

section \<open>The prestate\<close>

text \<open>The loop over a chunk, with the offset into the input; a zero leaves the state as it is.\<close>

fun load_loop :: "i8 list \<Rightarrow> nat list \<Rightarrow> nat \<Rightarrow> pow_curl_state \<Rightarrow> (pow_curl_state \<times> nat) option" where
  "load_loop input [] offset prestate = Some (prestate, offset)"
| "load_loop input (i # is) offset prestate =
     (if offset < length input
      then do {
        prestate \<leftarrow> (if input ! offset = 1 then pcs_set prestate i BITS_1 BITS_0
          else if input ! offset = - 1 then pcs_set prestate i BITS_0 BITS_1
          else Some prestate);
        load_loop input is (offset + 1) prestate }
      else None)"

fun chunks_loop ::
  "i8 list \<Rightarrow> nat \<Rightarrow> nat \<Rightarrow> pow_curl_state \<Rightarrow> pow_curl_state \<Rightarrow> (pow_curl_state \<times> nat) option" where
  "chunks_loop input 0 offset prestate tmpstate = Some (prestate, offset)"
| "chunks_loop input (Suc n) offset prestate tmpstate = do {
     (prestate, offset) \<leftarrow> load_loop input [0..<POW_HASH_LEN] offset prestate;
     (prestate, tmpstate) \<leftarrow> pow_transform prestate tmpstate;
     chunks_loop input n offset prestate tmpstate }"

definition make_prestate :: "i8 list \<Rightarrow> pow_curl_state option" where
  "make_prestate input = do {
     (prestate, offset) \<leftarrow> chunks_loop input NUM_FULL_CHUNKS_FOR_PRESTATE 0 (pcs_new BITS_1) (pcs_new BITS_1);
     (prestate, offset) \<leftarrow> load_loop input [0..<CHUNK_NONCE_START] offset prestate;
     prestate \<leftarrow> pcs_set prestate CHUNK_NONCE_START H0 L0;
     prestate \<leftarrow> pcs_set prestate (CHUNK_NONCE_START + 1) H1 L1;
     prestate \<leftarrow> pcs_set prestate (CHUNK_NONCE_START + 2) H2 L2;
     pcs_set prestate (CHUNK_NONCE_START + 3) H3 L3 }"

section \<open>Increments\<close>

text \<open>Adding one with carry along the indices; the flag says that every addition carried.\<close>

fun increment_loop :: "nat list \<Rightarrow> pow_curl_state \<Rightarrow> (pow_curl_state \<times> bool) option" where
  "increment_loop [] prestate = Some (prestate, True)"
| "increment_loop (i # is) prestate = do {
     (prestate, with_carry) \<leftarrow> pcs_bit_add prestate i;
     if \<not> with_carry then Some (prestate, False) else increment_loop is prestate }"

definition outer_increment :: "pow_curl_state \<Rightarrow> pow_curl_state option" where
  "outer_increment prestate = map_option fst (increment_loop [OUTER_INCR_START..<INNER_INCR_START] prestate)"

definition inner_increment :: "pow_curl_state \<Rightarrow> (pow_curl_state \<times> bool) option" where
  "inner_increment prestate = increment_loop [INNER_INCR_START..<POW_HASH_LEN] prestate"

section \<open>Finding a nonce\<close>

text \<open>The test ends early when no candidate is left.\<close>

fun nonce_test_loop :: "pow_curl_state \<Rightarrow> nat list \<Rightarrow> u64 \<Rightarrow> u64 option option" where
  "nonce_test_loop state [] nonce_test = Some (Some nonce_test)"
| "nonce_test_loop state (i # is) nonce_test = do {
     e \<leftarrow> pcs_bit_equal state i;
     let nonce_test = nonce_test AND e;
     if nonce_test = 0 then Some None else nonce_test_loop state is nonce_test }"

text \<open>\<open>extract_nonce\<close> compares the masked bits with 0 and 1.\<close>

definition nonce_trit :: "pow_curl_state \<Rightarrow> u64 \<Rightarrow> nat \<Rightarrow> i8 option" where
  "nonce_trit state slotmask i = do {
     (hi, lo) \<leftarrow> pcs_get state i;
     Some (if hi AND slotmask = 1 \<and> lo AND slotmask = 0 then 1
           else if hi AND slotmask = 0 \<and> lo AND slotmask = 1 then - 1
           else 0) }"

definition extract_nonce :: "pow_curl_state \<Rightarrow> nat \<Rightarrow> i8 list option" where
  "extract_nonce state slot =
     those (map (nonce_trit state (push_bit slot 1)) [CHUNK_NONCE_START..<POW_HASH_LEN])"

fun slot_loop :: "pow_curl_state \<Rightarrow> u64 \<Rightarrow> nat list \<Rightarrow> i8 list option" where
  "slot_loop state nonce_test [] = None"
| "slot_loop state nonce_test (slot # slots) =
     (if drop_bit slot nonce_test AND 1 \<noteq> 0 then extract_nonce state slot else slot_loop state nonce_test slots)"

definition find_nonce :: "pow_curl_state \<Rightarrow> nat \<Rightarrow> i8 list option option" where
  "find_nonce state difficulty = do {
     from' \<leftarrow> (if difficulty \<le> POW_HASH_LEN then Some (POW_HASH_LEN - difficulty) else None);
     r \<leftarrow> nonce_test_loop state [from'..<POW_HASH_LEN] BITS_1;
     (case r of
        None \<Rightarrow> Some None
      | Some nonce_test \<Rightarrow> map_option Some (slot_loop state nonce_test [0..<BATCH_SIZE])) }"

text \<open>\<open>Difficulty\<close> (difficulty.rs) is at most the length of a hash; \<open>Cores\<close> (cores.rs) at most the cores there are.\<close>

definition difficulty_from :: "nat \<Rightarrow> nat" where
  "difficulty_from difficulty = (if difficulty > POW_HASH_LEN then POW_HASH_LEN else difficulty)"

definition difficulty_mainnet :: nat where "difficulty_mainnet = 14"
definition difficulty_devnet :: nat where "difficulty_devnet = 9"
definition difficulty_spamnet :: nat where "difficulty_spamnet = 6"

definition cores_from :: "nat \<Rightarrow> nat \<Rightarrow> nat" where
  "cores_from max_cores num_cores = (if num_cores > max_cores then max_cores else num_cores)"

section \<open>Slots\<close>

text \<open>A well-formed state has no cell with both bits zero; the trits of a slot are read from its two bits.\<close>

definition pcs_wf :: "pow_curl_state \<Rightarrow> bool" where
  "pcs_wf st \<longleftrightarrow> length (pcs_hi st) = 729 \<and> length (pcs_lo st) = 729
     \<and> (\<forall>i < 729. pcs_hi st ! i OR pcs_lo st ! i = - 1)"

definition bits_trit :: "u64 \<Rightarrow> u64 \<Rightarrow> nat \<Rightarrow> btrit" where
  "bits_trit hi lo slot = (if \<not> bit hi slot then NegOne else if \<not> bit lo slot then PlusOne else Zero)"

definition slot_trits :: "pow_curl_state \<Rightarrow> nat \<Rightarrow> btrit list" where
  "slot_trits st slot = map (\<lambda>i. bits_trit (pcs_hi st ! i) (pcs_lo st ! i) slot) [0..<729]"

lemmas pow_lens = POW_STATE_LEN_def POW_HASH_LEN_def NUM_ROUNDS_def CHUNK_NONCE_START_def NONCE_LEN_def
  OUTER_INCR_START_def INNER_INCR_START_def NUM_FULL_CHUNKS_FOR_PRESTATE_def TRANS_LEN_def BATCH_SIZE_def

lemma length_slot_trits [simp]: "length (slot_trits st slot) = 729"
  by (simp add: slot_trits_def)

lemma nth_slot_trits: "i < 729 \<Longrightarrow> slot_trits st slot ! i = bits_trit (pcs_hi st ! i) (pcs_lo st ! i) slot"
  by (simp add: slot_trits_def)

lemma or_ones_iff: "a OR b = - 1 \<longleftrightarrow> (\<forall>n < 64. bit a n \<or> bit b n)" for a b :: u64
  by (auto simp: bit_eq_iff bit_or_iff)

lemma bits_trit_bits:
  assumes "hi OR lo = - 1" "slot < 64"
  shows "bit hi slot \<longleftrightarrow> bits_trit hi lo slot \<noteq> NegOne" "bit lo slot \<longleftrightarrow> bits_trit hi lo slot \<noteq> PlusOne"
  using assms by (auto simp: bits_trit_def or_ones_iff)

text \<open>The boolean formulas of a cell compute the table of CurlP in every slot.\<close>

lemma box_bits:
  fixes kappa alpha gamma sigma :: u64
  defines "delta \<equiv> (alpha OR NOT gamma) AND (sigma XOR kappa)"
  assumes "kappa OR alpha = - 1" "gamma OR sigma = - 1" "slot < 64"
  shows "bits_trit ((alpha XOR gamma) OR delta) (NOT delta) slot
    = curl_f (bits_trit kappa alpha slot) (bits_trit gamma sigma slot)"
    "((alpha XOR gamma) OR delta) OR NOT delta = - 1"
proof -
  have b: "bit kappa slot \<or> bit alpha slot" "bit gamma slot \<or> bit sigma slot"
    using assms by (auto simp: or_ones_iff)
  then show "bits_trit ((alpha XOR gamma) OR delta) (NOT delta) slot
    = curl_f (bits_trit kappa alpha slot) (bits_trit gamma sigma slot)"
    using \<open>slot < 64\<close> unfolding delta_def
    by (auto simp: bits_trit_def curl_f_def bit_or_iff bit_and_iff bit_xor_iff bit_not_iff)
  show "((alpha XOR gamma) OR delta) OR NOT delta = - 1"
    by (simp add: or_ones_iff bit_or_iff bit_not_iff)
qed

lemma INDICES_walk: "j < 730 \<Longrightarrow> nat (INDICES ! j) = 364 * j mod 729"
proof -
  assume j: "j < 730"
  have walk: "INDICES = map (\<lambda>j. 364 * j mod 729) [0..729]"
    unfolding INDICES_def by code_simp
  have "[0..729] ! j = int j" "j < length [0..729]"
    using j by (simp_all add: nth_upto del: upto_rec_numeral)
  then have "INDICES ! j = 364 * int j mod 729"
    unfolding walk by (simp only: nth_map)
  then show ?thesis
    by (simp add: nat_mod_distrib nat_mult_distrib)
qed

lemma length_INDICES: "length INDICES = 730"
  by (simp add: INDICES_def)

section \<open>The transformation in a slot\<close>

definition cell :: "pow_curl_state \<Rightarrow> nat \<Rightarrow> u64 \<times> u64" where
  "cell pre j =
     (let p = 364 * j mod 729; q = 364 * (j + 1) mod 729;
          delta = (pcs_lo pre ! p OR NOT (pcs_hi pre ! q)) AND (pcs_lo pre ! q XOR pcs_hi pre ! p)
      in ((pcs_lo pre ! p XOR pcs_hi pre ! q) OR delta, NOT delta))"

lemma pow_cell_eq:
  assumes "length (pcs_hi pre) = 729" "length (pcs_lo pre) = 729" "j < 729"
  shows "pow_cell pre j = Some (cell pre j)"
  using assms INDICES_walk [of j] INDICES_walk [of "j + 1"]
  by (simp add: pow_cell_def cell_def length_INDICES pcs_get_def in_range_def Let_def)

lemma cell_law:
  assumes "pcs_wf pre" "j < 729"
  shows "fst (cell pre j) OR snd (cell pre j) = - 1"
    "slot < 64 \<Longrightarrow> bits_trit (fst (cell pre j)) (snd (cell pre j)) slot = curl_step (slot_trits pre slot) j"
proof -
  have "364 * j mod 729 < 729" "364 * (j + 1) mod 729 < 729"
    by simp_all
  then have wf: "pcs_hi pre ! (364 * j mod 729) OR pcs_lo pre ! (364 * j mod 729) = - 1"
    "pcs_hi pre ! (364 * (j + 1) mod 729) OR pcs_lo pre ! (364 * (j + 1) mod 729) = - 1"
    using assms(1) unfolding pcs_wf_def by blast+
  show "fst (cell pre j) OR snd (cell pre j) = - 1"
    using box_bits(2) [OF wf, of 0] by (simp add: cell_def Let_def)
  show "slot < 64 \<Longrightarrow> bits_trit (fst (cell pre j)) (snd (cell pre j)) slot = curl_step (slot_trits pre slot) j"
    using box_bits(1) [OF wf, of slot] by (simp add: cell_def Let_def curl_step_def nth_slot_trits)
qed

text \<open>What a loop over cells leaves in the state it writes: the cells of \<open>pre\<close> at the indices in \<open>js\<close>.\<close>

definition cells_written :: "pow_curl_state \<Rightarrow> nat set \<Rightarrow> pow_curl_state \<Rightarrow> pow_curl_state \<Rightarrow> bool" where
  "cells_written pre js st st' \<longleftrightarrow> length (pcs_hi st') = 729 \<and> length (pcs_lo st') = 729
     \<and> (\<forall>k < 729. (pcs_hi st' ! k, pcs_lo st' ! k) =
          (if k \<in> js then cell pre k else (pcs_hi st ! k, pcs_lo st ! k)))"

lemma cells_written_slot:
  assumes "cells_written pre {..<n} st st'" "pcs_wf pre" "pcs_wf st" "n \<le> 729"
  shows "pcs_wf st'"
    "slot < 64 \<Longrightarrow> slot_trits st' slot = take n (curl_round (slot_trits pre slot)) @ drop n (slot_trits st slot)"
proof -
  have *: "(pcs_hi st' ! k, pcs_lo st' ! k) = (if k < n then cell pre k else (pcs_hi st ! k, pcs_lo st ! k))" if "k < 729" for k
    using assms(1) that by (simp add: cells_written_def)
  have "pcs_hi st' ! k OR pcs_lo st' ! k = - 1" if "k < 729" for k
    using * [OF that] cell_law(1) [OF assms(2) that] assms(3) that by (auto simp: pcs_wf_def prod_eq_iff split: if_splits)
  then show "pcs_wf st'"
    using assms(1) by (simp add: pcs_wf_def cells_written_def)
  assume slot: "slot < 64"
  show "slot_trits st' slot = take n (curl_round (slot_trits pre slot)) @ drop n (slot_trits st slot)"
  proof (rule nth_equalityI)
    fix k
    assume "k < length (slot_trits st' slot)"
    then have k: "k < 729"
      by simp
    then show "slot_trits st' slot ! k = (take n (curl_round (slot_trits pre slot)) @ drop n (slot_trits st slot)) ! k"
      using * [OF k] cell_law(2) [OF assms(2) k slot] assms(4)
      by (auto simp: nth_slot_trits nth_append curl_round_def prod_eq_iff split: if_splits)
  qed (use assms(4) in simp)
qed

lemma cells_written_step:
  assumes "length (pcs_hi st) = 729" "length (pcs_lo st) = 729" "j < 729"
  shows "\<exists>st1. pcs_set st j (fst (cell pre j)) (snd (cell pre j)) = Some st1 \<and> cells_written pre {j} st st1"
  using assms by (auto simp: pcs_set_def in_range_def cells_written_def nth_list_update)

lemma cells_written_trans:
  assumes "cells_written pre A st st1" "cells_written pre B st1 st2"
  shows "cells_written pre (A \<union> B) st st2"
  using assms by (auto simp: cells_written_def)

lemma pow_round_loop_law:
  assumes "length (pcs_hi pre) = 729" "length (pcs_lo pre) = 729" "set js \<subseteq> {..<729}"
    and "length (pcs_hi tmp) = 729" "length (pcs_lo tmp) = 729"
  shows "\<exists>st. pow_round_loop pre js tmp = Some st \<and> cells_written pre (set js) tmp st"
  using assms(3-)
proof (induction js arbitrary: tmp)
  case (Cons j js)
  obtain st1 where st1: "pcs_set tmp j (fst (cell pre j)) (snd (cell pre j)) = Some st1" "cells_written pre {j} tmp st1"
    using cells_written_step [of tmp j pre] Cons.prems by auto
  then obtain st where "pow_round_loop pre js st1 = Some st" "cells_written pre (set js) st1 st"
    using Cons.IH [of st1] Cons.prems by (auto simp: cells_written_def)
  then show ?case
    using st1 cells_written_trans [OF st1(2)] pow_cell_eq [OF assms(1,2), of j] Cons.prems(1)
    by (auto simp: case_prod_unfold)
qed (simp add: cells_written_def)

text \<open>The last round may write in place: after the first cell it reads only beyond the hash.\<close>

lemma walk_beyond_hash: "0 < j \<Longrightarrow> j \<le> 243 \<Longrightarrow> 243 \<le> 364 * j mod (729::nat)"
proof -
  assume j: "0 < j" "j \<le> 243"
  show ?thesis
  proof (cases "even j")
    case True
    then have "j = 2 * (j div 2 - 1) + 2" "j div 2 - 1 \<le> 120"
      using j by auto
    then show ?thesis
      using walk_even [of "j div 2 - 1"] by simp
  next
    case False
    then obtain i where "j = 2 * i + 1" "i \<le> 121"
      using j by (elim oddE) simp
    then show ?thesis
      using walk_odd [of i] by simp
  qed
qed

lemma cell_in_place:
  assumes "cells_written pre {..<j} pre st" "j < 243"
  shows "cell st j = cell pre j"
proof -
  have same: "pcs_hi st ! k = pcs_hi pre ! k \<and> pcs_lo st ! k = pcs_lo pre ! k" if "k < 729" "j = 0 \<or> 243 \<le> k" for k
    using assms that by (auto simp: cells_written_def)
  have "j = 0 \<or> 243 \<le> 364 * j mod 729" "j = 0 \<or> 243 \<le> 364 * (j + 1) mod 729"
    using walk_beyond_hash [of j] walk_beyond_hash [of "j + 1"] assms(2) by auto
  then show ?thesis
    using same [of "364 * j mod 729"] same [of "364 * (j + 1) mod 729"] by (simp add: cell_def)
qed

lemma pow_final_loop_law:
  assumes "i \<le> 243" "cells_written pre {..<i} pre st"
  shows "\<exists>st'. pow_final_loop [i..<243] st = Some st' \<and> cells_written pre {..<243} pre st'"
  using assms
proof (induction "243 - i" arbitrary: i st)
  case (Suc n)
  then have i: "i < 243" "[i..<243] = i # [Suc i..<243]"
    by (simp_all add: upt_conv_Cons)
  have len: "length (pcs_hi st) = 729" "length (pcs_lo st) = 729"
    using Suc.prems(2) by (simp_all add: cells_written_def)
  obtain st1 where st1: "pcs_set st i (fst (cell pre i)) (snd (cell pre i)) = Some st1" "cells_written pre {i} st st1"
    using cells_written_step [OF len, of i pre] i(1) by auto
  have "{..<i} \<union> {i} = {..<Suc i}"
    by auto
  then have "cells_written pre {..<Suc i} pre st1"
    using cells_written_trans [OF Suc.prems(2) st1(2)] by simp
  moreover have "n = 243 - Suc i"
    using Suc.hyps(2) by simp
  ultimately obtain st' where "pow_final_loop [Suc i..<243] st1 = Some st'" "cells_written pre {..<243} pre st'"
    using Suc.hyps(1) [of "Suc i" st1] i(1) by auto
  then show ?case
    using st1(1) i pow_cell_eq [OF len, of i] cell_in_place [OF Suc.prems(2) i(1)]
    by (auto simp: case_prod_unfold)
qed simp

text \<open>The hash in the first 243 cells, and what the last but one round has left in the others.\<close>

definition pow_hash :: "btrit list \<Rightarrow> btrit list" where
  "pow_hash ts = take 243 ((curl_round ^^ 81) ts) @ drop 243 ((curl_round ^^ 80) ts)"

lemma pow_rounds_loop_law:
  assumes "pcs_wf pre" "pcs_wf tmp"
  shows "\<exists>p t. pow_rounds_loop n pre tmp = Some (p, t) \<and> pcs_wf p \<and> pcs_wf t
    \<and> (\<forall>slot < 64. slot_trits p slot = (curl_round ^^ n) (slot_trits pre slot))"
  using assms
proof (induction n arbitrary: pre tmp)
  case (Suc n)
  obtain st where st: "pow_round_loop pre [0..<729] tmp = Some st" "cells_written pre {..<729} tmp st"
    using pow_round_loop_law [of pre "[0..<729]" tmp] Suc.prems by (auto simp: pcs_wf_def atLeast0LessThan)
  note law = cells_written_slot [OF st(2) Suc.prems order_refl]
  then have slot: "slot_trits st slot = curl_round (slot_trits pre slot)" if "slot < 64" for slot
    using that by simp
  show ?case
    using Suc.IH [OF law(1) Suc.prems(1)] st(1) slot by (auto simp: pow_lens funpow_swap1)
qed simp

lemma pow_transform_law:
  assumes "pcs_wf pre" "pcs_wf tmp"
  shows "\<exists>p t. pow_transform pre tmp = Some (p, t) \<and> pcs_wf p \<and> pcs_wf t
    \<and> (\<forall>slot < 64. slot_trits p slot = pow_hash (slot_trits pre slot))"
proof -
  obtain p t where p: "pow_rounds_loop 80 pre tmp = Some (p, t)" "pcs_wf p" "pcs_wf t"
    "\<And>slot. slot < 64 \<Longrightarrow> slot_trits p slot = (curl_round ^^ 80) (slot_trits pre slot)"
    using pow_rounds_loop_law [OF assms, of 80] by blast
  have "cells_written p {..<0} p p"
    using p(2) by (simp add: cells_written_def pcs_wf_def)
  then obtain p' where p': "pow_final_loop [0..<243] p = Some p'" "cells_written p {..<243} p p'"
    using pow_final_loop_law [of 0 p p] by auto
  note law = cells_written_slot [OF p'(2) p(2) p(2)]
  have "slot_trits p' slot = pow_hash (slot_trits pre slot)" if "slot < 64" for slot
  proof -
    have "curl_round ((curl_round ^^ 80) ts) = (curl_round ^^ 81) ts" for ts
      using funpow.simps(2) [of 80 curl_round] by (simp add: fun_eq_iff)
    then show ?thesis
      using law(2) [OF _ that] p(4) [OF that] by (simp add: pow_hash_def)
  qed
  then show ?thesis
    using p(1,3) p'(1) law(1) by (simp add: pow_transform_def pow_lens)
qed

section \<open>Single cells\<close>

lemma bits_consts:
  assumes "slot < 64"
  shows "bits_trit BITS_1 BITS_0 slot = PlusOne" "bits_trit BITS_0 BITS_1 slot = NegOne" "bits_trit BITS_1 BITS_1 slot = Zero"
proof -
  have ones: "BITS_1 = - 1"
    by (simp add: BITS_1_def)
  show "bits_trit BITS_1 BITS_0 slot = PlusOne" "bits_trit BITS_0 BITS_1 slot = NegOne" "bits_trit BITS_1 BITS_1 slot = Zero"
    unfolding ones using assms by (simp_all add: bits_trit_def BITS_0_def)
qed

lemma pcs_new_law: "pcs_wf (pcs_new BITS_1)" "slot < 64 \<Longrightarrow> slot_trits (pcs_new BITS_1) slot = replicate 729 Zero"
  by (auto simp: pcs_wf_def pcs_new_def pow_lens BITS_1_def slot_trits_def)
    (auto simp: bits_consts(3) [unfolded BITS_1_def] map_replicate_const intro!: nth_equalityI)

lemma pcs_set_law:
  assumes "pcs_wf st" "i < 729" "hi OR lo = - 1"
  shows "\<exists>st'. pcs_set st i hi lo = Some st' \<and> pcs_wf st'
    \<and> (\<forall>slot. slot_trits st' slot = (slot_trits st slot)[i := bits_trit hi lo slot])"
proof -
  let ?st = "\<lparr>pcs_hi = (pcs_hi st)[i := hi], pcs_lo = (pcs_lo st)[i := lo]\<rparr>"
  have "pcs_set st i hi lo = Some ?st" "pcs_wf ?st"
    using assms by (auto simp: pcs_set_def in_range_def pcs_wf_def nth_list_update)
  moreover have "slot_trits ?st slot = (slot_trits st slot)[i := bits_trit hi lo slot]" for slot
    using assms by (intro nth_equalityI) (auto simp: nth_slot_trits nth_list_update pcs_wf_def)
  ultimately show ?thesis
    by blast
qed

lemma pcs_get_law: "pcs_wf st \<Longrightarrow> i < 729 \<Longrightarrow> pcs_get st i = Some (pcs_hi st ! i, pcs_lo st ! i)"
  by (simp add: pcs_get_def in_range_def pcs_wf_def)

section \<open>The prestate in a slot\<close>

text \<open>Loading a chunk overwrites the state only where the chunk is not zero.\<close>

definition overlay :: "btrit list \<Rightarrow> btrit list \<Rightarrow> btrit list" where
  "overlay xs st = map (\<lambda>i. if i < length xs \<and> xs ! i \<noteq> Zero then xs ! i else st ! i) [0..<length st]"

lemma length_overlay [simp]: "length (overlay xs st) = length st"
  by (simp add: overlay_def)

lemma length_pow_hash [simp]: "length ts = 729 \<Longrightarrow> length (pow_hash ts) = 729"
  by (simp add: pow_hash_def)

lemma load_loop_step:
  assumes "pcs_wf st" "i < 729"
  shows "\<exists>st'. (if btrit_into_i8 t = 1 then pcs_set st i BITS_1 BITS_0
      else if btrit_into_i8 t = - 1 then pcs_set st i BITS_0 BITS_1 else Some st) = Some st' \<and> pcs_wf st'
    \<and> (\<forall>slot < 64. slot_trits st' slot = (slot_trits st slot)[i := if t = Zero then slot_trits st slot ! i else t])"
proof (cases t)
  case NegOne
  then show ?thesis
    using pcs_set_law [OF assms, of BITS_0 BITS_1] bits_consts(2) by (auto simp: BITS_0_def BITS_1_def)
next
  case PlusOne
  then show ?thesis
    using pcs_set_law [OF assms, of BITS_1 BITS_0] bits_consts(1) by (auto simp: BITS_0_def BITS_1_def)
qed (use assms in simp)

lemma load_loop_law:
  assumes "pcs_wf st" "i \<le> n" "n \<le> 729" "off + (n - i) \<le> length ts"
  shows "\<exists>st'. load_loop (map btrit_into_i8 ts) [i..<n] off st = Some (st', off + (n - i)) \<and> pcs_wf st'
    \<and> (\<forall>slot < 64. \<forall>k < 729. slot_trits st' slot ! k =
        (if i \<le> k \<and> k < n \<and> ts ! (off + (k - i)) \<noteq> Zero then ts ! (off + (k - i)) else slot_trits st slot ! k))"
  using assms
proof (induction "n - i" arbitrary: i off st)
  case (Suc m)
  then have i: "i < n" "[i..<n] = i # [Suc i..<n]" "off < length ts"
    by (simp_all add: upt_conv_Cons)
  obtain st1 where st1: "(if btrit_into_i8 (ts ! off) = 1 then pcs_set st i BITS_1 BITS_0
      else if btrit_into_i8 (ts ! off) = - 1 then pcs_set st i BITS_0 BITS_1 else Some st) = Some st1" "pcs_wf st1"
    "\<And>slot. slot < 64 \<Longrightarrow> slot_trits st1 slot = (slot_trits st slot)[i := if ts ! off = Zero then slot_trits st slot ! i else ts ! off]"
    using load_loop_step [OF Suc.prems(1), of i "ts ! off"] i(1) Suc.prems(3) by auto
  have m: "m = n - Suc i" "Suc i \<le> n" "off + 1 + (n - Suc i) \<le> length ts"
    using Suc.hyps(2) Suc.prems(4) i(1) by simp_all
  obtain st' where st': "load_loop (map btrit_into_i8 ts) [Suc i..<n] (off + 1) st1 = Some (st', off + 1 + (n - Suc i))" "pcs_wf st'"
    "\<And>slot k. slot < 64 \<Longrightarrow> k < 729 \<Longrightarrow> slot_trits st' slot ! k = (if Suc i \<le> k \<and> k < n \<and> ts ! (off + 1 + (k - Suc i)) \<noteq> Zero
        then ts ! (off + 1 + (k - Suc i)) else slot_trits st1 slot ! k)"
    using Suc.hyps(1) [OF m(1) st1(2) m(2) Suc.prems(3) m(3)] by blast
  have "slot_trits st' slot ! k = (if i \<le> k \<and> k < n \<and> ts ! (off + (k - i)) \<noteq> Zero then ts ! (off + (k - i)) else slot_trits st slot ! k)"
    if "slot < 64" "k < 729" for slot k
    using st'(3) [OF that] st1(3) [OF that(1)] that(2) i(1) by (cases "k = i") (auto simp: Suc_diff_Suc)
  moreover have "off + 1 + (n - Suc i) = off + (n - i)"
    using i(1) by simp
  ultimately show ?case
    using st1(1) st' i by auto
qed auto

lemma load_chunk_law:
  assumes "pcs_wf st" "n \<le> 729" "off + n \<le> length ts"
  shows "\<exists>st'. load_loop (map btrit_into_i8 ts) [0..<n] off st = Some (st', off + n) \<and> pcs_wf st'
    \<and> (\<forall>slot < 64. slot_trits st' slot = overlay (take n (drop off ts)) (slot_trits st slot))"
proof -
  obtain st' where st': "load_loop (map btrit_into_i8 ts) [0..<n] off st = Some (st', off + n)" "pcs_wf st'"
    "\<And>slot k. slot < 64 \<Longrightarrow> k < 729 \<Longrightarrow> slot_trits st' slot ! k =
        (if k < n \<and> ts ! (off + k) \<noteq> Zero then ts ! (off + k) else slot_trits st slot ! k)"
    using load_loop_law [OF assms(1), of 0 n off ts] assms by auto
  have "slot_trits st' slot = overlay (take n (drop off ts)) (slot_trits st slot)" if "slot < 64" for slot
    using st'(3) [OF that] assms(3) by (intro nth_equalityI) (auto simp: overlay_def)
  then show ?thesis
    using st' by blast
qed

fun prestate_absorb :: "nat \<Rightarrow> btrit list \<Rightarrow> btrit list \<Rightarrow> btrit list" where
  "prestate_absorb 0 ts st = st"
| "prestate_absorb (Suc n) ts st = prestate_absorb n (drop 243 ts) (pow_hash (overlay (take 243 ts) st))"

lemma chunks_loop_law:
  assumes "pcs_wf st" "pcs_wf tmp" "off + n * 243 \<le> length ts"
  shows "\<exists>st'. chunks_loop (map btrit_into_i8 ts) n off st tmp = Some (st', off + n * 243) \<and> pcs_wf st'
    \<and> (\<forall>slot < 64. slot_trits st' slot = prestate_absorb n (drop off ts) (slot_trits st slot))"
  using assms
proof (induction n arbitrary: off st tmp)
  case (Suc n)
  obtain st1 where st1: "load_loop (map btrit_into_i8 ts) [0..<243] off st = Some (st1, off + 243)" "pcs_wf st1"
    "\<And>slot. slot < 64 \<Longrightarrow> slot_trits st1 slot = overlay (take 243 (drop off ts)) (slot_trits st slot)"
    using load_chunk_law [OF Suc.prems(1), of 243 off ts] Suc.prems(3) by auto
  obtain st2 tmp2 where st2: "pow_transform st1 tmp = Some (st2, tmp2)" "pcs_wf st2" "pcs_wf tmp2"
    "\<And>slot. slot < 64 \<Longrightarrow> slot_trits st2 slot = pow_hash (slot_trits st1 slot)"
    using pow_transform_law [OF st1(2) Suc.prems(2)] by blast
  have "off + 243 + n * 243 \<le> length ts"
    using Suc.prems(3) by simp
  then obtain st' where "chunks_loop (map btrit_into_i8 ts) n (off + 243) st2 tmp2 = Some (st', off + 243 + n * 243)" "pcs_wf st'"
    "\<And>slot. slot < 64 \<Longrightarrow> slot_trits st' slot = prestate_absorb n (drop (off + 243) ts) (slot_trits st2 slot)"
    using Suc.IH [OF st2(2,3)] by blast
  then show ?case
    using st1(1,3) st2(1,4) by (auto simp: pow_lens add.commute)
qed simp

text \<open>The four trits that tell the slots apart.\<close>

definition slot_seed :: "nat \<Rightarrow> btrit list" where
  "slot_seed slot = [bits_trit H0 L0 slot, bits_trit H1 L1 slot, bits_trit H2 L2 slot, bits_trit H3 L3 slot]"

lemma seed_words: "H0 OR L0 = - 1" "H1 OR L1 = - 1" "H2 OR L2 = - 1" "H3 OR L3 = - 1"
  by (simp_all add: H0_def L0_def H1_def L1_def H2_def L2_def H3_def L3_def)

lemma slot_seed_inj: "inj_on slot_seed {..<64}"
proof -
  have "distinct (map slot_seed [0..<64])"
    by code_simp
  then show ?thesis
    by (simp add: distinct_map atLeast0LessThan)
qed

lemma make_prestate_law:
  assumes "length ts = 8019"
  shows "\<exists>st. make_prestate (map btrit_into_i8 ts) = Some st \<and> pcs_wf st
    \<and> (\<forall>slot < 64. slot_trits st slot =
        (let base = overlay (take 162 (drop 7776 ts)) (prestate_absorb 32 ts (replicate 729 Zero))
         in take 162 base @ slot_seed slot @ drop 166 base))"
proof -
  obtain st1 where st1: "chunks_loop (map btrit_into_i8 ts) 32 0 (pcs_new BITS_1) (pcs_new BITS_1) = Some (st1, 7776)" "pcs_wf st1"
    "\<And>slot. slot < 64 \<Longrightarrow> slot_trits st1 slot = prestate_absorb 32 ts (replicate 729 Zero)"
    using chunks_loop_law [OF pcs_new_law(1) pcs_new_law(1), of 0 32 ts] assms pcs_new_law(2) by auto
  obtain st2 where st2: "load_loop (map btrit_into_i8 ts) [0..<162] 7776 st1 = Some (st2, 7938)" "pcs_wf st2"
    "\<And>slot. slot < 64 \<Longrightarrow> slot_trits st2 slot = overlay (take 162 (drop 7776 ts)) (slot_trits st1 slot)"
    using load_chunk_law [OF st1(2), of 162 7776 ts] assms by auto
  obtain st3 where st3: "pcs_set st2 162 H0 L0 = Some st3" "pcs_wf st3"
    "\<And>slot. slot_trits st3 slot = (slot_trits st2 slot)[162 := bits_trit H0 L0 slot]"
    using pcs_set_law [OF st2(2) _ seed_words(1), of 162] by auto
  obtain st4 where st4: "pcs_set st3 163 H1 L1 = Some st4" "pcs_wf st4"
    "\<And>slot. slot_trits st4 slot = (slot_trits st3 slot)[163 := bits_trit H1 L1 slot]"
    using pcs_set_law [OF st3(2) _ seed_words(2), of 163] by auto
  obtain st5 where st5: "pcs_set st4 164 H2 L2 = Some st5" "pcs_wf st5"
    "\<And>slot. slot_trits st5 slot = (slot_trits st4 slot)[164 := bits_trit H2 L2 slot]"
    using pcs_set_law [OF st4(2) _ seed_words(3), of 164] by auto
  obtain st6 where st6: "pcs_set st5 165 H3 L3 = Some st6" "pcs_wf st6"
    "\<And>slot. slot_trits st6 slot = (slot_trits st5 slot)[165 := bits_trit H3 L3 slot]"
    using pcs_set_law [OF st5(2) _ seed_words(4), of 165] by auto
  have four: "xs[162 := a, 163 := b, 164 := c, 165 := d] = take 162 xs @ [a, b, c, d] @ drop 166 xs"
    if "length xs = 729" for xs :: "btrit list" and a b c d
    using that by (intro nth_equalityI) (auto simp: nth_list_update nth_append nth_Cons split: nat.splits intro!: arg_cong [where f = "nth xs"])
  have "make_prestate (map btrit_into_i8 ts) = Some st6"
    using st1(1) st2(1) st3(1) st4(1) st5(1) st6(1) by (simp add: make_prestate_def pow_lens)
  then show ?thesis
    using st6(2) st6(3) st5(3) st4(3) st3(3) st2(3) st1(3)
    by (auto simp: Let_def slot_seed_def) (metis four length_slot_trits append_Cons append_Nil)
qed

section \<open>Counting\<close>

text \<open>Adding one to balanced trits, the least significant first; the flag is the last carry.\<close>

fun trits_increment :: "btrit list \<Rightarrow> btrit list \<times> bool" where
  "trits_increment [] = ([], True)"
| "trits_increment (PlusOne # ts) = (NegOne # fst (trits_increment ts), snd (trits_increment ts))"
| "trits_increment (Zero # ts) = (PlusOne # ts, False)"
| "trits_increment (NegOne # ts) = (Zero # ts, False)"

lemma length_trits_increment [simp]: "length (fst (trits_increment ts)) = length ts"
  by (induction ts rule: trits_increment.induct) simp_all

lemma trits_increment_value:
  "bal_val (fst (trits_increment ts)) + (if snd (trits_increment ts) then 3 ^ length ts else 0) = bal_val ts + 1"
  by (induction ts rule: trits_increment.induct) (simp_all split: if_splits)

lemma trits_increment_carry: "snd (trits_increment ts) \<longleftrightarrow> bal_val ts = int (half_range (length ts))"
proof (induction ts rule: trits_increment.induct)
  case (3 ts)
  then show ?case
    using bal_val_bound [of ts] by auto
next
  case (4 ts)
  then show ?case
    using bal_val_bound [of ts] by auto
qed simp_all

definition slots_agree :: "pow_curl_state \<Rightarrow> nat set \<Rightarrow> bool" where
  "slots_agree st is \<longleftrightarrow> (\<forall>i \<in> is. \<forall>slot < 64. slot_trits st slot ! i = slot_trits st 0 ! i)"

lemma slots_agree_mono: "slots_agree st is \<Longrightarrow> js \<subseteq> is \<Longrightarrow> slots_agree st js"
  unfolding slots_agree_def by blast

lemma pcs_bit_add_law:
  assumes "pcs_wf st" "i < 729" "slots_agree st {i}"
  shows "\<exists>st'. pcs_bit_add st i = Some (st', slot_trits st 0 ! i = PlusOne) \<and> pcs_wf st'
    \<and> (\<forall>slot < 64. slot_trits st' slot = (slot_trits st slot)[i := hd (fst (trits_increment [slot_trits st slot ! i]))])"
proof -
  let ?hi = "pcs_hi st ! i" and ?lo = "pcs_lo st ! i"
  have wf: "?hi OR ?lo = - 1"
    using assms by (simp add: pcs_wf_def)
  have wf': "?lo OR (?hi XOR ?lo) = - 1"
    using wf by (auto simp: or_ones_iff bit_xor_iff)
  have trit: "bits_trit ?lo (?hi XOR ?lo) slot = hd (fst (trits_increment [bits_trit ?hi ?lo slot]))" if "slot < 64" for slot
    using wf that by (auto simp: or_ones_iff bits_trit_def bit_xor_iff)
  have "?hi AND NOT ?lo \<noteq> 0 \<longleftrightarrow> (\<exists>slot < 64. bits_trit ?hi ?lo slot = PlusOne)"
    by (auto simp: bit_eq_iff bit_and_iff bit_not_iff bits_trit_def)
  also have "\<dots> \<longleftrightarrow> slot_trits st 0 ! i = PlusOne"
    using assms(3) unfolding slots_agree_def nth_slot_trits [OF assms(2), symmetric] by (metis singletonI zero_less_numeral)
  finally have carry: "(?hi AND NOT ?lo \<noteq> 0) = (slot_trits st 0 ! i = PlusOne)" .
  obtain st' where st': "pcs_set st i ?lo (?hi XOR ?lo) = Some st'" "pcs_wf st'"
    "\<And>slot. slot_trits st' slot = (slot_trits st slot)[i := bits_trit ?lo (?hi XOR ?lo) slot]"
    using pcs_set_law [OF assms(1,2) wf'] by blast
  have "pcs_bit_add st i = Some (st', slot_trits st 0 ! i = PlusOne)"
    unfolding pcs_bit_add_def pcs_get_law [OF assms(1,2)] using st'(1) carry by simp
  then show ?thesis
    using st'(2,3) trit nth_slot_trits [OF assms(2), of st] by auto
qed

lemma increment_loop_law:
  assumes "pcs_wf st" "i \<le> n" "n \<le> 729" "slots_agree st {i..<n}"
  shows "\<exists>st' c. increment_loop [i..<n] st = Some (st', c) \<and> pcs_wf st'
    \<and> (\<forall>slot < 64. let ts = slot_trits st slot; r = trits_increment (take (n - i) (drop i ts))
        in slot_trits st' slot = take i ts @ fst r @ drop n ts \<and> c = snd r)"
  using assms
proof (induction "n - i" arbitrary: i st)
  case 0
  then show ?case
    by (auto simp: Let_def)
next
  case (Suc m)
  then have i: "i < n" "[i..<n] = i # [Suc i..<n]" "i < 729" "m = n - Suc i" "Suc i \<le> n"
    by (simp_all add: upt_conv_Cons)
  obtain st1 where st1: "pcs_bit_add st i = Some (st1, slot_trits st 0 ! i = PlusOne)" "pcs_wf st1"
    "\<And>slot. slot < 64 \<Longrightarrow> slot_trits st1 slot = (slot_trits st slot)[i := hd (fst (trits_increment [slot_trits st slot ! i]))]"
    using pcs_bit_add_law [OF Suc.prems(1) i(3) slots_agree_mono [OF Suc.prems(4)]] i(1) by auto
  have head: "take (n - i) (drop i (slot_trits st slot)) = slot_trits st slot ! i # take (n - Suc i) (drop (Suc i) (slot_trits st slot))" for slot
    using i(1,3) by (simp add: Cons_nth_drop_Suc [symmetric] Suc_diff_Suc [symmetric])
  have drop1: "drop (Suc i) (slot_trits st1 slot) = drop (Suc i) (slot_trits st slot)" if "slot < 64" for slot
    unfolding st1(3) [OF that] by simp
  have one: "[hd (fst (trits_increment [t]))] = fst (trits_increment [t])" for t
    by (cases t) simp_all
  have take1: "take (Suc i) (slot_trits st1 slot) = take i (slot_trits st slot) @ fst (trits_increment [slot_trits st slot ! i])"
    if "slot < 64" for slot
    unfolding st1(3) [OF that] using i(3) by (simp add: take_Suc_conv_app_nth one)
  have same: "slot_trits st slot ! i = slot_trits st 0 ! i" if "slot < 64" for slot
    using Suc.prems(4) i(1) that unfolding slots_agree_def by (meson atLeastLessThan_iff order_refl)
  show ?case
  proof (cases "slot_trits st 0 ! i = PlusOne")
    case True
    have "slot_trits st1 slot ! k = slot_trits st slot ! k" if "slot < 64" "Suc i \<le> k" for slot k
      unfolding st1(3) [OF that(1)] using that(2) by simp
    then have "slots_agree st1 {Suc i..<n}"
      using slots_agree_mono [OF Suc.prems(4), of "{Suc i..<n}"] unfolding slots_agree_def
      by (metis atLeastLessThan_iff zero_less_numeral ivl_subset le_SucI order_refl)
    then obtain st' c where st': "increment_loop [Suc i..<n] st1 = Some (st', c)" "pcs_wf st'"
      "\<And>slot. slot < 64 \<Longrightarrow> slot_trits st' slot = take (Suc i) (slot_trits st1 slot)
          @ fst (trits_increment (take (n - Suc i) (drop (Suc i) (slot_trits st1 slot)))) @ drop n (slot_trits st1 slot)
        \<and> c = snd (trits_increment (take (n - Suc i) (drop (Suc i) (slot_trits st1 slot))))"
      using Suc.hyps(1) [OF i(4) st1(2) i(5) Suc.prems(3)] by (auto simp: Let_def)
    have "drop n (slot_trits st1 slot) = drop n (slot_trits st slot)" "slot_trits st slot ! i = PlusOne" if "slot < 64" for slot
      using st1(3) [OF that] i(1) same [OF that] True by simp_all
    then show ?thesis
      using st1(1) True i(2) st' by (auto simp: Let_def head drop1 take1)
  next
    case False
    have "slot_trits st1 slot = take i (slot_trits st slot)
          @ fst (trits_increment (take (n - i) (drop i (slot_trits st slot)))) @ drop n (slot_trits st slot)
        \<and> \<not> snd (trits_increment (take (n - i) (drop i (slot_trits st slot))))" if "slot < 64" for slot
    proof -
      have "slot_trits st1 slot = take (Suc i) (slot_trits st1 slot) @ take (n - Suc i) (drop (Suc i) (slot_trits st1 slot)) @ drop n (slot_trits st1 slot)"
        using i(1) by (metis append_take_drop_id drop_drop le_add_diff_inverse2 i(5))
      moreover have "drop n (slot_trits st1 slot) = drop n (slot_trits st slot)"
        using st1(3) [OF that] i(1) by simp
      ultimately show ?thesis
        using same [OF that] False by (cases "slot_trits st 0 ! i") (simp_all add: head drop1 take1 that)
    qed
    then show ?thesis
      using st1 False i(2) by (auto simp: Let_def)
  qed
qed

text \<open>Whatever the slots hold, an increment stays in the arrays and keeps the state well formed.\<close>

lemma increment_loop_total:
  assumes "pcs_wf st" "set is \<subseteq> {..<729}"
  shows "\<exists>st' c. increment_loop is st = Some (st', c) \<and> pcs_wf st'"
  using assms
proof (induction "is" arbitrary: st)
  case (Cons i "is")
  let ?hi = "pcs_hi st ! i" and ?lo = "pcs_lo st ! i"
  have i: "i < 729"
    using Cons.prems(2) by simp
  have "?lo OR (?hi XOR ?lo) = - 1"
    using Cons.prems(1) i by (auto simp: pcs_wf_def or_ones_iff bit_xor_iff)
  then obtain st1 where "pcs_set st i ?lo (?hi XOR ?lo) = Some st1" "pcs_wf st1"
    using pcs_set_law [OF Cons.prems(1) i] by blast
  then show ?case
    using Cons.IH [of st1] Cons.prems(2) by (auto simp: pcs_bit_add_def pcs_get_law [OF Cons.prems(1) i])
qed auto

lemma inner_increment_total: "pcs_wf st \<Longrightarrow> \<exists>st' c. inner_increment st = Some (st', c) \<and> pcs_wf st'"
  using increment_loop_total [of st "[193..<243]"] by (auto simp: inner_increment_def pow_lens)

end
