(* ===== verification/Pow_Search.thy ===== *)
theory Pow_Search
  imports Pearl_Diver
begin

text \<open>
  The search of the PearlDiver (src/bee-pow/src/pearldiver.rs): threads that work on copies of the prestate and
  share one state, a caller that waits for them, and another one that may cancel. The steps of all of them
  interleave; a lock is held for one read or one write.
\<close>

section \<open>The search\<close>

datatype pearl_diver_state = Created | Searching | Cancelled | Completed "i8 list option"

datatype exit_reason = Stopped | Found | Exhausted

text \<open>A thread is about to read the shared state, or has read \<open>Searching\<close>, or has left its loop.\<close>

datatype diver_thread =
    Checking pow_curl_state pow_curl_state
  | Working pow_curl_state pow_curl_state
  | Exited exit_reason

text \<open>The caller waits for the threads, has read \<open>Searching\<close> after that, or has returned.\<close>

datatype diver_caller = Joining | Closing | Returned

record pearl_diver =
  pd_difficulty :: nat
  pd_state :: pearl_diver_state
  pd_threads :: "diver_thread list"
  pd_caller :: diver_caller
  pd_cancelling :: bool

text \<open>The body of the loop of a thread, and the nonce it publishes.\<close>

definition search_turn ::
  "nat \<Rightarrow> pow_curl_state \<Rightarrow> pow_curl_state \<Rightarrow> (diver_thread \<times> i8 list option) option" where
  "search_turn difficulty state_thr state_tmp = do {
     (state_thr, state_tmp) \<leftarrow> pow_transform state_thr state_tmp;
     r \<leftarrow> find_nonce state_thr difficulty;
     (case r of
        Some nonce \<Rightarrow> Some (Exited Found, Some nonce)
      | None \<Rightarrow> do {
          (state_thr, exhausted) \<leftarrow> inner_increment state_thr;
          Some (if exhausted then Exited Exhausted else Checking state_thr state_tmp, None) }) }"

fun spawn_loop :: "nat \<Rightarrow> pow_curl_state \<Rightarrow> diver_thread list option" where
  "spawn_loop 0 prestate = Some []"
| "spawn_loop (Suc n) prestate = do {
     let state_thr = prestate;
     prestate \<leftarrow> outer_increment prestate;
     ts \<leftarrow> spawn_loop n prestate;
     Some (Checking state_thr (pcs_new BITS_1) # ts) }"

text \<open>The start of \<open>search_sync\<close>, which panics unless the search is new, up to the point where it waits.\<close>

definition search_sync :: "nat \<Rightarrow> nat \<Rightarrow> pearl_diver_state \<Rightarrow> i8 list \<Rightarrow> pearl_diver option" where
  "search_sync cores difficulty state input = do {
     _ \<leftarrow> (if state = Created then Some () else None);
     prestate \<leftarrow> make_prestate input;
     ts \<leftarrow> spawn_loop cores prestate;
     Some \<lparr>pd_difficulty = difficulty, pd_state = Searching, pd_threads = ts, pd_caller = Joining, pd_cancelling = False\<rparr> }"

inductive search_step :: "pearl_diver \<Rightarrow> pearl_diver \<Rightarrow> bool" where
  thread_check:
    "i < length (pd_threads S) \<Longrightarrow> pd_threads S ! i = Checking st tmp \<Longrightarrow>
     search_step S (S\<lparr>pd_threads := (pd_threads S)[i := if pd_state S = Searching then Working st tmp else Exited Stopped]\<rparr>)"
| thread_turn:
    "i < length (pd_threads S) \<Longrightarrow> pd_threads S ! i = Working st tmp \<Longrightarrow>
     search_turn (pd_difficulty S) st tmp = Some (t, r) \<Longrightarrow>
     search_step S (S\<lparr>pd_threads := (pd_threads S)[i := t],
       pd_state := (case r of Some nonce \<Rightarrow> Completed (Some nonce) | None \<Rightarrow> pd_state S)\<rparr>)"
| cancel_read: "pd_state S = Searching \<Longrightarrow> search_step S (S\<lparr>pd_cancelling := True\<rparr>)"
| cancel_write: "pd_cancelling S \<Longrightarrow> search_step S (S\<lparr>pd_cancelling := False, pd_state := Cancelled\<rparr>)"
| caller_joined:
    "pd_caller S = Joining \<Longrightarrow> \<forall>t \<in> set (pd_threads S). \<exists>reason. t = Exited reason \<Longrightarrow>
     search_step S (S\<lparr>pd_caller := if pd_state S = Searching then Closing else Returned\<rparr>)"
| caller_close:
    "pd_caller S = Closing \<Longrightarrow> search_step S (S\<lparr>pd_caller := Returned, pd_state := Completed None\<rparr>)"

inductive search_reachable :: "nat \<Rightarrow> nat \<Rightarrow> i8 list \<Rightarrow> pearl_diver \<Rightarrow> bool" for cores difficulty input where
  start: "search_sync cores difficulty Created input = Some S \<Longrightarrow> search_reachable cores difficulty input S"
| step: "search_reachable cores difficulty input S \<Longrightarrow> search_step S S' \<Longrightarrow> search_reachable cores difficulty input S'"

section \<open>The nonce\<close>

definition meets :: "nat \<Rightarrow> btrit list \<Rightarrow> bool" where
  "meets difficulty hash \<longleftrightarrow> list_all (\<lambda>i. hash ! i = Zero) [243 - difficulty..<243]"

lemma zero_bit:
  assumes "hi OR lo = - 1" "slot < 64"
  shows "bit (NOT (hi XOR lo)) slot \<longleftrightarrow> bits_trit hi lo slot = Zero"
  using assms by (auto simp: or_ones_iff bits_trit_def bit_not_iff bit_xor_iff)

lemma nonce_test_loop_law:
  assumes "pcs_wf st" "set is \<subseteq> {..<729}" "t \<noteq> 0"
  shows "\<exists>r. nonce_test_loop st is t = Some r
    \<and> (case r of None \<Rightarrow> \<forall>slot < 64. \<not> (bit t slot \<and> list_all (\<lambda>i. slot_trits st slot ! i = Zero) is)
       | Some t' \<Rightarrow> t' \<noteq> 0 \<and> (\<forall>slot < 64. bit t' slot \<longleftrightarrow> bit t slot \<and> list_all (\<lambda>i. slot_trits st slot ! i = Zero) is))"
  using assms(2,3)
proof (induction "is" arbitrary: t)
  case (Cons i "is")
  let ?e = "NOT (pcs_hi st ! i XOR pcs_lo st ! i)"
  have i: "i < 729" "pcs_hi st ! i OR pcs_lo st ! i = - 1"
    using Cons.prems(1) assms(1) by (auto simp: pcs_wf_def)
  have e: "bit ?e slot \<longleftrightarrow> slot_trits st slot ! i = Zero" if "slot < 64" for slot
    using zero_bit [OF i(2) that] by (simp add: nth_slot_trits i(1))
  have loop: "nonce_test_loop st (i # is) t = (if t AND ?e = 0 then Some None else nonce_test_loop st is (t AND ?e))"
    by (simp add: pcs_bit_equal_def pcs_get_law [OF assms(1) i(1)] Let_def)
  have bits: "bit (t AND ?e) slot \<longleftrightarrow> bit t slot \<and> slot_trits st slot ! i = Zero" if "slot < 64" for slot
    unfolding bit_and_iff e [OF that] ..
  show ?case
  proof (cases "t AND ?e = 0")
    case True
    then have "\<not> bit (t AND ?e) slot" for slot
      by simp
    then show ?thesis
      unfolding loop using True bits by auto
  next
    case False
    then show ?thesis
      unfolding loop using Cons.IH [OF _ False] Cons.prems(1) bits by (auto split: option.splits)
  qed
qed simp

lemma slot_loop_law:
  assumes "slot < 64" "bit t slot" "a \<le> slot" "\<And>k. a \<le> k \<Longrightarrow> k < slot \<Longrightarrow> \<not> bit t k"
  shows "slot_loop st t [a..<64] = extract_nonce st slot"
  using assms
proof (induction "slot - a" arbitrary: a)
  case 0
  then have "a = slot" "[a..<64] = slot # [Suc slot..<64]"
    by (simp_all add: upt_conv_Cons)
  then show ?case
    using 0 by (simp add: and_one_eq bit_iff_odd_drop_bit odd_iff_mod_2_eq_one)
next
  case (Suc n)
  then have "[a..<64] = a # [Suc a..<64]" "\<not> bit t a"
    by (simp_all add: upt_conv_Cons)
  moreover have "slot_loop st t [Suc a..<64] = extract_nonce st slot"
    using Suc by (intro Suc.hyps(1)) auto
  ultimately show ?case
    by (simp add: and_one_eq bit_iff_odd_drop_bit even_iff_mod_2_eq_zero)
qed

lemma masked_bit:
  fixes x :: u64
  assumes "slot < 64"
  shows "x AND push_bit slot 1 = 0 \<longleftrightarrow> \<not> bit x slot" "x AND push_bit slot 1 = 1 \<longleftrightarrow> slot = 0 \<and> bit x slot"
proof -
  have mask: "x AND push_bit slot 1 = (if bit x slot then 2 ^ slot else 0)"
    by (rule bit_word_eqI) (auto simp: bit_and_iff bit_exp_iff)
  have "bit (2 ^ slot :: u64) slot" "bit (2 ^ slot :: u64) 0 \<longleftrightarrow> slot = 0"
    using assms by (auto simp: bit_exp_iff)
  then have "(2::u64) ^ slot \<noteq> 0" "(2::u64) ^ slot = 1 \<longleftrightarrow> slot = 0"
    by (metis bit_0_eq bot_apply bot_bool_def, metis bit_1_iff power_0)
  then show "x AND push_bit slot 1 = 0 \<longleftrightarrow> \<not> bit x slot" "x AND push_bit slot 1 = 1 \<longleftrightarrow> slot = 0 \<and> bit x slot"
    unfolding mask by auto
qed

text \<open>Only slot 0 gives its trits; the comparison with 1 fails for the bits of all others.\<close>

definition nonce_of :: "pow_curl_state \<Rightarrow> nat \<Rightarrow> i8 list" where
  "nonce_of st slot =
     (if slot = 0 then map btrit_into_i8 (take 81 (drop 162 (slot_trits st 0))) else replicate 81 0)"

lemma extract_nonce_law:
  assumes "pcs_wf st" "slot < 64"
  shows "extract_nonce st slot = Some (nonce_of st slot)"
proof -
  have trit: "nonce_trit st (push_bit slot 1) i = Some (if slot = 0 then btrit_into_i8 (slot_trits st 0 ! i) else 0)" if "i < 729" for i
  proof -
    have "pcs_hi st ! i OR pcs_lo st ! i = - 1"
      using assms(1) that by (simp add: pcs_wf_def)
    then have "bit (pcs_hi st ! i) slot \<or> bit (pcs_lo st ! i) slot"
      using assms(2) by (simp add: or_ones_iff)
    then show ?thesis
      unfolding nonce_trit_def pcs_get_law [OF assms(1) that] nth_slot_trits [OF that] bits_trit_def
        bind.bind_lunit prod.case masked_bit [OF assms(2)] by (cases slot) auto
  qed
  have "map (nonce_trit st (push_bit slot 1)) [162..<243] = map Some (nonce_of st slot)"
  proof (rule nth_equalityI)
    fix i
    assume "i < length (map (nonce_trit st (push_bit slot 1)) [162..<243])"
    then have i: "i < 81" "162 + i < 729" "[162..<243] ! i = 162 + i"
      by (simp_all del: upt_rec_numeral)
    then show "map (nonce_trit st (push_bit slot 1)) [162..<243] ! i = map Some (nonce_of st slot) ! i"
      using trit [OF i(2)] by (simp add: nonce_of_def del: upt_rec_numeral push_bit_of_1)
  qed (simp add: nonce_of_def del: upt_rec_numeral)
  moreover have "those (map Some xs) = Some xs" for xs :: "i8 list"
    using map_Some_those [of "\<lambda>x. x" xs] by simp
  ultimately show ?thesis
    by (simp add: extract_nonce_def pow_lens)
qed

lemma find_nonce_law:
  assumes "pcs_wf st" "d \<le> 243"
  shows "\<exists>r. find_nonce st d = Some r
    \<and> (case r of None \<Rightarrow> \<forall>slot < 64. \<not> meets d (slot_trits st slot)
       | Some nonce \<Rightarrow> \<exists>slot < 64. meets d (slot_trits st slot) \<and> nonce = nonce_of st slot
           \<and> (\<forall>k < slot. \<not> meets d (slot_trits st k)))"
proof -
  have ones: "bit BITS_1 slot" if "slot < 64" for slot
    using that bits_consts(3) [OF that] by (auto simp: bits_trit_def split: if_splits)
  have "set [243 - d..<243] \<subseteq> {..<729}" "BITS_1 \<noteq> 0"
    by (auto simp: BITS_1_def)
  then obtain r where r: "nonce_test_loop st [243 - d..<243] BITS_1 = Some r"
    "case r of None \<Rightarrow> \<forall>slot < 64. \<not> meets d (slot_trits st slot)
     | Some t \<Rightarrow> t \<noteq> 0 \<and> (\<forall>slot < 64. bit t slot \<longleftrightarrow> meets d (slot_trits st slot))"
    using nonce_test_loop_law [OF assms(1), of "[243 - d..<243]" BITS_1] ones
    by (auto simp: meets_def split: option.splits)
  show ?thesis
  proof (cases r)
    case None
    then show ?thesis
      using r assms(2) by (simp add: find_nonce_def pow_lens)
  next
    case (Some t)
    then have t: "t \<noteq> 0" "\<And>slot. slot < 64 \<Longrightarrow> bit t slot \<longleftrightarrow> meets d (slot_trits st slot)"
      using r(2) by auto
    then obtain k where k: "bit t k"
      by (auto simp: bit_eq_iff)
    define slot where "slot = (LEAST k. bit t k)"
    have slot: "bit t slot" "\<And>k. k < slot \<Longrightarrow> \<not> bit t k"
      unfolding slot_def using k by (auto intro: LeastI dest: not_less_Least)
    then have lt: "slot < 64"
      using bit_imp_le_length [OF slot(1)] by simp
    then have "slot_loop st t [0..<64] = Some (nonce_of st slot)"
      using slot_loop_law [OF lt slot(1), of 0] slot(2) extract_nonce_law [OF assms(1) lt] by simp
    then have "find_nonce st d = Some (Some (nonce_of st slot))"
      using r(1) Some assms(2) by (simp add: find_nonce_def pow_lens)
    moreover have "\<forall>k < slot. \<not> meets d (slot_trits st k)"
      using slot(2) t(2) lt by auto
    ultimately show ?thesis
      using t(2) [OF lt] slot(1) lt by auto
  qed
qed

section \<open>Reachable searches\<close>

lemma outer_increment_law:
  assumes "pcs_wf st" "slots_agree st {166..<193}"
  shows "\<exists>st'. outer_increment st = Some st' \<and> pcs_wf st' \<and> slots_agree st' {166..<193}"
proof -
  obtain st' c where st': "increment_loop [166..<193] st = Some (st', c)" "pcs_wf st'"
    "\<And>slot. slot < 64 \<Longrightarrow> slot_trits st' slot = take 166 (slot_trits st slot)
      @ fst (trits_increment (take 27 (drop 166 (slot_trits st slot)))) @ drop 193 (slot_trits st slot)"
    using increment_loop_law [OF assms(1) _ _ assms(2)] by (auto simp: Let_def)
  define ts where "ts = take 27 (drop 166 (slot_trits st 0))"
  have len: "length ts = 27"
    by (simp add: ts_def)
  have eq: "take 27 (drop 166 (slot_trits st slot)) = ts" if "slot < 64" for slot
  proof (rule nth_equalityI)
    fix i
    assume "i < length (take 27 (drop 166 (slot_trits st slot)))"
    then have "166 + i \<in> {166..<193}" "i < 27"
      by simp_all
    moreover from this have "slot_trits st slot ! (166 + i) = slot_trits st 0 ! (166 + i)"
      using assms(2) that unfolding slots_agree_def by blast
    ultimately show "take 27 (drop 166 (slot_trits st slot)) ! i = ts ! i"
      by (simp add: ts_def)
  qed (simp add: ts_def)
  have "slot_trits st' slot ! i = fst (trits_increment ts) ! (i - 166)" if "slot < 64" "i \<in> {166..<193}" for slot i
    unfolding st'(3) [OF that(1)] eq [OF that(1)] using that(2) len by (auto simp: nth_append)
  then have "slots_agree st' {166..<193}"
    unfolding slots_agree_def by simp
  then show ?thesis
    using st' by (simp add: outer_increment_def pow_lens)
qed

lemma spawn_loop_law:
  assumes "pcs_wf st" "slots_agree st {166..<193}"
  shows "\<exists>ts. spawn_loop n st = Some ts \<and> length ts = n
    \<and> (\<forall>t \<in> set ts. \<exists>st'. t = Checking st' (pcs_new BITS_1) \<and> pcs_wf st')"
  using assms
proof (induction n arbitrary: st)
  case (Suc n)
  obtain st' where st': "outer_increment st = Some st'" "pcs_wf st'" "slots_agree st' {166..<193}"
    using outer_increment_law [OF Suc.prems] by blast
  then obtain ts where "spawn_loop n st' = Some ts" "length ts = n" "\<forall>t \<in> set ts. \<exists>st'. t = Checking st' (pcs_new BITS_1) \<and> pcs_wf st'"
    using Suc.IH [OF st'(2,3)] by blast
  then show ?case
    using st' Suc.prems(1) by auto
qed simp

lemma search_sync_law:
  assumes "length ts = 8019"
  shows "\<exists>S. search_sync cores d Created (map btrit_into_i8 ts) = Some S \<and> pd_difficulty S = d \<and> pd_state S = Searching
    \<and> pd_caller S = Joining \<and> \<not> pd_cancelling S \<and> length (pd_threads S) = cores
    \<and> (\<forall>t \<in> set (pd_threads S). \<exists>st. t = Checking st (pcs_new BITS_1) \<and> pcs_wf st)"
proof -
  let ?base = "overlay (take 162 (drop 7776 ts)) (prestate_absorb 32 ts (replicate 729 Zero))"
  obtain st where st: "make_prestate (map btrit_into_i8 ts) = Some st" "pcs_wf st"
    "\<And>slot. slot < 64 \<Longrightarrow> slot_trits st slot = take 162 ?base @ slot_seed slot @ drop 166 ?base"
    using make_prestate_law [OF assms] by (auto simp: Let_def)
  have "length ?base = 729"
  proof -
    have "length (prestate_absorb n xs ys) = 729" if "length ys = 729" for n xs ys
      using that by (induction n arbitrary: xs ys) simp_all
    then show ?thesis
      by simp
  qed
  then have "slots_agree st {166..<193}"
    unfolding slots_agree_def by (auto simp: st(3) nth_append slot_seed_def)
  then obtain ths where "spawn_loop cores st = Some ths" "length ths = cores"
    "\<forall>t \<in> set ths. \<exists>st'. t = Checking st' (pcs_new BITS_1) \<and> pcs_wf st'"
    using spawn_loop_law [OF st(2)] by blast
  then show ?thesis
    using st(1) by (simp add: search_sync_def)
qed

text \<open>
  The CurlP hash of the candidate in a slot of a state. A turn takes the first slot whose hash meets the
  difficulty; what it publishes is the end of that hash for slot 0 and zeros for any other slot.
\<close>

definition slot_hash :: "pow_curl_state \<Rightarrow> nat \<Rightarrow> btrit list" where
  "slot_hash st slot = take 243 ((curl_round ^^ 81) (slot_trits st slot))"

definition finds :: "nat \<Rightarrow> pow_curl_state \<Rightarrow> i8 list \<Rightarrow> bool" where
  "finds d st nonce \<longleftrightarrow> (\<exists>slot < 64. meets d (slot_hash st slot) \<and> (\<forall>k < slot. \<not> meets d (slot_hash st k))
     \<and> nonce = (if slot = 0 then map btrit_into_i8 (drop 162 (slot_hash st 0)) else replicate 81 0))"

definition misses :: "nat \<Rightarrow> pow_curl_state \<Rightarrow> bool" where
  "misses d st \<longleftrightarrow> (\<forall>slot < 64. \<not> meets d (slot_hash st slot))"

text \<open>The increment after a turn overflows.\<close>

definition overflows :: "pow_curl_state \<Rightarrow> pow_curl_state \<Rightarrow> bool" where
  "overflows st tmp \<longleftrightarrow> (\<exists>st' tmp' st''. pow_transform st tmp = Some (st', tmp') \<and> inner_increment st' = Some (st'', True))"

lemma search_turn_law:
  assumes "pcs_wf st" "pcs_wf tmp" "d \<le> 243"
  shows "\<exists>t r. search_turn d st tmp = Some (t, r)
    \<and> (case r of Some nonce \<Rightarrow> t = Exited Found \<and> finds d st nonce
       | None \<Rightarrow> misses d st
           \<and> (t = Exited Exhausted \<and> overflows st tmp \<or> (\<exists>st' tmp'. t = Checking st' tmp' \<and> pcs_wf st' \<and> pcs_wf tmp')))"
proof -
  obtain p q where p: "pow_transform st tmp = Some (p, q)" "pcs_wf p" "pcs_wf q"
    "\<And>slot. slot < 64 \<Longrightarrow> slot_trits p slot = pow_hash (slot_trits st slot)"
    using pow_transform_law [OF assms(1,2)] by blast
  have eq: "slot_trits p slot = slot_hash st slot @ drop 243 ((curl_round ^^ 80) (slot_trits st slot))" if "slot < 64" for slot
    using p(4) [OF that] by (simp add: pow_hash_def slot_hash_def)
  have meets: "meets d (slot_trits p slot) \<longleftrightarrow> meets d (slot_hash st slot)" if "slot < 64" for slot
    unfolding eq [OF that] meets_def by (auto simp: list_all_iff nth_append slot_hash_def)
  obtain r where r: "find_nonce p d = Some r" "case r of None \<Rightarrow> \<forall>slot < 64. \<not> meets d (slot_trits p slot)
       | Some nonce \<Rightarrow> \<exists>slot < 64. meets d (slot_trits p slot) \<and> nonce = nonce_of p slot
           \<and> (\<forall>k < slot. \<not> meets d (slot_trits p k))"
    using find_nonce_law [OF p(2) assms(3)] by blast
  show ?thesis
  proof (cases r)
    case None
    then have "misses d st"
      using r(2) meets by (simp add: misses_def)
    moreover obtain p' c where "inner_increment p = Some (p', c)" "pcs_wf p'"
      using inner_increment_total [OF p(2)] by blast
    ultimately show ?thesis
      using p(1,3) r(1) None by (auto simp: search_turn_def overflows_def)
  next
    case (Some nonce)
    then obtain slot where slot: "slot < 64" "meets d (slot_trits p slot)" "nonce = nonce_of p slot" "\<forall>k < slot. \<not> meets d (slot_trits p k)"
      using r(2) by auto
    have "nonce_of p slot = (if slot = 0 then map btrit_into_i8 (drop 162 (slot_hash st 0)) else replicate 81 0)"
      using eq [of 0] by (simp add: nonce_of_def slot_hash_def)
    moreover have "\<forall>k < slot. \<not> meets d (slot_hash st k)"
      using slot(1,4) meets by simp
    ultimately have "finds d st nonce"
      using slot(1-3) meets unfolding finds_def by blast
    then show ?thesis
      using p(1) r(1) Some by (simp add: search_turn_def)
  qed
qed

text \<open>With difficulty zero the first candidate is taken.\<close>

lemma search_turn_zero:
  assumes "pcs_wf st" "pcs_wf tmp"
  shows "\<exists>t nonce. search_turn 0 st tmp = Some (t, Some nonce)"
proof -
  obtain p q where p: "pow_transform st tmp = Some (p, q)" "pcs_wf p"
    using pow_transform_law [OF assms] by blast
  have "meets 0 (slot_trits p 0)"
    by (simp add: meets_def)
  then obtain nonce where "find_nonce p 0 = Some (Some nonce)"
    using find_nonce_law [OF p(2), of 0] by (auto split: option.splits)
  then show ?thesis
    using p(1) by (simp add: search_turn_def)
qed

section \<open>The candidates of a thread\<close>

text \<open>
  Thread \<open>i\<close> starts from the prestate after \<open>i\<close> outer increments. Its turns are deterministic: \<open>candidate d input i n\<close> has
  the states of the thread after \<open>n\<close> turns, if none of them ended its loop.
\<close>

fun spawn_state :: "pow_curl_state \<Rightarrow> nat \<Rightarrow> pow_curl_state option" where
  "spawn_state prestate 0 = Some prestate"
| "spawn_state prestate (Suc i) = do { prestate \<leftarrow> outer_increment prestate; spawn_state prestate i }"

fun candidate :: "nat \<Rightarrow> i8 list \<Rightarrow> nat \<Rightarrow> nat \<Rightarrow> (pow_curl_state \<times> pow_curl_state) option" where
  "candidate d input i 0 = do {
     prestate \<leftarrow> make_prestate input;
     st \<leftarrow> spawn_state prestate i;
     Some (st, pcs_new BITS_1) }"
| "candidate d input i (Suc n) =
     (case candidate d input i n of
        None \<Rightarrow> None
      | Some (st, tmp) \<Rightarrow>
          (case search_turn d st tmp of Some (Checking st' tmp', None) \<Rightarrow> Some (st', tmp') | _ \<Rightarrow> None))"

text \<open>A nonce that some thread found, and a thread that went through all its candidates in vain.\<close>

definition nonce_found :: "nat \<Rightarrow> nat \<Rightarrow> i8 list \<Rightarrow> i8 list \<Rightarrow> bool" where
  "nonce_found cores d input nonce \<longleftrightarrow> (\<exists>i n st tmp. i < cores \<and> candidate d input i n = Some (st, tmp) \<and> finds d st nonce)"

definition exhausted_after :: "nat \<Rightarrow> i8 list \<Rightarrow> nat \<Rightarrow> nat \<Rightarrow> bool" where
  "exhausted_after d input i n \<longleftrightarrow>
     (\<forall>m \<le> n. \<exists>st tmp. candidate d input i m = Some (st, tmp) \<and> misses d st \<and> (m = n \<longrightarrow> overflows st tmp))"

lemma spawn_loop_states:
  "spawn_loop n prestate = Some ts \<Longrightarrow> i < n \<Longrightarrow> \<exists>st. spawn_state prestate i = Some st \<and> ts ! i = Checking st (pcs_new BITS_1)"
proof (induction n arbitrary: prestate ts i)
  case (Suc n)
  obtain prestate' ts' where e: "outer_increment prestate = Some prestate'" "spawn_loop n prestate' = Some ts'"
    "ts = Checking prestate (pcs_new BITS_1) # ts'"
    using Suc.prems(1) by (auto simp: Let_def split: bind_splits)
  then show ?case
    using Suc.IH [OF e(2)] Suc.prems(2) by (cases i) auto
qed simp

lemma sync_candidates:
  assumes "search_sync cores d Created input = Some S" "i < cores"
  shows "\<exists>st. pd_threads S ! i = Checking st (pcs_new BITS_1) \<and> candidate d input i 0 = Some (st, pcs_new BITS_1)"
  using assms spawn_loop_states [OF _ assms(2)] by (fastforce simp: search_sync_def split: bind_splits)

lemma candidates_missed:
  assumes "\<And>st tmp. candidate d input i 0 = Some (st, tmp) \<Longrightarrow> pcs_wf st \<and> pcs_wf tmp" "d \<le> 243"
    and "candidate d input i n = Some (st, tmp)"
  shows "pcs_wf st \<and> pcs_wf tmp \<and> (\<forall>m < n. \<exists>st tmp. candidate d input i m = Some (st, tmp) \<and> misses d st)"
  using assms(3)
proof (induction n arbitrary: st tmp)
  case 0
  then show ?case
    using assms(1) by auto
next
  case (Suc n)
  then obtain st0 tmp0 where c: "candidate d input i n = Some (st0, tmp0)" "search_turn d st0 tmp0 = Some (Checking st tmp, None)"
    by (auto split: option.splits prod.splits diver_thread.splits)
  note IH = Suc.IH [OF c(1)]
  have "misses d st0" "pcs_wf st" "pcs_wf tmp"
    using search_turn_law [of st0 tmp0 d] IH assms(2) c(2) by auto
  then show ?case
    using IH c(1) by (auto simp: less_Suc_eq)
qed

fun thread_ok :: "nat \<Rightarrow> i8 list \<Rightarrow> nat \<Rightarrow> diver_thread \<Rightarrow> bool" where
  "thread_ok d input i (Checking st tmp) = (\<exists>n. candidate d input i n = Some (st, tmp))"
| "thread_ok d input i (Working st tmp) = (\<exists>n. candidate d input i n = Some (st, tmp))"
| "thread_ok d input i (Exited reason) = (reason = Exhausted \<longrightarrow> (\<exists>n. exhausted_after d input i n))"

definition all_exhausted :: "pearl_diver \<Rightarrow> bool" where
  "all_exhausted S \<longleftrightarrow> (\<forall>t \<in> set (pd_threads S). t = Exited Exhausted)"

definition search_inv :: "nat \<Rightarrow> nat \<Rightarrow> i8 list \<Rightarrow> pearl_diver \<Rightarrow> bool" where
  "search_inv cores d input S \<longleftrightarrow> pd_difficulty S = d \<and> length (pd_threads S) = cores
     \<and> (\<forall>i < cores. thread_ok d input i (pd_threads S ! i))
     \<and> (case pd_state S of
          Completed (Some nonce) \<Rightarrow> nonce_found cores d input nonce
        | Completed None \<Rightarrow> all_exhausted S \<and> pd_caller S = Returned
        | Searching \<Rightarrow> \<forall>t \<in> set (pd_threads S). t \<noteq> Exited Stopped \<and> t \<noteq> Exited Found
        | Cancelled \<Rightarrow> True
        | Created \<Rightarrow> False)
     \<and> (pd_caller S = Closing \<longrightarrow> all_exhausted S)"

lemma start_wf:
  assumes "length ts = 8019" "i < cores" "candidate d (map btrit_into_i8 ts) i 0 = Some (st, tmp)"
  shows "pcs_wf st \<and> pcs_wf tmp"
proof -
  obtain S where S: "search_sync cores d Created (map btrit_into_i8 ts) = Some S" "length (pd_threads S) = cores"
    "\<forall>t \<in> set (pd_threads S). \<exists>st. t = Checking st (pcs_new BITS_1) \<and> pcs_wf st"
    using search_sync_law [OF assms(1)] by blast
  obtain st' where st': "pd_threads S ! i = Checking st' (pcs_new BITS_1)"
    "candidate d (map btrit_into_i8 ts) i 0 = Some (st', pcs_new BITS_1)"
    using sync_candidates [OF S(1) assms(2)] by blast
  moreover have "pcs_wf st'"
    using S(2,3) st'(1) assms(2) nth_mem [of i "pd_threads S"] by auto
  ultimately show ?thesis
    using assms(3) pcs_new_law(1) by simp
qed

lemma search_turn_cases:
  assumes "search_turn d st tmp = Some (t, r)" "length ts = 8019" "d \<le> 243" "i < cores"
    and n: "candidate d (map btrit_into_i8 ts) i n = Some (st, tmp)"
  obtains (found) nonce where "r = Some nonce" "t = Exited Found" "nonce_found cores d (map btrit_into_i8 ts) nonce"
    | (next_turn) "r = None" "thread_ok d (map btrit_into_i8 ts) i t" "t \<noteq> Exited Stopped" "t \<noteq> Exited Found"
proof -
  note c = candidates_missed [OF start_wf [OF assms(2,4)] assms(3) n]
  note law = search_turn_law [of st tmp d]
  show ?thesis
  proof (cases r)
    case None
    then consider "t = Exited Exhausted" "misses d st" "overflows st tmp" | st' tmp' where "t = Checking st' tmp'"
      using law c assms(1,3) by auto
    then show ?thesis
    proof cases
      case 1
      then have "exhausted_after d (map btrit_into_i8 ts) i n"
        using c n by (auto simp: exhausted_after_def le_less)
      then show ?thesis
        using next_turn None 1(1) by auto
    next
      case (2 st' tmp')
      then have "candidate d (map btrit_into_i8 ts) i (Suc n) = Some (st', tmp')"
        using n assms(1) None by simp
      then show ?thesis
        using next_turn None 2 by (metis diver_thread.distinct(3) thread_ok.simps(1))
    qed
  next
    case (Some nonce)
    then show ?thesis
      using found law c assms(1,3,4) n by (auto simp: nonce_found_def)
  qed
qed

lemma search_step_inv:
  assumes "search_step S S'" "search_inv cores d (map btrit_into_i8 ts) S" "length ts = 8019" "d \<le> 243"
  shows "search_inv cores d (map btrit_into_i8 ts) S'"
  using assms(1,2)
proof (induction rule: search_step.induct)
  case (thread_check i S st tmp)
  then have "Checking st tmp \<in> set (pd_threads S)"
    by (metis nth_mem)
  then have "\<not> all_exhausted S"
    by (auto simp: all_exhausted_def)
  moreover have "thread_ok d (map btrit_into_i8 ts) i (Checking st tmp)"
    using thread_check by (auto simp: search_inv_def)
  ultimately show ?case
    using thread_check
    by (auto simp: search_inv_def nth_list_update split: pearl_diver_state.splits option.splits
        dest!: set_update_subset_insert [THEN subsetD])
next
  case (thread_turn i S st tmp t r)
  then have mem: "Working st tmp \<in> set (pd_threads S)"
    by (metis nth_mem)
  then have no: "\<not> all_exhausted S"
    by (auto simp: all_exhausted_def)
  have i: "i < cores" "pd_difficulty S = d" and "thread_ok d (map btrit_into_i8 ts) i (Working st tmp)"
    using thread_turn by (auto simp: search_inv_def)
  then obtain n where n: "candidate d (map btrit_into_i8 ts) i n = Some (st, tmp)"
    by auto
  from thread_turn(3) [unfolded i(2)] assms(3,4) i(1) n show ?case
  proof (cases rule: search_turn_cases)
    case (found nonce)
    then show ?thesis
      using thread_turn(1,4) no by (auto simp: search_inv_def nth_list_update)
  next
    case next_turn
    then show ?thesis
      using thread_turn(1,4) no
      by (auto simp: search_inv_def nth_list_update split: pearl_diver_state.splits option.splits
          dest!: set_update_subset_insert [THEN subsetD])
  qed
next
  case (caller_joined S)
  have "all_exhausted S" if "pd_state S = Searching"
    unfolding all_exhausted_def
  proof
    fix t
    assume t: "t \<in> set (pd_threads S)"
    then obtain reason where "t = Exited reason"
      using caller_joined(2) by blast
    then show "t = Exited Exhausted"
      using t that caller_joined(3) by (cases reason) (auto simp: search_inv_def)
  qed
  then show ?case
    using caller_joined(3) by (auto simp: search_inv_def all_exhausted_def split: pearl_diver_state.splits option.splits)
qed (auto simp: search_inv_def all_exhausted_def split: pearl_diver_state.splits option.splits)

lemma search_reachable_inv:
  assumes "search_reachable cores d (map btrit_into_i8 ts) S" "length ts = 8019" "d \<le> 243"
  shows "search_inv cores d (map btrit_into_i8 ts) S"
  using assms
proof (induction rule: search_reachable.induct)
  case (start S)
  have "thread_ok d (map btrit_into_i8 ts) i (pd_threads S ! i)" if "i < cores" for i
    using sync_candidates [OF start(1) that] by (metis thread_ok.simps(1))
  then show ?case
    using search_sync_law [OF assms(2), of cores d] start(1) by (auto simp: search_inv_def)
next
  case (step S S')
  then show ?case
    using search_step_inv by blast
qed

section \<open>Properties\<close>

text \<open>
  C30. The bit-sliced transformation against CurlP81: from a well-formed state it ends with a well-formed state,
  and in each of the 64 slots the first 243 trits are the hash that \<open>CurlP81\<close> computes from the trits of
  that slot. The other 486 trits are those before the last round.
\<close>

theorem pow_transform_curl:
  assumes "pcs_wf pre" "pcs_wf tmp"
  shows "\<exists>p t. pow_transform pre tmp = Some (p, t) \<and> pcs_wf p
    \<and> (\<forall>slot < 64. \<forall>curl. curl_rounds curl = 81 \<longrightarrow> curl_state curl = slot_trits pre slot \<longrightarrow> length (curl_work_state curl) = 729
        \<longrightarrow> (\<exists>curl'. curlp_transform curl = Some curl' \<and> take 243 (slot_trits p slot) = take 243 (curl_state curl')
              \<and> drop 243 (slot_trits p slot) = drop 243 ((curl_round ^^ 80) (curl_state curl))))"
proof -
  obtain p t where p: "pow_transform pre tmp = Some (p, t)" "pcs_wf p"
    "\<And>slot. slot < 64 \<Longrightarrow> slot_trits p slot = pow_hash (slot_trits pre slot)"
    using pow_transform_law [OF assms] by blast
  have "\<exists>curl'. curlp_transform curl = Some curl' \<and> take 243 (slot_trits p slot) = take 243 (curl_state curl')
      \<and> drop 243 (slot_trits p slot) = drop 243 ((curl_round ^^ 80) (curl_state curl))"
    if "slot < 64" "curl_rounds curl = 81" "curl_state curl = slot_trits pre slot" "length (curl_work_state curl) = 729" for slot curl
  proof -
    have "curlp_inv 81 curl"
      using that by (simp add: curlp_inv_def)
    then obtain curl' where "curlp_transform curl = Some curl'" "curl_state curl' = (curl_round ^^ 81) (curl_state curl)"
      using curlp_transform_eq [of 81 curl] by auto
    then show ?thesis
      using p(3) [OF that(1)] that(3) by (simp add: pow_hash_def)
  qed
  then show ?thesis
    using p(1,2) by blast
qed

text \<open>The fresh state: CurlP81 maps zeros to zeros, and the trits behind the hash differ from that.\<close>

theorem pow_transform_curl_witness:
  "\<exists>p t. pow_transform (pcs_new BITS_1) (pcs_new BITS_1) = Some (p, t)
    \<and> slot_trits p 7 = replicate 243 Zero @ replicate 486 PlusOne"
proof -
  let ?curl = "\<lparr>curl_rounds = 81, curl_state = replicate 729 Zero, curl_work_state = replicate 729 Zero\<rparr>"
  have uniform: "curl_round (replicate 729 x) = replicate 729 (curl_f x x)" for x
    by (intro nth_equalityI) (simp_all add: curl_round_def curl_step_def)
  have three: "(curl_round ^^ 3) (replicate 729 Zero) = replicate 729 Zero"
    by (simp add: numeral_3_eq_3 uniform curl_f_def)
  have mult: "(curl_round ^^ (3 * n)) (replicate 729 Zero) = replicate 729 Zero" for n
    by (induction n) (simp_all add: three funpow_add add.commute [of 3] del: funpow.simps)
  have "(curl_round ^^ 80) (replicate 729 Zero) = (curl_round ^^ 2) ((curl_round ^^ (3 * 26)) (replicate 729 Zero))"
    using funpow_add [of 2 "3 * 26" curl_round] by simp
  then have r80: "(curl_round ^^ 80) (replicate 729 Zero) = replicate 729 PlusOne"
    unfolding mult by (simp add: numeral_2_eq_2 uniform curl_f_def)
  have "curlp_transform ?curl = Some c \<Longrightarrow> curl_state c = (curl_round ^^ 81) (replicate 729 Zero)" for c
    using curlp_transform_eq [of 81 ?curl] by (auto simp: curlp_inv_def)
  moreover have "(curl_round ^^ 81) (replicate 729 Zero) = replicate 729 Zero"
    using mult [of 27] by simp
  ultimately have r81: "curlp_transform ?curl = Some c \<Longrightarrow> curl_state c = replicate 729 Zero" for c
    by simp
  obtain p t where p: "pow_transform (pcs_new BITS_1) (pcs_new BITS_1) = Some (p, t)"
    "take 243 (slot_trits p 7) = replicate 243 Zero" "drop 243 (slot_trits p 7) = replicate 486 PlusOne"
    using pow_transform_curl [OF pcs_new_law(1) pcs_new_law(1)] pcs_new_law(2) [of 7]
    by (elim exE conjE allE [where x = 7]) (auto simp: r80 dest!: spec [where x = ?curl] r81)
  then show ?thesis
    using append_take_drop_id [of 243 "slot_trits p 7"] by auto
qed

text \<open>
  C34. The prestate of a search. For every transaction it is well formed, and its 64 slots differ in the four
  trits from 162 on. In every slot it is the state that absorbs the first 32 chunks with \<open>pow_hash\<close>, the
  transformation with its last round cut short, each chunk laid over the state so that its zeros leave the
  trits there; CurlP81 overwrites the trits with zeros and does all rounds.
\<close>

theorem make_prestate_correct:
  assumes "length ts = 8019"
  shows "\<exists>st. make_prestate (map btrit_into_i8 ts) = Some st \<and> pcs_wf st
    \<and> (\<forall>slot < 64. slot_trits st slot =
        (let base = overlay (take 162 (drop 7776 ts)) (prestate_absorb 32 ts (replicate 729 Zero))
         in take 162 base @ slot_seed slot @ drop 166 base))
    \<and> inj_on slot_seed {..<64}"
  using make_prestate_law [OF assms] slot_seed_inj by blast

text \<open>The transaction of zeros.\<close>

theorem make_prestate_correct_witness:
  "\<exists>st. make_prestate (replicate 8019 0) = Some st \<and> take 4 (drop 162 (slot_trits st 1)) = [PlusOne, Zero, Zero, Zero]"
proof -
  have len: "length (prestate_absorb n xs ys) = 729" if "length ys = 729" for n xs ys
    using that by (induction n arbitrary: xs ys) simp_all
  have "slot_seed 1 = [PlusOne, Zero, Zero, Zero]"
    by code_simp
  then show ?thesis
    using make_prestate_correct [of "replicate 8019 Zero"] len by (fastforce simp: Let_def)
qed

text \<open>
  The candidates of a thread are counted: where the 64 slots agree on the trits from 193 to 242, as they do
  in a prestate, \<open>inner_increment\<close> adds one to the number that these trits denote, in every slot and without
  touching other trits. It reports that the space is exhausted when that number was the largest one, and then
  starts again from the smallest.
\<close>

theorem inner_increment_counts:
  assumes "pcs_wf st" "slots_agree st {193..<243}" "slot < 64"
  shows "\<exists>st' exhausted ts ts'. inner_increment st = Some (st', exhausted) \<and> pcs_wf st'
    \<and> ts = take 50 (drop 193 (slot_trits st slot)) \<and> ts' = take 50 (drop 193 (slot_trits st' slot))
    \<and> take 193 (slot_trits st' slot) = take 193 (slot_trits st slot)
    \<and> drop 243 (slot_trits st' slot) = drop 243 (slot_trits st slot)
    \<and> (exhausted \<longleftrightarrow> bal_val ts = int (half_range 50))
    \<and> bal_val ts' = (if exhausted then - int (half_range 50) else bal_val ts + 1)"
proof -
  let ?ts = "take 50 (drop 193 (slot_trits st slot))"
  obtain st' c where st': "increment_loop [193..<243] st = Some (st', c)" "pcs_wf st'"
    "slot_trits st' slot = take 193 (slot_trits st slot) @ fst (trits_increment ?ts) @ drop 243 (slot_trits st slot)"
    "c = snd (trits_increment ?ts)"
    using increment_loop_law [OF assms(1) _ _ assms(2)] assms(3) by (auto simp: Let_def)
  have len: "length ?ts = 50"
    by simp
  have c: "c \<longleftrightarrow> bal_val ?ts = int (half_range 50)"
    unfolding st'(4) trits_increment_carry len ..
  have val: "bal_val (fst (trits_increment ?ts)) + (if c then 3 ^ 50 else 0) = bal_val ?ts + 1"
    using trits_increment_value [of ?ts] unfolding len st'(4) .
  moreover have "int (half_range 50) + 1 - 3 ^ 50 = - int (half_range 50)"
    by (simp add: half_range_def)
  ultimately have "bal_val (fst (trits_increment ?ts)) = (if c then - int (half_range 50) else bal_val ?ts + 1)"
    using c by (cases c) simp_all
  then show ?thesis
    using st' c by (auto simp: inner_increment_def pow_lens)
qed

theorem inner_increment_counts_witness:
  "\<exists>st'. inner_increment (pcs_new BITS_1) = Some (st', False) \<and> bal_val (take 50 (drop 193 (slot_trits st' 5))) = 1"
proof -
  have "slots_agree (pcs_new BITS_1) {193..<243}"
    by (simp add: slots_agree_def pcs_new_law(2))
  moreover have "bal_val (replicate n Zero) = 0" for n
    by (induction n) simp_all
  ultimately show ?thesis
    using inner_increment_counts [OF pcs_new_law(1), of 5] pcs_new_law(2) [of 5]
    by (auto simp: half_range_def)
qed

text \<open>
  C31. A search over a transaction of 8019 trits with a difficulty of at most 243, whatever the interleaving of its
  threads, of the caller and of a cancellation. A thread never
  panics. A published nonce was found by one of the threads: after some number of turns from its start state, all
  without success, the CurlP hash of the candidate in some slot ends in as many zeros as the difficulty asks
  for, and in no slot before it. The nonce is not the one that was hashed: for slot 0 it is the end of the hash, and
  for every other slot it is zero. When the search reports that there is no nonce, every thread went
  through some number of turns in which no candidate of any slot met the difficulty, until the increment
  overflowed.
\<close>

theorem search_sound:
  assumes "search_reachable cores d (map btrit_into_i8 ts) S" "length ts = 8019" "d \<le> 243"
  shows "(\<forall>st tmp. Working st tmp \<in> set (pd_threads S) \<longrightarrow> search_turn d st tmp \<noteq> None)
    \<and> (\<forall>nonce. pd_state S = Completed (Some nonce) \<longrightarrow>
        (\<exists>i n st tmp slot. i < cores \<and> candidate d (map btrit_into_i8 ts) i n = Some (st, tmp)
          \<and> (\<forall>m < n. \<exists>st tmp. candidate d (map btrit_into_i8 ts) i m = Some (st, tmp) \<and> misses d st)
          \<and> slot < 64 \<and> meets d (slot_hash st slot) \<and> (\<forall>k < slot. \<not> meets d (slot_hash st k))
          \<and> nonce = (if slot = 0 then map btrit_into_i8 (drop 162 (slot_hash st 0)) else replicate 81 0)))
    \<and> (pd_state S = Completed None \<longrightarrow> pd_caller S = Returned
        \<and> (\<forall>i < cores. \<exists>n. exhausted_after d (map btrit_into_i8 ts) i n))"
proof (intro conjI allI impI)
  note inv = search_reachable_inv [OF assms]
  have missed: "pcs_wf st \<and> pcs_wf tmp \<and> (\<forall>m < n. \<exists>st tmp. candidate d (map btrit_into_i8 ts) i m = Some (st, tmp) \<and> misses d st)"
    if "i < cores" "candidate d (map btrit_into_i8 ts) i n = Some (st, tmp)" for i n st tmp
    using candidates_missed [OF start_wf [OF assms(2) that(1)] assms(3) that(2)] .
  show "search_turn d st tmp \<noteq> None" if w: "Working st tmp \<in> set (pd_threads S)" for st tmp
  proof -
    obtain i where i: "i < length (pd_threads S)" "pd_threads S ! i = Working st tmp"
      using w by (auto simp: in_set_conv_nth)
    then have "i < cores" "thread_ok d (map btrit_into_i8 ts) i (Working st tmp)"
      using inv unfolding search_inv_def by metis+
    then obtain n where i: "i < cores" "candidate d (map btrit_into_i8 ts) i n = Some (st, tmp)"
      by auto
    then show ?thesis
      using missed [OF i] search_turn_law [of st tmp d] assms(3) by auto
  qed
  show "\<exists>i n st tmp slot. i < cores \<and> candidate d (map btrit_into_i8 ts) i n = Some (st, tmp)
      \<and> (\<forall>m < n. \<exists>st tmp. candidate d (map btrit_into_i8 ts) i m = Some (st, tmp) \<and> misses d st)
      \<and> slot < 64 \<and> meets d (slot_hash st slot) \<and> (\<forall>k < slot. \<not> meets d (slot_hash st k))
      \<and> nonce = (if slot = 0 then map btrit_into_i8 (drop 162 (slot_hash st 0)) else replicate 81 0)"
    if w: "pd_state S = Completed (Some nonce)" for nonce
  proof -
    obtain i n st tmp where c: "i < cores" "candidate d (map btrit_into_i8 ts) i n = Some (st, tmp)" "finds d st nonce"
      using inv w by (auto simp: search_inv_def nonce_found_def)
    then show ?thesis
      using missed [OF c(1,2)] unfolding finds_def by blast
  qed
  show "pd_caller S = Returned" if "pd_state S = Completed None"
    using inv that by (auto simp: search_inv_def)
  show "\<exists>n. exhausted_after d (map btrit_into_i8 ts) i n" if "pd_state S = Completed None" "i < cores" for i
  proof -
    have "pd_threads S ! i = Exited Exhausted" "thread_ok d (map btrit_into_i8 ts) i (pd_threads S ! i)"
      using inv that by (auto simp: search_inv_def all_exhausted_def)
    then show ?thesis
      by simp
  qed
qed

lemma first_turn_reachable:
  assumes "length ts = 8019"
  shows "\<exists>S nonce. search_reachable 1 0 (map btrit_into_i8 ts) S \<and> pd_state S = Completed (Some nonce)"
proof -
  let ?in = "map btrit_into_i8 ts"
  obtain S0 t0 where S0: "search_sync 1 0 Created ?in = Some S0" "pd_difficulty S0 = 0" "pd_state S0 = Searching" "pd_threads S0 = [t0]"
    "\<exists>st. t0 = Checking st (pcs_new BITS_1) \<and> pcs_wf st"
    using search_sync_law [OF assms, of 1 0] by (auto simp: length_Suc_conv)
  then obtain st where t0: "t0 = Checking st (pcs_new BITS_1)" "pcs_wf st"
    by blast
  obtain t nonce where turn: "search_turn 0 st (pcs_new BITS_1) = Some (t, Some nonce)"
    using search_turn_zero [OF t0(2) pcs_new_law(1)] by blast
  define S1 where "S1 = S0\<lparr>pd_threads := [Working st (pcs_new BITS_1)]\<rparr>"
  have "search_step S0 S1"
    using search_step.thread_check [of 0 S0 st "pcs_new BITS_1"] S0 t0 by (simp add: S1_def)
  moreover have "search_step S1 (S1\<lparr>pd_threads := [t], pd_state := Completed (Some nonce)\<rparr>)"
    using search_step.thread_turn [of 0 S1 st "pcs_new BITS_1" t "Some nonce"] turn S0(2) by (simp add: S1_def)
  ultimately have "search_reachable 1 0 ?in (S1\<lparr>pd_threads := [t], pd_state := Completed (Some nonce)\<rparr>)"
    using search_reachable.start [OF S0(1)] by (blast intro: search_reachable.step)
  then show ?thesis
    by force
qed

text \<open>With difficulty 0, a completed search: the candidate in slot 0 of some turn of the only thread was taken.\<close>

theorem search_sound_witness:
  "\<exists>S n st tmp. search_reachable 1 0 (replicate 8019 0) S \<and> candidate 0 (replicate 8019 0) 0 n = Some (st, tmp)
    \<and> pd_state S = Completed (Some (map btrit_into_i8 (drop 162 (slot_hash st 0))))"
proof -
  obtain S nonce where r: "search_reachable 1 0 (map btrit_into_i8 (replicate 8019 Zero)) S" "pd_state S = Completed (Some nonce)"
    using first_turn_reachable [of "replicate 8019 Zero"] by auto
  have z: "meets 0 hash" for hash
    by (simp add: meets_def)
  obtain n st tmp where "candidate 0 (map btrit_into_i8 (replicate 8019 Zero)) 0 n = Some (st, tmp)"
    "nonce = map btrit_into_i8 (drop 162 (slot_hash st 0))"
    using search_sound [OF r(1)] r(2) z by (auto simp del: candidate.simps map_replicate)
  then show ?thesis
    using r by auto
qed

text \<open>
  A cancellation and a thread may overwrite each other's result: both orders of the same two writes are
  reachable, so a found nonce can be replaced by \<open>Cancelled\<close>, and a cancelled search can still complete.
\<close>

theorem cancel_races:
  assumes "length ts = 8019"
  shows "(\<exists>S S' nonce. search_reachable 1 0 (map btrit_into_i8 ts) S \<and> pd_state S = Completed (Some nonce)
      \<and> search_step S S' \<and> pd_state S' = Cancelled)
    \<and> (\<exists>S S' nonce. search_reachable 1 0 (map btrit_into_i8 ts) S \<and> pd_state S = Cancelled
      \<and> search_step S S' \<and> pd_state S' = Completed (Some nonce))"
proof -
  let ?in = "map btrit_into_i8 ts"
  obtain S0 t0 where S0: "search_sync 1 0 Created ?in = Some S0" "pd_difficulty S0 = 0" "pd_state S0 = Searching" "pd_threads S0 = [t0]"
    "\<exists>st. t0 = Checking st (pcs_new BITS_1) \<and> pcs_wf st"
    using search_sync_law [OF assms, of 1 0] by (auto simp: length_Suc_conv)
  then obtain st where t0: "t0 = Checking st (pcs_new BITS_1)" "pcs_wf st"
    by blast
  obtain t nonce where turn: "search_turn 0 st (pcs_new BITS_1) = Some (t, Some nonce)"
    using search_turn_zero [OF t0(2) pcs_new_law(1)] by blast
  define S1 where "S1 = S0\<lparr>pd_threads := [Working st (pcs_new BITS_1)]\<rparr>"
  define S2 where "S2 = S1\<lparr>pd_cancelling := True\<rparr>"
  define S3 where "S3 = S2\<lparr>pd_threads := [t], pd_state := Completed (Some nonce)\<rparr>"
  define S4 where "S4 = S2\<lparr>pd_cancelling := False, pd_state := Cancelled\<rparr>"
  have "search_step S0 S1"
    using search_step.thread_check [of 0 S0 st "pcs_new BITS_1"] S0 t0 by (simp add: S1_def)
  moreover have "search_step S1 S2"
    using search_step.cancel_read [of S1] S0(3) by (simp add: S1_def S2_def)
  ultimately have r2: "search_reachable 1 0 ?in S2"
    using search_reachable.start [OF S0(1)] by (blast intro: search_reachable.step)
  have s3: "search_step S2 S3"
    using search_step.thread_turn [of 0 S2 st "pcs_new BITS_1" t "Some nonce"] turn S0(2) by (simp add: S1_def S2_def S3_def)
  have s4: "search_step S2 S4"
    using search_step.cancel_write [of S2] by (simp add: S2_def S4_def)
  define S5 where "S5 = S3\<lparr>pd_cancelling := False, pd_state := Cancelled\<rparr>"
  define S6 where "S6 = S4\<lparr>pd_threads := [t], pd_state := Completed (Some nonce)\<rparr>"
  have "search_step S3 S5"
    unfolding S5_def by (rule search_step.cancel_write) (simp add: S2_def S3_def)
  moreover have "search_step S4 S6"
    using search_step.thread_turn [of 0 S4 st "pcs_new BITS_1" t "Some nonce"] turn S0(2)
    by (simp add: S1_def S2_def S4_def S6_def)
  moreover have "pd_state S3 = Completed (Some nonce)" "pd_state S4 = Cancelled" "pd_state S5 = Cancelled"
      "pd_state S6 = Completed (Some nonce)"
    by (simp_all add: S3_def S4_def S5_def S6_def)
  ultimately show ?thesis
    using search_reachable.step [OF r2 s3] search_reachable.step [OF r2 s4] by blast
qed

theorem cancel_races_witness:
  "\<exists>S S' nonce. search_reachable 1 0 (replicate 8019 0) S \<and> pd_state S = Completed (Some nonce)
    \<and> search_step S S' \<and> pd_state S' = Cancelled"
  using conjunct1 [OF cancel_races [of "replicate 8019 Zero"]] by simp

end
