(* ===== verification/Network_Endpoints.thy ===== *)
theory Network_Endpoints
  imports Peer_Worker "HOL-Library.Finite_Map"
begin

text \<open>
  The endpoints of the network layer (src/bee-network/src): addresses and URLs, the configuration, the store of
  endpoints, the outbox of connections, the whitelist, and the endpoint worker that handles the commands of the
  node and the events of the connections. The sockets are outside: whether a connection is made is an argument,
  and what the readers report are events that may come at any time.

  The results: in every reachable state the whitelist holds the addresses of the contacts and messages only go
  to connected endpoints; what a removal and a broadcast do; and a connection that outlives the removal of its
  endpoint.
\<close>

section \<open>Addresses (address/mod.rs, address/url.rs)\<close>

datatype ip_addr = V4 "32 word" | V6 "128 word"

text \<open>A socket address of the standard library; that of IPv6 has a flow information and a scope id besides the port.\<close>

datatype socket_addr =
    SocketV4 "32 word" u16
  | SocketV6 "128 word" u16 u32 u32

fun sa_ip :: "socket_addr \<Rightarrow> ip_addr" where
  "sa_ip (SocketV4 a p) = V4 a"
| "sa_ip (SocketV6 a p flowinfo scope_id) = V6 a"

fun sa_port :: "socket_addr \<Rightarrow> u16" where
  "sa_port (SocketV4 a p) = p"
| "sa_port (SocketV6 a p flowinfo scope_id) = p"

definition is_ipv4 :: "socket_addr \<Rightarrow> bool" where
  "is_ipv4 a = (case a of SocketV4 _ _ \<Rightarrow> True | SocketV6 _ _ _ _ \<Rightarrow> False)"

definition is_ipv6 :: "socket_addr \<Rightarrow> bool" where
  "is_ipv6 a = (case a of SocketV4 _ _ \<Rightarrow> False | SocketV6 _ _ _ _ \<Rightarrow> True)"

definition from_v4_addr_and_port :: "32 word \<Rightarrow> u16 \<Rightarrow> socket_addr" where
  "from_v4_addr_and_port a p = SocketV4 a p"

definition from_v6_addr_and_port :: "128 word \<Rightarrow> u16 \<Rightarrow> socket_addr" where
  "from_v6_addr_and_port a p = SocketV6 a p 0 0"

datatype address_error = AddressIo | UrlParseFailure | UrlDestructFailure | UnsupportedProtocol | ResolveFailure

text \<open>Resolving a host name gives an I/O error or the addresses of the host.\<close>

definition from_addr_str :: "(string \<Rightarrow> socket_addr list option) \<Rightarrow> string \<Rightarrow> address_error + socket_addr" where
  "from_addr_str to_socket_addrs s =
     (case to_socket_addrs s of
        None \<Rightarrow> Inl AddressIo
      | Some [] \<Rightarrow> Inl ResolveFailure
      | Some (a # _) \<Rightarrow> Inr a)"

datatype transport = Tcp | Udp

datatype url = TcpUrl socket_addr | UdpUrl socket_addr

definition url_new :: "socket_addr \<Rightarrow> transport \<Rightarrow> url" where
  "url_new a proto = (case proto of Tcp \<Rightarrow> TcpUrl a | Udp \<Rightarrow> UdpUrl a)"

fun url_address :: "url \<Rightarrow> socket_addr" where
  "url_address (TcpUrl a) = a"
| "url_address (UdpUrl a) = a"

fun url_protocol :: "url \<Rightarrow> transport" where
  "url_protocol (TcpUrl a) = Tcp"
| "url_protocol (UdpUrl a) = Udp"

text \<open>What the parser of the url crate returns: the scheme, the host and the port.\<close>

record extern_url =
  eu_scheme :: string
  eu_host :: "string option"
  eu_port :: "u16 option"

text \<open>The parser, the printing of a port and the resolver are arguments.\<close>

definition from_url_str ::
  "(string \<Rightarrow> extern_url option) \<Rightarrow> (u16 \<Rightarrow> string) \<Rightarrow> (string \<Rightarrow> socket_addr list option) \<Rightarrow> string \<Rightarrow> address_error + url" where
  "from_url_str parse show_port to_socket_addrs s =
     (case parse s of
        None \<Rightarrow> Inl UrlParseFailure
      | Some u \<Rightarrow>
          (case eu_host u of
             None \<Rightarrow> Inl UrlDestructFailure
           | Some host \<Rightarrow>
               (case eu_port u of
                  None \<Rightarrow> Inl UrlDestructFailure
                | Some p \<Rightarrow>
                    (case from_addr_str to_socket_addrs (host @ '':'' @ show_port p) of
                       Inl e \<Rightarrow> Inl e
                     | Inr a \<Rightarrow>
                         if eu_scheme u = ''tcp'' then Inr (url_new a Tcp)
                         else if eu_scheme u = ''udp'' then Inr (url_new a Udp)
                         else Inl UnsupportedProtocol))))"

section \<open>The configuration (config.rs)\<close>

record network_config_builder =
  nb_binding_port :: "u16 option"
  nb_binding_addr :: "ip_addr option"

record network_config =
  nc_binding_port :: u16
  nc_binding_addr :: ip_addr

definition nb_new :: network_config_builder where
  "nb_new = \<lparr>nb_binding_port = None, nb_binding_addr = None\<rparr>"

definition nb_set_binding_port :: "u16 \<Rightarrow> network_config_builder \<Rightarrow> network_config_builder" where
  "nb_set_binding_port p self = self\<lparr>nb_binding_port := Some p\<rparr>"

text \<open>A string that does not parse as an address panics.\<close>

definition nb_set_binding_addr ::
  "(string \<Rightarrow> ip_addr option) \<Rightarrow> string \<Rightarrow> network_config_builder \<Rightarrow> network_config_builder option" where
  "nb_set_binding_addr parse s self = map_option (\<lambda>a. self\<lparr>nb_binding_addr := Some a\<rparr>) (parse s)"

definition nb_finish :: "network_config_builder \<Rightarrow> network_config" where
  "nb_finish self =
     \<lparr>nc_binding_port = (case nb_binding_port self of Some p \<Rightarrow> p | None \<Rightarrow> 15600),
      nc_binding_addr = (case nb_binding_addr self of Some a \<Rightarrow> a | None \<Rightarrow> V4 0)\<rparr>"

definition nc_socket_addr :: "network_config \<Rightarrow> socket_addr" where
  "nc_socket_addr self =
     (case nc_binding_addr self of
        V4 a \<Rightarrow> from_v4_addr_and_port a (nc_binding_port self)
      | V6 a \<Rightarrow> from_v6_addr_and_port a (nc_binding_port self))"

section \<open>Endpoints (endpoint/mod.rs, endpoint/store.rs)\<close>

text \<open>The id of an endpoint wraps its address.\<close>

type_synonym epid = socket_addr

record endpoint =
  ep_id :: epid
  ep_address :: socket_addr
  ep_protocol :: transport

definition endpoint_new :: "socket_addr \<Rightarrow> transport \<Rightarrow> endpoint" where
  "endpoint_new a proto = \<lparr>ep_id = a, ep_address = a, ep_protocol = proto\<rparr>"

definition endpoint_from_url :: "url \<Rightarrow> endpoint" where
  "endpoint_from_url u = endpoint_new (url_address u) (url_protocol u)"

type_synonym endpoints = "(epid, endpoint) fmap"

definition endpoints_num :: "endpoints \<Rightarrow> nat" where
  "endpoints_num self = fcard (fmdom self)"

definition endpoints_insert :: "endpoints \<Rightarrow> endpoint \<Rightarrow> endpoints \<times> bool" where
  "endpoints_insert self ep =
     (case fmlookup self (ep_id ep) of Some _ \<Rightarrow> (self, False) | None \<Rightarrow> (fmupd (ep_id ep) ep self, True))"

definition endpoints_remove :: "endpoints \<Rightarrow> epid \<Rightarrow> endpoints \<times> bool" where
  "endpoints_remove self i = (fmdrop i self, fmlookup self i \<noteq> None)"

definition endpoints_contains :: "endpoints \<Rightarrow> epid \<Rightarrow> bool" where
  "endpoints_contains self i \<longleftrightarrow> fmlookup self i \<noteq> None"

section \<open>The outbox (endpoint/outbox.rs)\<close>

text \<open>
  The senders of the connections, in the order in which the hash map yields them. A send to a connection whose
  receiver is gone is an error, here \<open>None\<close>.
\<close>

type_synonym outbox = "(epid \<times> bytes chan) list"

definition outbox_insert :: "outbox \<Rightarrow> epid \<Rightarrow> bytes chan \<Rightarrow> outbox \<times> bool" where
  "outbox_insert self i sender =
     (case map_of self i of Some _ \<Rightarrow> (self, False) | None \<Rightarrow> (self @ [(i, sender)], True))"

definition outbox_remove :: "outbox \<Rightarrow> epid \<Rightarrow> outbox \<times> bool" where
  "outbox_remove self i = (filter (\<lambda>e. fst e \<noteq> i) self, map_of self i \<noteq> None)"

fun outbox_send :: "outbox \<Rightarrow> bytes \<Rightarrow> epid \<Rightarrow> (outbox \<times> bool) option" where
  "outbox_send [] bs i = Some ([], False)"
| "outbox_send ((j, sender) # self) bs i =
     (if j = i then do { sender \<leftarrow> chan_send bs sender; Some ((j, sender) # self, True) }
      else do { (self, sent) \<leftarrow> outbox_send self bs i; Some ((j, sender) # self, sent) })"

text \<open>The loop of \<open>multicast\<close> and \<open>broadcast\<close>, with the number of sends.\<close>

fun outbox_multicast_loop :: "outbox \<Rightarrow> bytes \<Rightarrow> (epid \<Rightarrow> bool) \<Rightarrow> nat \<Rightarrow> (outbox \<times> nat) option" where
  "outbox_multicast_loop [] bs wanted num_sends = Some ([], num_sends)"
| "outbox_multicast_loop ((j, sender) # self) bs wanted num_sends =
     (if wanted j
      then do {
        sender \<leftarrow> chan_send bs sender;
        (self, num_sends) \<leftarrow> outbox_multicast_loop self bs wanted (num_sends + 1);
        Some ((j, sender) # self, num_sends) }
      else do {
        (self, num_sends) \<leftarrow> outbox_multicast_loop self bs wanted num_sends;
        Some ((j, sender) # self, num_sends) })"

definition outbox_multicast :: "outbox \<Rightarrow> bytes \<Rightarrow> epid list \<Rightarrow> (outbox \<times> bool) option" where
  "outbox_multicast self bs recipients =
     map_option (\<lambda>(self, num_sends). (self, num_sends > 0)) (outbox_multicast_loop self bs (\<lambda>j. j \<in> set recipients) 0)"

definition outbox_broadcast :: "outbox \<Rightarrow> bytes \<Rightarrow> (outbox \<times> bool) option" where
  "outbox_broadcast self bs =
     map_option (\<lambda>(self, num_sends). (self, num_sends > 0)) (outbox_multicast_loop self bs (\<lambda>j. True) 0)"

section \<open>The whitelist (endpoint/whitelist.rs)\<close>

type_synonym whitelist = "(epid, ip_addr) fmap"

definition whitelist_insert :: "whitelist \<Rightarrow> epid \<Rightarrow> ip_addr \<Rightarrow> whitelist \<times> bool" where
  "whitelist_insert self i a = (fmupd i a self, fmlookup self i \<noteq> None)"

definition whitelist_remove :: "whitelist \<Rightarrow> epid \<Rightarrow> whitelist \<times> bool" where
  "whitelist_remove self i = (fmdrop i self, fmlookup self i \<noteq> None)"

definition contains_address :: "whitelist \<Rightarrow> ip_addr \<Rightarrow> bool" where
  "contains_address self a \<longleftrightarrow> a |\<in>| fmran self"

section \<open>Commands and events (commands.rs, events.rs)\<close>

text \<open>A responder is named by a number; the answers are collected by that name.\<close>

datatype command =
    AddEndpoint url "nat option"
  | RemoveEndpoint epid "nat option"
  | Connect epid "nat option"
  | Disconnect epid "nat option"
  | SendMessage epid bytes "nat option"
  | MulticastMessage "epid list" bytes "nat option"
  | BroadcastMessage bytes "nat option"

datatype event =
    EndpointAdded epid nat
  | EndpointRemoved epid nat
  | NewConnection endpoint origin "bytes chan"
  | LostConnection epid
  | EndpointConnected epid socket_addr origin u64 nat
  | EndpointDisconnected epid nat
  | MessageSent epid nat
  | MessageReceived epid bytes
  | TryConnect epid "nat option"

section \<open>The endpoint worker (endpoint/worker.rs)\<close>

text \<open>
  The state of the worker with the channel of the events it will receive (\<open>notifier\<close>), the channel to the node
  (\<open>publisher\<close>), the events waiting for their delay, and the answers given. \<open>None\<close> stands for an error that
  ends the worker.
\<close>

record endpoint_worker =
  contacts :: endpoints
  connected :: endpoints
  ew_outbox :: outbox
  ew_whitelist :: whitelist
  notifier :: "event chan"
  publisher :: "event chan"
  delayed :: "event list"
  answers :: "(nat \<times> bool) list"

definition notify :: "event \<Rightarrow> endpoint_worker \<Rightarrow> endpoint_worker option" where
  "notify e w = map_option (\<lambda>c. w\<lparr>notifier := c\<rparr>) (chan_send e (notifier w))"

definition publish :: "event \<Rightarrow> endpoint_worker \<Rightarrow> endpoint_worker option" where
  "publish e w = map_option (\<lambda>c. w\<lparr>publisher := c\<rparr>) (chan_send e (publisher w))"

definition respond :: "nat option \<Rightarrow> bool \<Rightarrow> endpoint_worker \<Rightarrow> endpoint_worker" where
  "respond responder b w = (case responder of Some r \<Rightarrow> w\<lparr>answers := answers w @ [(r, b)]\<rparr> | None \<Rightarrow> w)"

definition add_endpoint :: "endpoint_worker \<Rightarrow> url \<Rightarrow> (endpoint_worker \<times> bool) option" where
  "add_endpoint w u =
     (let ep = endpoint_from_url u; (cs, inserted) = endpoints_insert (contacts w) ep
      in if inserted
         then do {
           w \<leftarrow> notify (EndpointAdded (ep_id ep) (endpoints_num cs))
             (w\<lparr>contacts := cs, ew_whitelist := fst (whitelist_insert (ew_whitelist w) (ep_id ep) (sa_ip (url_address u)))\<rparr>);
           Some (w, True) }
         else Some (w, False))"

definition rmv_endpoint :: "endpoint_worker \<Rightarrow> epid \<Rightarrow> (endpoint_worker \<times> bool) option" where
  "rmv_endpoint w i =
     (let (ob, removed_recipient) = outbox_remove (ew_outbox w) i;
          (cs, removed_contact) = endpoints_remove (contacts w) i;
          (cd, removed_connected) = endpoints_remove (connected w) i;
          w = w\<lparr>ew_outbox := ob, contacts := cs, connected := cd\<rparr>
      in if removed_contact \<or> removed_connected
         then do {
           w \<leftarrow> notify (EndpointRemoved i (endpoints_num cs)) (w\<lparr>ew_whitelist := fst (whitelist_remove (ew_whitelist w) i)\<rparr>);
           Some (w, True) }
         else Some (w, False))"

text \<open>
  \<open>tcp::try_connect\<close> with \<open>spawn_connection_workers\<close> (tcp/mod.rs): when the socket connects, the connection
  with a new channel is announced to the worker.
\<close>

definition spawn_connection_workers :: "endpoint_worker \<Rightarrow> socket_addr \<Rightarrow> origin \<Rightarrow> endpoint_worker option" where
  "spawn_connection_workers w remote_addr origin =
     notify (NewConnection (endpoint_new remote_addr Tcp) origin \<lparr>chan_open = True, chan_queue = []\<rparr>) w"

definition tcp_try_connect :: "bool \<Rightarrow> endpoint_worker \<Rightarrow> socket_addr \<Rightarrow> endpoint_worker option" where
  "tcp_try_connect connects w a = (if connects then spawn_connection_workers w a Outbound else None)"

definition try_connect :: "bool \<Rightarrow> endpoint_worker \<Rightarrow> epid \<Rightarrow> nat option \<Rightarrow> endpoint_worker \<times> bool" where
  "try_connect connects w i responder =
     (case fmlookup (contacts w) i of
        Some ep \<Rightarrow>
          if endpoints_contains (connected w) (ep_id ep) then (respond responder False w, False)
          else
            (case ep_protocol ep of
               Tcp \<Rightarrow>
                 (case tcp_try_connect connects w (ep_address ep) of
                    Some w \<Rightarrow> (respond responder True (w\<lparr>connected := fst (endpoints_insert (connected w) ep)\<rparr>), True)
                  | None \<Rightarrow> (w\<lparr>delayed := delayed w @ [TryConnect i responder]\<rparr>, False))
             | Udp \<Rightarrow> (respond responder True w, True))
      | None \<Rightarrow> (respond responder False w, False))"

definition disconnect :: "endpoint_worker \<Rightarrow> epid \<Rightarrow> endpoint_worker \<times> bool" where
  "disconnect w i =
     (let (ob, removed_recipient) = outbox_remove (ew_outbox w) i;
          (cd, removed_connected) = endpoints_remove (connected w) i
      in (w\<lparr>ew_outbox := ob, connected := cd\<rparr>, removed_connected))"

text \<open>The handling of a command and of an event in \<open>run\<close>; \<open>connects\<close> tells what a connection attempt gives.\<close>

fun handle_command :: "bool \<Rightarrow> endpoint_worker \<Rightarrow> command \<Rightarrow> endpoint_worker option" where
  "handle_command connects w (AddEndpoint u responder) = do {
     (w, res) \<leftarrow> add_endpoint w u;
     Some (respond responder res w) }"
| "handle_command connects w (RemoveEndpoint i responder) = do {
     (w, res) \<leftarrow> rmv_endpoint w i;
     Some (respond responder res w) }"
| "handle_command connects w (Connect i responder) = Some (fst (try_connect connects w i responder))"
| "handle_command connects w (Disconnect i responder) =
     (let (w, is_disconnected) = disconnect w i; w = respond responder is_disconnected w
      in if is_disconnected then publish (EndpointDisconnected i (endpoints_num (connected w))) w else Some w)"
| "handle_command connects w (SendMessage i bs responder) = do {
     (ob, res) \<leftarrow> outbox_send (ew_outbox w) bs i;
     Some (respond responder res (w\<lparr>ew_outbox := ob\<rparr>)) }"
| "handle_command connects w (MulticastMessage is bs responder) = do {
     (ob, res) \<leftarrow> outbox_multicast (ew_outbox w) bs is;
     Some (respond responder res (w\<lparr>ew_outbox := ob\<rparr>)) }"
| "handle_command connects w (BroadcastMessage bs responder) = do {
     (ob, res) \<leftarrow> outbox_broadcast (ew_outbox w) bs;
     Some (respond responder res (w\<lparr>ew_outbox := ob\<rparr>)) }"

fun handle_event :: "u64 \<Rightarrow> bool \<Rightarrow> endpoint_worker \<Rightarrow> event \<Rightarrow> endpoint_worker option" where
  "handle_event now connects w (EndpointAdded i n) = publish (EndpointAdded i n) w"
| "handle_event now connects w (EndpointRemoved i n) = publish (EndpointRemoved i n) w"
| "handle_event now connects w (NewConnection ep origin sender) =
     (let w = w\<lparr>ew_outbox := fst (outbox_insert (ew_outbox w) (ep_id ep) sender),
                connected := fst (endpoints_insert (connected w) ep)\<rparr>
      in publish (EndpointConnected (ep_id ep) (ep_address ep) origin now (endpoints_num (connected w))) w)"
| "handle_event now connects w (LostConnection i) =
     (let (w, is_disconnected) = disconnect w i
      in do {
        w \<leftarrow> (if is_disconnected then publish (EndpointDisconnected i (endpoints_num (connected w))) w else Some w);
        Some (fst (try_connect connects w i None)) })"
| "handle_event now connects w (MessageSent i n) = publish (MessageSent i n) w"
| "handle_event now connects w (MessageReceived i bs) = publish (MessageReceived i bs) w"
| "handle_event now connects w (TryConnect i responder) = Some (fst (try_connect connects w i responder))"
| "handle_event now connects w (EndpointConnected i a origin t n) = Some w"
| "handle_event now connects w (EndpointDisconnected i n) = Some w"

text \<open>The listener (tcp/worker.rs): a connection from an address that is not whitelisted is dropped.\<close>

definition tcp_accept :: "endpoint_worker \<Rightarrow> socket_addr \<Rightarrow> endpoint_worker" where
  "tcp_accept w remote_addr =
     (if \<not> contains_address (ew_whitelist w) (sa_ip remote_addr) then w
      else case spawn_connection_workers w remote_addr Inbound of Some w \<Rightarrow> w | None \<Rightarrow> w)"

section \<open>Runs\<close>

text \<open>
  The steps of the network: commands, the events in the order of their channel, delays that have passed,
  incoming connections, and what the readers of connections report.
\<close>

definition network_init :: endpoint_worker where
  "network_init = \<lparr>contacts = fmempty, connected = fmempty, ew_outbox = [], ew_whitelist = fmempty,
     notifier = \<lparr>chan_open = True, chan_queue = []\<rparr>, publisher = \<lparr>chan_open = True, chan_queue = []\<rparr>,
     delayed = [], answers = []\<rparr>"

inductive network_step :: "endpoint_worker \<Rightarrow> endpoint_worker \<Rightarrow> bool" where
  command: "handle_command connects w c = Some w' \<Longrightarrow> network_step w w'"
| event: "chan_queue (notifier w) = e # es \<Longrightarrow>
    handle_event now connects (w\<lparr>notifier := (notifier w)\<lparr>chan_queue := es\<rparr>\<rparr>) e = Some w' \<Longrightarrow> network_step w w'"
| delay: "e \<in> set (delayed w) \<Longrightarrow> notify e (w\<lparr>delayed := remove1 e (delayed w)\<rparr>) = Some w' \<Longrightarrow> network_step w w'"
| accept: "network_step w (tcp_accept w a)"
| lost: "notify (LostConnection i) w = Some w' \<Longrightarrow> network_step w w'"
| received: "notify (MessageReceived i bs) w = Some w' \<Longrightarrow> network_step w w'"

inductive network_reachable :: "endpoint_worker \<Rightarrow> bool" where
  init: "network_reachable network_init"
| step: "network_reachable w \<Longrightarrow> network_step w w' \<Longrightarrow> network_reachable w'"

section \<open>The invariant\<close>

definition endpoints_wf :: "endpoints \<Rightarrow> bool" where
  "endpoints_wf m \<longleftrightarrow> (\<forall>i ep. fmlookup m i = Some ep \<longrightarrow> ep_id ep = i \<and> ep_address ep = i)"

definition outbox_wf :: "outbox \<Rightarrow> endpoints \<Rightarrow> bool" where
  "outbox_wf ob m \<longleftrightarrow> distinct (map fst ob) \<and> set (map fst ob) \<subseteq> fmdom' m"

fun event_wf :: "event \<Rightarrow> bool" where
  "event_wf (NewConnection ep origin sender) = (ep_address ep = ep_id ep)"
| "event_wf e = True"

definition network_inv :: "endpoint_worker \<Rightarrow> bool" where
  "network_inv w \<longleftrightarrow> endpoints_wf (contacts w) \<and> endpoints_wf (connected w)
     \<and> (\<forall>i. fmlookup (ew_whitelist w) i = map_option (\<lambda>_. sa_ip i) (fmlookup (contacts w) i))
     \<and> outbox_wf (ew_outbox w) (connected w)
     \<and> list_all event_wf (chan_queue (notifier w)) \<and> list_all event_wf (delayed w)"

lemma chan_send_Some: "chan_send x c = Some c' \<longleftrightarrow> chan_open c \<and> c' = c\<lparr>chan_queue := chan_queue c @ [x]\<rparr>"
  by (auto simp: chan_send_def)

lemma notify_inv [intro]: "notify e w = Some w' \<Longrightarrow> event_wf e \<Longrightarrow> network_inv w \<Longrightarrow> network_inv w'"
  by (auto simp: notify_def network_inv_def chan_send_Some)

lemma publish_inv [intro]: "publish e w = Some w' \<Longrightarrow> network_inv w \<Longrightarrow> network_inv w'"
  by (auto simp: publish_def network_inv_def)

lemma respond_inv [simp]: "network_inv (respond r b w) = network_inv w"
  by (auto simp: respond_def network_inv_def split: option.splits)

lemma endpoints_insert_wf:
  "endpoints_wf m \<Longrightarrow> ep_address ep = ep_id ep \<Longrightarrow> endpoints_wf (fst (endpoints_insert m ep))"
  "fmdom' (fst (endpoints_insert m ep)) = insert (ep_id ep) (fmdom' m)"
  by (auto simp: endpoints_wf_def endpoints_insert_def fmlookup_dom'_iff split: option.splits if_splits)

lemma endpoints_wf_drop: "endpoints_wf m \<Longrightarrow> endpoints_wf (fmdrop i m)"
  by (auto simp: endpoints_wf_def split: if_splits)

lemma outbox_wf_insert:
  "outbox_wf ob m \<Longrightarrow> outbox_wf (fst (outbox_insert ob (ep_id ep) c)) (fst (endpoints_insert m ep))"
  by (auto simp: outbox_wf_def outbox_insert_def endpoints_insert_wf(2) map_of_eq_None_iff split: option.splits)

lemma outbox_wf_grow: "outbox_wf ob m \<Longrightarrow> outbox_wf ob (fst (endpoints_insert m ep))"
  by (auto simp: outbox_wf_def endpoints_insert_wf(2))

lemma outbox_wf_remove: "outbox_wf ob m \<Longrightarrow> outbox_wf (filter (\<lambda>e. fst e \<noteq> i) ob) (fmdrop i m)"
  by (auto simp: outbox_wf_def distinct_map_filter)

lemma outbox_send_keys: "outbox_send ob bs i = Some (ob', r) \<Longrightarrow> map fst ob' = map fst ob"
  by (induction ob bs i arbitrary: ob' r rule: outbox_send.induct)
    (auto simp: bind_eq_Some_conv split: if_splits)

lemma outbox_multicast_loop_keys: "outbox_multicast_loop ob bs P n = Some (ob', n') \<Longrightarrow> map fst ob' = map fst ob"
  by (induction ob bs P n arbitrary: ob' n' rule: outbox_multicast_loop.induct)
    (auto simp: bind_eq_Some_conv split: if_splits)

lemma outbox_update_inv:
  assumes "network_inv w" "map fst ob = map fst (ew_outbox w)"
  shows "network_inv (w\<lparr>ew_outbox := ob\<rparr>)"
  using assms by (simp add: network_inv_def outbox_wf_def del: set_map)

lemma add_endpoint_inv:
  assumes "network_inv w" "add_endpoint w u = Some (w', r)"
  shows "network_inv w'"
proof -
  let ?ep = "endpoint_from_url u"
  have ep: "ep_address ?ep = ep_id ?ep" "sa_ip (url_address u) = sa_ip (ep_id ?ep)"
    by (simp_all add: endpoint_from_url_def endpoint_new_def)
  have "network_inv (w\<lparr>contacts := fmupd (ep_id ?ep) ?ep (contacts w),
      ew_whitelist := fmupd (ep_id ?ep) (sa_ip (ep_id ?ep)) (ew_whitelist w)\<rparr>)"
    using assms(1) ep(1) by (auto simp: network_inv_def endpoints_wf_def)
  then show ?thesis
    using assms ep
    by (auto simp: add_endpoint_def Let_def endpoints_insert_def whitelist_insert_def bind_eq_Some_conv
        split: option.splits if_splits)
qed

lemma removed_inv:
  assumes "network_inv w"
  shows "network_inv (w\<lparr>ew_outbox := filter (\<lambda>e. fst e \<noteq> i) (ew_outbox w), connected := fmdrop i (connected w)\<rparr>)"
  using assms by (auto simp: network_inv_def endpoints_wf_drop outbox_wf_remove)

lemma rmv_endpoint_inv:
  assumes "network_inv w" "rmv_endpoint w i = Some (w', r)"
  shows "network_inv w'"
proof -
  let ?w = "w\<lparr>ew_outbox := filter (\<lambda>e. fst e \<noteq> i) (ew_outbox w), contacts := fmdrop i (contacts w), connected := fmdrop i (connected w)\<rparr>"
  have "network_inv (?w\<lparr>ew_whitelist := fmdrop i (ew_whitelist w)\<rparr>)"
    using removed_inv [OF assms(1), of i] by (auto simp: network_inv_def endpoints_wf_drop)
  moreover have "fmlookup (contacts w) i = None \<Longrightarrow> network_inv ?w"
    using removed_inv [OF assms(1), of i] by (auto simp: network_inv_def endpoints_wf_drop)
  ultimately show ?thesis
    using assms(2)
    by (auto simp: rmv_endpoint_def Let_def outbox_remove_def endpoints_remove_def whitelist_remove_def bind_eq_Some_conv
        split: if_splits)
qed

lemma try_connect_inv:
  assumes "network_inv w"
  shows "network_inv (fst (try_connect connects w i responder))"
proof (cases "fmlookup (contacts w) i")
  case (Some ep)
  have ep: "ep_id ep = i" "ep_address ep = i"
    using assms Some by (auto simp: network_inv_def endpoints_wf_def)
  have "network_inv (w'\<lparr>connected := fst (endpoints_insert (connected w') ep)\<rparr>)" if "tcp_try_connect connects w i = Some w'" for w'
  proof -
    have "network_inv w'"
      using that assms notify_inv by (auto simp: tcp_try_connect_def spawn_connection_workers_def endpoint_new_def split: if_splits)
    then show ?thesis
      using ep by (auto simp: network_inv_def endpoints_insert_wf(1) outbox_wf_grow)
  qed
  moreover have "network_inv (w\<lparr>delayed := delayed w @ [TryConnect i responder]\<rparr>)"
    using assms by (simp add: network_inv_def)
  ultimately show ?thesis
    using assms Some ep by (auto simp: try_connect_def split: option.splits transport.splits)
qed (use assms in \<open>simp add: try_connect_def\<close>)

lemma disconnect_inv: "network_inv w \<Longrightarrow> disconnect w i = (w', r) \<Longrightarrow> network_inv w'"
  using removed_inv [of w i] by (auto simp: disconnect_def Let_def outbox_remove_def endpoints_remove_def)

lemma handle_command_inv: "handle_command connects w c = Some w' \<Longrightarrow> network_inv w \<Longrightarrow> network_inv w'"
  by (cases c)
    (auto simp: bind_eq_Some_conv outbox_multicast_def outbox_broadcast_def try_connect_inv Let_def split: prod.splits if_splits
      dest!: publish_inv dest: add_endpoint_inv rmv_endpoint_inv disconnect_inv outbox_send_keys outbox_multicast_loop_keys intro!: outbox_update_inv)

lemma new_connection_inv:
  assumes "network_inv w" "ep_address ep = ep_id ep"
  shows "network_inv (w\<lparr>ew_outbox := fst (outbox_insert (ew_outbox w) (ep_id ep) c),
    connected := fst (endpoints_insert (connected w) ep)\<rparr>)"
  using assms by (auto simp: network_inv_def endpoints_insert_wf(1) outbox_wf_insert)

lemma handle_event_inv:
  "handle_event now connects w e = Some w' \<Longrightarrow> network_inv w \<Longrightarrow> event_wf e \<Longrightarrow> network_inv w'"
  by (cases e)
    (auto simp: Let_def bind_eq_Some_conv new_connection_inv split: prod.splits if_splits
      dest: disconnect_inv publish_inv intro!: try_connect_inv)

lemma network_reachable_inv: "network_reachable w \<Longrightarrow> network_inv w"
proof (induction rule: network_reachable.induct)
  case init
  then show ?case
    by (simp add: network_init_def network_inv_def endpoints_wf_def outbox_wf_def)
next
  case (step w w')
  from step(2,3) show ?case
  proof (cases rule: network_step.cases)
    case (event e es now connects)
    then have "network_inv (w\<lparr>notifier := (notifier w)\<lparr>chan_queue := es\<rparr>\<rparr>)" "event_wf e"
      using step(3) by (auto simp: network_inv_def)
    then show ?thesis
      using event(2) handle_event_inv by blast
  next
    case (delay e)
    then have "network_inv (w\<lparr>delayed := remove1 e (delayed w)\<rparr>)" "event_wf e"
      using step(3) by (auto simp: network_inv_def list_all_iff dest: notin_set_remove1)
    then show ?thesis
      using delay(2) by blast
  next
    case (accept a)
    then show ?thesis
      using step(3) notify_inv
      by (auto simp: tcp_accept_def spawn_connection_workers_def endpoint_new_def split: option.splits)
  qed (use handle_command_inv in auto)
qed

section \<open>Properties\<close>

text \<open>
  C32. In every reachable state of the network the whitelist holds exactly the IP addresses of the contacts, so
  that a connection from any other address is dropped without a trace; and the outbox has one channel per
  endpoint, only for endpoints that are connected.
\<close>

theorem network_invariant:
  assumes "network_reachable w"
  shows "(\<forall>a. contains_address (ew_whitelist w) a \<longleftrightarrow> (\<exists>i. endpoints_contains (contacts w) i \<and> sa_ip i = a))
    \<and> (\<forall>remote. (\<forall>i. endpoints_contains (contacts w) i \<longrightarrow> sa_ip i \<noteq> sa_ip remote) \<longrightarrow> tcp_accept w remote = w)
    \<and> distinct (map fst (ew_outbox w)) \<and> (\<forall>i. map_of (ew_outbox w) i \<noteq> None \<longrightarrow> endpoints_contains (connected w) i)"
proof -
  have inv: "network_inv w"
    using assms by (rule network_reachable_inv)
  have wl: "contains_address (ew_whitelist w) a \<longleftrightarrow> (\<exists>i. endpoints_contains (contacts w) i \<and> sa_ip i = a)" for a
    using inv by (auto simp: network_inv_def contains_address_def endpoints_contains_def fmlookup_ran_iff)
  have "outbox_wf (ew_outbox w) (connected w)"
    using inv by (simp add: network_inv_def)
  then have "distinct (map fst (ew_outbox w))" "map_of (ew_outbox w) i \<noteq> None \<Longrightarrow> endpoints_contains (connected w) i" for i
    by (auto simp: outbox_wf_def endpoints_contains_def fmlookup_dom'_iff dest!: map_of_SomeD)
  then show ?thesis
    using wl by (auto simp: tcp_accept_def)
qed

text \<open>A network with one contact, to which a connection has been made.\<close>

definition example_addr :: socket_addr where
  "example_addr = SocketV4 7 15600"

theorem network_invariant_witness:
  "\<exists>w. network_reachable w \<and> contains_address (ew_whitelist w) (V4 7) \<and> tcp_accept w (SocketV4 8 1) = w"
proof -
  obtain w where w: "handle_command True network_init (AddEndpoint (TcpUrl example_addr) None) = Some w"
    and c: "\<And>i. endpoints_contains (contacts w) i \<longleftrightarrow> i = example_addr"
    by (auto simp: add_endpoint_def endpoints_insert_def network_init_def notify_def chan_send_def endpoint_from_url_def
        endpoint_new_def respond_def Let_def endpoints_contains_def)
  then have r: "network_reachable w"
    using network_reachable.init network_reachable.step network_step.command by blast
  show ?thesis
    using network_invariant [OF r] r by (intro exI [of _ w]) (simp add: c example_addr_def)
qed

lemma outbox_multicast_loop_cong:
  "(\<And>j. j \<in> fst ` set ob \<Longrightarrow> P j \<longleftrightarrow> Q j) \<Longrightarrow> outbox_multicast_loop ob bs P n = outbox_multicast_loop ob bs Q n"
  by (induction ob bs P n rule: outbox_multicast_loop.induct) (simp_all cong: Option.bind_cong)

lemma outbox_multicast_loop_law:
  "outbox_multicast_loop ob bs P n =
     (if list_all (\<lambda>(j, c). P j \<longrightarrow> chan_open c) ob
      then Some (map (\<lambda>(j, c). (j, if P j then c\<lparr>chan_queue := chan_queue c @ [bs]\<rparr> else c)) ob,
        n + length (filter (\<lambda>(j, c). P j) ob))
      else None)"
  by (induction ob bs P n rule: outbox_multicast_loop.induct) (auto simp: chan_send_def)

text \<open>
  C35. Sending to several connections. When the receivers of all wanted connections are alive, each of their
  channels gets the bytes once, behind what was there, and no other channel changes; the answer says whether
  there was one. When one of them is gone the send is an error, which ends the endpoint worker. A broadcast
  wants them all.
\<close>

theorem multicast_correct:
  "outbox_multicast ob bs recipients =
     (if list_all (\<lambda>(j, c). j \<in> set recipients \<longrightarrow> chan_open c) ob
      then Some (map (\<lambda>(j, c). (j, if j \<in> set recipients then c\<lparr>chan_queue := chan_queue c @ [bs]\<rparr> else c)) ob,
        \<exists>j \<in> set recipients. j \<in> fst ` set ob)
      else None)
   \<and> outbox_broadcast ob bs = outbox_multicast ob bs (map fst ob)"
proof
  show "outbox_multicast ob bs recipients =
     (if list_all (\<lambda>(j, c). j \<in> set recipients \<longrightarrow> chan_open c) ob
      then Some (map (\<lambda>(j, c). (j, if j \<in> set recipients then c\<lparr>chan_queue := chan_queue c @ [bs]\<rparr> else c)) ob,
        \<exists>j \<in> set recipients. j \<in> fst ` set ob)
      else None)"
    by (auto simp: outbox_multicast_def outbox_multicast_loop_law filter_empty_conv)
  have "outbox_multicast_loop ob bs (\<lambda>j. True) 0 = outbox_multicast_loop ob bs (\<lambda>j. j \<in> set (map fst ob)) 0"
    by (rule outbox_multicast_loop_cong) simp
  then show "outbox_broadcast ob bs = outbox_multicast ob bs (map fst ob)"
    by (simp add: outbox_multicast_def outbox_broadcast_def)
qed

text \<open>An outbox with an open and a closed channel: the closed one is not asked for.\<close>

theorem multicast_correct_witness:
  "outbox_multicast [(example_addr, \<lparr>chan_open = True, chan_queue = []\<rparr>), (SocketV4 7 2, \<lparr>chan_open = False, chan_queue = []\<rparr>)]
     [7] [example_addr]
   = Some ([(example_addr, \<lparr>chan_open = True, chan_queue = [[7]]\<rparr>), (SocketV4 7 2, \<lparr>chan_open = False, chan_queue = []\<rparr>)], True)"
  unfolding conjunct1 [OF multicast_correct] by (simp add: example_addr_def)

text \<open>An endpoint of which nothing is left.\<close>

definition gone :: "epid \<Rightarrow> endpoint_worker \<Rightarrow> bool" where
  "gone i w \<longleftrightarrow> \<not> endpoints_contains (contacts w) i \<and> \<not> endpoints_contains (connected w) i
     \<and> map_of (ew_outbox w) i = None \<and> fmlookup (ew_whitelist w) i = None"

lemma map_of_filter_key: "map_of (filter (\<lambda>e. fst e \<noteq> i) ob) j = (if j = i then None else map_of ob j)"
  by (induction ob) auto

lemma fmdrop_single: "fmdrop a (fmupd a b fmempty) = fmempty"
  by (rule fmap_ext) simp

lemma gone_cong:
  "contacts v' = contacts v \<Longrightarrow> connected v' = connected v \<Longrightarrow> map fst (ew_outbox v') = map fst (ew_outbox v) \<Longrightarrow>
   ew_whitelist v' = ew_whitelist v \<Longrightarrow> gone i v' = gone i v"
  by (simp add: gone_def map_of_eq_None_iff flip: set_map)

lemma gone_send:
  "publish e v = Some v' \<Longrightarrow> gone i v' = gone i v" "notify e v = Some v' \<Longrightarrow> gone i v' = gone i v" "gone i (respond r b v) = gone i v"
  by (auto simp: publish_def notify_def respond_def gone_def split: option.splits)

lemma gone_disconnect: "gone i v \<Longrightarrow> gone i (fst (disconnect v j))"
  by (auto simp: gone_def disconnect_def outbox_remove_def endpoints_remove_def endpoints_contains_def map_of_filter_key)

lemma gone_connected:
  "gone i v \<Longrightarrow> ep_id ep \<noteq> i \<Longrightarrow> gone i (v\<lparr>connected := fst (endpoints_insert (connected v) ep)\<rparr>)"
  "gone i v \<Longrightarrow> ep_id ep \<noteq> i \<Longrightarrow>
   gone i (v\<lparr>ew_outbox := fst (outbox_insert (ew_outbox v) (ep_id ep) c), connected := fst (endpoints_insert (connected v) ep)\<rparr>)"
  by (auto simp: gone_def endpoints_insert_def outbox_insert_def endpoints_contains_def split: option.splits)

lemma gone_try_connect:
  assumes "endpoints_wf (contacts v)" "gone i v"
  shows "gone i (fst (try_connect connects v j responder))"
proof (cases "fmlookup (contacts v) j")
  case None
  then show ?thesis
    using assms by (simp add: try_connect_def gone_send)
next
  case (Some ep)
  then have "ep_id ep \<noteq> i"
    using assms by (auto simp: endpoints_wf_def gone_def endpoints_contains_def)
  moreover have "gone i v'" if "tcp_try_connect connects v (ep_address ep) = Some v'" for v'
    using that assms(2) gone_send(2) by (auto simp: tcp_try_connect_def spawn_connection_workers_def split: if_splits)
  moreover have "gone i (v\<lparr>delayed := d\<rparr>)" for d
    using assms(2) by (simp add: gone_def)
  ultimately show ?thesis
    using assms(2) Some by (auto simp: try_connect_def gone_send gone_connected split: option.splits transport.splits)
qed

text \<open>Only a new connection of the endpoint, and adding it again, bring it back.\<close>

fun returns_event :: "epid \<Rightarrow> event \<Rightarrow> bool" where
  "returns_event i (NewConnection ep _ _) = (ep_id ep = i)"
| "returns_event i _ = False"

fun returns_command :: "epid \<Rightarrow> command \<Rightarrow> bool" where
  "returns_command i (AddEndpoint u _) = (url_address u = i)"
| "returns_command i _ = False"

lemma gone_event:
  assumes "network_inv v" "gone i v" "handle_event now connects v e = Some v'" "\<not> returns_event i e"
  shows "gone i v'"
proof -
  have wf: "endpoints_wf (contacts v)" "endpoints_wf (contacts (fst (disconnect v j)))" for j
    using assms(1) by (simp_all add: network_inv_def disconnect_def outbox_remove_def endpoints_remove_def)
  show ?thesis
  proof (cases e)
    case (LostConnection j)
    let ?d = "fst (disconnect v j)"
    have keep: "contacts u = contacts ?d \<and> gone i u" if "publish e' ?d = Some u" for e' u
      using that gone_disconnect [OF assms(2), of j] by (auto simp: publish_def gone_def)
    obtain u where u: "gone i u" "contacts u = contacts ?d" "v' = fst (try_connect connects u j None)"
      using assms(3) gone_disconnect [OF assms(2), of j] keep unfolding LostConnection
      by (auto simp: case_prod_unfold Let_def bind_eq_Some_conv split: if_splits)
    then show ?thesis
      using gone_try_connect wf(2) [of j] by simp
  next
    case (NewConnection ep origin c)
    then show ?thesis
      using assms(2-4) gone_connected(2) [of i v ep c] by (auto simp: Let_def gone_send(1))
  qed (use assms wf(1) in \<open>auto simp: gone_send gone_try_connect\<close>)
qed

lemma gone_command:
  assumes "network_inv v" "gone i v" "handle_command connects v c = Some v'" "\<not> returns_command i c"
  shows "gone i v'"
proof (cases c)
  case (AddEndpoint u r)
  have "gone i (v\<lparr>contacts := cs, ew_whitelist := wl\<rparr>)"
    if "cs = fmupd (url_address u) ep (contacts v)" "wl = fmupd (url_address u) a (ew_whitelist v)" for cs wl ep a
    using that assms(2,4) AddEndpoint by (auto simp: gone_def endpoints_contains_def)
  then show ?thesis
    using assms(2,3) AddEndpoint
    by (auto simp: add_endpoint_def endpoints_insert_def whitelist_insert_def endpoint_from_url_def endpoint_new_def Let_def
        gone_send bind_eq_Some_conv split: option.splits if_splits)
next
  case (RemoveEndpoint j r)
  have "gone i (v\<lparr>ew_outbox := filter (\<lambda>e. fst e \<noteq> j) (ew_outbox v), contacts := fmdrop j (contacts v), connected := fmdrop j (connected v)\<rparr>)"
    "gone i (v\<lparr>ew_outbox := filter (\<lambda>e. fst e \<noteq> j) (ew_outbox v), contacts := fmdrop j (contacts v), connected := fmdrop j (connected v),
      ew_whitelist := fmdrop j (ew_whitelist v)\<rparr>)"
    using assms(2) by (auto simp: gone_def endpoints_contains_def map_of_filter_key)
  then show ?thesis
    using assms(3) RemoveEndpoint
    by (auto simp: rmv_endpoint_def outbox_remove_def endpoints_remove_def whitelist_remove_def Let_def gone_send bind_eq_Some_conv
        split: if_splits)
next
  case (Connect j r)
  then show ?thesis
    using assms(1-3) gone_try_connect by (auto simp: network_inv_def)
next
  case (Disconnect j r)
  then show ?thesis
    using assms(2,3) gone_disconnect [of i v j]
    by (auto simp: Let_def case_prod_unfold gone_send split: if_splits)
next
  case (SendMessage j bs r)
  then obtain ob res where "outbox_send (ew_outbox v) bs j = Some (ob, res)" "v' = respond r res (v\<lparr>ew_outbox := ob\<rparr>)"
    using assms(3) by (auto simp: bind_eq_Some_conv)
  then show ?thesis
    using assms(2) gone_cong [of "v\<lparr>ew_outbox := ob\<rparr>" v i] outbox_send_keys by (simp add: gone_send)
next
  case (MulticastMessage js bs r)
  then obtain ob n res where "outbox_multicast_loop (ew_outbox v) bs (\<lambda>j. j \<in> set js) 0 = Some (ob, n)" "v' = respond r res (v\<lparr>ew_outbox := ob\<rparr>)"
    using assms(3) by (auto simp: bind_eq_Some_conv outbox_multicast_def)
  then show ?thesis
    using assms(2) gone_cong [of "v\<lparr>ew_outbox := ob\<rparr>" v i] outbox_multicast_loop_keys by (simp add: gone_send)
next
  case (BroadcastMessage bs r)
  then obtain ob n res where "outbox_multicast_loop (ew_outbox v) bs (\<lambda>j. True) 0 = Some (ob, n)" "v' = respond r res (v\<lparr>ew_outbox := ob\<rparr>)"
    using assms(3) by (auto simp: bind_eq_Some_conv outbox_broadcast_def)
  then show ?thesis
    using assms(2) gone_cong [of "v\<lparr>ew_outbox := ob\<rparr>" v i] outbox_multicast_loop_keys by (simp add: gone_send)
qed

text \<open>
  C36. Removing an endpoint. While the event channel is open it succeeds, and says whether the endpoint was a
  contact or connected. Nothing of the endpoint is left in the contacts, the connections, the outbox and the
  whitelist, and no other endpoint is touched. No command but adding it again brings it back, and no
  event does, a lost connection or a delayed attempt to connect, with or without a responder, included: with one
  exception, the event of a new connection of that endpoint, which may still be in the channel when it is removed, or
  come from its address while another contact has the same IP address.
\<close>

theorem rmv_endpoint_correct:
  assumes "network_reachable w" "chan_open (notifier w)"
  shows "\<exists>w'. rmv_endpoint w i = Some (w', endpoints_contains (contacts w) i \<or> endpoints_contains (connected w) i)
    \<and> gone i w'
    \<and> (\<forall>j. j \<noteq> i \<longrightarrow> fmlookup (contacts w') j = fmlookup (contacts w) j \<and> fmlookup (connected w') j = fmlookup (connected w) j
        \<and> map_of (ew_outbox w') j = map_of (ew_outbox w) j \<and> fmlookup (ew_whitelist w') j = fmlookup (ew_whitelist w) j)
    \<and> (\<forall>v v' now connects e. network_reachable v \<and> gone i v \<and> handle_event now connects v e = Some v' \<and> \<not> returns_event i e \<longrightarrow> gone i v')
    \<and> (\<forall>v v' connects c. network_reachable v \<and> gone i v \<and> handle_command connects v c = Some v' \<and> \<not> returns_command i c \<longrightarrow> gone i v')"
proof -
  have wl: "fmlookup (ew_whitelist w) i = None" if "fmlookup (contacts w) i = None"
    using network_reachable_inv [OF assms(1)] that by (simp add: network_inv_def)
  let ?w = "w\<lparr>ew_outbox := filter (\<lambda>e. fst e \<noteq> i) (ew_outbox w), contacts := fmdrop i (contacts w), connected := fmdrop i (connected w)\<rparr>"
  let ?known = "endpoints_contains (contacts w) i \<or> endpoints_contains (connected w) i"
  obtain w' where w': "rmv_endpoint w i = Some (w', ?known)" "contacts w' = contacts ?w" "connected w' = connected ?w"
    "ew_outbox w' = ew_outbox ?w" "ew_whitelist w' = (if ?known then fmdrop i (ew_whitelist w) else ew_whitelist w)"
    using assms(2)
    by (cases ?known) (simp_all add: rmv_endpoint_def outbox_remove_def endpoints_remove_def whitelist_remove_def notify_def
        chan_send_def endpoints_contains_def)
  have "gone i w'"
    using w' wl by (auto simp: gone_def endpoints_contains_def map_of_filter_key)
  moreover have "\<forall>j. j \<noteq> i \<longrightarrow> fmlookup (contacts w') j = fmlookup (contacts w) j \<and> fmlookup (connected w') j = fmlookup (connected w) j
        \<and> map_of (ew_outbox w') j = map_of (ew_outbox w) j \<and> fmlookup (ew_whitelist w') j = fmlookup (ew_whitelist w) j"
    by (simp add: w'(2-5) map_of_filter_key)
  moreover have "gone i v'" if "network_reachable v \<and> gone i v \<and> handle_event now connects v e = Some v' \<and> \<not> returns_event i e" for v v' now connects e
    using that gone_event network_reachable_inv by blast
  moreover have "gone i v'" if "network_reachable v \<and> gone i v \<and> handle_command connects v c = Some v' \<and> \<not> returns_command i c" for v v' connects c
    using that gone_command network_reachable_inv by blast
  ultimately show ?thesis
    using w'(1) by blast
qed

text \<open>An endpoint that was added is removed.\<close>

theorem rmv_endpoint_correct_witness:
  "\<exists>w w'. network_reachable w \<and> endpoints_contains (contacts w) example_addr
    \<and> rmv_endpoint w example_addr = Some (w', True) \<and> gone example_addr w'"
proof -
  obtain w where w: "handle_command True network_init (AddEndpoint (TcpUrl example_addr) None) = Some w"
    and c: "endpoints_contains (contacts w) example_addr" "chan_open (notifier w)"
    by (auto simp: add_endpoint_def endpoints_insert_def network_init_def notify_def chan_send_def endpoint_from_url_def
        endpoint_new_def respond_def Let_def endpoints_contains_def)
  then have r: "network_reachable w"
    using network_reachable.init network_reachable.step network_step.command by blast
  show ?thesis
    using rmv_endpoint_correct [OF r c(2), of example_addr] r c(1) by auto
qed

text \<open>
  A connection can outlive its endpoint. From the empty network, adding any TCP address, connecting to it,
  removing it and handling the events in their order reaches a state without contacts and with an empty
  whitelist, in which the removed endpoint is connected and has a channel.
\<close>

theorem removed_endpoint_stays_connected:
  "\<exists>w. network_reachable w \<and> contacts w = fmempty \<and> ew_whitelist w = fmempty
    \<and> endpoints_contains (connected w) a \<and> map_of (ew_outbox w) a \<noteq> None \<and> chan_queue (notifier w) = []"
proof -
  let ?ep = "endpoint_new a Tcp" and ?c = "\<lparr>chan_open = True, chan_queue = []\<rparr>"
  define w1 where "w1 = network_init\<lparr>contacts := fmupd a ?ep fmempty, ew_whitelist := fmupd a (sa_ip a) fmempty,
    notifier := \<lparr>chan_open = True, chan_queue = [EndpointAdded a 1]\<rparr>\<rparr>"
  define w2 where "w2 = w1\<lparr>connected := fmupd a ?ep fmempty,
    notifier := \<lparr>chan_open = True, chan_queue = [EndpointAdded a 1, NewConnection ?ep Outbound ?c]\<rparr>\<rparr>"
  define w3 where "w3 = network_init\<lparr>
    notifier := \<lparr>chan_open = True, chan_queue = [EndpointAdded a 1, NewConnection ?ep Outbound ?c, EndpointRemoved a 0]\<rparr>\<rparr>"
  define w4 where "w4 = w3\<lparr>notifier := \<lparr>chan_open = True, chan_queue = [NewConnection ?ep Outbound ?c, EndpointRemoved a 0]\<rparr>,
    publisher := \<lparr>chan_open = True, chan_queue = [EndpointAdded a 1]\<rparr>\<rparr>"
  define w5 where "w5 = w4\<lparr>notifier := \<lparr>chan_open = True, chan_queue = [EndpointRemoved a 0]\<rparr>,
    ew_outbox := [(a, ?c)], connected := fmupd a ?ep fmempty,
    publisher := \<lparr>chan_open = True, chan_queue = [EndpointAdded a 1, EndpointConnected a a Outbound 0 1]\<rparr>\<rparr>"
  define w6 where "w6 = w5\<lparr>notifier := ?c, publisher := \<lparr>chan_open = True,
    chan_queue = [EndpointAdded a 1, EndpointConnected a a Outbound 0 1, EndpointRemoved a 0]\<rparr>\<rparr>"
  have c1: "handle_command True network_init (AddEndpoint (TcpUrl a) None) = Some w1"
    by (simp add: add_endpoint_def endpoints_insert_def network_init_def notify_def chan_send_def endpoint_from_url_def
        endpoint_new_def respond_def whitelist_insert_def endpoints_num_def fcard.rep_eq w1_def)
  have c2: "handle_command True w1 (Connect a None) = Some w2"
    by (simp add: try_connect_def tcp_try_connect_def spawn_connection_workers_def notify_def chan_send_def respond_def
        endpoints_insert_def endpoints_contains_def endpoint_new_def network_init_def w1_def w2_def)
  have c3: "handle_command True w2 (RemoveEndpoint a None) = Some w3"
    by (simp add: rmv_endpoint_def outbox_remove_def endpoints_remove_def whitelist_remove_def notify_def chan_send_def
        respond_def endpoints_num_def endpoint_new_def network_init_def fmdrop_single w1_def w2_def w3_def)
  have s4: "network_step w3 w4"
    by (rule network_step.event [of _ "EndpointAdded a 1" _ 0 True]) (simp_all add: w3_def w4_def publish_def chan_send_def network_init_def)
  have s5: "network_step w4 w5"
    by (rule network_step.event [of _ "NewConnection ?ep Outbound ?c" _ 0 True])
      (simp_all add: w3_def w4_def w5_def publish_def chan_send_def network_init_def outbox_insert_def endpoints_insert_def
        endpoint_new_def endpoints_num_def fcard.rep_eq)
  have s6: "network_step w5 w6"
    by (rule network_step.event [of _ "EndpointRemoved a 0" _ 0 True]) (simp_all add: w3_def w4_def w5_def w6_def publish_def chan_send_def)
  note steps = c1 [THEN network_step.command] c2 [THEN network_step.command] c3 [THEN network_step.command] s4 s5 s6
  have "network_reachable w6"
    by (rule network_reachable.step [OF _ steps(6)] network_reachable.step [OF _ steps(5)] network_reachable.step [OF _ steps(4)]
        network_reachable.step [OF _ steps(3)] network_reachable.step [OF _ steps(2)] network_reachable.step [OF _ steps(1)]
        network_reachable.init)+
  then show ?thesis
    by (intro exI [of _ w6]) (simp add: w6_def w5_def w4_def w3_def network_init_def endpoints_contains_def)
qed

end
