(* ===== verification/Node_Events.thy ===== *)
theory Node_Events
  imports Network_Endpoints
begin

text \<open>
  The event loop of a node (src/bee-node/src/node.rs) with \<open>Protocol::register\<close>
  (src/bee-protocol/src/protocol/protocol.rs): the events that the endpoint worker publishes are turned into
  commands to the network and into workers for peers. A registered worker is recorded with the channel from which it will
  read the bytes of its peer and with the signal to stop it; the node keeps the number of the worker of each
  connected endpoint. A worker may end at any time, also while its endpoint is connected (a handshake with a peer that is
  already connected, or a panic): it drops both receivers, and sending to it fails from then on. A channel has all
  that was sent into it; that a bounded channel makes the sender wait is not modelled.
\<close>

section \<open>The node\<close>

record registered_worker =
  rw_epid :: epid
  rw_address :: socket_addr
  rw_origin :: origin
  rw_receiver :: "bytes chan"
  rw_shutdown :: "unit chan"

record node =
  nd_network :: "command chan"
  nd_peer_manager :: "(epid, socket_addr \<times> origin) fmap"
  nd_workers :: "registered_worker list"
  nd_peers :: "(epid, nat) fmap"

definition node_new :: "command chan \<Rightarrow> node" where
  "node_new network = \<lparr>nd_network = network, nd_peer_manager = fmempty, nd_workers = [], nd_peers = fmempty\<rparr>"

text \<open>A failed send is only logged.\<close>

definition send_logged :: "'a \<Rightarrow> 'a chan \<Rightarrow> 'a chan" where
  "send_logged x c = (case chan_send x c of None \<Rightarrow> c | Some c \<Rightarrow> c)"

text \<open>
  \<open>register\<close> adds the peer to the peer manager and starts a handshaker with new channels; it returns the number of
  the worker, which stands for the senders of these channels.
\<close>

definition worker_new :: "epid \<Rightarrow> socket_addr \<Rightarrow> origin \<Rightarrow> registered_worker" where
  "worker_new epid address' origin =
     \<lparr>rw_epid = epid, rw_address = address', rw_origin = origin,
      rw_receiver = \<lparr>chan_open = True, chan_queue = []\<rparr>, rw_shutdown = \<lparr>chan_open = True, chan_queue = []\<rparr>\<rparr>"

definition register :: "node \<Rightarrow> epid \<Rightarrow> socket_addr \<Rightarrow> origin \<Rightarrow> node \<times> nat" where
  "register self epid address' origin =
     (self\<lparr>nd_peer_manager := fmupd epid (address', origin) (nd_peer_manager self),
        nd_workers := nd_workers self @ [worker_new epid address' origin]\<rparr>, length (nd_workers self))"

definition endpoint_added_handler :: "node \<Rightarrow> epid \<Rightarrow> node" where
  "endpoint_added_handler self epid = self\<lparr>nd_network := send_logged (Connect epid None) (nd_network self)\<rparr>"

definition endpoint_removed_handler :: "node \<Rightarrow> epid \<Rightarrow> node" where
  "endpoint_removed_handler self epid = self"

definition endpoint_connected_handler :: "node \<Rightarrow> epid \<Rightarrow> socket_addr \<Rightarrow> origin \<Rightarrow> node" where
  "endpoint_connected_handler self epid address' origin =
     (let (self, w) = register self epid address' origin in self\<lparr>nd_peers := fmupd epid w (nd_peers self)\<rparr>)"

definition endpoint_disconnected_handler :: "node \<Rightarrow> epid \<Rightarrow> node" where
  "endpoint_disconnected_handler self epid =
     (case fmlookup (nd_peers self) epid of
        None \<Rightarrow> self
      | Some w \<Rightarrow>
          self\<lparr>nd_peers := fmdrop epid (nd_peers self),
            nd_workers := (nd_workers self)[w := (nd_workers self ! w)\<lparr>rw_shutdown := send_logged () (rw_shutdown (nd_workers self ! w))\<rparr>]\<rparr>)"

definition endpoint_bytes_received_handler :: "node \<Rightarrow> epid \<Rightarrow> bytes \<Rightarrow> node" where
  "endpoint_bytes_received_handler self epid bs =
     (case fmlookup (nd_peers self) epid of
        None \<Rightarrow> self
      | Some w \<Rightarrow>
          self\<lparr>nd_workers := (nd_workers self)[w := (nd_workers self ! w)\<lparr>rw_receiver := send_logged bs (rw_receiver (nd_workers self ! w))\<rparr>]\<rparr>)"

text \<open>The body of \<open>run\<close>, and the loop over the events it receives.\<close>

definition node_handle :: "node \<Rightarrow> event \<Rightarrow> node" where
  "node_handle self e =
     (case e of
        EndpointAdded epid _ \<Rightarrow> endpoint_added_handler self epid
      | EndpointRemoved epid _ \<Rightarrow> endpoint_removed_handler self epid
      | EndpointConnected epid address' origin _ _ \<Rightarrow> endpoint_connected_handler self epid address' origin
      | EndpointDisconnected epid _ \<Rightarrow> endpoint_disconnected_handler self epid
      | MessageReceived epid bs \<Rightarrow> endpoint_bytes_received_handler self epid bs
      | _ \<Rightarrow> self)"

text \<open>What happens to a node: an event arrives, or a worker ends.\<close>

datatype node_input = NodeEvent event | WorkerEnds nat

definition worker_ends :: "node \<Rightarrow> nat \<Rightarrow> node" where
  "worker_ends self w =
     self\<lparr>nd_workers := (nd_workers self)[w := (nd_workers self ! w)
       \<lparr>rw_receiver := (rw_receiver (nd_workers self ! w))\<lparr>chan_open := False\<rparr>,
        rw_shutdown := (rw_shutdown (nd_workers self ! w))\<lparr>chan_open := False\<rparr>\<rparr>]\<rparr>"

fun node_run :: "node \<Rightarrow> node_input list \<Rightarrow> node" where
  "node_run self [] = self"
| "node_run self (NodeEvent e # inputs) = node_run (node_handle self e) inputs"
| "node_run self (WorkerEnds w # inputs) = node_run (worker_ends self w) inputs"

section \<open>Invariant\<close>

text \<open>Every entry of the map of peers is the number of a worker of that endpoint, so no index is out of range.\<close>

definition node_wf :: "node \<Rightarrow> bool" where
  "node_wf n \<longleftrightarrow> (\<forall>i w. fmlookup (nd_peers n) i = Some w \<longrightarrow> w < length (nd_workers n) \<and> rw_epid (nd_workers n ! w) = i)"

lemma node_wfD: "node_wf n \<Longrightarrow> fmlookup (nd_peers n) i = Some w \<Longrightarrow> w < length (nd_workers n) \<and> rw_epid (nd_workers n ! w) = i"
  by (simp add: node_wf_def)

lemma node_handle_wf:
  assumes "node_wf n"
  shows "node_wf (node_handle n e)"
  using assms
  by (cases e) (auto simp: node_handle_def node_wf_def endpoint_added_handler_def endpoint_removed_handler_def endpoint_connected_handler_def
      endpoint_disconnected_handler_def endpoint_bytes_received_handler_def register_def worker_new_def nth_append nth_list_update less_Suc_eq
      split: option.splits if_splits)

lemma worker_ends_wf: "node_wf n \<Longrightarrow> node_wf (worker_ends n w)"
  by (cases "w < length (nd_workers n)") (auto simp: node_wf_def worker_ends_def nth_list_update list_update_beyond not_less)

lemma node_run_wf: "node_wf n \<Longrightarrow> node_wf (node_run n es)"
  by (induction n es rule: node_run.induct) (simp_all add: node_handle_wf worker_ends_wf)

lemma node_new_wf: "node_wf (node_new c)"
  by (simp add: node_wf_def node_new_def)

section \<open>Delivery\<close>

text \<open>The bytes of an endpoint among the inputs, in their order, until a worker ends.\<close>

fun bytes_until :: "epid \<Rightarrow> nat \<Rightarrow> node_input list \<Rightarrow> bytes list" where
  "bytes_until i w [] = []"
| "bytes_until i w (NodeEvent e # inputs) =
     (case e of
        MessageReceived j bs \<Rightarrow> if i = j then bs # bytes_until i w inputs else bytes_until i w inputs
      | _ \<Rightarrow> bytes_until i w inputs)"
| "bytes_until i w (WorkerEnds v # inputs) = (if v = w then [] else bytes_until i w inputs)"

text \<open>Inputs that neither connect nor disconnect an endpoint.\<close>

fun keeps_connection :: "epid \<Rightarrow> node_input \<Rightarrow> bool" where
  "keeps_connection i (NodeEvent e) =
     (case e of EndpointConnected j _ _ _ _ \<Rightarrow> i \<noteq> j | EndpointDisconnected j _ \<Rightarrow> i \<noteq> j | _ \<Rightarrow> True)"
| "keeps_connection i (WorkerEnds w) = True"

lemma node_handle_other:
  assumes "node_wf n" "fmlookup (nd_peers n) i = Some w" "keeps_connection i (NodeEvent e)"
  shows "fmlookup (nd_peers (node_handle n e)) i = Some w"
    "nd_workers (node_handle n e) ! w =
      (case e of MessageReceived j bs \<Rightarrow> if i = j then (nd_workers n ! w)\<lparr>rw_receiver := send_logged bs (rw_receiver (nd_workers n ! w))\<rparr> else nd_workers n ! w
       | _ \<Rightarrow> nd_workers n ! w)"
proof -
  have w: "w < length (nd_workers n)" "rw_epid (nd_workers n ! w) = i"
    using node_wfD [OF assms(1,2)] by auto
  have other: "v \<noteq> w" if "fmlookup (nd_peers n) j = Some v" "i \<noteq> j" for j v
    using node_wfD [OF assms(1) that(1)] w(2) that(2) by blast
  note defs = node_handle_def endpoint_added_handler_def endpoint_removed_handler_def endpoint_connected_handler_def
    endpoint_disconnected_handler_def endpoint_bytes_received_handler_def register_def
  show "fmlookup (nd_peers (node_handle n e)) i = Some w"
    using assms(2,3) by (cases e) (auto simp: defs split: option.split)
  show "nd_workers (node_handle n e) ! w =
      (case e of MessageReceived j bs \<Rightarrow> if i = j then (nd_workers n ! w)\<lparr>rw_receiver := send_logged bs (rw_receiver (nd_workers n ! w))\<rparr> else nd_workers n ! w
       | _ \<Rightarrow> nd_workers n ! w)"
    using assms(2,3) w(1) other by (cases e) (auto simp: defs nth_append split: option.split)
qed

lemma worker_ends_other:
  "nd_peers (worker_ends n v) = nd_peers n"
  "w < length (nd_workers n) \<Longrightarrow> nd_workers (worker_ends n v) ! w = (if v = w then (nd_workers n ! w)
     \<lparr>rw_receiver := (rw_receiver (nd_workers n ! w))\<lparr>chan_open := False\<rparr>,
      rw_shutdown := (rw_shutdown (nd_workers n ! w))\<lparr>chan_open := False\<rparr>\<rparr> else nd_workers n ! w)"
  by (simp_all add: worker_ends_def)

text \<open>A worker whose channels are closed stays as it is.\<close>

lemma node_run_closed:
  assumes "node_wf n" "fmlookup (nd_peers n) i = Some w" "list_all (keeps_connection i) es"
    "\<not> chan_open (rw_receiver (nd_workers n ! w))" "\<not> chan_open (rw_shutdown (nd_workers n ! w))"
  shows "fmlookup (nd_peers (node_run n es)) i = Some w \<and> nd_workers (node_run n es) ! w = nd_workers n ! w"
  using assms
proof (induction n es rule: node_run.induct)
  case (2 n e es)
  have "nd_workers (node_handle n e) ! w = nd_workers n ! w" "fmlookup (nd_peers (node_handle n e)) i = Some w"
    using node_handle_other [OF 2(2,3), of e] 2(4,5) by (auto simp: send_logged_def chan_send_def split: event.splits)
  then show ?case
    using 2 node_handle_wf by simp
next
  case (3 n v es)
  have "w < length (nd_workers n)"
    using node_wfD [OF 3(2,3)] by simp
  then have "nd_workers (worker_ends n v) ! w = nd_workers n ! w" "fmlookup (nd_peers (worker_ends n v)) i = Some w"
    using 3(3,5,6) by (simp_all add: worker_ends_other)
  then show ?case
    using 3 worker_ends_wf by simp
qed simp

lemma node_run_delivers:
  assumes "node_wf n" "fmlookup (nd_peers n) i = Some w" "list_all (keeps_connection i) es"
    "chan_open (rw_receiver (nd_workers n ! w))" "chan_open (rw_shutdown (nd_workers n ! w))"
  shows "fmlookup (nd_peers (node_run n es)) i = Some w
    \<and> nd_workers (node_run n es) ! w = (nd_workers n ! w)
      \<lparr>rw_receiver := \<lparr>chan_open = (WorkerEnds w \<notin> set es), chan_queue = chan_queue (rw_receiver (nd_workers n ! w)) @ bytes_until i w es\<rparr>,
       rw_shutdown := (rw_shutdown (nd_workers n ! w))\<lparr>chan_open := (WorkerEnds w \<notin> set es)\<rparr>\<rparr>"
  using assms
proof (induction n es rule: node_run.induct)
  case (1 n)
  then show ?case
    by simp
next
  case (2 n e es)
  note h = node_handle_other [OF 2(2,3), of e]
  have wf: "node_wf (node_handle n e)"
    using node_handle_wf [OF 2(2)] .
  show ?case
    using 2(1) [OF wf] 2(4-6) h by (cases e) (auto simp: send_logged_def chan_send_def)
next
  case (3 n v es)
  have w: "w < length (nd_workers n)"
    using node_wfD 3(2,3) by blast
  have wf: "node_wf (worker_ends n v)"
    using worker_ends_wf [OF 3(2)] .
  show ?case
  proof (cases "v = w")
    case True
    then show ?thesis
      using node_run_closed [OF wf, of i w es] 3(3,4) w by (simp add: worker_ends_other)
  next
    case False
    then show ?thesis
      using 3(1) [OF wf] 3(3-) w by (simp add: worker_ends_other)
  qed
qed

text \<open>
  C33. A connected peer gets its bytes. Whatever the node has handled before, from the event that an endpoint is
  connected the bytes received from it, and only those, reach the worker registered for it, in their order and
  without a gap, as long as the endpoint is not disconnected or connected again and until the worker ends;
  other events and the end of other workers do not touch that worker. A worker may end while its endpoint is still
  connected: what arrives afterwards is lost. At the next disconnection the worker is told to stop, if it has not
  ended, and forgotten.
\<close>

theorem node_delivers_bytes:
  assumes "list_all (keeps_connection i) es" and "n = node_run (node_new network) before"
    and "n' = node_run n (NodeEvent (EndpointConnected i a org t k) # es)" "w = length (nd_workers n)"
  shows "fmlookup (nd_peers n') i = Some w
    \<and> nd_workers n' ! w = (worker_new i a org)
      \<lparr>rw_receiver := \<lparr>chan_open = (WorkerEnds w \<notin> set es), chan_queue = bytes_until i w es\<rparr>,
       rw_shutdown := \<lparr>chan_open = (WorkerEnds w \<notin> set es), chan_queue = []\<rparr>\<rparr>
    \<and> (let n'' = node_handle n' (EndpointDisconnected i m) in
        fmlookup (nd_peers n'') i = None
        \<and> chan_queue (rw_shutdown (nd_workers n'' ! w)) = (if WorkerEnds w \<in> set es then [] else [()])
        \<and> rw_receiver (nd_workers n'' ! w) = rw_receiver (nd_workers n' ! w))"
proof -
  let ?c = "node_handle n (EndpointConnected i a org t k)"
  have wf: "node_wf n" "node_wf ?c"
    using node_run_wf [OF node_new_wf] node_handle_wf unfolding assms(2) by blast+
  have c: "fmlookup (nd_peers ?c) i = Some w" "nd_workers ?c ! w = worker_new i a org"
    using assms(4) by (simp_all add: node_handle_def endpoint_connected_handler_def register_def)
  have r: "fmlookup (nd_peers n') i = Some w"
    "nd_workers n' ! w = (worker_new i a org)
      \<lparr>rw_receiver := \<lparr>chan_open = (WorkerEnds w \<notin> set es), chan_queue = bytes_until i w es\<rparr>,
       rw_shutdown := \<lparr>chan_open = (WorkerEnds w \<notin> set es), chan_queue = []\<rparr>\<rparr>"
    using node_run_delivers [OF wf(2) c(1) assms(1)] c(2) assms(3) by (simp_all add: worker_new_def)
  have "node_wf n'"
    using node_run_wf [OF wf(1)] assms(3) by blast
  then have "w < length (nd_workers n')"
    using node_wfD r(1) by blast
  then show ?thesis
    using r by (simp add: node_handle_def endpoint_disconnected_handler_def Let_def worker_new_def send_logged_def chan_send_def)
qed

text \<open>Two chunks of bytes, with another endpoint in between, and a third one after the worker has ended.\<close>

theorem node_delivers_bytes_witness:
  "rw_receiver (nd_workers (node_run (node_new \<lparr>chan_open = True, chan_queue = []\<rparr>)
     [NodeEvent (EndpointConnected example_addr example_addr Inbound 0 1), NodeEvent (MessageReceived example_addr [1]),
      NodeEvent (MessageReceived (SocketV4 7 2) [9]), NodeEvent (MessageReceived example_addr [2]),
      WorkerEnds 0, NodeEvent (MessageReceived example_addr [3])]) ! 0)
   = \<lparr>chan_open = False, chan_queue = [[1], [2]]\<rparr>"
  using node_delivers_bytes [of example_addr
      "[NodeEvent (MessageReceived example_addr [1]), NodeEvent (MessageReceived (SocketV4 7 2) [9]),
        NodeEvent (MessageReceived example_addr [2]), WorkerEnds 0, NodeEvent (MessageReceived example_addr [3])]",
      OF _ refl refl refl, of "\<lparr>chan_open = True, chan_queue = []\<rparr>" "[]" example_addr Inbound 0 1 0]
  by (simp add: example_addr_def node_new_def)

end
