(* ===== verification/Snapshot.thy ===== *)
theory Snapshot
  imports Ledger Protocol_Config
begin

text \<open>
  Snapshots (src/bee-snapshot): the files a node starts from. The metadata file holds a hash, a milestone
  index and the solid entry points, the state file the balances of all addresses, one per line. The last
  section is the part of \<open>Node::init\<close> (src/bee-node/src/node.rs) that hands them to the tangle and the ledger.

  Text is a list of Unicode scalar values. A reader is the text that is still to be read up to the first
  error of the file system or of the UTF-8 decoder, and that error if there is one.
\<close>

section \<open>Text files and numbers of the standard library\<close>

datatype io_error = InvalidData | OsError nat

record reader =
  rd_text :: "nat list"
  rd_error :: "io_error option"

fun split_line :: "nat list \<Rightarrow> nat list \<times> nat list" where
  "split_line [] = ([], [])"
| "split_line (c # cs) = (if c = 10 then ([10], cs) else (let (l, r) = split_line cs in (c # l, r)))"

text \<open>\<open>BufRead::read_line\<close> into an empty string: the next line with its newline, which the last line may lack.\<close>

definition read_line :: "reader \<Rightarrow> io_error + reader \<times> nat list" where
  "read_line rd =
     (let (l, rest) = split_line (rd_text rd) in
      if l \<noteq> [] \<and> last l = 10 then Inr (rd\<lparr>rd_text := rest\<rparr>, l)
      else case rd_error rd of Some e \<Rightarrow> Inl e | None \<Rightarrow> Inr (rd\<lparr>rd_text := []\<rparr>, l))"

text \<open>\<open>BufRead::lines\<close>: no more lines after an empty read; the newline, and a carriage return before it, is removed.\<close>

definition next_line :: "reader \<Rightarrow> (io_error + reader \<times> nat list) option" where
  "next_line rd =
     (case read_line rd of
        Inl e \<Rightarrow> Some (Inl e)
      | Inr (rd, l) \<Rightarrow>
          if l = [] then None
          else let l = (if last l = 10 then (if butlast l \<noteq> [] \<and> last (butlast l) = 13 then butlast (butlast l) else butlast l) else l)
               in Some (Inr (rd, l)))"

text \<open>\<open>&line[..line.len() - 1]\<close>: panics on the empty string, and where the last character has more than one byte.\<close>

definition cut_last :: "nat list \<Rightarrow> nat list option" where
  "cut_last line = (if line = [] \<or> 128 \<le> last line then None else Some (butlast line))"

text \<open>\<open>split(';')\<close>\<close>

fun split_semicolon :: "nat list \<Rightarrow> nat list list" where
  "split_semicolon [] = [[]]"
| "split_semicolon (c # cs) =
     (if c = 59 then [] # split_semicolon cs
      else case split_semicolon cs of [] \<Rightarrow> [[c]] | t # ts \<Rightarrow> (c # t) # ts)"

text \<open>\<open>parse\<close> of an unsigned integer of \<open>w\<close> bits: a sign of its own is no number, a leading plus is accepted.\<close>

datatype parse_int_error = EmptyNumber | InvalidDigit | PosOverflow

fun digits_loop :: "nat \<Rightarrow> nat \<Rightarrow> nat list \<Rightarrow> parse_int_error + nat" where
  "digits_loop w acc [] = Inr acc"
| "digits_loop w acc (c # cs) =
     (if \<not> (48 \<le> c \<and> c \<le> 57) then Inl InvalidDigit
      else if 2 ^ w \<le> acc * 10 then Inl PosOverflow
      else if 2 ^ w \<le> acc * 10 + (c - 48) then Inl PosOverflow
      else digits_loop w (acc * 10 + (c - 48)) cs)"

definition parse_uint :: "nat \<Rightarrow> nat list \<Rightarrow> parse_int_error + nat" where
  "parse_uint w s =
     (case s of
        [] \<Rightarrow> Inl EmptyNumber
      | c # cs \<Rightarrow>
          if cs = [] \<and> (c = 43 \<or> c = 45) then Inl InvalidDigit
          else if c = 43 then digits_loop w 0 cs else digits_loop w 0 s)"

section \<open>Configuration (config.rs)\<close>

definition DEFAULT_META_FILE_PATH :: string where
  "DEFAULT_META_FILE_PATH = ''./data/mainnet.snapshot.meta''"

definition DEFAULT_STATE_FILE_PATH :: string where
  "DEFAULT_STATE_FILE_PATH = ''./data/mainnet.snapshot.state''"

record snapshot_config_builder =
  sb_meta_file_path :: "string option"
  sb_state_file_path :: "string option"

definition snapshot_config_builder_new :: snapshot_config_builder where
  "snapshot_config_builder_new = \<lparr>sb_meta_file_path = None, sb_state_file_path = None\<rparr>"

definition set_meta_file_path :: "snapshot_config_builder \<Rightarrow> string \<Rightarrow> snapshot_config_builder" where
  "set_meta_file_path self path = self\<lparr>sb_meta_file_path := Some path\<rparr>"

definition set_state_file_path :: "snapshot_config_builder \<Rightarrow> string \<Rightarrow> snapshot_config_builder" where
  "set_state_file_path self path = self\<lparr>sb_state_file_path := Some path\<rparr>"

record snapshot_config =
  sc_meta_file_path :: string
  sc_state_file_path :: string

definition snapshot_config_finish :: "snapshot_config_builder \<Rightarrow> snapshot_config" where
  "snapshot_config_finish self =
     \<lparr>sc_meta_file_path = unwrap_or (sb_meta_file_path self) DEFAULT_META_FILE_PATH,
      sc_state_file_path = unwrap_or (sb_state_file_path self) DEFAULT_STATE_FILE_PATH\<rparr>"

section \<open>Metadata (metadata.rs)\<close>

datatype snapshot_metadata_error =
    MetadataIOError io_error
  | InvalidHash
  | InvalidMetadataIndex parse_int_error
  | InvalidTimestamp parse_int_error
  | InvalidSolidEntryPointsNumber parse_int_error
  | InvalidSeenMilestonesNumber parse_int_error
  | InvalidSolidEntryPointHash
  | InvalidSeenMilestoneHash

record snapshot_metadata =
  sm_hash :: hash
  sm_index :: u32
  sm_timestamp :: u64
  sm_solid_entry_points :: "hash list"
  sm_seen_milestones :: "hash list"

text \<open>\<open>TryteBuf::try_from_str\<close>, then \<open>Hash::try_from_inner\<close>; both errors become the given one.\<close>

definition hash_from_text :: "'e \<Rightarrow> nat list \<Rightarrow> ('e + hash) option" where
  "hash_from_text err s = do {
     r \<leftarrow> tryte_buf_try_from_str s;
     (case r of
        Inl _ \<Rightarrow> Some (Inl err)
      | Inr trytes \<Rightarrow> do {
          trits \<leftarrow> tryte_buf_encode trytes;
          h \<leftarrow> hash_try_from_inner trits;
          Some (case h of Inl _ \<Rightarrow> Inl err | Inr h \<Rightarrow> Inr h) }) }"

definition hash_line :: "reader \<Rightarrow> (snapshot_metadata_error + reader \<times> hash) option" where
  "hash_line rd =
     (case read_line rd of
        Inl e \<Rightarrow> Some (Inl (MetadataIOError e))
      | Inr (rd, line) \<Rightarrow> do {
          s \<leftarrow> cut_last line;
          res_try (hash_from_text InvalidHash s) (\<lambda>h. Some (Inr (rd, h))) })"

definition number_line ::
  "(parse_int_error \<Rightarrow> snapshot_metadata_error) \<Rightarrow> nat \<Rightarrow> reader \<Rightarrow> (snapshot_metadata_error + reader \<times> nat) option" where
  "number_line err w rd =
     (case read_line rd of
        Inl e \<Rightarrow> Some (Inl (MetadataIOError e))
      | Inr (rd, line) \<Rightarrow> do {
          s \<leftarrow> cut_last line;
          Some (case parse_uint w s of Inl e \<Rightarrow> Inl (err e) | Inr n \<Rightarrow> Inr (rd, n)) })"

text \<open>
  \<open>Vec::with_capacity\<close> of hashes, which have 243 bytes: a capacity of more than \<open>isize::MAX\<close> bytes panics.
\<close>

definition with_capacity :: "nat \<Rightarrow> hash list option" where
  "with_capacity n = (if n * 243 < 2 ^ 63 then Some [] else None)"

text \<open>The loops over the entry points and over the milestones; \<open>tokens[0]\<close> always exists.\<close>

fun hash_lines_loop ::
  "snapshot_metadata_error \<Rightarrow> nat \<Rightarrow> reader \<Rightarrow> hash list \<Rightarrow> (snapshot_metadata_error + reader \<times> hash list) option" where
  "hash_lines_loop err 0 rd acc = Some (Inr (rd, acc))"
| "hash_lines_loop err (Suc n) rd acc =
     (case read_line rd of
        Inl e \<Rightarrow> Some (Inl (MetadataIOError e))
      | Inr (rd, line) \<Rightarrow>
          res_try (hash_from_text err (hd (split_semicolon line)))
            (\<lambda>h. hash_lines_loop err n rd (acc @ [h])))"

definition snapshot_metadata_new :: "io_error + reader \<Rightarrow> (snapshot_metadata_error + snapshot_metadata) option" where
  "snapshot_metadata_new file =
     (case file of
        Inl e \<Rightarrow> Some (Inl (MetadataIOError e))
      | Inr rd \<Rightarrow>
          res_try (hash_line rd) (\<lambda>(rd, hash).
          res_try (number_line InvalidMetadataIndex 32 rd) (\<lambda>(rd, index).
          res_try (number_line InvalidTimestamp 64 rd) (\<lambda>(rd, timestamp).
          res_try (number_line InvalidSolidEntryPointsNumber 64 rd) (\<lambda>(rd, solid_entry_points_num).
          res_try (number_line InvalidSeenMilestonesNumber 64 rd) (\<lambda>(rd, seen_milestones_num). do {
            entry_points \<leftarrow> with_capacity solid_entry_points_num;
            res_try (hash_lines_loop InvalidSolidEntryPointHash solid_entry_points_num rd entry_points) (\<lambda>(rd, entry_points). do {
              seen \<leftarrow> with_capacity seen_milestones_num;
              res_try (hash_lines_loop InvalidSeenMilestoneHash seen_milestones_num rd seen) (\<lambda>(rd, seen).
                Some (Inr \<lparr>sm_hash = hash, sm_index = word_of_nat index, sm_timestamp = word_of_nat timestamp,
                  sm_solid_entry_points = entry_points, sm_seen_milestones = seen\<rparr>)) }) }))))))"

section \<open>State (state.rs)\<close>

datatype snapshot_state_error =
    StateIOError io_error
  | InvalidStateAddress
  | InvalidBalance parse_int_error
  | InvalidSupply u64 u64

record snapshot_state =
  ss_state :: ledger_state

definition SNAPSHOT_IOTA_SUPPLY :: u64 where
  "SNAPSHOT_IOTA_SUPPLY = 2779530283277761"

definition address_from_text :: "nat list \<Rightarrow> (snapshot_state_error + Transactions.address) option" where
  "address_from_text s = do {
     r \<leftarrow> tryte_buf_try_from_str s;
     (case r of
        Inl _ \<Rightarrow> Some (Inl InvalidStateAddress)
      | Inr trytes \<Rightarrow> do {
          trits \<leftarrow> tryte_buf_encode trytes;
          Some (case field_try_from_inner ADDRESS_TRIT_LEN trits of Inl _ \<Rightarrow> Inl InvalidStateAddress | Inr a \<Rightarrow> Inr a) }) }"

text \<open>One line: \<open>tokens[1]\<close> panics when the line has no semicolon, the sum of the supply when it overflows.\<close>

definition state_line ::
  "nat list \<Rightarrow> ledger_state \<Rightarrow> u64 \<Rightarrow> (snapshot_state_error + ledger_state \<times> u64) option" where
  "state_line line state supply =
     (let tokens = split_semicolon line in
      res_try (address_from_text (hd tokens)) (\<lambda>hash.
        if length tokens < 2 then None
        else case parse_uint 64 (tokens ! 1) of
          Inl e \<Rightarrow> Some (Inl (InvalidBalance e))
        | Inr balance \<Rightarrow>
            if unat supply + balance < 2 ^ 64
            then Some (Inr (fmupd hash (word_of_nat balance) state, supply + word_of_nat balance))
            else None))"

lemma length_split_line: "length (fst (split_line cs)) + length (snd (split_line cs)) = length cs"
  by (induction cs) (auto split: prod.splits)

lemma next_line_shorter:
  "next_line rd = Some (Inr (rd', l)) \<Longrightarrow> length (rd_text rd') < length (rd_text rd)"
  using length_split_line [of "rd_text rd"]
  by (auto simp: next_line_def read_line_def Let_def simp flip: length_greater_0_conv split: prod.splits if_splits option.splits sum.splits)

function state_loop ::
  "reader \<Rightarrow> ledger_state \<Rightarrow> u64 \<Rightarrow> (snapshot_state_error + ledger_state \<times> u64) option" where
  "state_loop rd state supply =
     (case next_line rd of
        None \<Rightarrow> Some (Inr (state, supply))
      | Some (Inl e) \<Rightarrow> Some (Inl (StateIOError e))
      | Some (Inr (rd, line)) \<Rightarrow>
          res_try (state_line line state supply) (\<lambda>(state, supply). state_loop rd state supply))"
  by pat_completeness auto
termination
  by (relation "measure (\<lambda>(rd, _). length (rd_text rd))") (auto dest: next_line_shorter)

declare state_loop.simps [simp del]

definition snapshot_state_new :: "io_error + reader \<Rightarrow> (snapshot_state_error + snapshot_state) option" where
  "snapshot_state_new file =
     (case file of
        Inl e \<Rightarrow> Some (Inl (StateIOError e))
      | Inr rd \<Rightarrow>
          res_try (state_loop rd fmempty 0) (\<lambda>(state, supply).
            if supply \<noteq> SNAPSHOT_IOTA_SUPPLY then Some (Inl (InvalidSupply supply SNAPSHOT_IOTA_SUPPLY))
            else Some (Inr \<lparr>ss_state = state\<rparr>)))"

definition into_state :: "snapshot_state \<Rightarrow> ledger_state" where
  "into_state self = ss_state self"

section \<open>The start of a node (node.rs, init)\<close>

text \<open>
  The metadata goes to the tangle; a file that cannot be read is only logged. When the info log level is enabled
  (\<open>info_enabled\<close>), the log message formats the timestamp as a date, which panics where \<open>date_exists\<close>
  says that the calendar of the chrono crate has none; otherwise the arguments of the message are not evaluated.
  A state file that cannot be read panics.
\<close>

definition init_tangle ::
  "bool \<Rightarrow> (int \<Rightarrow> bool) \<Rightarrow> (snapshot_metadata_error + snapshot_metadata) \<Rightarrow> tangle \<Rightarrow> tangle option" where
  "init_tangle info_enabled date_exists r T =
     (case r of
        Inl _ \<Rightarrow> Some T
      | Inr metadata \<Rightarrow>
          if info_enabled \<and> \<not> date_exists (sint (sm_timestamp metadata)) then None
          else Some (fold (\<lambda>h T. add_solid_entry_point T h) (sm_solid_entry_points metadata)
            (add_solid_entry_point
              (update_snapshot_milestone_index (update_solid_milestone_index T (sm_index metadata)) (sm_index metadata))
              hash_zeros)))"

definition init_snapshot ::
  "bool \<Rightarrow> (int \<Rightarrow> bool) \<Rightarrow> (string \<Rightarrow> io_error + reader) \<Rightarrow> snapshot_config \<Rightarrow> tangle \<Rightarrow> (tangle \<times> ledger_worker) option" where
  "init_snapshot info_enabled date_exists open_file cfg T = do {
     metadata \<leftarrow> snapshot_metadata_new (open_file (sc_meta_file_path cfg));
     T \<leftarrow> init_tangle info_enabled date_exists metadata T;
     state \<leftarrow> snapshot_state_new (open_file (sc_state_file_path cfg));
     (case state of
        Inl _ \<Rightarrow> None
      | Inr s \<Rightarrow> Some (T, ledger_new (into_state s))) }"

section \<open>Reading what was written\<close>

text \<open>The decimal notation of a number, and the trytes of a sequence of trits.\<close>

fun decimal :: "nat \<Rightarrow> nat list" where
  "decimal n = (if n < 10 then [48 + n] else decimal (n div 10) @ [48 + n mod 10])"

declare decimal.simps [simp del]

definition trytes_of :: "btrit list \<Rightarrow> tryte_buf" where
  "trytes_of ts = map (\<lambda>j. all_trytes ! nat (tryte_at ts j + 13)) [0..<length ts div 3]"

definition tryte_text :: "btrit list \<Rightarrow> nat list" where
  "tryte_text ts = map (\<lambda>t. the (tryte_into_char t)) (trytes_of ts)"

definition hash_text :: "hash \<Rightarrow> nat list" where
  "hash_text h = tryte_text (hash_trits h)"

text \<open>A file of lines.\<close>

definition file_text :: "nat list list \<Rightarrow> nat list" where
  "file_text ls = concat (map (\<lambda>l. l @ [10]) ls)"

definition text_file :: "nat list list \<Rightarrow> reader" where
  "text_file ls = \<lparr>rd_text = file_text ls, rd_error = None\<rparr>"

subsection \<open>Numbers\<close>

lemma digits_loop_append:
  "digits_loop w acc (xs @ ys) = (case digits_loop w acc xs of Inl e \<Rightarrow> Inl e | Inr a \<Rightarrow> digits_loop w a ys)"
  by (induction xs arbitrary: acc) simp_all

lemma digits_loop_decimal: "digits_loop w 0 (decimal n) = (if n < 2 ^ w then Inr n else Inl PosOverflow)"
proof (induction n rule: decimal.induct)
  case (1 n)
  show ?case
  proof (cases "n < 10")
    case True
    then show ?thesis
      by (subst decimal.simps) simp
  next
    case False
    have n: "n div 10 * 10 + n mod 10 = n"
      by simp
    then have "n < 2 ^ w \<Longrightarrow> n div 10 < 2 ^ w" "n < 2 ^ w \<Longrightarrow> n div 10 * 10 < 2 ^ w"
      by linarith+
    then show ?thesis
      using False 1 n by (subst decimal.simps) (auto simp: digits_loop_append)
  qed
qed

lemma decimal_range: "c \<in> set (decimal n) \<Longrightarrow> 48 \<le> c \<and> c \<le> 57"
proof (induction n rule: decimal.induct)
  case (1 n)
  have "n mod 10 < 10"
    by simp
  then show ?case
    using 1 by (subst (asm) (2) decimal.simps) (auto split: if_splits)
qed

lemma decimal_nonempty [simp]: "decimal n \<noteq> []"
  by (subst decimal.simps) simp

lemma parse_decimal: "parse_uint w (decimal n) = (if n < 2 ^ w then Inr n else Inl PosOverflow)"
proof -
  have "hd (decimal n) \<noteq> 43" "hd (decimal n) \<noteq> 45"
    using decimal_range [OF hd_in_set [OF decimal_nonempty [of n]]] by auto
  then show ?thesis
    using digits_loop_decimal [of w n] by (auto simp: parse_uint_def simp del: digits_loop.simps split: list.splits)
qed

lemma parse_uint_bound: "parse_uint w s = Inr n \<Longrightarrow> n < 2 ^ w"
proof -
  have "digits_loop w acc cs = Inr n \<Longrightarrow> acc < 2 ^ w \<Longrightarrow> n < 2 ^ w" for acc cs
    by (induction cs arbitrary: acc) (auto split: if_splits)
  from this [of 0] show "parse_uint w s = Inr n \<Longrightarrow> n < 2 ^ w"
    by (simp add: parse_uint_def del: digits_loop.simps split: list.splits if_splits)
qed

subsection \<open>Trytes\<close>

lemma tryte_at_range: "- 13 \<le> tryte_at ts j" "tryte_at ts j \<le> 13"
proof -
  let ?xs = "take 3 (drop (3 * j) ts)"
  have "length ?xs \<in> {0, 1, 2, 3}"
    by auto
  then have "half_range (length ?xs) \<le> 13"
    by (auto simp: half_range_def)
  then show "- 13 \<le> tryte_at ts j" "tryte_at ts j \<le> 13"
    using bal_val_bound [of ?xs] unfolding tryte_at_def by linarith+
qed

lemma trytes_of_value:
  assumes "j < length ts div 3"
  shows "tryte_as_i8 (trytes_of ts ! j) = tryte_at ts j"
  using assms tryte_at_range [of ts j] by (simp add: trytes_of_def all_trytes_as_i8)

lemma try_from_str_chars:
  "tryte_buf_try_from_str (map (\<lambda>t. the (tryte_into_char t)) trytes) = Some (Inr trytes)"
proof (induction trytes)
  case (Cons t trytes)
  then show ?case
    using tryte_char_roundtrip [of t] by auto
qed simp

lemma tryte_text_chars: "c \<in> set (tryte_text ts) \<Longrightarrow> 57 \<le> c \<and> c \<le> 90 \<and> c \<noteq> 59"
proof -
  have "57 \<le> the (tryte_into_char t) \<and> the (tryte_into_char t) \<le> 90 \<and> the (tryte_into_char t) \<noteq> 59" for t
    by (cases t) (simp_all add: tryte_into_char_def)
  then show "c \<in> set (tryte_text ts) \<Longrightarrow> 57 \<le> c \<and> c \<le> 90 \<and> c \<noteq> 59"
    by (auto simp: tryte_text_def)
qed

text \<open>Trits that are a whole number of trytes are read back from their text.\<close>

lemma tryte_text_parsed:
  assumes "length ts = 243"
  shows "tryte_buf_try_from_str (tryte_text ts) = Some (Inr (trytes_of ts))" "tryte_buf_encode (trytes_of ts) = Some ts"
proof -
  show "tryte_buf_try_from_str (tryte_text ts) = Some (Inr (trytes_of ts))"
    unfolding tryte_text_def by (rule try_from_str_chars)
  have len: "length (trytes_of ts) = 81"
    using assms by (simp add: trytes_of_def)
  obtain ts' where ts': "tryte_buf_encode (trytes_of ts) = Some ts'" "length ts' = length (trytes_of ts) * 3"
    "\<And>j. j < length (trytes_of ts) \<Longrightarrow> tryte_at ts' j = tryte_as_i8 (trytes_of ts ! j)"
    using tryte_buf_encode_law [of "trytes_of ts"] cap_243(1) len by auto
  have "ts' = ts"
    using ts'(2,3) len assms trytes_of_value [of _ ts] by (intro trits_of_trytes [of _ 81]) simp_all
  with ts'(1) show "tryte_buf_encode (trytes_of ts) = Some ts"
    by simp
qed

lemma hash_from_text_written: "hash_wf h \<Longrightarrow> hash_from_text err (hash_text h) = Some (Inr h)"
  using tryte_text_parsed [of "hash_trits h"] hash_as_trits_wf [of h]
  by (simp add: hash_from_text_def hash_text_def hash_try_from_inner_def hash_from_inner_unchecked_def HASH_TRIT_LEN_def)

lemma address_from_text_written: "length a = 243 \<Longrightarrow> address_from_text (tryte_text a) = Some (Inr a)"
  using tryte_text_parsed [of a] by (simp add: address_from_text_def field_try_from_inner_def ADDRESS_TRIT_LEN_def)

subsection \<open>Lines\<close>

lemma split_line_append: "10 \<notin> set l \<Longrightarrow> split_line (l @ 10 # rest) = (l @ [10], rest)"
  by (induction l) auto

lemma read_line_written:
  "10 \<notin> set l \<Longrightarrow> read_line \<lparr>rd_text = l @ 10 # rest, rd_error = e\<rparr> = Inr (\<lparr>rd_text = rest, rd_error = e\<rparr>, l @ [10])"
  by (simp add: read_line_def split_line_append)

lemma read_line_end: "read_line \<lparr>rd_text = [], rd_error = None\<rparr> = Inr (\<lparr>rd_text = [], rd_error = None\<rparr>, [])"
  by (simp add: read_line_def)

lemma cut_last_newline [simp]: "cut_last (l @ [10]) = Some l"
  by (simp add: cut_last_def)

lemma split_semicolon_append: "59 \<notin> set l \<Longrightarrow> split_semicolon (l @ 59 # rest) = l # split_semicolon rest"
  by (induction l) auto

lemma split_semicolon_none: "59 \<notin> set l \<Longrightarrow> split_semicolon l = [l]"
  by (induction l) auto

lemma number_line_written:
  "number_line err w \<lparr>rd_text = decimal n @ 10 # rest, rd_error = e\<rparr> =
     Some (if n < 2 ^ w then Inr (\<lparr>rd_text = rest, rd_error = e\<rparr>, n) else Inl (err PosOverflow))"
proof -
  have "10 \<notin> set (decimal n)"
    using decimal_range [of 10 n] by auto
  then show ?thesis
    by (simp add: number_line_def read_line_written parse_decimal)
qed

lemma hash_line_written:
  assumes "hash_wf h"
  shows "hash_line \<lparr>rd_text = hash_text h @ 10 # rest, rd_error = e\<rparr> = Some (Inr (\<lparr>rd_text = rest, rd_error = e\<rparr>, h))"
proof -
  have "10 \<notin> set (hash_text h)"
    using tryte_text_chars [of 10] by (auto simp: hash_text_def)
  then show ?thesis
    by (simp add: hash_line_def read_line_written hash_from_text_written [OF assms])
qed

text \<open>The line of a hash with the number of its milestone after a semicolon.\<close>

definition entry_line :: "hash \<times> nat \<Rightarrow> nat list" where
  "entry_line e = hash_text (fst e) @ 59 # decimal (snd e)"

lemma entry_line_written:
  assumes "hash_wf (fst x)"
  shows "10 \<notin> set (entry_line x)" "hash_from_text err (hd (split_semicolon (entry_line x @ [10]))) = Some (Inr (fst x))"
proof -
  have "10 \<notin> set (hash_text (fst x))" "59 \<notin> set (hash_text (fst x))" "10 \<notin> set (decimal (snd x))"
    using tryte_text_chars [of 10] tryte_text_chars [of 59] decimal_range [of 10] by (auto simp: hash_text_def)
  then show "10 \<notin> set (entry_line x)" "hash_from_text err (hd (split_semicolon (entry_line x @ [10]))) = Some (Inr (fst x))"
    using hash_from_text_written [OF assms] by (simp_all add: entry_line_def split_semicolon_append)
qed

lemma file_text_simps [simp]: "file_text [] = []" "file_text (l # ls) = l @ 10 # file_text ls" "file_text (ls @ ls') = file_text ls @ file_text ls'"
  by (simp_all add: file_text_def)

lemma hash_lines_loop_written:
  "list_all (hash_wf \<circ> fst) xs \<Longrightarrow>
   hash_lines_loop err (length xs) \<lparr>rd_text = file_text (map entry_line xs) @ rest, rd_error = e\<rparr> acc =
     Some (Inr (\<lparr>rd_text = rest, rd_error = e\<rparr>, acc @ map fst xs))"
  by (induction xs arbitrary: acc) (simp_all add: read_line_written entry_line_written)

lemma hash_lines_loop_end:
  "list_all (hash_wf \<circ> fst) xs \<Longrightarrow> length xs < n \<Longrightarrow>
   hash_lines_loop err n \<lparr>rd_text = file_text (map entry_line xs), rd_error = None\<rparr> acc = Some (Inl err)"
proof (induction xs arbitrary: n acc)
  case Nil
  have "tryte_buf_encode [] = Some []"
    using tryte_buf_encode_law [of "[]"] by auto
  then have "hash_from_text err [] = Some (Inl err)"
    by (simp add: hash_from_text_def hash_try_from_inner_def HASH_TRIT_LEN_def)
  then show ?case
    using Nil by (cases n) (simp_all add: read_line_end)
next
  case (Cons x xs)
  then show ?case
    by (cases n) (simp_all add: read_line_written entry_line_written)
qed

section \<open>Metadata files\<close>

definition header_lines :: "snapshot_metadata \<Rightarrow> nat list list" where
  "header_lines m =
     [hash_text (sm_hash m), decimal (unat (sm_index m)), decimal (unat (sm_timestamp m)),
      decimal (length (sm_solid_entry_points m)), decimal (length (sm_seen_milestones m))]"

definition metadata_lines :: "snapshot_metadata \<Rightarrow> nat list \<Rightarrow> nat list \<Rightarrow> nat list list" where
  "metadata_lines m is js =
     header_lines m @ map entry_line (zip (sm_solid_entry_points m) is) @ map entry_line (zip (sm_seen_milestones m) js)"

lemma length_header [simp]: "length (header_lines m) = 5"
  by (simp add: header_lines_def)

text \<open>Metadata whose hashes are trits and whose lists a vector can hold.\<close>

definition metadata_wf :: "snapshot_metadata \<Rightarrow> bool" where
  "metadata_wf m \<longleftrightarrow>
     hash_wf (sm_hash m) \<and> list_all hash_wf (sm_solid_entry_points m) \<and> list_all hash_wf (sm_seen_milestones m)
     \<and> length (sm_solid_entry_points m) * 243 < 2 ^ 63 \<and> length (sm_seen_milestones m) * 243 < 2 ^ 63"

text \<open>What follows the header.\<close>

definition read_entries :: "snapshot_metadata \<Rightarrow> reader \<Rightarrow> (snapshot_metadata_error + snapshot_metadata) option" where
  "read_entries m rd =
     res_try (hash_lines_loop InvalidSolidEntryPointHash (length (sm_solid_entry_points m)) rd []) (\<lambda>(rd, entry_points).
     res_try (hash_lines_loop InvalidSeenMilestoneHash (length (sm_seen_milestones m)) rd []) (\<lambda>(rd, seen).
       Some (Inr (m\<lparr>sm_solid_entry_points := entry_points, sm_seen_milestones := seen\<rparr>))))"

lemma header_read:
  assumes "metadata_wf m"
  shows "snapshot_metadata_new (Inr \<lparr>rd_text = file_text (header_lines m) @ rest, rd_error = e\<rparr>) =
    read_entries m \<lparr>rd_text = rest, rd_error = e\<rparr>"
proof -
  have "unat (sm_index m) < 2 ^ 32" "unat (sm_timestamp m) < 2 ^ 64"
    using unat_less_pow [of "sm_index m"] unat_less_pow [of "sm_timestamp m"] by simp_all
  then show ?thesis
    using assms
    by (cases m) (simp add: snapshot_metadata_new_def header_lines_def hash_line_written number_line_written metadata_wf_def
        with_capacity_def read_entries_def)
qed

lemma header_cut:
  assumes "metadata_wf m" "k < 5"
  shows "snapshot_metadata_new (Inr (text_file (take k (header_lines m)))) = None"
proof -
  have "number_line err w \<lparr>rd_text = [], rd_error = None\<rparr> = None" "hash_line \<lparr>rd_text = [], rd_error = None\<rparr> = None" for err w
    by (simp_all add: number_line_def hash_line_def read_line_end cut_last_def)
  moreover have "unat (sm_index m) < 2 ^ 32" "unat (sm_timestamp m) < 2 ^ 64"
    using unat_less_pow [of "sm_index m"] unat_less_pow [of "sm_timestamp m"] by simp_all
  moreover have "k \<in> {0, 1, 2, 3, 4}"
    using assms(2) by auto
  ultimately show ?thesis
    using assms(1)
    by (auto simp: snapshot_metadata_new_def header_lines_def hash_line_written number_line_written metadata_wf_def text_file_def)
qed

lemma list_all_zip_fst: "list_all P xs \<Longrightarrow> list_all (P \<circ> fst) (zip xs ys)"
  by (auto simp: list_all_iff dest: set_zip_leftD)

lemma metadata_written:
  assumes "metadata_wf m" "length is = length (sm_solid_entry_points m)" "length js = length (sm_seen_milestones m)"
  shows "snapshot_metadata_new (Inr \<lparr>rd_text = file_text (metadata_lines m is js) @ rest, rd_error = e\<rparr>) = Some (Inr m)"
proof -
  let ?xs = "zip (sm_solid_entry_points m) is" and ?ys = "zip (sm_seen_milestones m) js"
  have wf: "list_all (hash_wf \<circ> fst) ?xs" "list_all (hash_wf \<circ> fst) ?ys"
    and fst: "map fst ?xs = sm_solid_entry_points m" "map fst ?ys = sm_seen_milestones m"
    and len: "length ?xs = length (sm_solid_entry_points m)" "length ?ys = length (sm_seen_milestones m)"
    using assms by (simp_all add: metadata_wf_def list_all_zip_fst)
  show ?thesis
    using header_read [OF assms(1)] hash_lines_loop_written [OF wf(1), unfolded fst len] hash_lines_loop_written [OF wf(2), unfolded fst len]
    by (simp add: metadata_lines_def read_entries_def)
qed

text \<open>
  C37. Metadata files are read back, and only whole ones: the file that holds the hash, the index, the
  timestamp, the two counts, and the solid entry points and the seen milestones of \<open>m\<close>, each as a line with the
  hash, a semicolon and any number, is read as \<open>m\<close>, whatever follows it. Cut off after a line, it is never accepted: within the first five lines the reader
  panics, and later the missing entry is reported as an invalid hash.
\<close>

theorem metadata_read_back:
  assumes "metadata_wf m" "length is = length (sm_solid_entry_points m)" "length js = length (sm_seen_milestones m)"
  shows "snapshot_metadata_new (Inr \<lparr>rd_text = file_text (metadata_lines m is js) @ rest, rd_error = e\<rparr>) = Some (Inr m)
    \<and> (\<forall>k < length (metadata_lines m is js).
      snapshot_metadata_new (Inr (text_file (take k (metadata_lines m is js)))) =
        (if k < 5 then None
         else Some (Inl (if k < 5 + length is then InvalidSolidEntryPointHash else InvalidSeenMilestoneHash))))"
proof (intro conjI allI impI)
  let ?xs = "zip (sm_solid_entry_points m) is" and ?ys = "zip (sm_seen_milestones m) js"
  have wf: "list_all (hash_wf \<circ> fst) ?xs" "list_all (hash_wf \<circ> fst) ?ys"
    and fst: "map fst ?xs = sm_solid_entry_points m" "map fst ?ys = sm_seen_milestones m"
    and len: "length ?xs = length (sm_solid_entry_points m)" "length ?ys = length (sm_seen_milestones m)"
    using assms by (simp_all add: metadata_wf_def list_all_zip_fst)
  note written = hash_lines_loop_written [OF wf(1), unfolded fst len] hash_lines_loop_written [OF wf(2), unfolded fst len]
  show "snapshot_metadata_new (Inr \<lparr>rd_text = file_text (metadata_lines m is js) @ rest, rd_error = e\<rparr>) = Some (Inr m)"
    by (rule metadata_written [OF assms])
  have wf_take: "list_all (hash_wf \<circ> fst) (take j ?xs)" "list_all (hash_wf \<circ> fst) (take j ?ys)" for j
    using wf by (auto simp: list_all_iff dest: in_set_takeD)
  show "snapshot_metadata_new (Inr (text_file (take k (metadata_lines m is js)))) =
      (if k < 5 then None
       else Some (Inl (if k < 5 + length is then InvalidSolidEntryPointHash else InvalidSeenMilestoneHash)))"
    if k: "k < length (metadata_lines m is js)" for k
  proof (cases "k < 5")
    case True
    then show ?thesis
      using header_cut [OF assms(1) True] by (simp add: metadata_lines_def)
  next
    case False
    let ?t = "take (k - 5) (map entry_line ?xs) @ take (k - 5 - length is) (map entry_line ?ys)"
    have "take k (metadata_lines m is js) = header_lines m @ ?t"
      using False assms(2) by (simp add: metadata_lines_def)
    then have "snapshot_metadata_new (Inr (text_file (take k (metadata_lines m is js)))) =
      read_entries m \<lparr>rd_text = file_text ?t, rd_error = None\<rparr>"
      using header_read [OF assms(1)] by (simp add: text_file_def)
    moreover have "read_entries m \<lparr>rd_text = file_text ?t, rd_error = None\<rparr> =
      Some (Inl (if k < 5 + length is then InvalidSolidEntryPointHash else InvalidSeenMilestoneHash))"
    proof (cases "k < 5 + length is")
      case True
      then show ?thesis
        using hash_lines_loop_end [OF wf_take(1) [of "k - 5"], of "length (sm_solid_entry_points m)"] assms(2) False
        by (simp add: read_entries_def flip: take_map)
    next
      case later: False
      then show ?thesis
        using hash_lines_loop_end [OF wf_take(2) [of "k - 5 - length is"], of "length (sm_seen_milestones m)"] assms(2,3) k
        by (simp add: read_entries_def metadata_lines_def written flip: take_map)
    qed
    ultimately show ?thesis
      using False by simp
  qed
qed

text \<open>Metadata with one entry point.\<close>

definition example_metadata :: snapshot_metadata where
  "example_metadata =
     \<lparr>sm_hash = hash_zeros, sm_index = 7, sm_timestamp = 1590000000, sm_solid_entry_points = [hash_zeros], sm_seen_milestones = []\<rparr>"

lemma example_metadata_wf: "metadata_wf example_metadata"
  by (simp add: metadata_wf_def example_metadata_def hash_wf_def hash_zeros_def list_all_iff)

theorem metadata_read_back_witness:
  "snapshot_metadata_new (Inr (text_file (metadata_lines example_metadata [3] []))) = Some (Inr example_metadata)
   \<and> snapshot_metadata_new (Inr (text_file (take 5 (metadata_lines example_metadata [3] [])))) = Some (Inl InvalidSolidEntryPointHash)"
proof -
  note t = metadata_read_back [OF example_metadata_wf, of "[3]" "[]" "[]" None]
  have len: "length (metadata_lines example_metadata [3] []) = 6"
    by (simp add: metadata_lines_def example_metadata_def)
  show ?thesis
    using t [THEN conjunct1] t [THEN conjunct2, unfolded len, rule_format, of 5]
    by (simp add: text_file_def example_metadata_def)
qed

section \<open>State files\<close>

definition state_line_text :: "Transactions.address \<times> u64 \<Rightarrow> nat list" where
  "state_line_text e = tryte_text (fst e) @ 59 # decimal (unat (snd e))"

definition state_sum :: "(Transactions.address \<times> u64) list \<Rightarrow> nat" where
  "state_sum entries = sum_list (map (unat \<circ> snd) entries)"

lemma state_sum_simps [simp]: "state_sum [] = 0" "state_sum (e # es) = unat (snd e) + state_sum es"
  by (simp_all add: state_sum_def)

lemma state_line_written:
  assumes "length (fst e) = 243"
  shows "state_line (state_line_text e) state supply =
    (if unat supply + unat (snd e) < 2 ^ 64 then Some (Inr (fmupd (fst e) (snd e) state, supply + snd e)) else None)"
proof -
  have "59 \<notin> set (tryte_text (fst e))" "59 \<notin> set (decimal (unat (snd e)))" "unat (snd e) < 2 ^ 64"
    using tryte_text_chars [of 59] decimal_range [of 59] unat_less_pow [of "snd e"] by auto
  then show ?thesis
    by (simp add: state_line_def state_line_text_def split_semicolon_append split_semicolon_none parse_decimal
        address_from_text_written [OF assms])
qed

lemma next_line_written:
  assumes "10 \<notin> set l" "13 \<notin> set l"
  shows "next_line \<lparr>rd_text = l @ 10 # rest, rd_error = e\<rparr> = Some (Inr (\<lparr>rd_text = rest, rd_error = e\<rparr>, l))"
proof -
  have "l \<noteq> [] \<Longrightarrow> last l \<noteq> 13"
    using assms(2) by (metis last_in_set)
  then show ?thesis
    using assms(1) by (auto simp: next_line_def read_line_written)
qed

lemma state_loop_written:
  "list_all (\<lambda>e. length (fst e) = 243) es \<Longrightarrow>
   state_loop \<lparr>rd_text = file_text (map state_line_text es), rd_error = None\<rparr> state supply =
     (if unat supply + state_sum es < 2 ^ 64
      then Some (Inr (fold (\<lambda>e m. fmupd (fst e) (snd e) m) es state, supply + word_of_nat (state_sum es))) else None)"
proof (induction es arbitrary: state "supply")
  case Nil
  have "unat supply < 2 ^ 64"
    using unat_less_pow [of "supply"] by simp
  then show ?case
    by (subst state_loop.simps) (simp add: next_line_def read_line_end)
next
  case (Cons e es)
  have "10 \<notin> set (state_line_text e)" "13 \<notin> set (state_line_text e)"
    using tryte_text_chars [of 10] tryte_text_chars [of 13] decimal_range [of 10] decimal_range [of 13]
    by (auto simp: state_line_text_def)
  moreover have "unat (supply + snd e) = unat supply + unat (snd e)" if "unat supply + unat (snd e) < 2 ^ 64"
    using that unat_add_carry [of "supply" "snd e"] by simp
  ultimately show ?case
    using Cons by (subst state_loop.simps) (simp add: next_line_written state_line_written add.assoc)
qed

lemma supply_unat: "int (unat SNAPSHOT_IOTA_SUPPLY) = IOTA_SUPPLY"
  by (simp add: SNAPSHOT_IOTA_SUPPLY_def IOTA_SUPPLY_def)

lemma fold_fmupd: "fold (\<lambda>e m. fmupd (fst e) (snd e) m) es m = m ++\<^sub>f fmap_of_list (rev es)"
proof (induction es arbitrary: m)
  case (Cons e es)
  then show ?case
    by (intro fmap_ext) (simp add: fmlookup_of_list map_add_def split: option.splits)
qed simp

lemma total_balance_distinct:
  assumes "distinct (map fst es)"
  shows "total_balance (fmap_of_list (rev es)) = int (state_sum es)"
proof -
  let ?m = "fmap_of_list (rev es)"
  have look: "fmlookup ?m a = map_of es a" for a
    using assms map_of_inject_set [of "rev es" es] by (simp add: fmlookup_of_list flip: rev_map)
  have "a \<in> fmdom' ?m \<longleftrightarrow> a \<in> fst ` set es" for a
    using map_of_eq_None_iff [of es a] by (auto simp: fmlookup_dom'_iff look)
  then have "fmdom' ?m = fst ` set es"
    by blast
  then have "total_balance ?m = (\<Sum>a \<in> fst ` set es. case map_of es a of Some b \<Rightarrow> uint b | None \<Rightarrow> 0)"
    by (simp add: total_balance_def balance_or_zero_def look)
  also have "\<dots> = int (state_sum es)"
    using assms
  proof (induction es)
    case (Cons e es)
    have "(\<Sum>a \<in> fst ` set es. case map_of (e # es) a of Some b \<Rightarrow> uint b | None \<Rightarrow> 0)
        = (\<Sum>a \<in> fst ` set es. case map_of es a of Some b \<Rightarrow> uint b | None \<Rightarrow> 0)"
      using Cons.prems by (intro sum.cong) (auto simp: image_iff)
    then show ?case
      using Cons by (cases e) simp_all
  qed simp
  finally show ?thesis .
qed

lemma snapshot_state_new_written:
  assumes "list_all (\<lambda>e. length (fst e) = 243) es"
  shows "snapshot_state_new (Inr (text_file (map state_line_text es))) =
    (if 2 ^ 64 \<le> state_sum es then None
     else if int (state_sum es) \<noteq> IOTA_SUPPLY then Some (Inl (InvalidSupply (word_of_nat (state_sum es)) SNAPSHOT_IOTA_SUPPLY))
     else Some (Inr \<lparr>ss_state = fmap_of_list (rev es)\<rparr>))"
proof -
  have "word_of_nat (state_sum es) = SNAPSHOT_IOTA_SUPPLY \<longleftrightarrow> int (state_sum es) = IOTA_SUPPLY" if "state_sum es < 2 ^ 64"
    using that unat_word_of_nat_small [of "state_sum es", where 'a = 64]
    by (simp add: word_unat_eq_iff del: of_nat_unat flip: supply_unat)
  then show ?thesis
    using state_loop_written [OF assms, of fmempty 0]
    by (simp add: snapshot_state_new_def text_file_def fold_fmupd)
qed

text \<open>Every line of an accepted file adds its balance to the sum once, and replaces the balance of its address.\<close>

lemma total_balance_fmupd: "total_balance (fmupd a b m) \<le> total_balance m + uint b"
proof -
  have "total_balance (fmupd a b m) = (\<Sum>x \<in> insert a (fmdom' m). balance_or_zero (fmupd a b m) x)"
    by (intro total_balance_superset) auto
  also have "\<dots> \<le> (\<Sum>x \<in> insert a (fmdom' m). balance_or_zero m x + (if x = a then uint b else 0))"
    by (intro sum_mono) (auto simp: balance_or_zero_def split: option.splits)
  also have "\<dots> = (\<Sum>x \<in> insert a (fmdom' m). balance_or_zero m x) + uint b"
    by (simp add: sum.distrib)
  also have "(\<Sum>x \<in> insert a (fmdom' m). balance_or_zero m x) = total_balance m"
    by (intro total_balance_superset [symmetric]) auto
  finally show ?thesis .
qed

lemma state_line_bound:
  assumes "state_line line state supply = Some (Inr (state', supply'))"
  shows "total_balance state' - total_balance state \<le> uint supply' - uint supply"
    and "\<exists>a b. length a = 243 \<and> state' = fmupd a b state"
proof -
  obtain a n where a: "address_from_text (hd (split_semicolon line)) = Some (Inr a)" "parse_uint 64 (split_semicolon line ! 1) = Inr n"
    and sum: "unat supply + n < 2 ^ 64" and res: "state' = fmupd a (word_of_nat n) state" "supply' = supply + word_of_nat n"
    using assms by (auto simp: state_line_def Let_def res_try_Inr_iff split: if_splits sum.splits)
  have "length a = 243"
    using a(1) by (auto simp: address_from_text_def field_try_from_inner_def ADDRESS_TRIT_LEN_def
        split: bind_splits sum.splits if_splits)
  with res show "\<exists>a b. length a = 243 \<and> state' = fmupd a b state"
    by blast
  have n: "unat (word_of_nat n :: u64) = n"
    using sum by (intro unat_word_of_nat_small) simp
  have "unat supply' = unat supply + unat (word_of_nat n :: u64)"
    using unat_add_carry [of "supply" "word_of_nat n"] sum n res(2) by simp
  then have "int (unat supply') = int (unat supply) + int (unat (word_of_nat n :: u64))"
    by (simp only: of_nat_add)
  then have "uint supply' = uint supply + uint (word_of_nat n :: u64)"
    by (simp only: of_nat_unat)
  then show "total_balance state' - total_balance state \<le> uint supply' - uint supply"
    using total_balance_fmupd [of a "word_of_nat n" state] unfolding res(1) by simp
qed

definition addresses_wf :: "ledger_state \<Rightarrow> bool" where
  "addresses_wf state \<longleftrightarrow> (\<forall>a b. fmlookup state a = Some b \<longrightarrow> length a = 243)"

lemma state_loop_bound:
  "state_loop rd state supply = Some (Inr (state', supply')) \<Longrightarrow> total_balance state \<le> uint supply \<Longrightarrow> addresses_wf state
    \<Longrightarrow> total_balance state' \<le> uint supply' \<and> addresses_wf state'"
proof (induction rd state "supply" rule: state_loop.induct)
  case (1 rd state "supply")
  show ?case
  proof (cases "next_line rd")
    case None
    then show ?thesis
      using "1.prems" by (simp add: state_loop.simps [of rd])
  next
    case (Some r)
    then obtain rd' line where r: "next_line rd = Some (Inr (rd', line))"
      using "1.prems"(1) by (cases r) (auto simp: state_loop.simps [of rd])
    then obtain st su where line: "state_line line state supply = Some (Inr (st, su))"
      and rec: "state_loop rd' st su = Some (Inr (state', supply'))"
      using "1.prems"(1) by (auto simp: state_loop.simps [of rd] res_try_Inr_iff)
    have "total_balance st \<le> uint su" "addresses_wf st"
      using state_line_bound [OF line] "1.prems"(2,3) by (auto simp: addresses_wf_def split: if_splits)
    then show ?thesis
      using "1.IH" [OF r refl refl rec] by simp
  qed
qed

text \<open>
  C38. Which state files are accepted, and what they say. The file of a list of addresses and balances panics when
  the balances add up to \<open>2 ^ 64\<close> or more, is refused with the sum when that is not the supply, and is read as
  the map of the last balance of each address otherwise. Where no address occurs twice the balances of that map
  add up to the supply.
\<close>

theorem snapshot_state_correct:
  assumes "list_all (\<lambda>e. length (fst e) = 243) es"
  shows "snapshot_state_new (Inr (text_file (map state_line_text es))) =
    (if 2 ^ 64 \<le> state_sum es then None
     else if int (state_sum es) \<noteq> IOTA_SUPPLY then Some (Inl (InvalidSupply (word_of_nat (state_sum es)) SNAPSHOT_IOTA_SUPPLY))
     else Some (Inr \<lparr>ss_state = fmap_of_list (rev es)\<rparr>))
   \<and> (distinct (map fst es) \<longrightarrow> total_balance (fmap_of_list (rev es)) = int (state_sum es))"
  using snapshot_state_new_written [OF assms] total_balance_distinct by blast

text \<open>
  The same address twice: the sum of the lines is the supply, the file is accepted, and the ledger starts with
  less than the supply.
\<close>

definition doubled_entries :: "(Transactions.address \<times> u64) list" where
  "doubled_entries = [(replicate 243 Zero, SNAPSHOT_IOTA_SUPPLY - 5), (replicate 243 Zero, 5)]"

theorem snapshot_state_correct_witness:
  "\<exists>s. snapshot_state_new (Inr (text_file (map state_line_text doubled_entries))) = Some (Inr s) \<and> total_balance (into_state s) = 5"
proof -
  let ?a = "replicate 243 Zero"
  have "fmap_of_list (rev doubled_entries) = fmupd ?a 5 fmempty"
    by (intro fmap_ext) (simp add: doubled_entries_def fmlookup_of_list)
  moreover have "total_balance (fmupd ?a 5 fmempty) = 5"
    by (simp add: total_balance_def balance_or_zero_def)
  moreover have "state_sum doubled_entries = 2779530283277761"
    by (simp add: doubled_entries_def SNAPSHOT_IOTA_SUPPLY_def)
  ultimately show ?thesis
    using snapshot_state_correct [of doubled_entries, THEN conjunct1]
    by (simp add: doubled_entries_def IOTA_SUPPLY_def into_state_def)
qed

section \<open>The start of a node\<close>

lemma init_tangle_written:
  "(info_enabled \<longrightarrow> date_exists (sint (sm_timestamp m))) \<Longrightarrow>
   init_tangle info_enabled date_exists (Inr m) T =
     Some (T\<lparr>solid_milestone_index := sm_index m, snapshot_milestone_index := sm_index m,
       solid_entry_points := insert hash_zeros (solid_entry_points T) \<union> set (sm_solid_entry_points m)\<rparr>)"
proof -
  have "fold (\<lambda>h T. add_solid_entry_point T h) hs T = T\<lparr>solid_entry_points := solid_entry_points T \<union> set hs\<rparr>" for hs and T :: tangle
    by (induction hs arbitrary: T) (simp_all add: add_solid_entry_point_def)
  then show "(info_enabled \<longrightarrow> date_exists (sint (sm_timestamp m))) \<Longrightarrow> ?thesis"
    by (simp add: init_tangle_def add_solid_entry_point_def update_solid_milestone_index_def update_snapshot_milestone_index_def)
qed

lemma hash_from_text_wf: "hash_from_text err s = Some (Inr h) \<Longrightarrow> hash_wf h"
  by (auto simp: hash_from_text_def hash_try_from_inner_def hash_from_inner_unchecked_def HASH_TRIT_LEN_def message_of_wf
      split: bind_splits sum.splits if_splits)

lemma hash_lines_loop_wf:
  "hash_lines_loop err n rd acc = Some (Inr (rd', hs)) \<Longrightarrow> list_all hash_wf acc \<Longrightarrow> list_all hash_wf hs"
proof (induction n arbitrary: rd acc)
  case (Suc n)
  then show ?case
    by (fastforce simp: res_try_Inr_iff hash_from_text_wf split: sum.splits)
qed simp

lemma metadata_entry_points_wf:
  assumes "snapshot_metadata_new file = Some (Inr m)"
  shows "list_all hash_wf (sm_solid_entry_points m)"
  using assms
  by (auto simp: snapshot_metadata_new_def res_try_Inr_iff with_capacity_def intro: hash_lines_loop_wf
      split: sum.splits bind_splits if_splits)

lemma snapshot_state_new_sound:
  assumes "snapshot_state_new file = Some (Inr s)"
  shows "total_balance (into_state s) \<le> IOTA_SUPPLY" "addresses_wf (into_state s)"
proof -
  obtain rd where "state_loop rd fmempty 0 = Some (Inr (into_state s, SNAPSHOT_IOTA_SUPPLY))"
    using assms by (auto simp: snapshot_state_new_def res_try_Inr_iff into_state_def split: sum.splits if_splits)
  then have "total_balance (into_state s) \<le> uint SNAPSHOT_IOTA_SUPPLY \<and> addresses_wf (into_state s)"
    by (rule state_loop_bound) (simp_all add: total_balance_def addresses_wf_def)
  then show "total_balance (into_state s) \<le> IOTA_SUPPLY" "addresses_wf (into_state s)"
    using supply_unat by simp_all
qed

lemma init_snapshot_written:
  assumes "metadata_wf m" "length is = length (sm_solid_entry_points m)" "length js = length (sm_seen_milestones m)"
    and "info_enabled \<longrightarrow> date_exists (sint (sm_timestamp m))"
    and "list_all (\<lambda>e. length (fst e) = 243) es" "distinct (map fst es)" "int (state_sum es) = IOTA_SUPPLY"
    and "open_file (sc_meta_file_path cfg) = Inr (text_file (metadata_lines m is js))"
    and "open_file (sc_state_file_path cfg) = Inr (text_file (map state_line_text es))"
  shows "\<exists>T' ledger. init_snapshot info_enabled date_exists open_file cfg T = Some (T', ledger)
    \<and> solid_milestone_index T' = sm_index m
    \<and> (\<forall>h. is_solid_entry_point T' h \<longleftrightarrow> h = hash_zeros \<or> h \<in> set (sm_solid_entry_points m) \<or> is_solid_entry_point T h)
    \<and> (\<forall>a. get_balance ledger a = map_of es a) \<and> total_balance (lw_state ledger) = IOTA_SUPPLY"
proof -
  have m: "snapshot_metadata_new (open_file (sc_meta_file_path cfg)) = Some (Inr m)"
    using metadata_written [OF assms(1-3), of "[]" None] assms(8) by (simp add: text_file_def)
  have small: "state_sum es < 2 ^ 64"
    using assms(7) by (simp add: IOTA_SUPPLY_def)
  then have "snapshot_state_new (open_file (sc_state_file_path cfg)) = Some (Inr \<lparr>ss_state = fmap_of_list (rev es)\<rparr>)"
    using snapshot_state_new_written [OF assms(5)] assms(7,9) by simp
  moreover have "map_of (rev es) = map_of es"
    using assms(6) map_of_inject_set [of "rev es" es] by (simp flip: rev_map)
  ultimately show ?thesis
    using m init_tangle_written [of info_enabled date_exists m T] assms(4,7) total_balance_distinct [OF assms(6)]
    by (auto simp: init_snapshot_def ledger_new_def into_state_def is_solid_entry_point_def get_balance_def fmlookup_of_list)
qed

text \<open>The whole supply on one address.\<close>

definition example_entries :: "(Transactions.address \<times> u64) list" where
  "example_entries = [(replicate 243 Zero, SNAPSHOT_IOTA_SUPPLY)]"

definition example_files :: "string \<Rightarrow> io_error + reader" where
  "example_files path =
     Inr (text_file (if path = DEFAULT_META_FILE_PATH then metadata_lines example_metadata [3] []
       else map state_line_text example_entries))"

lemma example_state: "int (state_sum example_entries) = IOTA_SUPPLY"
  by (simp add: example_entries_def SNAPSHOT_IOTA_SUPPLY_def IOTA_SUPPLY_def)

lemma example_opens:
  "example_files (sc_meta_file_path (snapshot_config_finish snapshot_config_builder_new)) = Inr (text_file (metadata_lines example_metadata [3] []))"
  "example_files (sc_state_file_path (snapshot_config_finish snapshot_config_builder_new)) = Inr (text_file (map state_line_text example_entries))"
  by (simp_all add: example_files_def snapshot_config_finish_def snapshot_config_builder_new_def unwrap_or_def
      DEFAULT_META_FILE_PATH_def DEFAULT_STATE_FILE_PATH_def)

text \<open>
  C17. A node that starts, from whatever files and at whatever log level: the ledger is given addresses of 243 trits, with balances that add up to
  the supply at most, as the ledger worker needs to keep the supply. The tangle either stays as it was, when
  the metadata cannot be read, or takes over the index and the solid entry points of the metadata, which are
  hashes of trits, with the hash of zeros among them.
\<close>

theorem node_start_sound:
  assumes "init_snapshot info_enabled date_exists open_file cfg T = Some (T', ledger)"
  shows "total_balance (lw_state ledger) \<le> IOTA_SUPPLY \<and> addresses_wf (lw_state ledger)
    \<and> (case snapshot_metadata_new (open_file (sc_meta_file_path cfg)) of
         Some (Inr m) \<Rightarrow> solid_milestone_index T' = sm_index m \<and> snapshot_milestone_index T' = sm_index m
           \<and> solid_entry_points T' = insert hash_zeros (solid_entry_points T) \<union> set (sm_solid_entry_points m)
           \<and> list_all hash_wf (sm_solid_entry_points m) \<and> vertices T' = vertices T
       | Some (Inl e) \<Rightarrow> T' = T
       | None \<Rightarrow> False)"
proof -
  obtain r s where r: "snapshot_metadata_new (open_file (sc_meta_file_path cfg)) = Some r" "init_tangle info_enabled date_exists r T = Some T'"
    and s: "snapshot_state_new (open_file (sc_state_file_path cfg)) = Some (Inr s)" "ledger = ledger_new (into_state s)"
    using assms by (auto simp: init_snapshot_def split: bind_splits sum.splits)
  have "total_balance (lw_state ledger) \<le> IOTA_SUPPLY \<and> addresses_wf (lw_state ledger)"
    using snapshot_state_new_sound [OF s(1)] s(2) by (simp add: ledger_new_def)
  moreover have ?thesis if "r = Inl e" for e
    using calculation r that by (simp add: init_tangle_def)
  moreover have ?thesis if m: "r = Inr m" for m
  proof -
    have "info_enabled \<longrightarrow> date_exists (sint (sm_timestamp m))"
      using r(2) m by (auto simp: init_tangle_def split: if_splits)
    then show ?thesis
      using calculation(1) r init_tangle_written [of info_enabled date_exists m T] metadata_entry_points_wf [of _ m] unfolding m by auto
  qed
  ultimately show ?thesis
    by (cases r) blast+
qed

theorem node_start_sound_witness:
  "\<exists>T ledger. init_snapshot True (\<lambda>_. True) example_files (snapshot_config_finish snapshot_config_builder_new) tangle_new = Some (T, ledger)
    \<and> total_balance (lw_state ledger) \<le> IOTA_SUPPLY \<and> addresses_wf (lw_state ledger)"
proof -
  let ?cfg = "snapshot_config_finish snapshot_config_builder_new"
  obtain T ledger where r: "init_snapshot True (\<lambda>_. True) example_files ?cfg tangle_new = Some (T, ledger)"
    using init_snapshot_written [OF example_metadata_wf _ _ _ _ _ example_state example_opens, of True "\<lambda>_. True" tangle_new]
    by (auto simp: example_metadata_def example_entries_def)
  then show ?thesis
    using node_start_sound [OF r] by blast
qed

text \<open>
  C39. A node that is given the files of \<open>m\<close> and of the entries \<open>es\<close>, whose addresses of 243 trits are distinct and whose balances
  add up to the supply, starts: the tangle has the entry points and the index of \<open>m\<close>, and the ledger the
  balances, the whole supply. There is one exception: when the info log level is enabled and the timestamp is no
  date that the chrono crate can represent, the node panics.
\<close>

theorem node_starts_from_files:
  assumes "metadata_wf m" "length is = length (sm_solid_entry_points m)" "length js = length (sm_seen_milestones m)"
    and "list_all (\<lambda>e. length (fst e) = 243) es" "distinct (map fst es)" "int (state_sum es) = IOTA_SUPPLY"
    and "open_file (sc_meta_file_path cfg) = Inr (text_file (metadata_lines m is js))"
    and "open_file (sc_state_file_path cfg) = Inr (text_file (map state_line_text es))"
  shows "if info_enabled \<and> \<not> date_exists (sint (sm_timestamp m))
    then init_snapshot info_enabled date_exists open_file cfg T = None
    else \<exists>T' ledger. init_snapshot info_enabled date_exists open_file cfg T = Some (T', ledger)
      \<and> solid_milestone_index T' = sm_index m
      \<and> (\<forall>h. is_solid_entry_point T' h \<longleftrightarrow> h = hash_zeros \<or> h \<in> set (sm_solid_entry_points m) \<or> is_solid_entry_point T h)
      \<and> (\<forall>a. get_balance ledger a = map_of es a) \<and> total_balance (lw_state ledger) = IOTA_SUPPLY"
proof (cases "info_enabled \<and> \<not> date_exists (sint (sm_timestamp m))")
  case True
  have "snapshot_metadata_new (open_file (sc_meta_file_path cfg)) = Some (Inr m)"
    using metadata_written [OF assms(1-3), of "[]" None] assms(7) by (simp add: text_file_def)
  then show ?thesis
    using True by (simp add: init_snapshot_def init_tangle_def)
next
  case False
  then have d: "info_enabled \<longrightarrow> date_exists (sint (sm_timestamp m))"
    by simp
  show ?thesis
    unfolding if_not_P [OF False]
    using init_snapshot_written [where info_enabled = info_enabled and date_exists = date_exists, OF assms(1-3) d assms(4-8)] .
qed

theorem node_starts_from_files_witness:
  "(\<exists>T ledger. init_snapshot True (\<lambda>_. True) example_files (snapshot_config_finish snapshot_config_builder_new) tangle_new = Some (T, ledger)
    \<and> is_solid_entry_point T hash_zeros \<and> get_balance ledger (replicate 243 Zero) = Some SNAPSHOT_IOTA_SUPPLY)
   \<and> init_snapshot True (\<lambda>_. False) example_files (snapshot_config_finish snapshot_config_builder_new) tangle_new = None"
  using node_starts_from_files [OF example_metadata_wf _ _ _ _ example_state example_opens, of True "\<lambda>_. True" tangle_new]
    node_starts_from_files [OF example_metadata_wf _ _ _ _ example_state example_opens, of True "\<lambda>_. False" tangle_new]
  by (auto simp: example_metadata_def example_entries_def)

end
