(* ===== verification/Storage.thy ===== *)
theory Storage
  imports Protocol_Workers Bigint_U384 "HOL-Library.AList"
begin

text \<open>
  The RocksDB backend of the storage (src/bee-storage/src/rocksdb/mod.rs): transactions, milestones and their
  attributes under keys that are the T5B1 bytes of hashes, one column family per attribute. The database is a
  library and a parameter: a record of its operations, with what is documented of them as the predicate
  \<open>rocksdb_law\<close>. An operation of the database that fails returns its message; the database after it is
  whatever the library leaves. Write options, which decide about durability, are not modelled.

  Sets and maps that are arguments are lists, in the order in which the program iterates over them.
\<close>

section \<open>The database\<close>

datatype column_family =
    TRANSACTION_CF_HASH_TO_TRANSACTION
  | TRANSACTION_CF_HASH_TO_SOLID
  | TRANSACTION_CF_HASH_TO_SNAPSHOT_INDEX
  | TRANSACTION_CF_HASH_TO_APROVEES
  | MILESTONE_CF_HASH_TO_INDEX
  | MILESTONE_CF_INDEX_TO_HASH
  | MILESTONE_CF_HASH_TO_DELTA

datatype batch_op =
    BatchPut column_family bytes bytes
  | BatchDelete column_family bytes

record 'db rocksdb =
  db_open_cf :: "string \<Rightarrow> string + 'db"
  db_flush :: "'db \<Rightarrow> 'db \<times> (string + unit)"
  db_put_cf :: "'db \<Rightarrow> column_family \<Rightarrow> bytes \<Rightarrow> bytes \<Rightarrow> 'db \<times> (string + unit)"
  db_get_cf :: "'db \<Rightarrow> column_family \<Rightarrow> bytes \<Rightarrow> string + bytes option"
  db_write :: "'db \<Rightarrow> batch_op list \<Rightarrow> 'db \<times> (string + unit)"
  db_iterator_cf :: "'db \<Rightarrow> column_family \<Rightarrow> (bytes \<times> bytes) list"

type_synonym contents = "column_family \<Rightarrow> bytes \<Rightarrow> bytes option"

definition batch_apply :: "batch_op \<Rightarrow> contents \<Rightarrow> contents" where
  "batch_apply op c =
     (case op of
        BatchPut cf k v \<Rightarrow> c(cf := (c cf)(k \<mapsto> v))
      | BatchDelete cf k \<Rightarrow> c(cf := (c cf)(k := None)))"

text \<open>
  What an operation that succeeds does to the contents: \<open>put\<close> stores a value, a batch is applied as a whole,
  \<open>get\<close> returns what is stored, and an iterator yields every entry of a column family once.
\<close>

definition rocksdb_law :: "'db rocksdb \<Rightarrow> ('db \<Rightarrow> contents) \<Rightarrow> bool" where
  "rocksdb_law lib look \<longleftrightarrow>
     (\<forall>db cf k v db'. db_put_cf lib db cf k v = (db', Inr ()) \<longrightarrow> look db' = batch_apply (BatchPut cf k v) (look db))
     \<and> (\<forall>db batch db'. db_write lib db batch = (db', Inr ()) \<longrightarrow> look db' = fold batch_apply batch (look db))
     \<and> (\<forall>db cf k r. db_get_cf lib db cf k = Inr r \<longrightarrow> r = look db cf k)
     \<and> (\<forall>db cf. distinct (map fst (db_iterator_cf lib db cf)) \<and> map_of (db_iterator_cf lib db cf) = look db cf)"

section \<open>Encoding\<close>

text \<open>\<open>hash.to_inner().encode::<T5B1Buf>()\<close> as bytes.\<close>

definition hash_buf :: "hash \<Rightarrow> bytes option" where
  "hash_buf h = do { trits \<leftarrow> hash_as_trits h; t5b1_bytes trits }"

definition approvees_into_trits_allocated :: "hash \<Rightarrow> hash \<Rightarrow> btrit list \<Rightarrow> btrit list option" where
  "approvees_into_trits_allocated trunk branch buf = do {
     t \<leftarrow> hash_as_trits trunk;
     buf \<leftarrow> t1b1_copy_raw_bytes buf t 0 HASH_TRIT_LEN;
     b \<leftarrow> hash_as_trits branch;
     t1b1_copy_raw_bytes buf b HASH_TRIT_LEN HASH_TRIT_LEN }"

text \<open>\<open>Trits::<T5B1>::from_raw_unchecked(cast_slice(buff), n)\<close> encoded as T1B1.\<close>

definition decode_trits :: "bytes \<Rightarrow> nat \<Rightarrow> btrit list option" where
  "decode_trits buff n = do {
     s \<leftarrow> raw_from_raw_unchecked t5b1 (cast_i8 buff) n;
     slice_to_buf t1b1_buf (cast_i8 buff) s }"

definition decode_transaction :: "bytes \<Rightarrow> transaction option" where
  "decode_transaction buff = do {
     trits \<leftarrow> decode_trits buff TRANSACTION_TRIT_LEN;
     r \<leftarrow> transaction_from_trits t1b1_buf trits;
     (case r of Inl _ \<Rightarrow> None | Inr tx \<Rightarrow> Some tx) }"

definition decode_hash :: "bytes \<Rightarrow> hash option" where
  "decode_hash buff = do {
     trits \<leftarrow> decode_trits buff HASH_TRIT_LEN;
     hash_from_inner_unchecked (take HASH_TRIT_LEN trits) }"

definition decode_aprovees :: "bytes \<Rightarrow> (hash \<times> hash) option" where
  "decode_aprovees buff = do {
     trits \<leftarrow> decode_trits buff (HASH_TRIT_LEN * 2);
     trunk \<leftarrow> hash_from_inner_unchecked (take HASH_TRIT_LEN trits);
     branch \<leftarrow> hash_from_inner_unchecked (take HASH_TRIT_LEN (drop HASH_TRIT_LEN trits));
     Some (trunk, branch) }"

section \<open>The backend\<close>

datatype rocks_db_backend_error =
    RocksDBError string
  | TransactionDoesNotExist

text \<open>
  The connection holds the database once it is established; every operation unwraps it. An operation that
  writes returns the connection and its result.
\<close>

type_synonym 'db connection = "'db option"

definition establish_connection :: "'db rocksdb \<Rightarrow> 'db connection \<Rightarrow> string \<Rightarrow> 'db connection \<times> (rocks_db_backend_error + unit)" where
  "establish_connection lib conn url =
     (case db_open_cf lib url of Inl e \<Rightarrow> (conn, Inl (RocksDBError e)) | Inr db \<Rightarrow> (Some db, Inr ()))"

definition destroy_connection :: "'db rocksdb \<Rightarrow> 'db connection \<Rightarrow> 'db connection \<times> (rocks_db_backend_error + unit)" where
  "destroy_connection lib conn =
     (case conn of
        None \<Rightarrow> (None, Inr ())
      | Some db \<Rightarrow> (case db_flush lib db of (db, r) \<Rightarrow> (Some db, map_sum RocksDBError id r)))"

definition put_cf :: "'db rocksdb \<Rightarrow> 'db \<Rightarrow> column_family \<Rightarrow> bytes \<Rightarrow> bytes \<Rightarrow> 'db connection \<times> (rocks_db_backend_error + unit)" where
  "put_cf lib db cf k v = (case db_put_cf lib db cf k v of (db, r) \<Rightarrow> (Some db, map_sum RocksDBError id r))"

definition write_opt :: "'db rocksdb \<Rightarrow> 'db \<Rightarrow> batch_op list \<Rightarrow> 'db connection \<times> (rocks_db_backend_error + unit)" where
  "write_opt lib db batch = (case db_write lib db batch of (db, r) \<Rightarrow> (Some db, map_sum RocksDBError id r))"

definition get_cf :: "'db rocksdb \<Rightarrow> 'db \<Rightarrow> column_family \<Rightarrow> bytes \<Rightarrow> rocks_db_backend_error + bytes option" where
  "get_cf lib db cf k = map_sum RocksDBError id (db_get_cf lib db cf k)"

definition insert_transaction_db ::
  "'db rocksdb \<Rightarrow> 'db connection \<Rightarrow> hash \<Rightarrow> transaction \<Rightarrow> ('db connection \<times> (rocks_db_backend_error + unit)) option" where
  "insert_transaction_db lib conn tx_hash tx = do {
     db \<leftarrow> conn;
     tx_trit_buf \<leftarrow> trit_buf_zeros t1b1_buf Zero TRANSACTION_TRIT_LEN;
     aprovees_trit_buf \<leftarrow> trit_buf_zeros t1b1_buf Zero (HASH_TRIT_LEN * 2);
     tx_trit_buf \<leftarrow> into_trits_allocated tx tx_trit_buf;
     key \<leftarrow> hash_buf tx_hash;
     v \<leftarrow> t5b1_bytes tx_trit_buf;
     (case put_cf lib db TRANSACTION_CF_HASH_TO_TRANSACTION key v of
        (conn, Inl e) \<Rightarrow> Some (conn, Inl e)
      | (conn, Inr _) \<Rightarrow> do {
          db \<leftarrow> conn;
          aprovees_trit_buf \<leftarrow> approvees_into_trits_allocated (tx_trunk tx) (tx_branch tx) aprovees_trit_buf;
          v \<leftarrow> t5b1_bytes aprovees_trit_buf;
          Some (put_cf lib db TRANSACTION_CF_HASH_TO_APROVEES key v) }) }"

text \<open>The loop of \<open>insert_transactions\<close> fills the same two buffers for every transaction.\<close>

fun insert_batch_loop ::
  "(hash \<times> transaction) list \<Rightarrow> btrit list \<Rightarrow> btrit list \<Rightarrow> batch_op list \<Rightarrow> batch_op list option" where
  "insert_batch_loop [] tx_trit_buf aprovees_trit_buf batch = Some batch"
| "insert_batch_loop ((tx_hash, tx) # txs) tx_trit_buf aprovees_trit_buf batch = do {
     tx_trit_buf \<leftarrow> into_trits_allocated tx tx_trit_buf;
     key \<leftarrow> hash_buf tx_hash;
     v \<leftarrow> t5b1_bytes tx_trit_buf;
     let batch = batch @ [BatchPut TRANSACTION_CF_HASH_TO_TRANSACTION key v];
     aprovees_trit_buf \<leftarrow> approvees_into_trits_allocated (tx_trunk tx) (tx_branch tx) aprovees_trit_buf;
     v \<leftarrow> t5b1_bytes aprovees_trit_buf;
     insert_batch_loop txs tx_trit_buf aprovees_trit_buf (batch @ [BatchPut TRANSACTION_CF_HASH_TO_APROVEES key v]) }"

definition insert_transactions_db ::
  "'db rocksdb \<Rightarrow> 'db connection \<Rightarrow> (hash \<times> transaction) list \<Rightarrow> ('db connection \<times> (rocks_db_backend_error + unit)) option" where
  "insert_transactions_db lib conn transactions = do {
     db \<leftarrow> conn;
     tx_trit_buf \<leftarrow> trit_buf_zeros t1b1_buf Zero TRANSACTION_TRIT_LEN;
     aprovees_trit_buf \<leftarrow> trit_buf_zeros t1b1_buf Zero (HASH_TRIT_LEN * 2);
     batch \<leftarrow> insert_batch_loop transactions tx_trit_buf aprovees_trit_buf [];
     Some (write_opt lib db batch) }"

definition find_transaction ::
  "'db rocksdb \<Rightarrow> 'db connection \<Rightarrow> hash \<Rightarrow> (rocks_db_backend_error + transaction) option" where
  "find_transaction lib conn tx_hash = do {
     db \<leftarrow> conn;
     key \<leftarrow> hash_buf tx_hash;
     (case get_cf lib db TRANSACTION_CF_HASH_TO_TRANSACTION key of
        Inl e \<Rightarrow> Some (Inl e)
      | Inr None \<Rightarrow> Some (Inl TransactionDoesNotExist)
      | Inr (Some res) \<Rightarrow> map_option Inr (decode_transaction res)) }"

text \<open>A batch with one entry per hash.\<close>

fun hash_batch :: "(bytes \<Rightarrow> batch_op) \<Rightarrow> hash list \<Rightarrow> batch_op list option" where
  "hash_batch f [] = Some []"
| "hash_batch f (hash # hashes) = do {
     key \<leftarrow> hash_buf hash;
     batch \<leftarrow> hash_batch f hashes;
     Some (f key # batch) }"

definition update_transactions_set_solid ::
  "'db rocksdb \<Rightarrow> 'db connection \<Rightarrow> hash list \<Rightarrow> ('db connection \<times> (rocks_db_backend_error + unit)) option" where
  "update_transactions_set_solid lib conn hashes = do {
     db \<leftarrow> conn;
     batch \<leftarrow> hash_batch (\<lambda>key. BatchPut TRANSACTION_CF_HASH_TO_SOLID key [1]) hashes;
     Some (write_opt lib db batch) }"

definition update_transactions_set_snapshot_index ::
  "'db rocksdb \<Rightarrow> 'db connection \<Rightarrow> hash list \<Rightarrow> u32 \<Rightarrow> ('db connection \<times> (rocks_db_backend_error + unit)) option" where
  "update_transactions_set_snapshot_index lib conn hashes snapshot_index = do {
     db \<leftarrow> conn;
     batch \<leftarrow> hash_batch (\<lambda>key. BatchPut TRANSACTION_CF_HASH_TO_SNAPSHOT_INDEX key (u32_to_le_bytes snapshot_index)) hashes;
     Some (write_opt lib db batch) }"

text \<open>A value for every hash; the first error of the database is returned.\<close>

fun get_loop ::
  "'db rocksdb \<Rightarrow> 'db \<Rightarrow> column_family \<Rightarrow> (bytes option \<Rightarrow> 'a option) \<Rightarrow> hash list \<Rightarrow> (rocks_db_backend_error + 'a list) option" where
  "get_loop lib db cf f [] = Some (Inr [])"
| "get_loop lib db cf f (hash # hashes) = do {
     key \<leftarrow> hash_buf hash;
     (case get_cf lib db cf key of
        Inl e \<Rightarrow> Some (Inl e)
      | Inr res \<Rightarrow> do {
          x \<leftarrow> f res;
          res_try (get_loop lib db cf f hashes) (\<lambda>xs. Some (Inr (x # xs))) }) }"

definition get_transactions_solid_state ::
  "'db rocksdb \<Rightarrow> 'db connection \<Rightarrow> hash list \<Rightarrow> (rocks_db_backend_error + bool list) option" where
  "get_transactions_solid_state lib conn hashes = do {
     db \<leftarrow> conn;
     get_loop lib db TRANSACTION_CF_HASH_TO_SOLID (\<lambda>res. Some (res \<noteq> None)) hashes }"

text \<open>\<open>ptr::copy\<close> of four bytes into the buffer that \<open>u32::from_le_bytes\<close> reads; a shorter value has no behaviour.\<close>

definition index_of_value :: "bytes option \<Rightarrow> u32 option" where
  "index_of_value res =
     (case res of
        None \<Rightarrow> Some 0
      | Some v \<Rightarrow> if 4 \<le> length v then Some (u32_from_le_bytes (v ! 0) (v ! 1) (v ! 2) (v ! 3)) else None)"

definition get_transactions_snapshot_index ::
  "'db rocksdb \<Rightarrow> 'db connection \<Rightarrow> hash list \<Rightarrow> (rocks_db_backend_error + u32 list) option" where
  "get_transactions_snapshot_index lib conn hashes = do {
     db \<leftarrow> conn;
     get_loop lib db TRANSACTION_CF_HASH_TO_SNAPSHOT_INDEX index_of_value hashes }"

definition delete_transactions ::
  "'db rocksdb \<Rightarrow> 'db connection \<Rightarrow> hash list \<Rightarrow> ('db connection \<times> (rocks_db_backend_error + unit)) option" where
  "delete_transactions lib conn hashes = do {
     db \<leftarrow> conn;
     batch \<leftarrow> hash_batch (BatchDelete TRANSACTION_CF_HASH_TO_TRANSACTION) hashes;
     Some (write_opt lib db batch) }"

definition insert_milestone ::
  "'db rocksdb \<Rightarrow> 'db connection \<Rightarrow> milestone \<Rightarrow> ('db connection \<times> (rocks_db_backend_error + unit)) option" where
  "insert_milestone lib conn milestone = do {
     db \<leftarrow> conn;
     key \<leftarrow> hash_buf (ms_hash milestone);
     (case put_cf lib db MILESTONE_CF_HASH_TO_INDEX key (u32_to_le_bytes (ms_index milestone)) of
        (conn, Inl e) \<Rightarrow> Some (conn, Inl e)
      | (conn, Inr _) \<Rightarrow> do {
          db \<leftarrow> conn;
          Some (put_cf lib db MILESTONE_CF_INDEX_TO_HASH (u32_to_le_bytes (ms_index milestone)) key) }) }"

text \<open>\<open>copy_from_slice\<close> into four bytes panics on any other length.\<close>

definition find_milestone ::
  "'db rocksdb \<Rightarrow> 'db connection \<Rightarrow> hash \<Rightarrow> (rocks_db_backend_error + milestone) option" where
  "find_milestone lib conn milestone_hash = do {
     db \<leftarrow> conn;
     key \<leftarrow> hash_buf milestone_hash;
     (case get_cf lib db MILESTONE_CF_HASH_TO_INDEX key of
        Inl e \<Rightarrow> Some (Inl e)
      | Inr None \<Rightarrow> Some (Inl TransactionDoesNotExist)
      | Inr (Some v) \<Rightarrow>
          if length v = 4
          then Some (Inr \<lparr>ms_hash = milestone_hash, ms_index = u32_from_le_bytes (v ! 0) (v ! 1) (v ! 2) (v ! 3)\<rparr>)
          else None) }"

definition delete_milestones ::
  "'db rocksdb \<Rightarrow> 'db connection \<Rightarrow> hash list \<Rightarrow> ('db connection \<times> (rocks_db_backend_error + unit)) option" where
  "delete_milestones lib conn hashes = do {
     db \<leftarrow> conn;
     batch \<leftarrow> hash_batch (BatchDelete MILESTONE_CF_HASH_TO_INDEX) hashes;
     Some (write_opt lib db batch) }"

text \<open>The maps from a transaction to its approvers, over the entries that the iterator yields.\<close>

definition add_approver :: "(hash \<Rightarrow> hash set option) \<Rightarrow> hash \<Rightarrow> hash \<Rightarrow> (hash \<Rightarrow> hash set option)" where
  "add_approver m hash approver = m(hash \<mapsto> insert approver (case m hash of None \<Rightarrow> {} | Some s \<Rightarrow> s))"

fun existing_loop :: "(bytes \<times> bytes) list \<Rightarrow> (hash \<Rightarrow> hash set option) \<Rightarrow> (hash \<Rightarrow> hash set option) option" where
  "existing_loop [] m = Some m"
| "existing_loop ((key, v) # entries) m = do {
     (trunk, branch) \<leftarrow> decode_aprovees v;
     approver \<leftarrow> decode_hash key;
     existing_loop entries (add_approver (add_approver m trunk approver) branch approver) }"

definition map_existing_transaction_hashes_to_approvers ::
  "'db rocksdb \<Rightarrow> 'db connection \<Rightarrow> (hash \<Rightarrow> hash set option) option" where
  "map_existing_transaction_hashes_to_approvers lib conn = do {
     db \<leftarrow> conn;
     existing_loop (db_iterator_cf lib db TRANSACTION_CF_HASH_TO_APROVEES) Map.empty }"

fun missing_loop ::
  "hash set \<Rightarrow> (bytes \<times> bytes) list \<Rightarrow> (hash \<Rightarrow> hash set option) \<Rightarrow> (hash \<Rightarrow> hash set option) option" where
  "missing_loop all_hashes [] m = Some m"
| "missing_loop all_hashes ((key, v) # entries) m = do {
     (trunk, branch) \<leftarrow> decode_aprovees v;
     approver \<leftarrow> decode_hash key;
     let m = (if trunk \<notin> all_hashes then add_approver m trunk approver else m);
     let m = (if branch \<notin> all_hashes then add_approver m branch approver else m);
     missing_loop all_hashes entries m }"

definition map_missing_transaction_hashes_to_approvers ::
  "'db rocksdb \<Rightarrow> 'db connection \<Rightarrow> hash set \<Rightarrow> (hash \<Rightarrow> hash set option) option" where
  "map_missing_transaction_hashes_to_approvers lib conn all_hashes = do {
     db \<leftarrow> conn;
     missing_loop all_hashes (db_iterator_cf lib db TRANSACTION_CF_HASH_TO_APROVEES) Map.empty }"

text \<open>Ledger differences, serialised by the bincode crate; the functions are arguments.\<close>

definition insert_state_delta ::
  "'db rocksdb \<Rightarrow> ('delta \<Rightarrow> bytes option) \<Rightarrow> 'db connection \<Rightarrow> 'delta \<Rightarrow> u32
    \<Rightarrow> ('db connection \<times> (rocks_db_backend_error + unit)) option" where
  "insert_state_delta lib serialize conn state_delta index = do {
     db \<leftarrow> conn;
     encoded \<leftarrow> serialize state_delta;
     Some (put_cf lib db MILESTONE_CF_HASH_TO_DELTA (u32_to_le_bytes index) encoded) }"

definition load_state_delta ::
  "'db rocksdb \<Rightarrow> (bytes \<Rightarrow> 'delta option) \<Rightarrow> 'db connection \<Rightarrow> u32 \<Rightarrow> (rocks_db_backend_error + 'delta) option" where
  "load_state_delta lib deserialize conn index = do {
     db \<leftarrow> conn;
     (case get_cf lib db MILESTONE_CF_HASH_TO_DELTA (u32_to_le_bytes index) of
        Inl e \<Rightarrow> Some (Inl e)
      | Inr None \<Rightarrow> None
      | Inr (Some res) \<Rightarrow> map_option Inr (deserialize res)) }"

section \<open>Decoding what was encoded\<close>

definition enc :: "btrit list \<Rightarrow> bytes" where
  "enc ts = the (t5b1_bytes ts)"

lemma enc_law:
  assumes "length ts \<le> 8019"
  shows "t5b1_bytes ts = Some (enc ts)" "decode_trits (enc ts) (length ts) = Some ts"
proof -
  have "length ts \<le> packed_cap t5b1"
    using assms by (simp add: packed_cap_def t5b1_def)
  then obtain bs s where bs: "t5b1_bytes ts = Some bs" "raw_try_from_raw t5b1 (cast_i8 bs) (length ts) = Some (Inr s)"
    "wf_slice t5b1 (cast_i8 bs) s" "slice_trits t5b1 (cast_i8 bs) s = ts"
    using t5b1_bytes_law by blast
  then show "t5b1_bytes ts = Some (enc ts)" "decode_trits (enc ts) (length ts) = Some ts"
    using slice_to_buf_law [OF bs(3), of t1b1_buf]
    by (auto simp: enc_def decode_trits_def raw_try_from_raw_def from_iter_t1b1 split: if_splits)
qed

text \<open>The keys and values of the column families.\<close>

definition hash_key :: "hash \<Rightarrow> bytes" where
  "hash_key h = enc (hash_trits h)"

definition tx_entry :: "transaction \<Rightarrow> bytes" where
  "tx_entry tx = enc (concat (segments_of tx))"

definition approvees_entry :: "hash \<times> hash \<Rightarrow> bytes" where
  "approvees_entry p = enc (hash_trits (fst p) @ hash_trits (snd p))"

lemma hash_key_law:
  assumes "hash_wf h"
  shows "hash_buf h = Some (hash_key h)" "decode_hash (hash_key h) = Some h"
  using hash_as_trits_wf [OF assms] enc_law [of "hash_trits h"]
  by (simp_all add: hash_buf_def hash_key_def decode_hash_def HASH_TRIT_LEN_def hash_from_inner_unchecked_def)

lemma hash_key_inj: "hash_wf h \<Longrightarrow> hash_wf h' \<Longrightarrow> hash_key h = hash_key h' \<longleftrightarrow> h = h'"
  by (metis hash_key_law(2) option.inject)

lemma approvees_law:
  assumes "hash_wf t" "hash_wf b"
  shows "length buf = 486 \<Longrightarrow> approvees_into_trits_allocated t b buf = Some (hash_trits t @ hash_trits b)"
    "t5b1_bytes (hash_trits t @ hash_trits b) = Some (approvees_entry (t, b))"
    "decode_aprovees (approvees_entry (t, b)) = Some (t, b)"
  using hash_as_trits_wf [OF assms(1)] hash_as_trits_wf [OF assms(2)] enc_law [of "hash_trits t @ hash_trits b"]
  by (simp_all add: approvees_into_trits_allocated_def t1b1_copy_raw_bytes_def HASH_TRIT_LEN_def approvees_entry_def
      decode_aprovees_def hash_from_inner_unchecked_def)

lemma tx_entry_law:
  assumes "tx_wf tx"
  shows "into_trits_allocated tx (replicate 8019 Zero) = Some (concat (segments_of tx))"
    "length (concat (segments_of tx)) = 8019"
    "t5b1_bytes (concat (segments_of tx)) = Some (tx_entry tx)"
    "decode_transaction (tx_entry tx) = Some tx"
proof -
  show i: "into_trits_allocated tx (replicate 8019 Zero) = Some (concat (segments_of tx))"
    by (rule into_trits_segments [OF assms])
  show l: "length (concat (segments_of tx)) = 8019"
    by (rule length_segments [OF segments_of_wf [OF assms]])
  show "t5b1_bytes (concat (segments_of tx)) = Some (tx_entry tx)"
    using enc_law l unfolding tx_entry_def by simp
  have "transaction_from_trits t1b1_buf (concat (segments_of tx)) = Some (Inr tx)"
    using trits_inverse_law(1) [OF l] assms i by blast
  then show "decode_transaction (tx_entry tx) = Some tx"
    using enc_law(2) [of "concat (segments_of tx)"] unfolding l
    by (simp add: decode_transaction_def tx_entry_def TRANSACTION_TRIT_LEN_def)
qed

lemma le_bytes_law:
  "length (u32_to_le_bytes d) = 4"
  "u32_from_le_bytes (u32_to_le_bytes d ! 0) (u32_to_le_bytes d ! 1) (u32_to_le_bytes d ! 2) (u32_to_le_bytes d ! 3) = d"
proof -
  show "length (u32_to_le_bytes d) = 4"
    by (simp add: u32_to_le_bytes_def)
  obtain a b c e where bs: "u32_to_le_bytes d = [a, b, c, e]"
    by (simp add: u32_to_le_bytes_def)
  have "unat (u32_from_le_bytes a b c e) = unat d"
    using le_val_u32_to_le_bytes [of d] unfolding bs unat_u32_from_le_bytes by simp
  then show "u32_from_le_bytes (u32_to_le_bytes d ! 0) (u32_to_le_bytes d ! 1) (u32_to_le_bytes d ! 2) (u32_to_le_bytes d ! 3) = d"
    by (simp add: bs word_unat_eq_iff)
qed

section \<open>The store the backend implements\<close>

text \<open>
  Five maps over hashes. A deletion of transactions touches the first one only, and a deletion of milestones leaves
  the hashes of their indices.
\<close>

record store =
  st_transactions :: "hash \<Rightarrow> transaction option"
  st_approvees :: "hash \<Rightarrow> (hash \<times> hash) option"
  st_solid :: "hash \<Rightarrow> unit option"
  st_snapshot_index :: "hash \<Rightarrow> u32 option"
  st_milestones :: "hash \<Rightarrow> u32 option"

definition empty_store :: store where
  "empty_store = \<lparr>st_transactions = Map.empty, st_approvees = Map.empty, st_solid = Map.empty,
     st_snapshot_index = Map.empty, st_milestones = Map.empty\<rparr>"

text \<open>A column family holds a map: the keys are those of the map, encoded, and so are the values.\<close>

definition holds :: "('v \<Rightarrow> bytes) \<Rightarrow> (hash \<Rightarrow> 'v option) \<Rightarrow> (bytes \<Rightarrow> bytes option) \<Rightarrow> bool" where
  "holds f m c \<longleftrightarrow>
     (\<forall>h. hash_wf h \<longrightarrow> c (hash_key h) = map_option f (m h))
     \<and> (\<forall>k v. c k = Some v \<longrightarrow> (\<exists>h. hash_wf h \<and> k = hash_key h))"

lemma holds_update:
  assumes "holds f m c" "hash_wf h"
  shows "holds f (m(h := x)) (c(hash_key h := map_option f x))"
  using assms by (auto simp: holds_def hash_key_inj)

lemma holds_fold:
  assumes "holds f m c" "list_all hash_wf hs"
  shows "holds f (fold (\<lambda>h m. m(h := x)) hs m) (fold (\<lambda>h c. c(hash_key h := map_option f x)) hs c)"
  using assms by (induction hs arbitrary: m c) (simp_all add: holds_update)

lemma holds_lookup: "holds f m c \<Longrightarrow> hash_wf h \<Longrightarrow> c (hash_key h) = map_option f (m h)"
  by (simp add: holds_def)

definition represents :: "contents \<Rightarrow> store \<Rightarrow> bool" where
  "represents c S \<longleftrightarrow>
     holds tx_entry (st_transactions S) (c TRANSACTION_CF_HASH_TO_TRANSACTION)
     \<and> holds approvees_entry (st_approvees S) (c TRANSACTION_CF_HASH_TO_APROVEES)
     \<and> holds (\<lambda>_. [1]) (st_solid S) (c TRANSACTION_CF_HASH_TO_SOLID)
     \<and> holds u32_to_le_bytes (st_snapshot_index S) (c TRANSACTION_CF_HASH_TO_SNAPSHOT_INDEX)
     \<and> holds u32_to_le_bytes (st_milestones S) (c MILESTONE_CF_HASH_TO_INDEX)"

text \<open>What is stored is well formed.\<close>

definition store_wf :: "store \<Rightarrow> bool" where
  "store_wf S \<longleftrightarrow>
     (\<forall>h tx. st_transactions S h = Some tx \<longrightarrow> tx_wf tx)
     \<and> (\<forall>h t b. st_approvees S h = Some (t, b) \<longrightarrow> hash_wf h \<and> hash_wf t \<and> hash_wf b)"

text \<open>The operations, and their effect on the store.\<close>

datatype storage_op =
    InsertTransaction hash transaction
  | InsertTransactions "(hash \<times> transaction) list"
  | FindTransaction hash
  | SetSolid "hash list"
  | SetSnapshotIndex "hash list" u32
  | GetSolidState "hash list"
  | GetSnapshotIndex "hash list"
  | DeleteTransactions "hash list"
  | InsertMilestone milestone
  | FindMilestone hash
  | DeleteMilestones "hash list"
  | MapExisting
  | MapMissing "hash set"

datatype storage_reply =
    Done
  | Found transaction
  | Flags "bool list"
  | Indices "u32 list"
  | FoundMilestone milestone
  | Approvers "hash \<Rightarrow> hash set option"

definition reply_unit :: "('c \<times> (rocks_db_backend_error + unit)) option \<Rightarrow> ('c \<times> (rocks_db_backend_error + storage_reply)) option" where
  "reply_unit = map_option (\<lambda>(conn, r). (conn, map_sum id (\<lambda>_. Done) r))"

definition reply :: "'c \<Rightarrow> ('a \<Rightarrow> storage_reply) \<Rightarrow> (rocks_db_backend_error + 'a) option \<Rightarrow> ('c \<times> (rocks_db_backend_error + storage_reply)) option" where
  "reply conn f = map_option (\<lambda>r. (conn, map_sum id f r))"

definition storage_step ::
  "'db rocksdb \<Rightarrow> 'db connection \<Rightarrow> storage_op \<Rightarrow> ('db connection \<times> (rocks_db_backend_error + storage_reply)) option" where
  "storage_step lib conn op =
     (case op of
        InsertTransaction h tx \<Rightarrow> reply_unit (insert_transaction_db lib conn h tx)
      | InsertTransactions txs \<Rightarrow> reply_unit (insert_transactions_db lib conn txs)
      | FindTransaction h \<Rightarrow> reply conn Found (find_transaction lib conn h)
      | SetSolid hs \<Rightarrow> reply_unit (update_transactions_set_solid lib conn hs)
      | SetSnapshotIndex hs i \<Rightarrow> reply_unit (update_transactions_set_snapshot_index lib conn hs i)
      | GetSolidState hs \<Rightarrow> reply conn Flags (get_transactions_solid_state lib conn hs)
      | GetSnapshotIndex hs \<Rightarrow> reply conn Indices (get_transactions_snapshot_index lib conn hs)
      | DeleteTransactions hs \<Rightarrow> reply_unit (delete_transactions lib conn hs)
      | InsertMilestone m \<Rightarrow> reply_unit (insert_milestone lib conn m)
      | FindMilestone h \<Rightarrow> reply conn FoundMilestone (find_milestone lib conn h)
      | DeleteMilestones hs \<Rightarrow> reply_unit (delete_milestones lib conn hs)
      | MapExisting \<Rightarrow> reply conn Approvers (map_option Inr (map_existing_transaction_hashes_to_approvers lib conn))
      | MapMissing all_hashes \<Rightarrow> reply conn Approvers (map_option Inr (map_missing_transaction_hashes_to_approvers lib conn all_hashes)))"

text \<open>The approvers of a transaction, for the transactions that are not in a set.\<close>

definition approvers_of :: "(hash \<Rightarrow> (hash \<times> hash) option) \<Rightarrow> hash set \<Rightarrow> hash \<Rightarrow> hash set option" where
  "approvers_of app all_hashes h =
     (let s = {a. \<exists>t b. app a = Some (t, b) \<and> (t = h \<or> b = h)} in if h \<in> all_hashes \<or> s = {} then None else Some s)"

definition store_insert :: "hash \<times> transaction \<Rightarrow> store \<Rightarrow> store" where
  "store_insert p S =
     S\<lparr>st_transactions := (st_transactions S)(fst p \<mapsto> snd p),
       st_approvees := (st_approvees S)(fst p \<mapsto> (tx_trunk (snd p), tx_branch (snd p)))\<rparr>"

definition store_step :: "store \<Rightarrow> storage_op \<Rightarrow> store \<times> (rocks_db_backend_error + storage_reply)" where
  "store_step S op =
     (case op of
        InsertTransaction h tx \<Rightarrow> (store_insert (h, tx) S, Inr Done)
      | InsertTransactions txs \<Rightarrow> (fold store_insert txs S, Inr Done)
      | FindTransaction h \<Rightarrow> (S, case st_transactions S h of None \<Rightarrow> Inl TransactionDoesNotExist | Some tx \<Rightarrow> Inr (Found tx))
      | SetSolid hs \<Rightarrow> (S\<lparr>st_solid := fold (\<lambda>h m. m(h := Some ())) hs (st_solid S)\<rparr>, Inr Done)
      | SetSnapshotIndex hs i \<Rightarrow> (S\<lparr>st_snapshot_index := fold (\<lambda>h m. m(h := Some i)) hs (st_snapshot_index S)\<rparr>, Inr Done)
      | GetSolidState hs \<Rightarrow> (S, Inr (Flags (map (\<lambda>h. st_solid S h \<noteq> None) hs)))
      | GetSnapshotIndex hs \<Rightarrow> (S, Inr (Indices (map (\<lambda>h. case st_snapshot_index S h of None \<Rightarrow> 0 | Some i \<Rightarrow> i) hs)))
      | DeleteTransactions hs \<Rightarrow> (S\<lparr>st_transactions := fold (\<lambda>h m. m(h := None)) hs (st_transactions S)\<rparr>, Inr Done)
      | InsertMilestone m \<Rightarrow> (S\<lparr>st_milestones := (st_milestones S)(ms_hash m := Some (ms_index m))\<rparr>, Inr Done)
      | FindMilestone h \<Rightarrow>
          (S, case st_milestones S h of None \<Rightarrow> Inl TransactionDoesNotExist | Some i \<Rightarrow> Inr (FoundMilestone \<lparr>ms_hash = h, ms_index = i\<rparr>))
      | DeleteMilestones hs \<Rightarrow> (S\<lparr>st_milestones := fold (\<lambda>h m. m(h := None)) hs (st_milestones S)\<rparr>, Inr Done)
      | MapExisting \<Rightarrow> (S, Inr (Approvers (approvers_of (st_approvees S) {})))
      | MapMissing all_hashes \<Rightarrow> (S, Inr (Approvers (approvers_of (st_approvees S) all_hashes))))"

text \<open>
  A batch is written into one buffer, where a number takes as many trits as it needs and leaves the rest. A
  transaction overwrites another one completely if none of its numbers needs fewer trits.
\<close>

definition number_trits :: "int \<Rightarrow> nat" where
  "number_trits v = length (the (trits_from_i64 v))"

definition tx_numbers :: "transaction \<Rightarrow> int list" where
  "tx_numbers tx = tx_value tx # map sint
     [tx_timestamp tx, tx_index tx, tx_last_index tx, tx_attachment_ts tx, tx_attachment_lbts tx, tx_attachment_ubts tx]"

definition overwrites :: "transaction \<Rightarrow> transaction \<Rightarrow> bool" where
  "overwrites old tx \<longleftrightarrow> list_all2 (\<lambda>u v. number_trits u \<le> number_trits v) (tx_numbers old) (tx_numbers tx)"

text \<open>Arguments that are hashes and transactions, with batches in which each transaction overwrites the one before it.\<close>

definition op_ok :: "storage_op \<Rightarrow> bool" where
  "op_ok op =
     (case op of
        InsertTransaction h tx \<Rightarrow> hash_wf h \<and> tx_wf tx
      | InsertTransactions txs \<Rightarrow> successively overwrites (map snd txs) \<and> list_all (\<lambda>(h, tx). hash_wf h \<and> tx_wf tx) txs
      | FindTransaction h \<Rightarrow> hash_wf h
      | SetSolid hs \<Rightarrow> list_all hash_wf hs
      | SetSnapshotIndex hs i \<Rightarrow> list_all hash_wf hs
      | GetSolidState hs \<Rightarrow> list_all hash_wf hs
      | GetSnapshotIndex hs \<Rightarrow> list_all hash_wf hs
      | DeleteTransactions hs \<Rightarrow> list_all hash_wf hs
      | InsertMilestone m \<Rightarrow> hash_wf (ms_hash m)
      | FindMilestone h \<Rightarrow> hash_wf h
      | DeleteMilestones hs \<Rightarrow> list_all hash_wf hs
      | MapExisting \<Rightarrow> True
      | MapMissing all_hashes \<Rightarrow> True)"

section \<open>The simulation\<close>

subsection \<open>The database\<close>

lemma put_cf_law:
  assumes "rocksdb_law lib look"
  obtains (failed) db' e where "put_cf lib db cf k v = (Some db', Inl (RocksDBError e))"
  | (stored) db' where "put_cf lib db cf k v = (Some db', Inr ())" "look db' = (look db)(cf := (look db cf)(k \<mapsto> v))"
proof -
  obtain db' r where r: "db_put_cf lib db cf k v = (db', r)"
    by fastforce
  then show ?thesis
    using assms stored failed by (cases r) (auto simp: put_cf_def rocksdb_law_def batch_apply_def)
qed

lemma write_opt_law:
  assumes "rocksdb_law lib look"
  obtains (failed) db' e where "write_opt lib db batch = (Some db', Inl (RocksDBError e))"
  | (stored) db' where "write_opt lib db batch = (Some db', Inr ())" "look db' = fold batch_apply batch (look db)"
proof -
  obtain db' r where r: "db_write lib db batch = (db', r)"
    by fastforce
  then show ?thesis
    using assms stored failed by (cases r) (auto simp: write_opt_def rocksdb_law_def)
qed

lemma get_cf_law:
  assumes "rocksdb_law lib look"
  obtains (failed) e where "get_cf lib db cf k = Inl (RocksDBError e)"
  | (read) "get_cf lib db cf k = Inr (look db cf k)"
  using assms by (cases "db_get_cf lib db cf k") (auto simp: get_cf_def rocksdb_law_def)

lemma hash_batch_law: "list_all hash_wf hs \<Longrightarrow> hash_batch f hs = Some (map (\<lambda>h. f (hash_key h)) hs)"
  by (induction hs) (simp_all add: hash_key_law)

lemma fold_batch:
  assumes "\<And>k c. batch_apply (f k) c = c(cf := (c cf)(k := y))"
  shows "fold batch_apply (map (\<lambda>h. f (hash_key h)) hs) c = c(cf := fold (\<lambda>h m. m(hash_key h := y)) hs (c cf))"
  by (induction hs arbitrary: c) (simp_all add: assms)

lemma get_loop_law:
  assumes "rocksdb_law lib look" "list_all hash_wf hs" "\<And>h. hash_wf h \<Longrightarrow> f (look db cf (hash_key h)) = Some (g h)"
  shows "(\<exists>e. get_loop lib db cf f hs = Some (Inl (RocksDBError e))) \<or> get_loop lib db cf f hs = Some (Inr (map g hs))"
  using assms(2)
proof (induction hs)
  case (Cons h hs)
  then show ?case
    using assms(3) [of h] by (cases rule: get_cf_law [OF assms(1), of db cf "hash_key h"]) (auto simp: hash_key_law)
qed simp

subsection \<open>The approvers\<close>

lemma existing_loop_eq: "existing_loop es m = missing_loop {} es m"
  by (induction es m rule: existing_loop.induct) (auto split: bind_splits)

definition entry_of :: "hash \<times> hash \<times> hash \<Rightarrow> bytes \<times> bytes" where
  "entry_of x = (hash_key (fst x), approvees_entry (snd x))"

lemma missing_loop_law:
  assumes "list_all (\<lambda>(a, t, b). hash_wf a \<and> hash_wf t \<and> hash_wf b) xs"
  shows "\<exists>m'. missing_loop all_hashes (map entry_of xs) m = Some m' \<and>
    (\<forall>h. m' h = (let s = {a. \<exists>t b. (a, t, b) \<in> set xs \<and> (t = h \<or> b = h)} in
      if h \<in> all_hashes \<or> s = {} then m h else Some (s \<union> (case m h of None \<Rightarrow> {} | Some s \<Rightarrow> s))))"
  using assms
proof (induction xs arbitrary: m)
  case (Cons x xs)
  obtain a t b where x: "x = (a, t, b)"
    by (cases x)
  let ?m1 = "if t \<notin> all_hashes then add_approver m t a else m"
  let ?m2 = "if b \<notin> all_hashes then add_approver ?m1 b a else ?m1"
  let ?s = "\<lambda>h. {a. \<exists>t b. (a, t, b) \<in> set xs \<and> (t = h \<or> b = h)}"
  have step: "missing_loop all_hashes (map entry_of (x # xs)) m = missing_loop all_hashes (map entry_of xs) ?m2"
    using Cons.prems by (simp add: x entry_of_def hash_key_law approvees_law Let_def)
  have m2: "?m2 h = (if h \<in> all_hashes \<or> (t \<noteq> h \<and> b \<noteq> h) then m h else Some (insert a (case m h of None \<Rightarrow> {} | Some s \<Rightarrow> s)))" for h
    by (auto simp: add_approver_def)
  obtain m' where m': "missing_loop all_hashes (map entry_of xs) ?m2 = Some m'"
    "\<And>h. m' h = (if h \<in> all_hashes \<or> ?s h = {} then ?m2 h else Some (?s h \<union> (case ?m2 h of None \<Rightarrow> {} | Some s \<Rightarrow> s)))"
    using Cons.IH [of ?m2] Cons.prems unfolding Let_def by auto
  have set: "{a'. \<exists>t b. (a', t, b) \<in> set (x # xs) \<and> (t = h \<or> b = h)} = (if t = h \<or> b = h then insert a (?s h) else ?s h)" for h
    by (auto simp: x)
  show ?case
    unfolding step set Let_def using m' unfolding m2 by (intro exI [of _ m']) auto
qed simp

lemma approvers_read:
  assumes law: "rocksdb_law lib look" and rep: "represents (look db) S" and wf: "store_wf S"
  shows "missing_loop all_hashes (db_iterator_cf lib db TRANSACTION_CF_HASH_TO_APROVEES) Map.empty
    = Some (approvers_of (st_approvees S) all_hashes)"
proof -
  let ?it = "db_iterator_cf lib db TRANSACTION_CF_HASH_TO_APROVEES" and ?app = "st_approvees S"
  have it: "distinct (map fst ?it)" "map_of ?it = look db TRANSACTION_CF_HASH_TO_APROVEES"
    using law unfolding rocksdb_law_def by blast+
  have h: "holds approvees_entry ?app (map_of ?it)"
    using rep it(2) by (simp add: represents_def)
  have wf': "hash_wf a" "hash_wf t" "hash_wf b" if "?app a = Some (t, b)" for a t b
    using wf that unfolding store_wf_def by blast+
  have entry: "\<exists>x. e = entry_of x \<and> ?app (fst x) = Some (snd x)" if "e \<in> set ?it" for e
  proof -
    have "map_of ?it (fst e) = Some (snd e)"
      using that it(1) by simp
    then obtain a where a: "hash_wf a" "fst e = hash_key a" "map_option approvees_entry (?app a) = Some (snd e)"
      using h unfolding holds_def by metis
    then show ?thesis
      by (auto simp: entry_of_def prod_eq_iff intro!: exI [of _ "(a, the (?app a))"])
  qed
  then obtain g where g: "\<And>e. e \<in> set ?it \<Longrightarrow> e = entry_of (g e) \<and> ?app (fst (g e)) = Some (snd (g e))"
    by metis
  let ?xs = "map g ?it"
  have xs: "map entry_of ?xs = ?it"
    using g by (simp add: map_idI)
  have mem: "(a, t, b) \<in> set ?xs \<longleftrightarrow> ?app a = Some (t, b)" for a t b
  proof
    assume "?app a = Some (t, b)"
    then have "map_of ?it (hash_key a) = Some (approvees_entry (t, b))" "hash_wf a"
      using h wf' unfolding holds_def by auto
    then have e: "(hash_key a, approvees_entry (t, b)) \<in> set ?it" (is "?e \<in> _")
      by (blast dest: map_of_SomeD)
    have "hash_key (fst (g ?e)) = hash_key a" "?app (fst (g ?e)) = Some (snd (g ?e))"
      using g [OF e] by (simp_all add: entry_of_def)
    then have "fst (g ?e) = a"
      using hash_key_inj \<open>hash_wf a\<close> wf'(1) [of "fst (g ?e)" "fst (snd (g ?e))" "snd (snd (g ?e))"] by simp
    then have "g ?e = (a, t, b)"
      using \<open>?app (fst (g ?e)) = Some (snd (g ?e))\<close> \<open>?app a = Some (t, b)\<close> by (simp add: prod_eq_iff)
    then show "(a, t, b) \<in> set ?xs"
      using e by force
  next
    assume "(a, t, b) \<in> set ?xs"
    then obtain e where "e \<in> set ?it" "g e = (a, t, b)"
      by auto
    then show "?app a = Some (t, b)"
      using g [of e] by simp
  qed
  have "list_all (\<lambda>(a, t, b). hash_wf a \<and> hash_wf t \<and> hash_wf b) ?xs"
    unfolding list_all_iff using mem wf' by blast
  then obtain m' where m': "missing_loop all_hashes ?it Map.empty = Some m'"
    "\<And>h. m' h = (let s = {a. \<exists>t b. (a, t, b) \<in> set ?xs \<and> (t = h \<or> b = h)} in
      if h \<in> all_hashes \<or> s = {} then None else Some (s \<union> {}))"
    using missing_loop_law [of ?xs all_hashes Map.empty] unfolding xs by auto
  have "m' = approvers_of ?app all_hashes"
    by (rule ext) (simp add: m'(2) approvers_of_def mem del: set_map)
  then show ?thesis
    using m'(1) by simp
qed

subsection \<open>The operations\<close>

text \<open>An operation fails with an error of the database, or does what the store does.\<close>

definition simulates ::
  "('db \<Rightarrow> contents) \<Rightarrow> ('db connection \<times> (rocks_db_backend_error + storage_reply)) option
    \<Rightarrow> store \<times> (rocks_db_backend_error + storage_reply) \<Rightarrow> bool" where
  "simulates look c s \<longleftrightarrow>
     (\<exists>conn e. c = Some (conn, Inl (RocksDBError e)))
     \<or> (\<exists>db. c = Some (Some db, snd s) \<and> represents (look db) (fst s) \<and> store_wf (fst s))"

lemma represents_update:
  assumes "represents c S"
  shows "holds tx_entry m (c' :: bytes \<Rightarrow> bytes option) \<Longrightarrow> represents (c(TRANSACTION_CF_HASH_TO_TRANSACTION := c')) (S\<lparr>st_transactions := m\<rparr>)"
    "holds approvees_entry m2 c' \<Longrightarrow> represents (c(TRANSACTION_CF_HASH_TO_APROVEES := c')) (S\<lparr>st_approvees := m2\<rparr>)"
    "holds (\<lambda>_. [1]) m3 c' \<Longrightarrow> represents (c(TRANSACTION_CF_HASH_TO_SOLID := c')) (S\<lparr>st_solid := m3\<rparr>)"
    "holds u32_to_le_bytes m4 c' \<Longrightarrow> represents (c(TRANSACTION_CF_HASH_TO_SNAPSHOT_INDEX := c')) (S\<lparr>st_snapshot_index := m4\<rparr>)"
    "holds u32_to_le_bytes m5 c' \<Longrightarrow> represents (c(MILESTONE_CF_HASH_TO_INDEX := c')) (S\<lparr>st_milestones := m5\<rparr>)"
    "represents (c(MILESTONE_CF_INDEX_TO_HASH := c')) S"
  using assms by (simp_all add: represents_def)

lemma represents_insert:
  assumes "represents c S" "hash_wf h" "tx_wf tx"
  shows "represents (c(TRANSACTION_CF_HASH_TO_TRANSACTION := (c TRANSACTION_CF_HASH_TO_TRANSACTION)(hash_key h \<mapsto> tx_entry tx),
      TRANSACTION_CF_HASH_TO_APROVEES := (c TRANSACTION_CF_HASH_TO_APROVEES)(hash_key h \<mapsto> approvees_entry (tx_trunk tx, tx_branch tx))))
    (store_insert (h, tx) S)"
  using assms(1) holds_update [OF _ assms(2), of tx_entry "st_transactions S" _ "Some tx"]
    holds_update [OF _ assms(2), of approvees_entry "st_approvees S" _ "Some (tx_trunk tx, tx_branch tx)"]
  by (simp add: represents_def store_insert_def)

lemma store_insert_wf:
  assumes "store_wf S" "hash_wf h" "tx_wf tx"
  shows "store_wf (store_insert (h, tx) S)"
proof -
  have "hash_wf (tx_trunk tx)" "hash_wf (tx_branch tx)"
    using assms(3) unfolding tx_wf_def by blast+
  then show ?thesis
    using assms by (auto simp: store_wf_def store_insert_def split: if_splits)
qed

lemma store_delete_wf: "store_wf S \<Longrightarrow> store_wf (S\<lparr>st_transactions := fold (\<lambda>h m. m(h := None)) hs (st_transactions S)\<rparr>)"
proof -
  have "fold (\<lambda>h m. m(h := None)) hs m h = Some (x :: transaction) \<Longrightarrow> m h = Some x" for m h x
    by (induction hs arbitrary: m) (fastforce split: if_splits)+
  then show "store_wf S \<Longrightarrow> ?thesis"
    unfolding store_wf_def by (simp, blast)
qed

lemma write_simulates:
  assumes law: "rocksdb_law lib look" and hs: "list_all hash_wf hs"
    and f: "\<And>k c. batch_apply (f k) c = c(cf := (c cf)(k := y))"
    and S: "represents ((look db)(cf := fold (\<lambda>h m. m(hash_key h := y)) hs (look db cf))) S'" "store_wf S'"
  shows "simulates look (reply_unit (do { batch \<leftarrow> hash_batch f hs; Some (write_opt lib db batch) })) (S', Inr Done)"
  using S hash_batch_law [OF hs, of f] fold_batch [of f cf y hs "look db", OF f]
  by (cases rule: write_opt_law [OF law, of db "map (\<lambda>h. f (hash_key h)) hs"]) (auto simp: simulates_def reply_unit_def)

lemma insert_simulates:
  assumes law: "rocksdb_law lib look" and S: "represents (look db) S" "store_wf S" and ok: "hash_wf h" "tx_wf tx"
  shows "simulates look (reply_unit (insert_transaction_db lib (Some db) h tx)) (store_insert (h, tx) S, Inr Done)"
proof -
  have w: "hash_wf (tx_trunk tx)" "hash_wf (tx_branch tx)"
    using ok(2) unfolding tx_wf_def by blast+
  note enc = hash_key_law(1) [OF ok(1)] tx_entry_law(1,3) [OF ok(2)] approvees_law(1,2) [OF w]
  let ?tx = TRANSACTION_CF_HASH_TO_TRANSACTION and ?app = TRANSACTION_CF_HASH_TO_APROVEES
  show ?thesis
  proof (cases rule: put_cf_law [OF law, of db ?tx "hash_key h" "tx_entry tx", case_names failed stored])
    case (failed db' e)
    then show ?thesis
      by (simp add: insert_transaction_db_def t1b1_zeros TRANSACTION_TRIT_LEN_def HASH_TRIT_LEN_def enc simulates_def reply_unit_def)
  next
    case (stored db1)
    show ?thesis
    proof (cases rule: put_cf_law [OF law, of db1 ?app "hash_key h" "approvees_entry (tx_trunk tx, tx_branch tx)", case_names failed stored])
      case (failed db' e)
      with stored show ?thesis
        by (simp add: insert_transaction_db_def t1b1_zeros TRANSACTION_TRIT_LEN_def HASH_TRIT_LEN_def enc simulates_def reply_unit_def)
    next
      case stored2: (stored db2)
      have "represents (look db2) (store_insert (h, tx) S)"
        using represents_insert [OF S(1) ok] stored(2) stored2(2) by simp
      with stored stored2 show ?thesis
        using store_insert_wf [OF S(2) ok]
        by (simp add: insert_transaction_db_def t1b1_zeros TRANSACTION_TRIT_LEN_def HASH_TRIT_LEN_def enc simulates_def reply_unit_def)
    qed
  qed
qed

subsection \<open>Batches\<close>

lemma write_i64_over:
  assumes "off_start (trit_offset f) = tx_start k" "k < 15" "tx_segments segs" "0 < tx_len k"
    and "drop (number_trits v) (segs ! k) = replicate (tx_len k - number_trits v) Zero"
    and "i64_MIN \<le> v" "v \<le> i64_MAX" "\<bar>v\<bar> \<le> int (half_range (tx_len k))"
  shows "write_i64 (concat segs) f v = Some (concat (segs[k := field_trits (tx_len k) v]))"
proof -
  obtain ts where "trits_from_i64 v = Some ts" "length ts \<le> tx_len k"
    using trits_from_i64_fits [OF assms(6-8,4)] by blast
  then show ?thesis
    using copy_segment [OF assms(3,2), of "length ts" ts] assms(1,5)
    by (simp add: write_i64_def field_trits_def number_trits_def)
qed

lemma drop_field_trits:
  "number_trits u \<le> number_trits v \<Longrightarrow> drop (number_trits v) (field_trits n u) = replicate (n - number_trits v) Zero"
  by (simp add: field_trits_def number_trits_def Let_def)

lemmas write_over =
  write_segments(1-8)
  write_i64_over [OF field_starts(3)]
  write_i64_over [OF field_starts(5)]
  write_i64_over [OF field_starts(6)]
  write_i64_over [OF field_starts(7)]
  write_i64_over [OF field_starts(12)]
  write_i64_over [OF field_starts(13)]
  write_i64_over [OF field_starts(14)]

lemma into_trits_over:
  assumes "tx_wf tx" "tx_wf old" "overwrites old tx"
  shows "into_trits_allocated tx (concat (segments_of old)) = Some (concat (segments_of tx))"
proof -
  note v = tx_wf_value [OF assms(1)]
  have u: "length (field_trits 27 (sint w)) = 27" "\<bar>sint w\<bar> \<le> int (half_range 27)" if "time_fits w" for w
    using field_trits_law(1) [OF sint_in_i64, of w 27] that by (simp_all add: time_fits_def)
  note w = assms(1) [unfolded tx_wf_def]
  have l: "length (field_trits 81 (tx_value tx)) = 81"
    using field_trits_law(1) [OF v(2,3,1)] by simp
  have nth: "segments_of old ! 2 = field_trits 81 (tx_value old)" "segments_of old ! 4 = field_trits 27 (sint (tx_timestamp old))"
    "segments_of old ! 5 = field_trits 27 (sint (tx_index old))" "segments_of old ! 6 = field_trits 27 (sint (tx_last_index old))"
    "segments_of old ! 11 = field_trits 27 (sint (tx_attachment_ts old))"
    "segments_of old ! 12 = field_trits 27 (sint (tx_attachment_lbts old))"
    "segments_of old ! 13 = field_trits 27 (sint (tx_attachment_ubts old))"
    by (simp_all add: segments_of_def)
  have "into_trits_allocated tx (concat (segments_of old)) = Some (concat ((segments_of old)
      [0 := tx_payload tx, 1 := tx_address tx, 3 := tx_obsolete_tag tx, 7 := hash_trits (tx_bundle tx),
       9 := hash_trits (tx_branch tx), 8 := hash_trits (tx_trunk tx), 10 := tx_tag tx, 14 := tx_nonce tx,
       2 := field_trits 81 (tx_value tx), 5 := field_trits 27 (sint (tx_index tx)),
       6 := field_trits 27 (sint (tx_last_index tx)), 4 := field_trits 27 (sint (tx_timestamp tx)),
       11 := field_trits 27 (sint (tx_attachment_ts tx)), 12 := field_trits 27 (sint (tx_attachment_lbts tx)),
       13 := field_trits 27 (sint (tx_attachment_ubts tx))]))"
    using w v l u assms(3) unfolding overwrites_def tx_numbers_def
    by (simp add: into_trits_allocated_def write_over tx_segments_update segments_of_wf [OF assms(2)] tx_len_values
        nth drop_field_trits sint_in_i64 hash_as_trits_wf(2))
  also have "(segments_of old)
      [0 := tx_payload tx, 1 := tx_address tx, 3 := tx_obsolete_tag tx, 7 := hash_trits (tx_bundle tx),
       9 := hash_trits (tx_branch tx), 8 := hash_trits (tx_trunk tx), 10 := tx_tag tx, 14 := tx_nonce tx,
       2 := field_trits 81 (tx_value tx), 5 := field_trits 27 (sint (tx_index tx)),
       6 := field_trits 27 (sint (tx_last_index tx)), 4 := field_trits 27 (sint (tx_timestamp tx)),
       11 := field_trits 27 (sint (tx_attachment_ts tx)), 12 := field_trits 27 (sint (tx_attachment_lbts tx)),
       13 := field_trits 27 (sint (tx_attachment_ubts tx))] = segments_of tx"
    by (simp add: segments_of_def)
  finally show ?thesis .
qed

definition batch_entries :: "hash \<times> transaction \<Rightarrow> batch_op list" where
  "batch_entries p =
     [BatchPut TRANSACTION_CF_HASH_TO_TRANSACTION (hash_key (fst p)) (tx_entry (snd p)),
      BatchPut TRANSACTION_CF_HASH_TO_APROVEES (hash_key (fst p)) (approvees_entry (tx_trunk (snd p), tx_branch (snd p)))]"

lemma insert_batch_loop_law:
  assumes "list_all (\<lambda>(h, tx). hash_wf h \<and> tx_wf tx) txs" "successively overwrites (map snd txs)" "length abuf = 486"
    and "txs \<noteq> [] \<Longrightarrow> into_trits_allocated (snd (hd txs)) buf = Some (concat (segments_of (snd (hd txs))))"
  shows "insert_batch_loop txs buf abuf batch = Some (batch @ concat (map batch_entries txs))"
  using assms
proof (induction txs arbitrary: buf abuf batch)
  case (Cons p txs)
  obtain h tx where p: "p = (h, tx)"
    by (cases p)
  have ok: "hash_wf h" "tx_wf tx"
    using Cons.prems(1) p by simp_all
  have w: "hash_wf (tx_trunk tx)" "hash_wf (tx_branch tx)"
    using ok(2) unfolding tx_wf_def by blast+
  note enc = hash_key_law(1) [OF ok(1)] tx_entry_law(3) [OF ok(2)] approvees_law(1,2) [OF w]
  have "into_trits_allocated (snd (hd txs)) (concat (segments_of tx)) = Some (concat (segments_of (snd (hd txs))))" if "txs \<noteq> []"
    using that Cons.prems(1,2) p into_trits_over [OF _ ok(2)] by (cases txs) auto
  moreover have "successively overwrites (map snd txs)" "list_all (\<lambda>(h, tx). hash_wf h \<and> tx_wf tx) txs"
    using Cons.prems(1,2) by (cases txs; simp)+
  moreover have "length (hash_trits (tx_trunk tx) @ hash_trits (tx_branch tx)) = 486"
    using hash_as_trits_wf(2) [OF w(1)] hash_as_trits_wf(2) [OF w(2)] by simp
  ultimately have "insert_batch_loop txs (concat (segments_of tx)) (hash_trits (tx_trunk tx) @ hash_trits (tx_branch tx)) batch' =
      Some (batch' @ concat (map batch_entries txs))" for batch'
    by (intro Cons.IH)
  then show ?case
    using Cons.prems(3,4) p enc by (simp add: Let_def batch_entries_def [of "(h, tx)"])
qed simp

lemma represents_batch:
  assumes "represents c S" "store_wf S" "list_all (\<lambda>(h, tx). hash_wf h \<and> tx_wf tx) txs"
  shows "represents (fold batch_apply (concat (map batch_entries txs)) c) (fold store_insert txs S)
    \<and> store_wf (fold store_insert txs S)"
  using assms
proof (induction txs arbitrary: c S)
  case (Cons p txs)
  obtain h tx where p: "p = (h, tx)"
    by (cases p)
  then have "hash_wf h" "tx_wf tx"
    using Cons.prems(3) by simp_all
  note r = represents_insert [OF Cons.prems(1) this] store_insert_wf [OF Cons.prems(2) this]
  have "fold batch_apply (batch_entries p) c = c(TRANSACTION_CF_HASH_TO_TRANSACTION := (c TRANSACTION_CF_HASH_TO_TRANSACTION)(hash_key h \<mapsto> tx_entry tx),
      TRANSACTION_CF_HASH_TO_APROVEES := (c TRANSACTION_CF_HASH_TO_APROVEES)(hash_key h \<mapsto> approvees_entry (tx_trunk tx, tx_branch tx)))"
    by (simp add: p batch_entries_def batch_apply_def)
  then show ?case
    using Cons.IH [OF r] Cons.prems(3) p by (simp del: fun_upd_apply)
qed simp

lemma insert_batch_simulates:
  assumes law: "rocksdb_law lib look" and S: "represents (look db) S" "store_wf S"
    and ok: "successively overwrites (map snd txs)" "list_all (\<lambda>(h, tx). hash_wf h \<and> tx_wf tx) txs"
  shows "simulates look (reply_unit (insert_transactions_db lib (Some db) txs)) (fold store_insert txs S, Inr Done)"
proof -
  let ?batch = "concat (map batch_entries txs)"
  have "txs \<noteq> [] \<Longrightarrow> into_trits_allocated (snd (hd txs)) (replicate 8019 Zero) = Some (concat (segments_of (snd (hd txs))))"
    using ok(2) tx_entry_law(1) by (cases txs) auto
  then have r: "insert_transactions_db lib (Some db) txs = Some (write_opt lib db ?batch)"
    using insert_batch_loop_law [OF ok(2,1), of "replicate 486 Zero" "replicate 8019 Zero" "[]"]
    by (simp add: insert_transactions_db_def t1b1_zeros TRANSACTION_TRIT_LEN_def HASH_TRIT_LEN_def)
  show ?thesis
  proof (cases rule: write_opt_law [OF law, of db ?batch, case_names failed stored])
    case (stored db')
    then show ?thesis
      using represents_batch [OF S ok(2)] r by (simp add: simulates_def reply_unit_def)
  qed (simp add: r simulates_def reply_unit_def)
qed

lemma find_simulates:
  assumes law: "rocksdb_law lib look" and S: "represents (look db) S" "store_wf S" and h: "hash_wf h"
  shows "simulates look (storage_step lib (Some db) (FindTransaction h)) (store_step S (FindTransaction h))"
proof -
  have c: "look db TRANSACTION_CF_HASH_TO_TRANSACTION (hash_key h) = map_option tx_entry (st_transactions S h)"
    using S(1) h by (simp add: represents_def holds_lookup)
  have d: "st_transactions S h = Some tx \<Longrightarrow> decode_transaction (tx_entry tx) = Some tx" for tx
    using S(2) tx_entry_law(4) unfolding store_wf_def by blast
  show ?thesis
    using S by (cases rule: get_cf_law [OF law, of db TRANSACTION_CF_HASH_TO_TRANSACTION "hash_key h"])
      (auto simp: storage_step_def store_step_def find_transaction_def reply_def simulates_def hash_key_law [OF h] c d split: option.splits)
qed

lemma find_milestone_simulates:
  assumes law: "rocksdb_law lib look" and S: "represents (look db) S" "store_wf S" and h: "hash_wf h"
  shows "simulates look (storage_step lib (Some db) (FindMilestone h)) (store_step S (FindMilestone h))"
proof -
  have c: "look db MILESTONE_CF_HASH_TO_INDEX (hash_key h) = map_option u32_to_le_bytes (st_milestones S h)"
    using S(1) h by (simp add: represents_def holds_lookup)
  show ?thesis
    using S by (cases rule: get_cf_law [OF law, of db MILESTONE_CF_HASH_TO_INDEX "hash_key h"])
      (auto simp: storage_step_def store_step_def find_milestone_def reply_def simulates_def hash_key_law [OF h] c le_bytes_law le_bytes_law(2) [simplified] split: option.splits)
qed

lemma insert_milestone_simulates:
  assumes law: "rocksdb_law lib look" and S: "represents (look db) S" "store_wf S" and h: "hash_wf (ms_hash m)"
  shows "simulates look (storage_step lib (Some db) (InsertMilestone m)) (store_step S (InsertMilestone m))"
proof (cases rule: put_cf_law [OF law, of db MILESTONE_CF_HASH_TO_INDEX "hash_key (ms_hash m)" "u32_to_le_bytes (ms_index m)", case_names failed stored])
  case (stored db1)
  have r: "represents (look db1) (S\<lparr>st_milestones := (st_milestones S)(ms_hash m := Some (ms_index m))\<rparr>)"
    using represents_update(5) [OF S(1)] holds_update [OF _ h, of u32_to_le_bytes "st_milestones S" _ "Some (ms_index m)"] S(1) stored(2)
    by (simp add: represents_def)
  then show ?thesis
    using stored(1) S(2) represents_update(6) [OF r]
    by (cases rule: put_cf_law [OF law, of db1 MILESTONE_CF_INDEX_TO_HASH "u32_to_le_bytes (ms_index m)" "hash_key (ms_hash m)"])
      (auto simp: storage_step_def store_step_def insert_milestone_def reply_unit_def simulates_def hash_key_law [OF h] store_wf_def)
qed (simp add: storage_step_def insert_milestone_def reply_unit_def simulates_def hash_key_law [OF h])

lemma get_simulates:
  assumes law: "rocksdb_law lib look" and S: "represents (look db) S" "store_wf S" and hs: "list_all hash_wf hs"
  shows "simulates look (storage_step lib (Some db) (GetSolidState hs)) (store_step S (GetSolidState hs))"
    "simulates look (storage_step lib (Some db) (GetSnapshotIndex hs)) (store_step S (GetSnapshotIndex hs))"
proof -
  have c: "look db TRANSACTION_CF_HASH_TO_SOLID (hash_key h) = map_option (\<lambda>_. [1]) (st_solid S h)"
    "look db TRANSACTION_CF_HASH_TO_SNAPSHOT_INDEX (hash_key h) = map_option u32_to_le_bytes (st_snapshot_index S h)"
    if "hash_wf h" for h
    using S(1) that by (simp_all add: represents_def holds_lookup)
  show "simulates look (storage_step lib (Some db) (GetSolidState hs)) (store_step S (GetSolidState hs))"
    using get_loop_law [OF law hs, of "\<lambda>res. Some (res \<noteq> None)" db TRANSACTION_CF_HASH_TO_SOLID "\<lambda>h. st_solid S h \<noteq> None"] c(1) S
    by (auto simp: storage_step_def store_step_def get_transactions_solid_state_def reply_def simulates_def)
  have "index_of_value (look db TRANSACTION_CF_HASH_TO_SNAPSHOT_INDEX (hash_key h))
      = Some (case st_snapshot_index S h of None \<Rightarrow> 0 | Some i \<Rightarrow> i)" if "hash_wf h" for h
    using c(2) [OF that] le_bytes_law le_bytes_law(2) [simplified] by (auto simp: index_of_value_def split: option.splits)
  from get_loop_law [OF law hs, of index_of_value db TRANSACTION_CF_HASH_TO_SNAPSHOT_INDEX, OF this]
  show "simulates look (storage_step lib (Some db) (GetSnapshotIndex hs)) (store_step S (GetSnapshotIndex hs))"
    using S by (auto simp: storage_step_def store_step_def get_transactions_snapshot_index_def reply_def simulates_def)
qed

lemma set_simulates:
  assumes law: "rocksdb_law lib look" and S: "represents (look db) S" "store_wf S" and hs: "list_all hash_wf hs"
  shows "simulates look (storage_step lib (Some db) (SetSolid hs)) (store_step S (SetSolid hs))"
    "simulates look (storage_step lib (Some db) (SetSnapshotIndex hs i)) (store_step S (SetSnapshotIndex hs i))"
    "simulates look (storage_step lib (Some db) (DeleteTransactions hs)) (store_step S (DeleteTransactions hs))"
    "simulates look (storage_step lib (Some db) (DeleteMilestones hs)) (store_step S (DeleteMilestones hs))"
proof -
  note r = S(1) [unfolded represents_def]
  have wf: "store_wf (S\<lparr>st_solid := m1\<rparr>)" "store_wf (S\<lparr>st_snapshot_index := m2\<rparr>)" "store_wf (S\<lparr>st_milestones := m2\<rparr>)" for m1 m2
    using S(2) by (simp_all add: store_wf_def)
  note defs = storage_step_def store_step_def update_transactions_set_solid_def update_transactions_set_snapshot_index_def
    delete_transactions_def delete_milestones_def
  have "represents ((look db)(TRANSACTION_CF_HASH_TO_SOLID := fold (\<lambda>h m. m(hash_key h := Some [1])) hs (look db TRANSACTION_CF_HASH_TO_SOLID)))
      (S\<lparr>st_solid := fold (\<lambda>h m. m(h := Some ())) hs (st_solid S)\<rparr>)"
    using represents_update(3) [OF S(1)] r holds_fold [OF _ hs, of "\<lambda>_. [1]" "st_solid S" _ "Some ()"] by simp
  from write_simulates [OF law hs _ this wf(1), of "\<lambda>key. BatchPut TRANSACTION_CF_HASH_TO_SOLID key [1]"]
  show "simulates look (storage_step lib (Some db) (SetSolid hs)) (store_step S (SetSolid hs))"
    by (simp add: defs batch_apply_def del: fun_upd_apply)
  have "represents ((look db)(TRANSACTION_CF_HASH_TO_SNAPSHOT_INDEX :=
        fold (\<lambda>h m. m(hash_key h := Some (u32_to_le_bytes i))) hs (look db TRANSACTION_CF_HASH_TO_SNAPSHOT_INDEX)))
      (S\<lparr>st_snapshot_index := fold (\<lambda>h m. m(h := Some i)) hs (st_snapshot_index S)\<rparr>)"
    using represents_update(4) [OF S(1)] r holds_fold [OF _ hs, of u32_to_le_bytes "st_snapshot_index S" _ "Some i"] by simp
  from write_simulates [OF law hs _ this wf(2), of "\<lambda>key. BatchPut TRANSACTION_CF_HASH_TO_SNAPSHOT_INDEX key (u32_to_le_bytes i)"]
  show "simulates look (storage_step lib (Some db) (SetSnapshotIndex hs i)) (store_step S (SetSnapshotIndex hs i))"
    by (simp add: defs batch_apply_def del: fun_upd_apply)
  have "represents ((look db)(TRANSACTION_CF_HASH_TO_TRANSACTION :=
        fold (\<lambda>h m. m(hash_key h := None)) hs (look db TRANSACTION_CF_HASH_TO_TRANSACTION)))
      (S\<lparr>st_transactions := fold (\<lambda>h m. m(h := None)) hs (st_transactions S)\<rparr>)"
    using represents_update(1) [OF S(1)] r holds_fold [OF _ hs, of tx_entry "st_transactions S" _ None] by simp
  from write_simulates [OF law hs _ this store_delete_wf [OF S(2)], of "BatchDelete TRANSACTION_CF_HASH_TO_TRANSACTION"]
  show "simulates look (storage_step lib (Some db) (DeleteTransactions hs)) (store_step S (DeleteTransactions hs))"
    by (simp add: defs batch_apply_def del: fun_upd_apply)
  have "represents ((look db)(MILESTONE_CF_HASH_TO_INDEX :=
        fold (\<lambda>h m. m(hash_key h := None)) hs (look db MILESTONE_CF_HASH_TO_INDEX)))
      (S\<lparr>st_milestones := fold (\<lambda>h m. m(h := None)) hs (st_milestones S)\<rparr>)"
    using represents_update(5) [OF S(1)] r holds_fold [OF _ hs, of u32_to_le_bytes "st_milestones S" _ None] by simp
  from write_simulates [OF law hs _ this wf(3), of "BatchDelete MILESTONE_CF_HASH_TO_INDEX"]
  show "simulates look (storage_step lib (Some db) (DeleteMilestones hs)) (store_step S (DeleteMilestones hs))"
    by (simp add: defs batch_apply_def del: fun_upd_apply)
qed

lemma storage_step_simulates:
  assumes law: "rocksdb_law lib look" and S: "represents (look db) S" "store_wf S" and ok: "op_ok op"
  shows "simulates look (storage_step lib (Some db) op) (store_step S op)"
proof (cases op)
  case (InsertTransaction h tx)
  then show ?thesis
    using insert_simulates [OF law S] ok by (simp add: op_ok_def storage_step_def store_step_def)
next
  case (InsertTransactions txs)
  then show ?thesis
    using insert_batch_simulates [OF law S] ok by (simp add: op_ok_def storage_step_def store_step_def)
next
  case MapExisting
  then show ?thesis
    using approvers_read [OF law S, of "{}"] S
    by (simp add: storage_step_def store_step_def map_existing_transaction_hashes_to_approvers_def existing_loop_eq reply_def simulates_def)
next
  case (MapMissing all_hashes)
  then show ?thesis
    using approvers_read [OF law S, of all_hashes] S
    by (simp add: storage_step_def store_step_def map_missing_transaction_hashes_to_approvers_def reply_def simulates_def)
qed (use ok find_simulates [OF law S] find_milestone_simulates [OF law S] insert_milestone_simulates [OF law S]
  get_simulates [OF law S] set_simulates [OF law S] in \<open>simp_all add: op_ok_def\<close>)

section \<open>Properties\<close>

text \<open>A sequence of operations, up to the first error of the database.\<close>

fun storage_run ::
  "'db rocksdb \<Rightarrow> 'db connection \<Rightarrow> storage_op list \<Rightarrow> (rocks_db_backend_error + storage_reply) list option" where
  "storage_run lib conn [] = Some []"
| "storage_run lib conn (op # ops) = do {
     (conn, r) \<leftarrow> storage_step lib conn op;
     (case r of
        Inl (RocksDBError e) \<Rightarrow> Some [r]
      | _ \<Rightarrow> do { rs \<leftarrow> storage_run lib conn ops; Some (r # rs) }) }"

fun store_run :: "store \<Rightarrow> storage_op list \<Rightarrow> (rocks_db_backend_error + storage_reply) list" where
  "store_run S [] = []"
| "store_run S (op # ops) = snd (store_step S op) # store_run (fst (store_step S op)) ops"

lemma store_step_no_db_error: "snd (store_step S op) \<noteq> Inl (RocksDBError e)"
  by (cases op) (simp_all add: store_step_def split: option.splits)

lemma storage_run_law:
  assumes "rocksdb_law lib look" "represents (look db) S" "store_wf S" "list_all op_ok ops"
  shows "storage_run lib (Some db) ops = Some (store_run S ops)
    \<or> (\<exists>n e. n < length ops \<and> storage_run lib (Some db) ops = Some (take n (store_run S ops) @ [Inl (RocksDBError e)]))"
  using assms(2-4)
proof (induction ops arbitrary: db S)
  case (Cons op ops)
  have "simulates look (storage_step lib (Some db) op) (store_step S op)"
    using storage_step_simulates [OF assms(1)] Cons.prems by simp
  then consider conn e where "storage_step lib (Some db) op = Some (conn, Inl (RocksDBError e))"
    | db' where "storage_step lib (Some db) op = Some (Some db', snd (store_step S op))"
      "represents (look db') (fst (store_step S op))" "store_wf (fst (store_step S op))"
    unfolding simulates_def by blast
  then show ?case
  proof cases
    case 1
    then show ?thesis
      by (auto intro!: exI [of _ 0])
  next
    case (2 db')
    have r: "storage_run lib (Some db) (op # ops) = map_option ((#) (snd (store_step S op))) (storage_run lib (Some db') ops)"
      using 2(1) store_step_no_db_error [of S op]
      by (auto split: sum.splits rocks_db_backend_error.splits bind_splits simp: map_option_case)
    consider "storage_run lib (Some db') ops = Some (store_run (fst (store_step S op)) ops)"
      | n e where "n < length ops" "storage_run lib (Some db') ops = Some (take n (store_run (fst (store_step S op)) ops) @ [Inl (RocksDBError e)])"
      using Cons.IH [OF 2(2,3)] Cons.prems(3) by auto
    then show ?thesis
    proof cases
      case 1
      then show ?thesis
        unfolding r by simp
    next
      case (2 n e)
      then show ?thesis
        unfolding r by (intro disjI2 exI [of _ "Suc n"] exI [of _ e]) simp
    qed
  qed
qed simp

text \<open>
  C16. The backend implements the store of five maps: a sequence of operations, with arguments that are hashes
  and transactions, never panics, and its replies are those of the store, up to the first operation that the
  database itself fails. Batches of transactions are included where every number of a transaction needs at least as
  many trits as that number of the transaction before it; without this restriction the claim is false, since such a
  batch is written into one buffer in which the higher trits of longer numbers stay. In particular a transaction is found as it was inserted until it is deleted, an
  index is read as it was written, and the approvers are those of all transactions that were ever
  inserted: deleting transactions leaves them.
\<close>

theorem storage_refines_store:
  assumes "rocksdb_law lib look" "represents (look db) S" "store_wf S" "list_all op_ok ops"
  shows "storage_run lib (Some db) ops = Some (store_run S ops)
    \<or> (\<exists>n e. n < length ops \<and> storage_run lib (Some db) ops = Some (take n (store_run S ops) @ [Inl (RocksDBError e)]))"
  using assms by (rule storage_run_law)

text \<open>A database in memory, which never fails.\<close>

type_synonym memory_db = "column_family \<Rightarrow> (bytes \<times> bytes) list"

definition memory_apply :: "batch_op \<Rightarrow> memory_db \<Rightarrow> memory_db" where
  "memory_apply op db =
     (case op of
        BatchPut cf k v \<Rightarrow> db(cf := AList.update k v (db cf))
      | BatchDelete cf k \<Rightarrow> db(cf := AList.delete k (db cf)))"

definition memory_db :: "memory_db rocksdb" where
  "memory_db =
     \<lparr>db_open_cf = (\<lambda>_. Inr (\<lambda>_. [])), db_flush = (\<lambda>db. (db, Inr ())),
      db_put_cf = (\<lambda>db cf k v. (memory_apply (BatchPut cf k v) db, Inr ())),
      db_get_cf = (\<lambda>db cf k. Inr (map_of (db cf) k)),
      db_write = (\<lambda>db batch. (fold memory_apply batch db, Inr ())),
      db_iterator_cf = (\<lambda>db cf. AList.clearjunk (db cf))\<rparr>"

definition memory_look :: "memory_db \<Rightarrow> contents" where
  "memory_look db cf = map_of (db cf)"

lemma memory_apply_law: "memory_look (memory_apply op db) = batch_apply op (memory_look db)"
  by (cases op) (auto simp: memory_look_def memory_apply_def batch_apply_def update_conv' delete_conv' fun_eq_iff)

lemma memory_db_law: "rocksdb_law memory_db memory_look"
proof -
  have "memory_look (fold memory_apply batch db) = fold batch_apply batch (memory_look db)" for batch db
    by (induction batch arbitrary: db) (simp_all add: memory_apply_law)
  then show ?thesis
    by (simp add: rocksdb_law_def memory_db_def memory_apply_law distinct_clearjunk) (simp add: memory_look_def map_of_clearjunk)
qed

lemma empty_represented: "represents (memory_look (\<lambda>_. [])) empty_store" "store_wf empty_store"
  by (simp_all add: represents_def memory_look_def empty_store_def holds_def store_wf_def)

definition zero_tx :: transaction where
  "zero_tx = tx_of_segments zero_segments"

lemma zero_tx_law: "tx_wf zero_tx" "tx_timestamp zero_tx = 0"
proof -
  have "bal_val (zero_segments ! 2) = 0" "bal_val (zero_segments ! 4) = 0"
    by (simp_all add: zero_segments_nth)
  then show "tx_wf zero_tx" "tx_timestamp zero_tx = 0"
    using segments_of_read [OF zero_segments_law(1)] by (simp_all add: zero_tx_def IOTA_SUPPLY_def tx_of_segments_def)
qed

lemma hash_zeros_wf: "hash_wf hash_zeros"
  by (simp add: hash_wf_def hash_zeros_def list_all_iff)

lemma number_trits_zero: "number_trits 0 \<le> number_trits (sint (w :: u64))"
proof -
  obtain ts where ts: "trits_from_i64 0 = Some ts" "\<forall>m < length ts. m = 0" "0 < length ts"
    using trits_from_i64_law [of 0] by (auto simp: i64_MIN_def i64_MAX_def)
  then have "length ts = 1"
    by (metis One_nat_def Suc_lessI zero_neq_one)
  moreover obtain us where "trits_from_i64 (sint w) = Some us" "0 < length us"
    using trits_from_i64_law [OF sint_in_i64] by blast
  ultimately show ?thesis
    using ts(1) by (simp add: number_trits_def Suc_le_eq)
qed

lemma memory_ops:
  "put_cf memory_db db cf k v = (Some (memory_apply (BatchPut cf k v) db), Inr ())"
  "write_opt memory_db db batch = (Some (fold memory_apply batch db), Inr ())"
  "get_cf memory_db db cf k = Inr (map_of (db cf) k)"
  by (simp_all add: put_cf_def write_opt_def get_cf_def memory_db_def)

lemma map_sum_Inl_iff: "map_sum id g r = Inl e \<longleftrightarrow> r = Inl e"
  by (cases r) simp_all

lemma memory_get_loop: "get_loop memory_db db cf f hs \<noteq> Some (Inl (RocksDBError e))"
  by (induction hs) (auto simp: memory_ops res_try_def split: bind_splits sum.splits option.splits)

lemma memory_no_error:
  assumes "storage_step memory_db conn op = Some (conn', r)"
  shows "r \<noteq> Inl (RocksDBError e)"
proof
  assume "r = Inl (RocksDBError e)"
  then have "storage_step memory_db conn op = Some (conn', Inl (RocksDBError e))"
    using assms by simp
  then show False
    by (cases op) (auto simp: storage_step_def reply_def reply_unit_def insert_transaction_db_def insert_transactions_db_def
        find_transaction_def update_transactions_set_solid_def update_transactions_set_snapshot_index_def
        get_transactions_solid_state_def get_transactions_snapshot_index_def delete_transactions_def insert_milestone_def
        find_milestone_def delete_milestones_def memory_ops map_sum_Inl_iff memory_get_loop
        split: bind_splits option.splits if_splits)
qed

lemma memory_run_no_error: "storage_run memory_db conn ops = Some rs \<Longrightarrow> Inl (RocksDBError e) \<notin> set rs"
  by (induction memory_db conn ops arbitrary: rs rule: storage_run.induct)
    (auto split: bind_splits sum.splits rocks_db_backend_error.splits dest: memory_no_error)

text \<open>A batch of two transactions.\<close>

theorem storage_refines_store_witness:
  "storage_run memory_db (Some (\<lambda>_. []))
     [InsertTransactions [(hash_zeros, zero_tx), (hash_zeros[0 := 1], zero_tx\<lparr>tx_timestamp := 9\<rparr>)],
      FindTransaction (hash_zeros[0 := 1]), DeleteTransactions [hash_zeros], FindTransaction hash_zeros] =
   Some [Inr Done, Inr (Found (zero_tx\<lparr>tx_timestamp := 9\<rparr>)), Inr Done, Inl TransactionDoesNotExist]"
proof -
  let ?tx = "zero_tx\<lparr>tx_timestamp := 9\<rparr>" and ?h = "hash_zeros[0 := 1]"
  let ?ops = "[InsertTransactions [(hash_zeros, zero_tx), (?h, ?tx)], FindTransaction ?h, DeleteTransactions [hash_zeros], FindTransaction hash_zeros]"
  have tx: "tx_wf ?tx"
    using zero_tx_law(1) by (simp add: tx_wf_def time_fits_def half_range_def)
  have h: "hash_wf ?h" "hash_zeros \<noteq> ?h"
    by (auto simp: hash_wf_def hash_zeros_def list_all_iff dest: set_update_subset_insert [THEN subsetD])
      (metis length_replicate nth_list_update_eq nth_replicate zero_less_numeral zero_neq_one)
  have "overwrites zero_tx ?tx"
    using number_trits_zero [of 9] zero_tx_law(2) by (simp add: overwrites_def tx_numbers_def)
  then have "list_all op_ok ?ops"
    using hash_zeros_wf zero_tx_law(1) tx h(1) by (simp add: op_ok_def)
  moreover have "store_run empty_store ?ops = [Inr Done, Inr (Found ?tx), Inr Done, Inl TransactionDoesNotExist]"
    using h(2) by (simp add: store_step_def store_insert_def empty_store_def)
  ultimately consider "storage_run memory_db (Some (\<lambda>_. [])) ?ops = Some [Inr Done, Inr (Found ?tx), Inr Done, Inl TransactionDoesNotExist]"
    | n e where "storage_run memory_db (Some (\<lambda>_. [])) ?ops = Some (take n [Inr Done, Inr (Found ?tx), Inr Done, Inl TransactionDoesNotExist] @ [Inl (RocksDBError e)])"
    using storage_refines_store [of memory_db memory_look "\<lambda>_. []" empty_store ?ops] memory_db_law empty_represented by auto
  then show ?thesis
  proof cases
    case (2 n e)
    from memory_run_no_error [OF this, of e] show ?thesis
      by simp
  qed
qed

subsection \<open>Batches that leave trits\<close>

lemma write_segment_same:
  assumes "off_start (trit_offset f) = tx_start k" "off_length (trit_offset f) = tx_len k" "k < 15" "tx_segments segs"
  shows "write_field (concat segs) f (segs ! k) = Some (concat segs)"
  using write_segment [OF assms(1-4), of "segs ! k"] tx_segments_nth [OF assms(4,3)] by simp

lemma write_i64_same:
  assumes "off_start (trit_offset f) = tx_start k" "k < 15" "tx_segments segs"
    and "trits_from_i64 v = Some ts" "length ts \<le> tx_len k" "take (length ts) (segs ! k) = ts"
  shows "write_i64 (concat segs) f v = Some (concat segs)"
proof -
  have "t1b1_copy_raw_bytes (concat segs) ts (tx_start k) (length ts) = Some (concat (segs[k := ts @ drop (length ts) (segs ! k)]))"
    using copy_segment [OF assms(3,2), of "length ts" ts] assms(5) by simp
  also have "ts @ drop (length ts) (segs ! k) = segs ! k"
    using assms(6) append_take_drop_id [of "length ts" "segs ! k"] by simp
  finally show ?thesis
    using assms(1,4) by (simp add: write_i64_def)
qed

lemma field_prefix:
  assumes "i64_MIN \<le> v" "v \<le> i64_MAX" "\<bar>v\<bar> \<le> int (half_range n)" "0 < n"
  obtains ts where "trits_from_i64 v = Some ts" "length ts \<le> n" "take (length ts) (field_trits n v) = ts"
  using trits_from_i64_fits [OF assms] by (auto simp: field_trits_def)

lemma zero_prefix:
  assumes "\<bar>v\<bar> \<le> int (half_range 27)" "3 dvd v" "i64_MIN \<le> v" "v \<le> i64_MAX"
  obtains ts where "trits_from_i64 0 = Some ts" "length ts \<le> 27" "take (length ts) (field_trits 27 v) = ts"
proof -
  obtain ts where ts: "trits_from_i64 0 = Some ts" "bal_val ts = 0" "0 < length ts" "\<forall>m < length ts. m = 0"
    using trits_from_i64_law [of 0] by (auto simp: i64_MIN_def i64_MAX_def)
  then have "length ts = 1"
    by (metis One_nat_def Suc_lessI zero_neq_one)
  then obtain t where t: "ts = [t]"
    by (auto simp: length_Suc_conv)
  then have "t = Zero"
    using ts(2) by (cases t) simp_all
  obtain u us where u: "field_trits 27 v = u # us"
    using field_trits_law(1) [OF assms(3,4,1)] by (cases "field_trits 27 v") auto
  have "bal_val (u # us) = v"
    using field_trits_law(2) [OF assms(3,4,1)] u by simp
  then have "3 dvd btrit_into_i8 u"
    using assms(2) by (metis bal_val.simps(2) dvd_add_left_iff dvd_triv_left)
  then have "u = Zero"
    by (cases u) simp_all
  then show ?thesis
    using that [of ts] ts(1) t \<open>t = Zero\<close> u by simp
qed

lemma into_trits_stale:
  assumes wf: "tx_wf tx" and t: "3 dvd sint (tx_timestamp tx)"
  shows "into_trits_allocated (tx\<lparr>tx_timestamp := 0\<rparr>) (concat (segments_of tx)) = Some (concat (segments_of tx))"
proof -
  note s = segments_of_wf [OF wf]
  note w = wf [unfolded tx_wf_def]
  note v = tx_wf_value [OF wf]
  have same: "write_field (concat (segments_of tx)) f (segments_of tx ! k) = Some (concat (segments_of tx))"
    if "off_start (trit_offset f) = tx_start k" "off_length (trit_offset f) = tx_len k" "k < 15" for f k
    using write_segment_same [OF that s] .
  have hash: "write_hash (concat (segments_of tx)) f h = write_field (concat (segments_of tx)) f (hash_trits h)" if "hash_wf h" for f h
    using that by (simp add: write_hash_def hash_as_trits_wf)
  have num: "write_i64 (concat (segments_of tx)) f (sint x) = Some (concat (segments_of tx))"
    if "off_start (trit_offset f) = tx_start k" "k < 15" "tx_len k = 27" "segments_of tx ! k = field_trits 27 (sint x)" "time_fits x" for f k x
    using field_prefix [OF sint_in_i64, of x 27] write_i64_same [OF that(1,2) s] that(3-5) by (auto simp: time_fits_def)
  have val: "write_i64 (concat (segments_of tx)) VALUE (tx_value tx) = Some (concat (segments_of tx))"
    using field_prefix [OF v(2,3,1)] write_i64_same [OF field_starts(3) _ s] by (auto simp: tx_len_values segments_of_def)
  have time: "write_i64 (concat (segments_of tx)) TIMESTAMP 0 = Some (concat (segments_of tx))"
    using zero_prefix [OF _ t sint_in_i64] w write_i64_same [OF field_starts(5) _ s]
    by (auto simp: tx_len_values segments_of_def time_fits_def)
  have nth: "segments_of tx ! 0 = tx_payload tx" "segments_of tx ! 1 = tx_address tx" "segments_of tx ! 3 = tx_obsolete_tag tx"
    "segments_of tx ! 5 = field_trits 27 (sint (tx_index tx))" "segments_of tx ! 6 = field_trits 27 (sint (tx_last_index tx))"
    "segments_of tx ! 7 = hash_trits (tx_bundle tx)" "segments_of tx ! 8 = hash_trits (tx_trunk tx)"
    "segments_of tx ! 9 = hash_trits (tx_branch tx)" "segments_of tx ! 10 = tx_tag tx"
    "segments_of tx ! 11 = field_trits 27 (sint (tx_attachment_ts tx))" "segments_of tx ! 12 = field_trits 27 (sint (tx_attachment_lbts tx))"
    "segments_of tx ! 13 = field_trits 27 (sint (tx_attachment_ubts tx))" "segments_of tx ! 14 = tx_nonce tx"
    by (simp_all add: segments_of_def)
  note fields = same [OF field_starts(1) field_lengths(1), unfolded nth] same [OF field_starts(2) field_lengths(2), unfolded nth]
    same [OF field_starts(4) field_lengths(4), unfolded nth] same [OF field_starts(8) field_lengths(8), unfolded nth]
    same [OF field_starts(9) field_lengths(9), unfolded nth] same [OF field_starts(10) field_lengths(10), unfolded nth]
    same [OF field_starts(11) field_lengths(11), unfolded nth] same [OF field_starts(15) field_lengths(15), unfolded nth]
  note nums = num [OF field_starts(6) _ _ nth(4)] num [OF field_starts(7) _ _ nth(5)] num [OF field_starts(12) _ _ nth(10)]
    num [OF field_starts(13) _ _ nth(11)] num [OF field_starts(14) _ _ nth(12)]
  show ?thesis
    using w by (simp add: into_trits_allocated_def hash fields nums val time tx_len_values)
qed

text \<open>
  C40. Batches of transactions are not stored as they are given. All transactions of a batch are written into one
  buffer, and a number is written with the trits it needs, so the higher trits of the previous
  transaction stay. When a transaction whose timestamp is a multiple of three is followed by the same transaction with
  timestamp zero, the second one is found with the timestamp of the first.
\<close>

theorem insert_transactions_mixes:
  assumes law: "rocksdb_law lib look" and ok: "tx_wf tx" "3 dvd sint (tx_timestamp tx)" "hash_wf h1" "hash_wf h2" "h1 \<noteq> h2"
  shows "\<exists>db' r. insert_transactions_db lib (Some db) [(h1, tx), (h2, tx\<lparr>tx_timestamp := 0\<rparr>)] = Some (Some db', r)
    \<and> (r = Inr () \<longrightarrow> find_transaction lib (Some db') h2 = Some (Inr tx)
        \<or> (\<exists>e. find_transaction lib (Some db') h2 = Some (Inl (RocksDBError e))))"
proof -
  have w: "hash_wf (tx_trunk tx)" "hash_wf (tx_branch tx)"
    using ok(1) unfolding tx_wf_def by blast+
  note enc = hash_key_law(1) [OF ok(3)] hash_key_law(1) [OF ok(4)] tx_entry_law(1,3) [OF ok(1)] approvees_law(1,2) [OF w]
    into_trits_stale [OF ok(1,2)] hash_as_trits_wf [OF w(1)] hash_as_trits_wf [OF w(2)]
  let ?tx = TRANSACTION_CF_HASH_TO_TRANSACTION and ?app = TRANSACTION_CF_HASH_TO_APROVEES
  let ?batch = "[BatchPut ?tx (hash_key h1) (tx_entry tx), BatchPut ?app (hash_key h1) (approvees_entry (tx_trunk tx, tx_branch tx)),
    BatchPut ?tx (hash_key h2) (tx_entry tx), BatchPut ?app (hash_key h2) (approvees_entry (tx_trunk tx, tx_branch tx))]"
  have r: "insert_transactions_db lib (Some db) [(h1, tx), (h2, tx\<lparr>tx_timestamp := 0\<rparr>)] = Some (write_opt lib db ?batch)"
    by (simp add: insert_transactions_db_def t1b1_zeros TRANSACTION_TRIT_LEN_def HASH_TRIT_LEN_def enc Let_def)
  show ?thesis
  proof (cases rule: write_opt_law [OF law, of db ?batch, case_names failed stored])
    case (stored db')
    then have "look db' ?tx (hash_key h2) = Some (tx_entry tx)"
      by (simp add: batch_apply_def)
    then show ?thesis
      unfolding r using stored(1) tx_entry_law(4) [OF ok(1)]
      by (cases rule: get_cf_law [OF law, of db' ?tx "hash_key h2"]) (simp_all add: find_transaction_def enc)
  qed (simp add: r)
qed

theorem insert_transactions_mixes_witness:
  "\<exists>db'. insert_transactions_db memory_db (Some (\<lambda>_. [])) [(hash_zeros, zero_tx\<lparr>tx_timestamp := 9\<rparr>), (hash_zeros[0 := 1], zero_tx)] = Some (Some db', Inr ())
    \<and> find_transaction memory_db (Some db') (hash_zeros[0 := 1]) = Some (Inr (zero_tx\<lparr>tx_timestamp := 9\<rparr>))"
proof -
  let ?tx = "zero_tx\<lparr>tx_timestamp := 9\<rparr>" and ?h = "hash_zeros[0 := 1]"
  have "tx_wf ?tx"
    using zero_tx_law(1) by (simp add: tx_wf_def time_fits_def half_range_def)
  moreover have "hash_wf ?h"
    by (auto simp: hash_wf_def hash_zeros_def list_all_iff dest: set_update_subset_insert [THEN subsetD])
  moreover have "hash_zeros \<noteq> ?h"
    by (metis hash_zeros_def length_replicate nth_list_update_eq nth_replicate zero_less_numeral zero_neq_one)
  moreover have "?tx\<lparr>tx_timestamp := 0\<rparr> = zero_tx"
    using zero_tx_law(2) by simp
  ultimately obtain db' r where r: "insert_transactions_db memory_db (Some (\<lambda>_. [])) [(hash_zeros, ?tx), (?h, zero_tx)] = Some (Some db', r)"
    "r = Inr () \<longrightarrow> find_transaction memory_db (Some db') ?h = Some (Inr ?tx)
        \<or> (\<exists>e. find_transaction memory_db (Some db') ?h = Some (Inl (RocksDBError e)))"
    using insert_transactions_mixes [OF memory_db_law, of ?tx hash_zeros ?h "\<lambda>_. []"] hash_zeros_wf by auto
  moreover have "r = Inr ()"
    using r(1) by (auto simp: insert_transactions_db_def write_opt_def memory_db_def split: bind_splits)
  moreover have "find_transaction memory_db conn h \<noteq> Some (Inl (RocksDBError e))" for conn h e
    by (auto simp: find_transaction_def get_cf_def memory_db_def split: bind_splits option.splits)
  ultimately show ?thesis
    by blast
qed

end
