(* ===== verification/Spec2Isabelle.thy ===== *)
theory Spec2Isabelle
  imports Num_Conversions I384_Constants Ledger Worker_Properties Protocol_Config Pow_Search Node_Events Snapshot Storage
begin

text \<open>
  Verification of bee-p, a node of the IOTA network written in Rust.

  \<^bold>\<open>The program.\<close> A node keeps a graph of transactions, the tangle (src/bee-tangle). Transactions are
  sequences of 8019 balanced trits (src/bee-bundle), stored and sent in packed encodings (src/bee-ternary).
  They are hashed with the sponges CurlP and Kerl (src/bee-crypto), grouped into bundles that are signed with
  Winternitz one-time signatures, and confirmed by milestones that carry a Merkle signature
  (src/bee-signing). The protocol (src/bee-protocol) cuts the byte stream of every peer into messages, checks
  handshakes, and runs workers that receive, request, answer and broadcast transactions, solidify the tangle
  and validate milestones. The ledger (src/bee-ledger) keeps the balances. Below the protocol, the network
  (src/bee-network) keeps the endpoints and their connections; the node (src/bee-node) passes its events on to the
  protocol. A node starts from snapshot files (src/bee-snapshot), can store the tangle in a database
  (src/bee-storage), and finds nonces for its own transactions by search (src/bee-pow).

  \<^bold>\<open>Conventions.\<close> A function of the source is a definition with its name, with a prefix where two crates
  use the same one. A \<open>Result\<close> is a sum, \<open>Inl\<close> the error. A panic (index out of range, failed \<open>unwrap\<close>,
  checked arithmetic that overflows) and undefined behaviour of unsafe code are the outer \<open>None\<close>, so a
  statement \<open>f x = Some y\<close> says that neither happens. Unsigned integers are words of their width; the signed
  integers of the encodings and conversions are \<open>int\<close> with the range checks written out. Overflow panics,
  as in a build with overflow checks; where a release build behaves differently the findings say so. An
  object that is changed in place is passed and returned.

  \<^bold>\<open>Theories and sources.\<close>
  \<^item> \<open>Bee_Prelude\<close>: machine integers, option and list lemmas, values of digit sequences.
  \<^item> \<open>Trit\<close>: trits and trytes (bee-ternary: trit/, tryte.rs).
  \<^item> \<open>Raw_Encoding\<close>, \<open>Packed_Encoding\<close>, \<open>Packed_Buffer\<close>, \<open>Encodings\<close>, \<open>Trit_Slices\<close>: trit slices and
    buffers (lib.rs, raw.rs, t1b1.rs to t5b1.rs). Every encoding implements a sequence of trits, sub-slices
    read and write the trits they cover, any two encodings convert into each other without loss.
  \<^item> \<open>Num_Conversions\<close>: trits and \<open>i64\<close> (num_conversions.rs).
  \<^item> \<open>Bigint_U384\<close>, \<open>Bigint_Ternary\<close>, \<open>Bigint_I384\<close>, \<open>I384_Constants\<close>: 384-bit integers, 242- and 243-trit integers and their
    conversions (bigint/), against the integers they denote.
  \<^item> \<open>Sponge\<close>: CurlP and Kerl (bee-crypto), CurlP against the round function on single trits.
  \<^item> \<open>Wots\<close>, \<open>Normalize\<close>, \<open>Mss\<close>: seeds, Winternitz and Merkle signatures (bee-signing). What is signed
    verifies, for every sponge that satisfies the contract.
  \<^item> \<open>Transactions\<close>, \<open>Bundles\<close>: the layout of transactions and their builder, outgoing and incoming bundles
    (bee-bundle). Trits and transactions determine each other; a sealed bundle has a hash whose
    normalisation is free of the value 13; a signed bundle verifies; the ledger difference of a bundle.
  \<^item> \<open>Tangle\<close>, \<open>Solidification\<close>, \<open>Tangle_Walks\<close>: the tangle, the solidifier and the walks (bee-tangle).
    Insertions and solidifier runs interleave: the relation \<open>node_step\<close> has a step for each, and any number of
    insertions may be under way, of new transactions and of known ones. In every reachable node flags are only set on
    transactions whose past is complete. Where no transaction is inserted a second time, which clears its flag, a
    run of the solidifier reaches everything that can be reached.
  \<^item> \<open>Messages\<close>, \<open>Peer_Worker\<close>, \<open>Tiny_Hash_Cache\<close>: messages, handshakes, the byte-stream state machine, the
    peer manager, and the cache of received transactions (bee-protocol: message/, worker/peer/, peer/,
    worker/transaction/tiny_hash_cache.rs).
  \<^item> \<open>Milestones\<close>: milestone builder and validation worker (milestone/, worker/milestone_validator.rs).
  \<^item> \<open>Wire_Trits\<close>, \<open>Protocol_Workers\<close>, \<open>Transaction_Worker\<close>, \<open>Worker_Properties\<close>: the workers around the tangle
    (worker/, protocol/helpers.rs, util/) over one shared state, each the function of one event of its loop;
    what a requester asks for and a responder answers arrives in the tangle of the asking node.
  \<^item> \<open>Protocol_Config\<close>: the configuration (config/config.rs).
  \<^item> \<open>Ledger\<close>: the ledger worker (bee-ledger), with the conservation of the supply by bundles.
  \<^item> \<open>Pearl_Diver\<close>, \<open>Pow_Search\<close>: the search for nonces (bee-pow). The state holds 64 candidates bit by bit; in
    each of them the transformation computes CurlP. The relation \<open>search_step\<close> has a step for every read and write
    of the state that the threads, the caller and a cancellation share.
  \<^item> \<open>Network_Endpoints\<close>, \<open>Node_Events\<close>: endpoints, connections, outbox and whitelist with the endpoint worker
    (bee-network), and the event loop of the node (bee-node). The relation \<open>network_step\<close> interleaves commands,
    events, incoming connections and delayed events; the whitelist is the set of known endpoints in every
    reachable state, and a connected peer gets its bytes in order until its worker ends.
  \<^item> \<open>Snapshot\<close>: snapshot files and the start of a node from them (bee-snapshot, \<open>init\<close> of bee-node). Files are read
    back as they were written, cut-off files are not accepted, and the ledger starts with the supply at most.
  \<^item> \<open>Storage\<close>: the RocksDB backend (bee-storage). It implements a store of five maps, over any database
    that behaves as documented; the exception that is proved are batches in which a transaction does not
    overwrite the one before it completely.

  \<^bold>\<open>Interfaces.\<close> \<open>trit_buffer\<close> is the contract of a buffer of trits, from which follow the laws of all
  generic operations; \<open>packed_codec\<close> asks only for the laws of one byte and gives \<open>trit_buffer\<close> as a
  sublocale; \<open>balanced_byte\<close> gives the byte laws from the arithmetic; \<open>trit_buffer_pair\<close> relates two
  encodings. \<open>fixed_width\<close> is arithmetic modulo a power of two, interpreted in both byte orders. \<open>message\<close> is
  what a message type promises to the framing. \<open>sponge_law\<close> describes a sponge by its absorbed view,
  \<open>ots_law\<close> a one-time signature scheme, and \<open>mss_law\<close> combines the two for Merkle trees. All of them are
  interpreted on the definitions of the model.

  \<^bold>\<open>Loops and termination.\<close> Loops are structural recursion or \<open>function\<close> with a termination proof: the
  walk over approvees ends because every turn visits a new vertex, the propagation of solidity because the
  graph is finite. No fuel is used except for counters that the source has. Four loops
  may run forever in the source and are \<open>partial_function (option)\<close>: the search for a bundle hash, and three
  walks that loop on a cyclic graph. That they return is proved where it holds: the walks on every graph whose
  parents are acyclic. For the search it cannot be proved without assumptions on the hash function.

  \<^bold>\<open>Parameters.\<close> Code outside the repository is an argument: the xxHash function of the cache, the Keccak
  permutation of Kerl, the clock, the random choice of a peer, the number of cores, the outcome of a connection
  attempt, the parser of URLs, opening a file, the log level and the calendar of the log messages, the RocksDB database and the
  bincode serialiser. The iteration order of hash maps is the
  order of a list, over which the theorems quantify.

  \<^bold>\<open>Not modelled.\<close> Serialisation frameworks (src/bee-ternary/src/serde.rs), \<open>Display\<close> and logging; start-up and
  shutdown of the workers and the global instances behind raw pointers (init and shutdown of
  bee-protocol/src/protocol/protocol.rs, bee-tangle/src/lib.rs), which only create channels and tasks; the status
  worker, which logs floating point percentages; sockets and the tasks that read and write them
  (bee-network/src/tcp); the SQL backend of bee-storage, whose statements are executed by a database server;
  bee-signing/src/ed25519.rs, which is not compiled; the iterator adaptors of bee-ternary/src/lib.rs; the crates
  bee-api, bee-peering, bee-common and bee-test, which hold glue and test helpers. Channels never lose or
  reorder messages and the wait for room in a bounded channel is not observed. Within one event a worker
  runs without interleaving: interleaved are the insertions into the tangle with the solidifier, the threads of a
  search, and the events of the network.
\<close>

end
